(* ===== verification/Prelude.thy ===== *)
theory Prelude
  imports "HOL-Library.Word"
begin

unbundle bit_operations_syntax

section \<open>Shared vocabulary of the kernel model\<close>

text \<open>
  What every component of the model uses: the machine types, the result type that makes each
  way a C statement can go wrong a value, its sequencing operator, and the generic lemmas on
  words, address ranges and maps that carry the component proofs.
\<close>

type_synonym u8 = "8 word"
type_synonym u16 = "16 word"
type_synonym u32 = "32 word"
type_synonym u64 = "64 word"
type_synonym addr = "64 word"

abbreviation NULL :: addr where "NULL \<equiv> 0"

text \<open>
  The ways a run of kernel code can fail to continue. \<open>Null_Deref\<close> and \<open>Wild_Access\<close> are
  accesses through NULL and through an address that holds no object of the expected kind,
  \<open>Out_Of_Bounds\<close> is an access past the end of an array, \<open>Overflow\<close> a signed overflow,
  \<open>Halted\<close> a call of \<open>hcf\<close>, \<open>Deadlock\<close> an acquire of a lock this CPU already holds,
  \<open>Diverges\<close> a loop that cannot end, \<open>Bad_Vararg\<close> a missing or mistyped variadic argument
  and \<open>No_Return\<close> the end of a value-returning function without a return statement.
\<close>

datatype fault =
    Null_Deref | Wild_Access | Out_Of_Bounds | Overflow | Div_By_Zero
  | Halted | Deadlock | Diverges | Bad_Vararg | No_Return

datatype 'a result = Ok 'a | Fault fault

primrec bnd :: "'a result \<Rightarrow> ('a \<Rightarrow> 'b result) \<Rightarrow> 'b result" where
  "bnd (Ok x) f = f x"
| "bnd (Fault e) f = Fault e"

primrec is_Ok :: "'a result \<Rightarrow> bool" where
  "is_Ok (Ok x) = True"
| "is_Ok (Fault e) = False"

named_theorems result_simps \<open>inversion of sequenced results\<close>
named_theorems addr_simps \<open>address arithmetic\<close>

lemma bnd_eq_Ok [result_simps]: "bnd r f = Ok y \<longleftrightarrow> (\<exists>x. r = Ok x \<and> f x = Ok y)"
  by (cases r) auto

lemma bnd_eq_Fault [result_simps]:
  "bnd r f = Fault e \<longleftrightarrow> r = Fault e \<or> (\<exists>x. r = Ok x \<and> f x = Fault e)"
  by (cases r) auto

lemma Ok_eq_bnd [result_simps]: "Ok y = bnd r f \<longleftrightarrow> (\<exists>x. r = Ok x \<and> f x = Ok y)"
  by (cases r) auto

lemma is_Ok_iff: "is_Ok r \<longleftrightarrow> (\<exists>x. r = Ok x)"
  by (cases r) auto

lemma is_Ok_bnd: "is_Ok (bnd r f) \<longleftrightarrow> (\<exists>x. r = Ok x \<and> is_Ok (f x))"
  by (cases r) auto

lemma bnd_assoc: "bnd (bnd r f) g = bnd r (\<lambda>x. bnd (f x) g)"
  by (cases r) auto

lemma bnd_Ok_right [simp]: "bnd r Ok = r"
  by (cases r) auto

lemma bnd_cong [fundef_cong]:
  "r = r' \<Longrightarrow> (\<And>x. r' = Ok x \<Longrightarrow> f x = g x) \<Longrightarrow> bnd r f = bnd r' g"
  by (cases r') auto

lemma bnd_split:
  "P (bnd r f) \<longleftrightarrow> (\<forall>x. r = Ok x \<longrightarrow> P (f x)) \<and> (\<forall>e. r = Fault e \<longrightarrow> P (Fault e))"
  by (cases r) auto

text \<open>A C \<open>int\<close>: signed overflow is a fault.\<close>

definition cint :: "int \<Rightarrow> int result" where
  "cint x = (if - (2 ^ 31) \<le> x \<and> x < 2 ^ 31 then Ok x else Fault Overflow)"

lemma cint_Ok [simp]: "- (2 ^ 31) \<le> x \<Longrightarrow> x < 2 ^ 31 \<Longrightarrow> cint x = Ok x"
  by (simp add: cint_def)

lemma cint_nat: "n < 2 ^ 31 \<Longrightarrow> cint (int n) = Ok (int n)"
  by (simp add: cint_def)

text \<open>Reading an object through a pointer: NULL and dangling pointers fault.\<close>

definition fetch :: "(addr \<rightharpoonup> 'a) \<Rightarrow> addr \<Rightarrow> 'a result" where
  "fetch h p = (if p = NULL then Fault Null_Deref
                else case h p of None \<Rightarrow> Fault Wild_Access | Some x \<Rightarrow> Ok x)"

lemma fetch_eq_Ok [result_simps]: "fetch h p = Ok x \<longleftrightarrow> p \<noteq> NULL \<and> h p = Some x"
  by (auto simp: fetch_def split: option.splits)

lemma fetch_Some [simp]: "p \<noteq> NULL \<Longrightarrow> h p = Some x \<Longrightarrow> fetch h p = Ok x"
  by (simp add: fetch_def)

lemma fetch_NULL [simp]: "fetch h NULL = Fault Null_Deref"
  by (simp add: fetch_def)

section \<open>Words and address ranges\<close>

text \<open>The offset of an address in a range, read as a natural number.\<close>

lemma unat_offset [addr_simps]: "n < 2 ^ 64 \<Longrightarrow> unat (of_nat n :: addr) = n"
  by (simp add: unat_of_nat)

lemma unat_offset_diff [addr_simps]:
  fixes d :: addr
  assumes "n < 2 ^ 64"
  shows "unat ((d + of_nat n) - d) = n"
  using assms by (simp add: unat_of_nat)

lemma offset_of_diff: "(d::addr) + of_nat (unat (a - d)) = a"
  by simp

lemma of_nat_addr_eq:
  "i < 2 ^ 64 \<Longrightarrow> j < 2 ^ 64 \<Longrightarrow> (of_nat i :: addr) = of_nat j \<longleftrightarrow> i = j"
  by (metis unat_offset)

lemma unat_add_diff:
  fixes a d :: addr
  assumes "unat (a - d) + unat d < 2 ^ 64"
  shows "unat a = unat (a - d) + unat d"
proof -
  have "unat a = unat ((a - d) + d)" by simp
  also have "\<dots> = (unat (a - d) + unat d) mod 2 ^ 64"
    by (simp only: unat_word_ariths) simp
  finally show ?thesis using assms by simp
qed

lemma offset_eq_iff:
  fixes d :: addr
  assumes "i < 2 ^ 64" and "j < 2 ^ 64"
  shows "d + of_nat i = d + of_nat j \<longleftrightarrow> i = j"
  using assms by (metis add_left_cancel unat_offset)

lemma unat_diff_Suc:
  fixes a d :: addr
  assumes "a \<noteq> d"
  shows "unat (a - d) = Suc (unat (a - (d + 1)))"
proof -
  have "unat (a - d - 1) = unat (a - d) - 1"
    using assms by (intro unat_minus_one) simp
  moreover have "a - d - 1 = a - (d + 1)" by simp
  moreover have "0 < unat (a - d)"
    using assms by (simp add: unat_gt_0)
  ultimately show ?thesis by simp
qed

lemma range_split_first:
  fixes a d :: addr
  shows "unat (a - d) < Suc n \<longleftrightarrow> a = d \<or> (a \<noteq> d \<and> unat (a - (d + 1)) < n)"
  by (cases "a = d") (simp_all add: unat_diff_Suc)

end
