(* ===== verification/CString.thy ===== *)
theory CString
  imports Prelude
begin

section \<open>libk/string.c: memory and string routines\<close>

text \<open>
  Byte memory is a partial map from addresses to bytes: an address outside its domain is not
  mapped, and an access to it faults. The loops of the source are recursions over the remaining
  count, or over the index where the loop has no count; the index of \<open>strlen\<close> is a C
  \<open>int\<close>, so it faults where that would overflow. C strings are byte lists, laid out by
  \<open>cstr\<close> with their terminating NUL.
\<close>

type_synonym mem = "addr \<rightharpoonup> u8"

definition load :: "mem \<Rightarrow> addr \<Rightarrow> u8 result" where
  "load m a = (case m a of None \<Rightarrow> Fault Wild_Access | Some b \<Rightarrow> Ok b)"

definition store :: "mem \<Rightarrow> addr \<Rightarrow> u8 \<Rightarrow> mem result" where
  "store m a b = (case m a of None \<Rightarrow> Fault Wild_Access | Some _ \<Rightarrow> Ok (m(a \<mapsto> b)))"

subsection \<open>memcpy, memset, memmove\<close>

fun memcpy_loop :: "mem \<Rightarrow> addr \<Rightarrow> addr \<Rightarrow> nat \<Rightarrow> mem result" where
  "memcpy_loop m d s 0 = Ok m"
| "memcpy_loop m d s (Suc n) =
     bnd (load m s) (\<lambda>b. bnd (store m d b) (\<lambda>m'. memcpy_loop m' (d + 1) (s + 1) n))"

definition memcpy :: "mem \<Rightarrow> addr \<Rightarrow> addr \<Rightarrow> u64 \<Rightarrow> (addr \<times> mem) result" where
  "memcpy m dest src count =
     bnd (memcpy_loop m dest src (unat count)) (\<lambda>m'. Ok (dest, m'))"

definition memset_pattern :: "u32 \<Rightarrow> u64" where
  "memset_pattern c =
     (let p = ucast (ucast c :: u8);
          p = p OR push_bit 8 p;
          p = p OR push_bit 16 p
      in p OR push_bit 32 p)"

text \<open>A 64-bit store writes eight bytes, the least significant one first.\<close>

fun store_bytes :: "mem \<Rightarrow> addr \<Rightarrow> u64 \<Rightarrow> nat \<Rightarrow> mem result" where
  "store_bytes m a w 0 = Ok m"
| "store_bytes m a w (Suc n) =
     bnd (store m a (ucast w)) (\<lambda>m'. store_bytes m' (a + 1) (drop_bit 8 w) n)"

fun memset_qloop :: "mem \<Rightarrow> addr \<Rightarrow> u64 \<Rightarrow> nat \<Rightarrow> (mem \<times> nat) result" where
  "memset_qloop m q pat count =
     (if 8 \<le> count
      then bnd (store_bytes m q pat 8) (\<lambda>m'. memset_qloop m' (q + 8) pat (count - 8))
      else Ok (m, count))"

declare memset_qloop.simps [simp del]

fun memset_bloop :: "mem \<Rightarrow> addr \<Rightarrow> u8 \<Rightarrow> nat \<Rightarrow> mem result" where
  "memset_bloop m p c 0 = Ok m"
| "memset_bloop m p c (Suc n) = bnd (store m p c) (\<lambda>m'. memset_bloop m' (p + 1) c n)"

text \<open>
  Both pointers of the source start at \<open>dest\<close>: the byte loop writes the remainder of the
  count there, and not behind the words the first loop wrote.
\<close>

definition memset :: "mem \<Rightarrow> addr \<Rightarrow> u32 \<Rightarrow> u64 \<Rightarrow> (addr \<times> mem) result" where
  "memset m dest c count =
     bnd (memset_qloop m dest (memset_pattern c) (unat count)) (\<lambda>(m', rest).
     bnd (memset_bloop m' dest (ucast c) rest) (\<lambda>m''.
     Ok (dest, m'')))"

fun memmove_down :: "mem \<Rightarrow> addr \<Rightarrow> addr \<Rightarrow> nat \<Rightarrow> mem result" where
  "memmove_down m d s 0 = Ok m"
| "memmove_down m d s (Suc n) =
     bnd (load m (s + of_nat n)) (\<lambda>b.
     bnd (store m (d + of_nat n) b) (\<lambda>m'. memmove_down m' d s n))"

definition memmove :: "mem \<Rightarrow> addr \<Rightarrow> addr \<Rightarrow> u64 \<Rightarrow> (addr \<times> mem) result" where
  "memmove m dst src n =
     bnd (if dst < src then memcpy_loop m dst src (unat n)
          else memmove_down m dst src (unat n)) (\<lambda>m'. Ok (dst, m'))"

subsection \<open>String comparison, length, copy\<close>

definition schar :: "u8 \<Rightarrow> int" where
  "schar b = sint b"

definition uchar :: "u8 \<Rightarrow> int" where
  "uchar b = uint b"

text \<open>The loop index of the source is the number of iterations still to do, from \<open>i\<close> up to \<open>n\<close>.\<close>

fun strncmp_loop :: "mem \<Rightarrow> addr \<Rightarrow> addr \<Rightarrow> nat \<Rightarrow> int result" where
  "strncmp_loop m p q 0 = Ok 0"
| "strncmp_loop m p q (Suc n) =
     bnd (load m p) (\<lambda>c1. bnd (load m q) (\<lambda>c2.
       if c1 \<noteq> c2 then Ok (uchar c1 - uchar c2)
       else if c1 = 0 then Ok 0
       else strncmp_loop m (p + 1) (q + 1) n))"

definition strncmp :: "mem \<Rightarrow> addr \<Rightarrow> addr \<Rightarrow> int \<Rightarrow> int result" where
  "strncmp m str1 str2 n = strncmp_loop m str1 str2 (nat n)"

function strlen_loop :: "mem \<Rightarrow> addr \<Rightarrow> nat \<Rightarrow> nat result" where
  "strlen_loop m str i =
     bnd (load m (str + of_nat i)) (\<lambda>b.
       if b = 0 then Ok i
       else if 2 ^ 31 \<le> Suc i then Fault Overflow
       else strlen_loop m str (Suc i))"
  by pat_completeness auto
termination
  by (relation "measure (\<lambda>(m, str, i). 2 ^ 31 - i)") auto

declare strlen_loop.simps [simp del]

definition strlen :: "mem \<Rightarrow> addr \<Rightarrow> nat result" where
  "strlen m str = strlen_loop m str 0"

text \<open>
  \<open>strcmp\<close> advances both pointers until the bytes differ or the first string ends. It has
  walked the whole address space after \<open>2^64\<close> steps and then repeats itself for ever.
\<close>

function strcmp_loop :: "mem \<Rightarrow> addr \<Rightarrow> addr \<Rightarrow> nat \<Rightarrow> int result" where
  "strcmp_loop m str1 str2 i =
     (if 2 ^ 64 \<le> i then Fault Diverges else
      bnd (load m (str1 + of_nat i)) (\<lambda>c1. bnd (load m (str2 + of_nat i)) (\<lambda>c2.
        if c1 \<noteq> 0 \<and> c1 = c2 then strcmp_loop m str1 str2 (Suc i)
        else Ok (uchar c1 - uchar c2))))"
  by pat_completeness auto
termination
  by (relation "measure (\<lambda>(m, str1, str2, i). 2 ^ 64 - i)") auto

declare strcmp_loop.simps [simp del]

definition strcmp :: "mem \<Rightarrow> addr \<Rightarrow> addr \<Rightarrow> int result" where
  "strcmp m str1 str2 = strcmp_loop m str1 str2 0"

fun memcmp_loop :: "mem \<Rightarrow> addr \<Rightarrow> addr \<Rightarrow> nat \<Rightarrow> int result" where
  "memcmp_loop m p q 0 = Ok 0"
| "memcmp_loop m p q (Suc n) =
     bnd (load m p) (\<lambda>c1. bnd (load m q) (\<lambda>c2.
       if schar c1 < schar c2 then Ok (- 1)
       else if schar c1 > schar c2 then Ok 1
       else memcmp_loop m (p + 1) (q + 1) n))"

definition memcmp :: "mem \<Rightarrow> addr \<Rightarrow> addr \<Rightarrow> int \<Rightarrow> int result" where
  "memcmp m str1 str2 n = memcmp_loop m str1 str2 (nat n)"

definition strcpy :: "mem \<Rightarrow> addr \<Rightarrow> addr \<Rightarrow> (nat \<times> mem) result" where
  "strcpy m str1 str2 =
     bnd (strlen m str2) (\<lambda>len.
     bnd (memcpy m str1 str2 (of_nat len)) (\<lambda>(_, m').
     bnd (store m' (str1 + of_nat len) 0) (\<lambda>m''. Ok (len, m''))))"

text \<open>A number of \<open>n\<close> bytes, the lowest first.\<close>

fun load_le :: "mem \<Rightarrow> addr \<Rightarrow> nat \<Rightarrow> u64 result" where
  "load_le m a 0 = Ok 0"
| "load_le m a (Suc n) = bnd (load m a) (\<lambda>b. bnd (load_le m (a + 1) n) (\<lambda>w. Ok (ucast b OR push_bit 8 w)))"

text \<open>
  \<open>strdup\<close> over an allocator: \<open>km m n\<close> is the memory after \<open>kmalloc(n)\<close> and the
  address it returned. The request is \<open>strlen(str)\<close>, without the byte for the NUL.
\<close>

definition strdup :: "(mem \<Rightarrow> nat \<Rightarrow> addr \<times> mem) \<Rightarrow> mem \<Rightarrow> addr \<Rightarrow> (addr \<times> mem) result" where
  "strdup km m str =
     bnd (strlen m str) (\<lambda>len.
       let (new, m') = km m len in
       bnd (strcpy m' new str) (\<lambda>(_, m''). Ok (new, m'')))"

section \<open>What the memory routines compute\<close>

definition mapped :: "mem \<Rightarrow> addr \<Rightarrow> nat \<Rightarrow> bool" where
  "mapped m d n \<longleftrightarrow> (\<forall>a. unat (a - d) < n \<longrightarrow> m a \<noteq> None)"

definition copy_range :: "mem \<Rightarrow> addr \<Rightarrow> addr \<Rightarrow> nat \<Rightarrow> mem" where
  "copy_range m d s n = (\<lambda>a. if unat (a - d) < n then m (s + (a - d)) else m a)"

definition fill_range :: "mem \<Rightarrow> addr \<Rightarrow> nat \<Rightarrow> u8 \<Rightarrow> mem" where
  "fill_range m d n c = (\<lambda>a. if unat (a - d) < n then Some c else m a)"

lemma mapped_0 [simp]: "mapped m d 0"
  by (simp add: mapped_def)

lemma mapped_Suc: "mapped m d (Suc n) \<Longrightarrow> m d \<noteq> None \<and> mapped m (d + 1) n"
  unfolding mapped_def by (metis range_split_first)

lemma mapped_upd: "mapped m d n \<Longrightarrow> mapped (m(a \<mapsto> b)) d n"
  by (simp add: mapped_def)

lemma mapped_fill [simp]: "mapped m d n \<Longrightarrow> mapped (fill_range m a k c) d n"
  by (simp add: mapped_def fill_range_def)

lemma mapped_mono: "mapped m d n \<Longrightarrow> k \<le> n \<Longrightarrow> mapped m d k"
  by (simp add: mapped_def)

lemma not_in_range_below:
  fixes d :: addr
  assumes "Suc n \<le> 2 ^ 64"
  shows "\<not> unat (d - (d + 1)) < n"
proof -
  have "d - (d + 1) = (- 1 :: addr)" by simp
  then have "unat (d - (d + 1)) = 2 ^ 64 - 1"
    by (simp add: unsigned_minus_1_eq_mask mask_eq_exp_minus_1)
  with assms show ?thesis by simp
qed

lemma memcpy_loop_copies:
  assumes "n \<le> 2 ^ 64" and "mapped m s n" and "mapped m d n"
    and "d = s \<or> n \<le> unat (d - s)"
  shows "memcpy_loop m d s n = Ok (copy_range m d s n)"
  using assms
proof (induction n arbitrary: m d s)
  case 0
  then show ?case by (simp add: copy_range_def)
next
  case (Suc n)
  from Suc.prems mapped_Suc obtain b where b: "m s = Some b" by blast
  from Suc.prems mapped_Suc obtain c where c: "m d = Some c" by blast
  let ?m = "m(d \<mapsto> b)"
  have "memcpy_loop ?m (d + 1) (s + 1) n = Ok (copy_range ?m (d + 1) (s + 1) n)"
  proof (rule Suc.IH)
    show "mapped ?m (s + 1) n" "mapped ?m (d + 1) n"
      using Suc.prems mapped_Suc mapped_upd by blast+
  qed (use Suc.prems in auto)
  moreover have "copy_range ?m (d + 1) (s + 1) n = copy_range m d s (Suc n)"
  proof
    fix a
    show "copy_range ?m (d + 1) (s + 1) n a = copy_range m d s (Suc n) a"
    proof (cases "a = d")
      case True
      with b Suc.prems(1) show ?thesis
        using not_in_range_below[of n d] by (simp add: copy_range_def)
    next
      case False
      have "s + (a - d) = d \<Longrightarrow> unat (a - d) < Suc n \<Longrightarrow> False"
      proof -
        assume "s + (a - d) = d" and lt: "unat (a - d) < Suc n"
        then have "a - d = d - s" by (simp add: algebra_simps)
        with lt Suc.prems(4) False show False by auto
      qed
      with False show ?thesis
        by (auto simp: copy_range_def range_split_first[of a d] algebra_simps)
    qed
  qed
  ultimately show ?case using b c by (simp add: load_def store_def)
qed

lemma memmove_down_copies:
  assumes "n \<le> 2 ^ 64" and "mapped m s n" and "mapped m d n"
    and "s = d \<or> n \<le> unat (s - d)"
  shows "memmove_down m d s n = Ok (copy_range m d s n)"
  using assms
proof (induction n arbitrary: m)
  case 0
  then show ?case by (simp add: copy_range_def)
next
  case (Suc n)
  have n: "unat (of_nat n :: addr) = n" using Suc.prems(1) by (simp add: unat_of_nat)
  from Suc.prems n obtain b where b: "m (s + of_nat n) = Some b"
    by (auto simp: mapped_def dest: spec[of _ "s + of_nat n"])
  from Suc.prems n obtain c where c: "m (d + of_nat n) = Some c"
    by (auto simp: mapped_def dest: spec[of _ "d + of_nat n"])
  let ?m = "m(d + of_nat n \<mapsto> b)"
  have "memmove_down ?m d s n = Ok (copy_range ?m d s n)"
    using Suc.prems by (intro Suc.IH) (auto simp: mapped_def)
  moreover have "copy_range ?m d s n = copy_range m d s (Suc n)"
  proof
    fix a
    have last: "unat (a - d) = n \<longleftrightarrow> a = d + of_nat n"
      using n by (metis add_diff_cancel_left' offset_of_diff)
    have "s + (a - d) = d + of_nat n \<Longrightarrow> unat (a - d) < n \<Longrightarrow> False"
    proof -
      assume eq: "s + (a - d) = d + of_nat n" and lt: "unat (a - d) < n"
      then have *: "s - d = of_nat n - (a - d)" by (simp add: algebra_simps)
      have "unat (of_nat n - (a - d)) = n - unat (a - d)"
        using lt n by (metis less_imp_le unat_sub word_le_nat_alt)
      with * have "unat (s - d) = n - unat (a - d)" by (simp only:)
      with lt Suc.prems(4) show False by auto
    qed
    with b last show "copy_range ?m d s n a = copy_range m d s (Suc n) a"
      by (auto simp: copy_range_def less_Suc_eq)
  qed
  ultimately show ?case using b c by (simp add: load_def store_def)
qed

lemma diff_ge_if_below:
  fixes x y :: addr
  assumes "x < y" and "unat y + n \<le> 2 ^ 64"
  shows "n \<le> unat (x - y)"
proof -
  have "unat (x - y) = 2 ^ 64 + unat x - unat y"
    using assms(1) by (simp add: unat_sub_if' word_less_nat_alt)
  then show ?thesis using assms(2) by simp
qed

subsection \<open>memset\<close>

lemma store_bytes_fill:
  assumes "mapped m a n" and "n \<le> 8"
    and "\<forall>i<n. ucast (drop_bit (8 * i) w) = (c::u8)"
  shows "store_bytes m a w n = Ok (fill_range m a n c)"
  using assms
proof (induction n arbitrary: m a w)
  case 0
  then show ?case by (simp add: fill_range_def)
next
  case (Suc n)
  from Suc.prems(3) have w0: "ucast w = c" by (auto dest: spec[of _ 0])
  have w: "\<forall>i<n. ucast (drop_bit (8 * i) (drop_bit 8 w)) = c"
  proof (intro allI impI)
    fix i assume "i < n"
    with Suc.prems(3)[rule_format, of "Suc i"]
    show "ucast (drop_bit (8 * i) (drop_bit 8 w)) = c" by (simp add: add.commute)
  qed
  from Suc.prems(1) mapped_Suc obtain b where b: "m a = Some b" by blast
  have mp: "mapped (m(a \<mapsto> c)) (a + 1) n"
    using Suc.prems(1) mapped_Suc mapped_upd by blast
  have "store_bytes (m(a \<mapsto> c)) (a + 1) (drop_bit 8 w) n
        = Ok (fill_range (m(a \<mapsto> c)) (a + 1) n c)"
    by (rule Suc.IH[OF mp _ w]) (use Suc.prems(2) in simp)
  moreover have "fill_range (m(a \<mapsto> c)) (a + 1) n c = fill_range m a (Suc n) c"
    by (auto simp: fill_range_def range_split_first[of _ a] fun_eq_iff)
  ultimately show ?case using b w0 by (simp add: store_def)
qed

text \<open>Each doubling step of the pattern repeats the byte over twice as many bits.\<close>

lemma pattern_step:
  fixes p :: u64
  assumes "\<And>k. bit p k \<longleftrightarrow> k < n \<and> bit (c::u8) (k mod 8)" and "8 dvd n" and "2 * n \<le> 64"
  shows "bit (p OR push_bit n p) k \<longleftrightarrow> k < 2 * n \<and> bit c (k mod 8)"
proof -
  have sub: "(k - n) mod 8 = k mod 8" if "n \<le> k"
  proof -
    from assms(2) obtain j where "n = 8 * j" by (elim dvdE)
    moreover from that obtain r where "k = n + r" by (rule less_eqE)
    ultimately show ?thesis by simp
  qed
  show ?thesis
  proof (cases "n \<le> k")
    case True
    then have "bit (p OR push_bit n p) k \<longleftrightarrow> bit p k \<or> k < 64 \<and> bit p (k - n)"
      by (simp add: bit_or_iff bit_push_bit_iff)
    then show ?thesis
      using True sub[OF True] assms(1)[of k] assms(1)[of "k - n"] assms(3) by auto
  next
    case False
    then show ?thesis using assms(1,3) by (auto simp: bit_or_iff bit_push_bit_iff)
  qed
qed

lemma memset_pattern_bit: "bit (memset_pattern c) k \<longleftrightarrow> k < 64 \<and> bit (ucast c :: u8) (k mod 8)"
proof -
  let ?c = "ucast c :: u8"
  let ?p0 = "ucast ?c :: u64"
  have p0: "bit ?p0 k \<longleftrightarrow> k < 8 \<and> bit ?c (k mod 8)" for k
    using bit_imp_le_length[of ?c k] by (auto simp: bit_unsigned_iff)
  let ?p1 = "?p0 OR push_bit 8 ?p0"
  let ?p2 = "?p1 OR push_bit 16 ?p1"
  let ?p3 = "?p2 OR push_bit 32 ?p2"
  have p1: "bit ?p1 k \<longleftrightarrow> k < 16 \<and> bit ?c (k mod 8)" for k
    using pattern_step[of ?p0 8 ?c k] p0 by simp
  have p2: "bit ?p2 k \<longleftrightarrow> k < 32 \<and> bit ?c (k mod 8)" for k
    using pattern_step[of ?p1 16 ?c k] p1 by simp
  have "bit ?p3 k \<longleftrightarrow> k < 64 \<and> bit ?c (k mod 8)"
    using pattern_step[of ?p2 32 ?c k] p2 by simp
  then show ?thesis by (simp only: memset_pattern_def Let_def)
qed

lemma memset_pattern_bytes:
  assumes "i < 8"
  shows "ucast (drop_bit (8 * i) (memset_pattern c)) = (ucast c :: u8)"
proof (rule bit_word_eqI)
  fix j assume "j < LENGTH(8)"
  then have "j < 8" by simp
  with assms show "bit (ucast (drop_bit (8 * i) (memset_pattern c)) :: u8) j = bit (ucast c :: u8) j"
    by (simp add: bit_unsigned_iff bit_drop_bit_eq memset_pattern_bit)
qed

lemma fill_range_0 [simp]: "fill_range m d 0 c = m"
  by (simp add: fill_range_def)

lemma range_append:
  fixes a d :: addr
  assumes "i + j \<le> 2 ^ 64"
  shows "unat (a - d) < i + j \<longleftrightarrow> unat (a - d) < i \<or> unat (a - (d + of_nat i)) < j"
proof (cases "unat (a - d) < i")
  case False
  have i: "unat (a - d) \<ge> i" using False by simp
  then have i64: "i < 2 ^ 64" using unsigned_less[of "a - d", where ?'a = nat] by simp
  then have "unat (of_nat i :: addr) = i" by (rule unat_offset)
  then have "unat ((a - d) - of_nat i) = unat (a - d) - i"
    using i by (metis unat_sub word_le_nat_alt)
  moreover have "(a - d) - of_nat i = a - (d + of_nat i)" by simp
  ultimately have "unat (a - (d + of_nat i)) = unat (a - d) - i" by simp
  then show ?thesis using i by auto
next
  case True
  then show ?thesis by simp
qed

lemma fill_range_append:
  "i + j \<le> 2 ^ 64 \<Longrightarrow> fill_range (fill_range m d i c) (d + of_nat i) j c = fill_range m d (i + j) c"
  by (auto simp: fill_range_def range_append fun_eq_iff)

lemma mapped_append:
  assumes "mapped m d (i + j)" and "i + j \<le> 2 ^ 64"
  shows "mapped m (d + of_nat i) j"
  using assms by (simp add: mapped_def range_append)

lemma memset_qloop_fill:
  assumes "mapped m q n" and "n \<le> 2 ^ 64"
  shows "memset_qloop m q (memset_pattern c) n
         = Ok (fill_range m q (8 * (n div 8)) (ucast c), n mod 8)"
  using assms
proof (induction n arbitrary: m q rule: less_induct)
  case (less n)
  let ?c = "ucast c :: u8"
  show ?case
  proof (cases "8 \<le> n")
    case False
    then show ?thesis by (simp add: memset_qloop.simps)
  next
    case True
    let ?m = "fill_range m q 8 ?c"
    have n: "n = 8 + (n - 8)" using True by simp
    have "store_bytes m q (memset_pattern c) 8 = Ok ?m"
      using less.prems True
      by (intro store_bytes_fill) (auto intro: mapped_mono simp: memset_pattern_bytes)
    moreover have mp: "mapped ?m (q + 8) (n - 8)"
      using less.prems n mapped_append[of ?m q 8 "n - 8"] by (simp del: unat_offset)
    have "memset_qloop ?m (q + 8) (memset_pattern c) (n - 8)
          = Ok (fill_range ?m (q + 8) (8 * ((n - 8) div 8)) ?c, (n - 8) mod 8)"
      by (rule less.IH[OF _ mp]) (use True less.prems in auto)
    moreover have "fill_range ?m (q + 8) (8 * ((n - 8) div 8)) ?c = fill_range m q (8 * (n div 8)) ?c"
      using fill_range_append[of 8 "8 * ((n - 8) div 8)" m q ?c] less.prems(2) True
      by (simp add: div_nat_eqI le_div_geq)
    moreover have "(n - 8) mod 8 = n mod 8" using True by (simp add: le_mod_geq)
    ultimately show ?thesis using True by (simp add: memset_qloop.simps[of m])
  qed
qed

lemma memset_bloop_fill:
  "mapped m p n \<Longrightarrow> n \<le> 2 ^ 64 \<Longrightarrow> memset_bloop m p c n = Ok (fill_range m p n c)"
proof (induction n arbitrary: m p)
  case 0
  then show ?case by simp
next
  case (Suc n)
  from Suc.prems(1) mapped_Suc obtain b where b: "m p = Some b" by blast
  have mp: "mapped (m(p \<mapsto> c)) (p + 1) n"
    using Suc.prems(1) mapped_Suc mapped_upd by blast
  have "memset_bloop (m(p \<mapsto> c)) (p + 1) c n = Ok (fill_range (m(p \<mapsto> c)) (p + 1) n c)"
    by (rule Suc.IH[OF mp]) (use Suc.prems in simp)
  moreover have "fill_range (m(p \<mapsto> c)) (p + 1) n c = fill_range m p (Suc n) c"
    by (auto simp: fill_range_def range_split_first[of _ p] fun_eq_iff)
  ultimately show ?case using b by (simp add: store_def)
qed

text \<open>
  The exact effect of \<open>memset\<close>: it fills the multiple of eight below the count, and then
  fills the first \<open>count mod 8\<close> bytes a second time.
\<close>

lemma memset_result:
  assumes "mapped m dest (unat count)"
  shows "memset m dest c count
    = Ok (dest, fill_range (fill_range m dest (8 * (unat count div 8)) (ucast c))
                  dest (unat count mod 8) (ucast c))"
proof -
  have le: "unat count \<le> 2 ^ 64" using unsigned_less[of count, where ?'a = nat] by simp
  let ?m = "fill_range m dest (8 * (unat count div 8)) (ucast c)"
  have "mapped ?m dest (unat count mod 8)"
    using assms by (auto intro: mapped_mono[where n = "unat count"])
  then have "memset_bloop ?m dest (ucast c) (unat count mod 8)
      = Ok (fill_range ?m dest (unat count mod 8) (ucast c))"
    by (rule memset_bloop_fill) (use le in \<open>auto intro: order_trans[OF mod_less_eq_dividend]\<close>)
  with memset_qloop_fill[OF assms le] show ?thesis by (simp add: memset_def)
qed

section \<open>C strings\<close>

text \<open>\<open>bytes_at m p bs\<close>: the bytes \<open>bs\<close> lie at \<open>p\<close>; \<open>cstr m p s\<close>: the NUL-terminated \<open>s\<close> lies there.\<close>

fun bytes_at :: "mem \<Rightarrow> addr \<Rightarrow> u8 list \<Rightarrow> bool" where
  "bytes_at m p [] \<longleftrightarrow> True"
| "bytes_at m p (b # bs) \<longleftrightarrow> m p = Some b \<and> bytes_at m (p + 1) bs"

definition cstr :: "mem \<Rightarrow> addr \<Rightarrow> u8 list \<Rightarrow> bool" where
  "cstr m p s \<longleftrightarrow> bytes_at m p (s @ [0]) \<and> 0 \<notin> set s"

text \<open>The value \<open>strcmp\<close> computes, on the strings themselves.\<close>

fun first_diff :: "u8 list \<Rightarrow> u8 list \<Rightarrow> int" where
  "first_diff [] [] = 0"
| "first_diff [] (b # t) = - uchar b"
| "first_diff (a # s) [] = uchar a"
| "first_diff (a # s) (b # t) = (if a = b then first_diff s t else uchar a - uchar b)"

lemma bytes_at_append:
  "bytes_at m p (xs @ ys) \<longleftrightarrow> bytes_at m p xs \<and> bytes_at m (p + of_nat (length xs)) ys"
  by (induction xs arbitrary: p) (auto simp: add.assoc)

lemma bytes_at_nth:
  "bytes_at m p xs \<longleftrightarrow> (\<forall>i<length xs. m (p + of_nat i) = Some (xs ! i))"
proof (induction xs arbitrary: p)
  case Nil
  then show ?case by simp
next
  case (Cons x xs)
  have "(\<forall>i<length (x # xs). m (p + of_nat i) = Some ((x # xs) ! i)) \<longleftrightarrow>
        m p = Some x \<and> (\<forall>i<length xs. m (p + 1 + of_nat i) = Some (xs ! i))"
    by (simp add: All_less_Suc2 add.assoc)
  then show ?case by (simp add: Cons.IH)
qed

lemma bytes_at_copy:
  assumes "bytes_at m s xs" and "length xs \<le> n" and "n \<le> 2 ^ 64"
  shows "bytes_at (copy_range m d s n) d xs"
  using assms by (auto simp: bytes_at_nth copy_range_def unat_offset)

text \<open>Numbers of several bytes, the lowest first.\<close>

fun le_word :: "u8 list \<Rightarrow> u64" where
  "le_word [] = 0"
| "le_word (b # bs) = ucast b OR push_bit 8 (le_word bs)"

lemma load_le_word: "bytes_at m p bs \<Longrightarrow> load_le m p (length bs) = Ok (le_word bs)"
  by (induction bs arbitrary: p) (simp_all add: load_def)

lemma load_le_part:
  assumes "bytes_at m p bs" and "i + n \<le> length bs"
  shows "load_le m (p + of_nat i) n = Ok (le_word (take n (drop i bs)))"
proof -
  have "bs = take i bs @ take n (drop i bs) @ drop n (drop i bs)" by (simp flip: drop_drop)
  then have at: "bytes_at m (p + of_nat (length (take i bs))) (take n (drop i bs))"
    using assms(1) bytes_at_append by (metis (no_types))
  have l: "length (take i bs) = i" "length (take n (drop i bs)) = n" using assms(2) by simp_all
  show ?thesis using load_le_word[OF at] unfolding l .
qed

lemma bytes_at_frame:
  assumes "bytes_at m s xs" and "\<And>i. i < length xs \<Longrightarrow> m' (s + of_nat i) = m (s + of_nat i)"
  shows "bytes_at m' s xs"
  using assms by (simp add: bytes_at_nth)

lemma mapped_bytes_at:
  assumes "bytes_at m s xs"
  shows "mapped m s (length xs)"
  unfolding mapped_def
proof (intro allI impI)
  fix a assume "unat (a - s) < length xs"
  with assms have "m (s + of_nat (unat (a - s))) \<noteq> None"
    unfolding bytes_at_nth by blast
  then show "m a \<noteq> None" by simp
qed

lemma cstr_Cons [simp]: "cstr m p (b # s) \<longleftrightarrow> m p = Some b \<and> b \<noteq> 0 \<and> cstr m (p + 1) s"
  by (auto simp: cstr_def)

lemma cstr_Nil [simp]: "cstr m p [] \<longleftrightarrow> m p = Some 0"
  by (simp add: cstr_def)

lemma strlen_loop_cstr:
  "cstr m (p + of_nat i) s \<Longrightarrow> i + length s < 2 ^ 31 \<Longrightarrow> strlen_loop m p i = Ok (i + length s)"
proof (induction s arbitrary: i)
  case Nil
  then show ?case by (simp add: strlen_loop.simps[of m p i] load_def)
next
  case (Cons b s)
  have "strlen_loop m p (Suc i) = Ok (Suc i + length s)"
    using Cons.prems by (intro Cons.IH) (auto simp: ac_simps)
  then show ?case using Cons.prems by (simp add: strlen_loop.simps[of m p i] load_def)
qed

lemma strlen_cstr: "cstr m p s \<Longrightarrow> length s < 2 ^ 31 \<Longrightarrow> strlen m p = Ok (length s)"
  using strlen_loop_cstr[of m p 0 s] by (simp add: strlen_def)

lemma strlen_loop_overflow:
  assumes "cstr m (p + of_nat i) s" and "i < 2 ^ 31" and "2 ^ 31 \<le> i + length s"
  shows "strlen_loop m p i = Fault Overflow"
  using assms
proof (induction s arbitrary: i)
  case Nil
  then show ?case by simp
next
  case (Cons b s)
  show ?case
  proof (cases "2 ^ 31 \<le> Suc i")
    case True
    then show ?thesis using Cons.prems by (simp add: strlen_loop.simps[of m p i] load_def)
  next
    case False
    have "strlen_loop m p (Suc i) = Fault Overflow"
      using Cons.prems False by (intro Cons.IH) (auto simp: ac_simps)
    then show ?thesis using Cons.prems by (simp add: strlen_loop.simps[of m p i] load_def)
  qed
qed

lemma strcmp_loop_cstr:
  "\<lbrakk>cstr m (p + of_nat i) s; cstr m (q + of_nat i) t; i + length s < 2 ^ 64\<rbrakk>
   \<Longrightarrow> strcmp_loop m p q i = Ok (first_diff s t)"
proof (induction s t arbitrary: i rule: first_diff.induct)
  case (4 a s b t)
  have "a = b \<Longrightarrow> strcmp_loop m p q (Suc i) = Ok (first_diff s t)"
    using "4.prems" by (intro "4.IH") (auto simp: ac_simps)
  then show ?case
    using "4.prems" by (auto simp: strcmp_loop.simps[of m p q i] load_def)
qed (auto simp: strcmp_loop.simps[of m p q] load_def uchar_def)

lemma first_diff_0_iff:
  "0 \<notin> set s \<Longrightarrow> 0 \<notin> set t \<Longrightarrow> first_diff s t = 0 \<longleftrightarrow> s = t"
  by (induction s t rule: first_diff.induct) (auto simp: uchar_def uint_0_iff simp flip: word_uint_eq_iff)

lemma first_diff_neg_iff:
  "0 \<notin> set s \<Longrightarrow> 0 \<notin> set t \<Longrightarrow>
   first_diff s t < 0 \<longleftrightarrow> (s, t) \<in> lexord {(a, b). a < b}"
proof (induction s t rule: first_diff.induct)
  case (2 b t)
  then have "0 < uint b" by (simp add: word_neq_0_conv[symmetric] uint_0_iff less_le)
  then show ?case by (simp add: uchar_def)
next
  case (3 a s)
  then show ?case by (simp add: uchar_def not_less)
next
  case (4 a s b t)
  then show ?case by (auto simp: uchar_def word_less_def)
qed simp

lemma strcmp_cstr:
  "cstr m p s \<Longrightarrow> cstr m q t \<Longrightarrow> length s < 2 ^ 64 \<Longrightarrow> strcmp m p q = Ok (first_diff s t)"
  using strcmp_loop_cstr[of m p 0 s q t] by (simp add: strcmp_def)

lemma memcmp_loop_bytes:
  "bytes_at m p xs \<Longrightarrow> bytes_at m q ys \<Longrightarrow> length xs = length ys \<Longrightarrow>
   \<exists>r. memcmp_loop m p q (length xs) = Ok r \<and> (r = 0 \<longleftrightarrow> xs = ys)"
proof (induction xs ys arbitrary: p q rule: list_induct2')
  case (4 x xs y ys)
  from 4 obtain r where "memcmp_loop m (p + 1) (q + 1) (length xs) = Ok r" "r = 0 \<longleftrightarrow> xs = ys"
    by auto
  moreover have "schar x = schar y \<longleftrightarrow> x = y" unfolding schar_def by (auto intro: signed_word_eqI)
  ultimately show ?case using 4 by (auto simp: load_def)
qed simp_all

text \<open>Two address ranges with no address in common.\<close>

definition disjoint_ranges :: "addr \<Rightarrow> nat \<Rightarrow> addr \<Rightarrow> nat \<Rightarrow> bool" where
  "disjoint_ranges p i q j \<longleftrightarrow> (\<forall>a. unat (a - p) < i \<longrightarrow> \<not> unat (a - q) < j)"

lemma disjoint_ranges_sym: "disjoint_ranges p i q j \<Longrightarrow> disjoint_ranges q j p i"
  by (auto simp: disjoint_ranges_def)

lemma disjoint_rangesI:
  assumes "unat p + i \<le> unat q" and "unat q + j \<le> 2 ^ 64"
  shows "disjoint_ranges p i q j"
  unfolding disjoint_ranges_def
proof (intro allI impI notI)
  fix a assume i: "unat (a - p) < i" and j: "unat (a - q) < j"
  have "unat (a - q) + unat q < 2 ^ 64" using j assms(2) by simp
  then have q: "unat a = unat (a - q) + unat q" by (rule unat_add_diff)
  then have "unat p \<le> unat a" using assms(1) by simp
  then have "unat (a - p) = unat a - unat p" by (simp add: unat_sub_if')
  with i q assms(1) show False by simp
qed

lemma disjoint_rangesD:
  "disjoint_ranges p i q j \<Longrightarrow> k < j \<Longrightarrow> j \<le> 2 ^ 64 \<Longrightarrow> \<not> unat ((q + of_nat k) - p) < i"
  unfolding disjoint_ranges_def by (auto dest!: spec[of _ "q + of_nat k"] simp: unat_offset)

lemma strcpy_copies:
  assumes src: "cstr m src s" and len: "length s < 2 ^ 31"
    and dst: "mapped m dst (Suc (length s))"
    and disj: "disjoint_ranges dst (Suc (length s)) src (Suc (length s))"
  shows "\<exists>m'. strcpy m dst src = Ok (length s, m') \<and> cstr m' dst s
           \<and> (\<forall>a. \<not> unat (a - dst) < Suc (length s) \<longrightarrow> m' a = m a)"
proof -
  let ?n = "length s"
  have n: "unat (of_nat ?n :: u64) = ?n" using len by (simp add: unat_offset)
  have bs: "bytes_at m src s" using src by (simp add: cstr_def bytes_at_append)
  have "?n \<le> unat (dst - src)"
  proof (rule ccontr)
    assume "\<not> ?n \<le> unat (dst - src)"
    then have "unat (dst - src) < Suc ?n" by simp
    with disj show False unfolding disjoint_ranges_def by (auto dest: spec[of _ dst])
  qed
  then have cp: "memcpy_loop m dst src ?n = Ok (copy_range m dst src ?n)"
    using len bs dst by (intro memcpy_loop_copies) (auto intro: mapped_bytes_at mapped_mono)
  let ?c = "copy_range m dst src ?n"
  let ?m = "?c(dst + of_nat ?n \<mapsto> 0)"
  have mp: "m (dst + of_nat ?n) \<noteq> None"
    using dst n unfolding mapped_def by (auto dest!: spec[of _ "dst + of_nat ?n"])
  have "\<not> unat ((dst + of_nat ?n) - dst) < ?n" using n by simp
  then have "?c (dst + of_nat ?n) \<noteq> None" using mp by (simp add: copy_range_def)
  then have "strcpy m dst src = Ok (?n, ?m)"
    using strlen_cstr[OF src len] cp n by (auto simp: strcpy_def memcpy_def store_def)
  moreover have "cstr ?m dst s"
  proof -
    have "bytes_at ?c dst s" using bs len by (intro bytes_at_copy) auto
    then have "bytes_at ?m dst s"
      using len by (elim bytes_at_frame) (simp add: of_nat_addr_eq)
    then show ?thesis using src by (simp add: cstr_def bytes_at_append)
  qed
  moreover have "\<forall>a. \<not> unat (a - dst) < Suc ?n \<longrightarrow> ?m a = m a"
    using n by (auto simp: copy_range_def)
  ultimately show ?thesis by blast
qed

section \<open>Properties of libk/string.c\<close>

text \<open>
  C12: \<open>memmove\<close> copies correctly for every overlap of its two ranges: as long as neither range
  wraps around the end of the address space, \<open>dst\<close> ends up with the bytes that \<open>src\<close> held before the
  call, and no other byte changes.
\<close>

theorem memmove_any_overlap:
  assumes "mapped m src (unat n)" and "mapped m dst (unat n)"
    and "unat src + unat n \<le> 2 ^ 64" and "unat dst + unat n \<le> 2 ^ 64"
  shows "memmove m dst src n = Ok (dst, copy_range m dst src (unat n))"
proof (cases "dst < src")
  case True
  have "unat n \<le> 2 ^ 64" using unsigned_less[of n, where ?'a = nat] by simp
  moreover have "unat n \<le> unat (dst - src)"
    using True assms(3) by (rule diff_ge_if_below)
  ultimately show ?thesis
    using True assms by (simp add: memmove_def memcpy_loop_copies)
next
  case False
  have "unat n \<le> 2 ^ 64" using unsigned_less[of n, where ?'a = nat] by simp
  moreover have "src = dst \<or> unat n \<le> unat (src - dst)"
    using False assms(4) diff_ge_if_below[of src dst "unat n"]
    by (cases "src = dst") (auto simp: not_less order.strict_iff_order)
  ultimately show ?thesis
    using False assms by (simp add: memmove_def memmove_down_copies)
qed


theorem memmove_any_overlap_witness:
  "memmove (\<lambda>a. Some (ucast a)) 2 0 4 = Ok (2, copy_range (\<lambda>a. Some (ucast a)) 2 0 4)
   \<and> copy_range (\<lambda>a. Some (ucast a)) 2 0 4 5 = Some 3"
proof -
  have "mapped (\<lambda>a. Some (ucast a)) p n" for p n by (simp add: mapped_def)
  then show ?thesis
    using memmove_any_overlap[of "\<lambda>a. Some (ucast a)" 0 4 2] by (simp add: copy_range_def)
qed

text \<open>
  \<open>memset\<close> fills its whole range with the byte \<open>c\<close> exactly when the bytes behind the last full
  eight bytes of the range hold \<open>c\<close> already or lie among the first \<open>count mod 8\<close> bytes: the byte
  loop for the remainder starts again at \<open>dest\<close>. In particular it is right for a count below eight
  and for a multiple of eight, and for no other count in general.
\<close>

theorem memset_fills_iff:
  assumes mp: "mapped m dest (unat count)"
  shows "memset m dest c count = Ok (dest, fill_range m dest (unat count) (ucast c)) \<longleftrightarrow>
    (\<forall>k. 8 * (unat count div 8) \<le> k \<and> unat count mod 8 \<le> k \<and> k < unat count \<longrightarrow>
         m (dest + of_nat k) = Some (ucast c))"
    (is "?lhs \<longleftrightarrow> ?rhs")
proof -
  let ?n = "unat count" and ?c = "ucast c :: u8"
  let ?q = "8 * (?n div 8)" and ?r = "?n mod 8"
  let ?f = "fill_range (fill_range m dest ?q ?c) dest ?r ?c"
  have n64: "?n < 2 ^ 64" using unsigned_less[of count, where ?'a = nat] by simp
  have "?lhs \<longleftrightarrow> ?f = fill_range m dest ?n ?c" using memset_result[OF mp] by simp
  also have "\<dots> \<longleftrightarrow> (\<forall>a. \<not> unat (a - dest) < ?q \<and> \<not> unat (a - dest) < ?r \<and> unat (a - dest) < ?n
      \<longrightarrow> m a = Some ?c)"
    by (auto simp: fun_eq_iff fill_range_def)
  also have "\<dots> \<longleftrightarrow> ?rhs"
  proof (intro iffI allI impI)
    fix k
    assume all: "\<forall>a. \<not> unat (a - dest) < ?q \<and> \<not> unat (a - dest) < ?r \<and> unat (a - dest) < ?n
      \<longrightarrow> m a = Some ?c" and k: "?q \<le> k \<and> ?r \<le> k \<and> k < ?n"
    then have "unat ((dest + of_nat k) - dest) = k" using n64 by (intro unat_offset_diff) simp
    with all k show "m (dest + of_nat k) = Some ?c" by (simp only: not_less)
  next
    fix a
    assume all: ?rhs and a: "\<not> unat (a - dest) < ?q \<and> \<not> unat (a - dest) < ?r \<and> unat (a - dest) < ?n"
    with spec[OF all, of "unat (a - dest)"] show "m a = Some ?c" by simp
  qed
  finally show ?thesis .
qed

theorem memset_fills_iff_witness:
  "memset (\<lambda>a. Some 1) 0 7 12 \<noteq> Ok (0, fill_range (\<lambda>a. Some 1) 0 12 7)"
proof -
  have "mapped (\<lambda>a. Some 1) 0 (unat (12::u64))" by (simp add: mapped_def)
  from memset_fills_iff[OF this, of 7] show ?thesis by (auto dest: spec[of _ 9])
qed

text \<open>
  \<open>strcmp\<close> orders strings: on two NUL-terminated strings it returns a value that is zero exactly
  when they are equal, and negative exactly when the first is smaller in the lexicographic order of
  unsigned bytes.
\<close>

theorem strcmp_orders:
  assumes "cstr m p s" and "cstr m q t" and "length s < 2 ^ 64"
  shows "\<exists>r. strcmp m p q = Ok r \<and> (r = 0 \<longleftrightarrow> s = t)
           \<and> (r < 0 \<longleftrightarrow> (s, t) \<in> lexord {(a, b). a < b})"
proof -
  from assms(1,2) have "0 \<notin> set s" "0 \<notin> set t" by (auto simp: cstr_def)
  then show ?thesis
    using strcmp_cstr[OF assms] by (auto simp: first_diff_0_iff first_diff_neg_iff)
qed

theorem strcmp_orders_witness:
  "\<exists>r. strcmp [0 \<mapsto> 200, 1 \<mapsto> 0, 8 \<mapsto> 7, 9 \<mapsto> 0] 0 8 = Ok r \<and> r \<noteq> 0 \<and> \<not> r < 0"
proof -
  let ?m = "[0 \<mapsto> 200, 1 \<mapsto> 0, 8 \<mapsto> 7, 9 \<mapsto> 0] :: mem"
  have "cstr ?m 0 [200]" "cstr ?m 8 [7]" by simp_all
  from strcmp_orders[OF this] show ?thesis by auto
qed

text \<open>
  \<open>strdup\<close> writes past the object it allocates. It asks \<open>kmalloc\<close> for \<open>strlen(str)\<close> bytes and
  copies the string with its NUL into them: with an allocator that returns exactly the bytes it was
  asked for, away from the string, with the next byte unmapped, the call faults.
\<close>

theorem strdup_overruns:
  assumes "cstr m str s" and "length s < 2 ^ 31"
    and km: "km m (length s) = (new, m')"
    and str': "cstr m' str s" and new: "mapped m' new (length s)"
    and past: "m' (new + of_nat (length s)) = None"
    and away: "disjoint_ranges new (length s) str (Suc (length s))"
  shows "strdup km m str = Fault Wild_Access"
proof -
  let ?n = "length s"
  have n: "unat (of_nat ?n :: u64) = ?n" using assms(2) by (simp add: unat_offset)
  have bs: "bytes_at m' str s" using str' by (simp add: cstr_def bytes_at_append)
  have "?n \<le> unat (new - str) \<or> new = str"
  proof (rule ccontr)
    assume "\<not> (?n \<le> unat (new - str) \<or> new = str)"
    moreover from this have "0 < ?n" by (cases s) simp_all
    ultimately show False
      using away unfolding disjoint_ranges_def by (auto dest: spec[of _ new])
  qed
  then have "memcpy_loop m' new str ?n = Ok (copy_range m' new str ?n)"
    using assms(2) bs new by (intro memcpy_loop_copies) (auto intro: mapped_bytes_at)
  moreover have "copy_range m' new str ?n (new + of_nat ?n) = None"
    using past n by (simp add: copy_range_def)
  ultimately show ?thesis
    using strlen_cstr[OF assms(1,2)] strlen_cstr[OF str' assms(2)] km n
    by (simp add: strdup_def strcpy_def memcpy_def store_def)
qed

theorem strdup_overruns_witness:
  "strdup (\<lambda>m n. (64, m(64 \<mapsto> 0, 65 \<mapsto> 0))) [0 \<mapsto> 104, 1 \<mapsto> 105, 2 \<mapsto> 0] 0 = Fault Wild_Access"
proof (rule strdup_overruns[where s = "[104, 105]" and new = 64])
  show "mapped ([0 \<mapsto> 104, 1 \<mapsto> 105, 2 \<mapsto> 0](64 \<mapsto> 0, 65 \<mapsto> 0)) 64 (length [104, 105::u8])"
    by (auto simp: mapped_def range_split_first numeral_2_eq_2 unat_eq_zero)
  show "disjoint_ranges 64 (length [104, 105::u8]) 0 (Suc (length [104, 105::u8]))"
    by (rule disjoint_ranges_sym, rule disjoint_rangesI) simp_all
qed simp_all

end
