(* ===== verification/Alloc.thy ===== *)
theory Alloc
  imports Prelude
begin

section \<open>The contract of an allocator\<close>

text \<open>
  What the boot allocator, the page allocator and the slab caches promise their clients. An allocator
  answers requests from a set of free cells, \<open>room\<close>: an answer stands for a set of cells, which were free and
  are not free any more. \<open>inv\<close> relates the state of the allocator to a value of the model that determines the
  room, and \<open>enough\<close> says which requests the contract covers. The client's side, proved once for all
  allocators, is that the answers to any sequence of requests do not overlap.
\<close>

fun serve :: "('q \<Rightarrow> 's \<Rightarrow> ('b \<times> 's) result) \<Rightarrow> 'q list \<Rightarrow> 's \<Rightarrow> ('b list \<times> 's) result" where
  "serve alloc [] s = Ok ([], s)"
| "serve alloc (q # qs) s = bnd (alloc q s) (\<lambda>(b, s). bnd (serve alloc qs s) (\<lambda>(bs, s). Ok (b # bs, s)))"

text \<open>The answers \<open>bs\<close> to the requests \<open>qs\<close> take disjoint sets out of \<open>F\<close> and leave \<open>R\<close>.\<close>

fun served :: "('q \<Rightarrow> 'b \<Rightarrow> 'a set \<Rightarrow> bool) \<Rightarrow> 'a set \<Rightarrow> 'q list \<Rightarrow> 'b list \<Rightarrow> 'a set \<Rightarrow> bool" where
  "served gives F [] [] R \<longleftrightarrow> R = F"
| "served gives F (q # qs) (b # bs) R \<longleftrightarrow> (\<exists>X. gives q b X \<and> X \<subseteq> F \<and> served gives (F - X) qs bs R)"
| "served gives F _ _ R \<longleftrightarrow> False"

lemma served_length: "served gives F qs bs R \<Longrightarrow> length bs = length qs"
  by (induction gives F qs bs R rule: served.induct) auto

lemma served_rest: "served gives F qs bs R \<Longrightarrow> R \<subseteq> F"
  by (induction gives F qs bs R rule: served.induct) auto

lemma served_nth:
  assumes "served gives F qs bs R" and "i < length qs"
  shows "\<exists>X. gives (qs ! i) (bs ! i) X \<and> X \<subseteq> F \<and> X \<inter> R = {}"
  using assms
proof (induction gives F qs bs R arbitrary: i rule: served.induct)
  case (2 gives F q qs b bs R)
  then obtain X where X: "gives q b X" "X \<subseteq> F" "served gives (F - X) qs bs R" by auto
  show ?case
  proof (cases i)
    case 0
    then show ?thesis using X served_rest[OF X(3)] by auto
  next
    case (Suc k)
    then show ?thesis using "2.IH"[OF X(3), of k] "2.prems"(2) by auto
  qed
qed simp_all

lemma served_disjoint:
  assumes "served gives F qs bs R" and "i < j" and "j < length qs"
  shows "\<exists>X Y. gives (qs ! i) (bs ! i) X \<and> gives (qs ! j) (bs ! j) Y \<and> X \<inter> Y = {} \<and> X \<union> Y \<subseteq> F"
  using assms
proof (induction gives F qs bs R arbitrary: i j rule: served.induct)
  case (2 gives F q qs b bs R)
  then obtain X where X: "gives q b X" "X \<subseteq> F" "served gives (F - X) qs bs R" by auto
  obtain l where l: "j = Suc l" "l < length qs" using "2.prems"(2,3) by (cases j) auto
  show ?case
  proof (cases i)
    case 0
    obtain Y where "gives (qs ! l) (bs ! l) Y" "Y \<subseteq> F - X" using served_nth[OF X(3) l(2)] by blast
    then show ?thesis using X 0 l by auto
  next
    case (Suc k)
    then obtain Y Z where "gives (qs ! k) (bs ! k) Y" "gives (qs ! l) (bs ! l) Z" "Y \<inter> Z = {}" "Y \<union> Z \<subseteq> F - X"
      using "2.IH"[OF X(3), of k l] "2.prems"(2) l by auto
    then show ?thesis using Suc l by (intro exI[of _ Y] exI[of _ Z]) auto
  qed
qed simp_all

locale allocator =
  fixes alloc :: "'q \<Rightarrow> 's \<Rightarrow> ('b \<times> 's) result"
    and inv :: "'s \<Rightarrow> 'c \<Rightarrow> bool"
    and room :: "'c \<Rightarrow> 'a set"
    and gives :: "'q \<Rightarrow> 'b \<Rightarrow> 'a set \<Rightarrow> bool"
    and enough :: "'q list \<Rightarrow> 'c \<Rightarrow> bool"
  assumes alloc_law: "inv s c \<Longrightarrow> enough (q # qs) c \<Longrightarrow> \<exists>b X s' c'. alloc q s = Ok (b, s') \<and> inv s' c' \<and> enough qs c'
     \<and> gives q b X \<and> X \<subseteq> room c \<and> room c' = room c - X"
begin

lemma serve_served:
  "inv s c \<Longrightarrow> enough qs c \<Longrightarrow> \<exists>bs s' c'. serve alloc qs s = Ok (bs, s') \<and> inv s' c' \<and> served gives (room c) qs bs (room c')"
proof (induction qs arbitrary: s c)
  case (Cons q qs)
  from alloc_law[OF Cons.prems] obtain b X s1 c1 where a: "alloc q s = Ok (b, s1)" "inv s1 c1" "enough qs c1" "gives q b X"
    "X \<subseteq> room c" "room c1 = room c - X" by blast
  from Cons.IH[OF a(2,3)] obtain bs s' c' where t: "serve alloc qs s1 = Ok (bs, s')" "inv s' c'" "served gives (room c1) qs bs (room c')" by blast
  have "serve alloc (q # qs) s = Ok (b # bs, s')" using a(1) t(1) by simp
  moreover have "served gives (room c) (q # qs) (b # bs) (room c')" using a t by auto
  ultimately show ?case using t(2) by blast
qed auto

end

end
