(* ===== verification/Bump.thy ===== *)
theory Bump
  imports CString Alloc
begin

section \<open>mm/init.c and mm/bump_alloc.c: the memory map and the boot-time page allocator\<close>

text \<open>
  The boot loader's memory map is a list of entries (\<open>limine.h\<close> is not in the repository: the
  fields the code reads, and the type value of usable memory as an argument). The bump allocator
  hands out the pages of the usable regions in order; its arithmetic is kept at the widths of the
  source, \<open>unsigned int\<close> for page counts and for the physical base.
\<close>

record memmap_entry =
  me_base :: u64
  me_length :: u64
  me_type :: u64

record region =
  r_base :: u64
  r_size :: u64

definition MM_MAX_MEMORY_REGIONS :: nat where "MM_MAX_MEMORY_REGIONS = 32"

text \<open>
  \<open>mm_phys_regions[mm_region_count++]\<close> for each usable entry, with no bound in the source: the 33rd
  one is written past the array.
\<close>

fun setup_memmap_regions :: "u64 \<Rightarrow> memmap_entry list \<Rightarrow> region list \<Rightarrow> region list result" where
  "setup_memmap_regions usable [] regions = Ok regions"
| "setup_memmap_regions usable (e # es) regions =
     (if me_type e = usable
      then if length regions < MM_MAX_MEMORY_REGIONS
           then setup_memmap_regions usable es
                  (regions @ [\<lparr>r_base = me_base e, r_size = me_length e\<rparr>])
           else Fault Out_Of_Bounds
      else setup_memmap_regions usable es regions)"

record bump_state =
  bump_allocated :: u32
  buddy_is_init :: bool
  bump_mem :: mem

fun bump_scan :: "u64 \<Rightarrow> region list \<Rightarrow> u32 \<Rightarrow> addr option" where
  "bump_scan hhdm [] left = None"
| "bump_scan hhdm (r # rs) left =
     (let page_count = (ucast (drop_bit 12 (r_size r)) :: u32) in
      if page_count > left
      then let phys = (ucast (r_base r) :: u32) in Some (ucast phys + ucast (left * 4096) + hhdm)
      else bump_scan hhdm rs (left - page_count))"

definition bump_page :: "u64 \<Rightarrow> region list \<Rightarrow> bump_state \<Rightarrow> (addr \<times> bump_state) result" where
  "bump_page hhdm regions s =
     (if buddy_is_init s then Fault Halted else
      case bump_scan hhdm regions (bump_allocated s) of
        None \<Rightarrow> Ok (NULL, s)
      | Some a \<Rightarrow> Ok (a, s\<lparr>bump_allocated := bump_allocated s + 1\<rparr>))"

definition bump_zpage :: "u64 \<Rightarrow> region list \<Rightarrow> bump_state \<Rightarrow> (addr \<times> bump_state) result" where
  "bump_zpage hhdm regions s =
     bnd (bump_page hhdm regions s) (\<lambda>(pg, s).
     bnd (memset (bump_mem s) pg 0 0x1000) (\<lambda>(_, m).
     Ok (pg, s\<lparr>bump_mem := m\<rparr>)))"

section \<open>What the allocator hands out\<close>

text \<open>The physical address of the \<open>k\<close>-th page of the regions, in order.\<close>

fun nth_page :: "region list \<Rightarrow> nat \<Rightarrow> nat option" where
  "nth_page [] k = None"
| "nth_page (r # rs) k =
     (let n = unat (r_size r) div 4096 in
      if k < n then Some (unat (r_base r) + 4096 * k) else nth_page rs (k - n))"

definition low_region :: "region \<Rightarrow> bool" where
  "low_region r \<longleftrightarrow> unat (r_base r) + unat (r_size r) \<le> 2 ^ 32"

fun disjoint_regions :: "region list \<Rightarrow> bool" where
  "disjoint_regions [] = True"
| "disjoint_regions (r # rs) =
     ((\<forall>q \<in> set rs. unat (r_base r) + unat (r_size r) \<le> unat (r_base q)
                   \<or> unat (r_base q) + unat (r_size q) \<le> unat (r_base r)) \<and> disjoint_regions rs)"

lemma page_count_low:
  assumes "low_region r"
  shows "unat (ucast (drop_bit 12 (r_size r)) :: u32) = unat (r_size r) div 4096"
proof -
  have "unat (r_size r) div 4096 < 2 ^ 32" using assms by (simp add: low_region_def)
  then show ?thesis
    by (simp add: unsigned_ucast_eq unsigned_take_bit_eq drop_bit_eq_div unat_div take_bit_nat_eq_self)
qed

lemma ucast_low:
  fixes x :: u64
  assumes "unat x < 2 ^ 32"
  shows "ucast (ucast x :: u32) = x"
proof (rule unsigned_word_eqI[where 'a = nat])
  show "unat (ucast (ucast x :: u32) :: u64) = unat x"
    using assms by (simp add: unsigned_ucast_eq unsigned_take_bit_eq take_bit_nat_eq_self)
qed

lemma bump_scan_nth:
  assumes "\<forall>r \<in> set rs. low_region r"
  shows "bump_scan hhdm rs left = map_option (\<lambda>p. of_nat p + hhdm) (nth_page rs (unat left))"
  using assms
proof (induction rs arbitrary: left)
  case Nil
  then show ?case by simp
next
  case (Cons r rs)
  let ?n = "ucast (drop_bit 12 (r_size r)) :: u32"
  have low: "low_region r" using Cons.prems by simp
  have n: "unat ?n = unat (r_size r) div 4096" by (rule page_count_low[OF low])
  show ?case
  proof (cases "?n > left")
    case True
    then have k: "unat left < unat (r_size r) div 4096" using n by (simp add: word_less_nat_alt)
    then have le: "4096 * Suc (unat left) \<le> unat (r_size r)"
      by (simp add: less_eq_div_iff_mult_less_eq Suc_le_eq[symmetric] mult.commute)
    then have "4096 * unat left < 2 ^ 32" using low by (simp add: low_region_def)
    then have l: "unat (left * 4096) = 4096 * unat left"
      by (simp add: unat_word_ariths mult.commute)
    have b: "unat (r_base r) < 2 ^ 32" using low le by (simp add: low_region_def)
    then have "ucast (ucast (r_base r) :: u32) = r_base r" by (rule ucast_low)
    moreover have "(ucast (left * 4096) :: u64) = of_nat (4096 * unat left)"
      using l by (metis of_nat_unat)
    ultimately show ?thesis using True k by (simp add: Let_def)
  next
    case False
    then have "unat (left - ?n) = unat left - unat (r_size r) div 4096"
      using n by (simp add: unat_sub word_less_nat_alt[symmetric] not_less)
    moreover have "\<not> unat left < unat (r_size r) div 4096"
      using False n by (simp add: word_less_nat_alt)
    ultimately show ?thesis using False Cons by (simp add: Let_def)
  qed
qed


lemma nth_page_bounds:
  "nth_page rs k = Some p \<Longrightarrow>
   \<exists>r \<in> set rs. unat (r_base r) \<le> p \<and> p + 4096 \<le> unat (r_base r) + unat (r_size r)"
proof (induction rs arbitrary: k)
  case Nil
  then show ?case by simp
next
  case (Cons r rs)
  show ?case
  proof (cases "k < unat (r_size r) div 4096")
    case True
    then have "4096 * Suc k \<le> unat (r_size r)"
      by (simp add: less_eq_div_iff_mult_less_eq Suc_le_eq[symmetric] mult.commute)
    with True Cons.prems show ?thesis by (auto simp: Let_def)
  next
    case False
    with Cons show ?thesis by (auto simp: Let_def)
  qed
qed

lemma nth_page_apart:
  assumes "disjoint_regions rs" and "nth_page rs j = Some p" and "nth_page rs k = Some q" and "j < k"
  shows "p + 4096 \<le> q \<or> q + 4096 \<le> p"
  using assms
proof (induction rs arbitrary: j k)
  case Nil
  then show ?case by simp
next
  case (Cons r rs)
  let ?n = "unat (r_size r) div 4096"
  consider "k < ?n" | "j < ?n" "\<not> k < ?n" | "\<not> j < ?n" "\<not> k < ?n"
    using Cons.prems(4) by linarith
  then show ?case
  proof cases
    case 1
    with Cons.prems show ?thesis by (auto simp: Let_def)
  next
    case 2
    then have "4096 * Suc j \<le> unat (r_size r)"
      by (simp add: less_eq_div_iff_mult_less_eq Suc_le_eq[symmetric] mult.commute)
    moreover have "p = unat (r_base r) + 4096 * j" and "nth_page rs (k - ?n) = Some q"
      using 2 Cons.prems by (auto simp: Let_def)
    moreover from this(2) obtain r' where "r' \<in> set rs" "unat (r_base r') \<le> q"
      "q + 4096 \<le> unat (r_base r') + unat (r_size r')"
      using nth_page_bounds by blast
    ultimately show ?thesis using Cons.prems(1) by fastforce
  next
    case 3
    with Cons.IH[of "j - ?n" "k - ?n"] Cons.prems show ?thesis by (auto simp: Let_def)
  qed
qed

subsection \<open>The boot allocator as an allocator of bytes\<close>

text \<open>
  Its free memory are the pages from the next one on; NULL stands for no memory. The count of pages has
  32 bits, which bounds the requests.
\<close>

definition page_bytes :: "nat \<Rightarrow> nat set" where
  "page_bytes p = {p..<p + 4096}"

definition boot_room :: "region list \<Rightarrow> nat \<Rightarrow> nat set" where
  "boot_room regions c = (\<Union>k \<in> {c..}. case nth_page regions k of None \<Rightarrow> {} | Some p \<Rightarrow> page_bytes p)"

definition boot_inv :: "region list \<Rightarrow> bump_state \<Rightarrow> nat \<Rightarrow> bool" where
  "boot_inv regions s c \<longleftrightarrow> (\<forall>r \<in> set regions. low_region r) \<and> disjoint_regions regions \<and> \<not> buddy_is_init s \<and> c = unat (bump_allocated s)"

definition boot_page :: "u64 \<Rightarrow> region list \<Rightarrow> addr \<Rightarrow> nat set \<Rightarrow> bool" where
  "boot_page hhdm regions a X \<longleftrightarrow> a = NULL \<and> X = {}
     \<or> (\<exists>p k. a = of_nat p + hhdm \<and> X = page_bytes p \<and> nth_page regions k = Some p)"

lemma boot_room_step:
  assumes "disjoint_regions regions" and "nth_page regions c = Some p"
  shows "page_bytes p \<subseteq> boot_room regions c" "boot_room regions (Suc c) = boot_room regions c - page_bytes p"
proof -
  have s: "{c..} = insert c {Suc c..}" by auto
  have r: "boot_room regions c = page_bytes p \<union> boot_room regions (Suc c)"
    unfolding boot_room_def s using assms(2) by simp
  moreover have "page_bytes p \<inter> boot_room regions (Suc c) = {}"
  proof -
    have "page_bytes p \<inter> page_bytes q = {}" if "Suc c \<le> k" "nth_page regions k = Some q" for k q
      using nth_page_apart[OF assms that(2)] that(1) by (auto simp: page_bytes_def)
    then show ?thesis unfolding boot_room_def by (fastforce split: option.splits)
  qed
  ultimately show "page_bytes p \<subseteq> boot_room regions c" "boot_room regions (Suc c) = boot_room regions c - page_bytes p" by auto
qed

interpretation ba: allocator "\<lambda>_ s. bump_page hhdm regions s" "boot_inv regions" "boot_room regions" "\<lambda>_. boot_page hhdm regions"
    "\<lambda>qs c. c + length qs < 2 ^ 32"
  for hhdm regions
proof unfold_locales
  fix s c q and qs :: "'a list"
  assume a: "boot_inv regions s c" "c + length (q # qs) < 2 ^ 32"
  have low: "\<forall>r \<in> set regions. low_region r" and d: "disjoint_regions regions" and c: "\<not> buddy_is_init s" "c = unat (bump_allocated s)"
    using a(1) by (simp_all add: boot_inv_def)
  note scan = bump_scan_nth[OF low, of hhdm "bump_allocated s"]
  show "\<exists>b X s' c'. bump_page hhdm regions s = Ok (b, s') \<and> boot_inv regions s' c' \<and> c' + length qs < 2 ^ 32 \<and> boot_page hhdm regions b X
     \<and> X \<subseteq> boot_room regions c \<and> boot_room regions c' = boot_room regions c - X"
  proof (cases "nth_page regions c")
    case None
    then have "bump_page hhdm regions s = Ok (NULL, s)" using scan c by (simp add: bump_page_def)
    then show ?thesis using a by (intro exI[of _ NULL] exI[of _ "{}"] exI[of _ s] exI[of _ c]) (simp add: boot_page_def)
  next
    case (Some p)
    let ?s = "s\<lparr>bump_allocated := bump_allocated s + 1\<rparr>"
    have "bump_page hhdm regions s = Ok (of_nat p + hhdm, ?s)" using scan c Some by (simp add: bump_page_def)
    moreover have "boot_page hhdm regions (of_nat p + hhdm) (page_bytes p)" using Some by (auto simp: boot_page_def)
    moreover have "boot_inv regions ?s (Suc c)" using a(2) low d c by (simp add: boot_inv_def unat_word_ariths)
    ultimately show ?thesis using boot_room_step[OF d Some] a(2)
      by (intro exI[of _ "of_nat p + hhdm"] exI[of _ "page_bytes p"] exI[of _ ?s] exI[of _ "Suc c"]) auto
  qed
qed

section \<open>Properties of the boot allocator\<close>

text \<open>
  The boot allocator never hands out a page twice. With usable regions that do not overlap and lie
  below 4 GiB, the pages returned for two different values of \<open>bump_allocated\<close> are disjoint physical
  pages, each inside one region, seen through the direct map.
\<close>

theorem bump_pages_disjoint:
  assumes low: "\<forall>r \<in> set regions. low_region r" and dis: "disjoint_regions regions"
    and "bump_page hhdm regions s = Ok (a, s')" and "bump_allocated s' \<noteq> bump_allocated s"
    and "bump_page hhdm regions t = Ok (b, t')" and "bump_allocated t' \<noteq> bump_allocated t"
    and ne: "bump_allocated s \<noteq> bump_allocated t"
  shows "\<exists>p q. a = of_nat p + hhdm \<and> b = of_nat q + hhdm \<and> (p + 4096 \<le> q \<or> q + 4096 \<le> p)
    \<and> (\<exists>r \<in> set regions. unat (r_base r) \<le> p \<and> p + 4096 \<le> unat (r_base r) + unat (r_size r))
    \<and> (\<exists>r \<in> set regions. unat (r_base r) \<le> q \<and> q + 4096 \<le> unat (r_base r) + unat (r_size r))"
proof -
  obtain p where p: "nth_page regions (unat (bump_allocated s)) = Some p" "a = of_nat p + hhdm"
    using assms(3,4) bump_scan_nth[OF low] by (auto simp: bump_page_def split: if_splits option.splits)
  obtain q where q: "nth_page regions (unat (bump_allocated t)) = Some q" "b = of_nat q + hhdm"
    using assms(5,6) bump_scan_nth[OF low] by (auto simp: bump_page_def split: if_splits option.splits)
  have "unat (bump_allocated s) \<noteq> unat (bump_allocated t)" using ne by (simp add: word_unat_eq_iff)
  then have "p + 4096 \<le> q \<or> q + 4096 \<le> p"
    using nth_page_apart[OF dis p(1) q(1)] nth_page_apart[OF dis q(1) p(1)] by linarith
  moreover note nth_page_bounds[OF p(1)] nth_page_bounds[OF q(1)] p(2) q(2)
  ultimately show ?thesis by (intro exI[of _ p] exI[of _ q] conjI)
qed

theorem bump_pages_disjoint_witness:
  "\<exists>p q. (0x1000 :: addr) = of_nat p \<and> (0x9000 :: addr) = of_nat q \<and> (p + 4096 \<le> q \<or> q + 4096 \<le> p)"
proof -
  let ?rs = "[\<lparr>r_base = 0x1000, r_size = 0x1000\<rparr>, \<lparr>r_base = 0x8000, r_size = 0x2fff\<rparr>]"
  let ?s = "\<lambda>k. \<lparr>bump_allocated = k, buddy_is_init = False, bump_mem = Map.empty\<rparr>"
  have low: "\<forall>r \<in> set ?rs. low_region r" and dis: "disjoint_regions ?rs"
    by (simp_all add: low_region_def)
  have "bump_page 0 ?rs (?s 0) = Ok (0x1000, ?s 1)" "bump_page 0 ?rs (?s 2) = Ok (0x9000, ?s 3)"
    by (simp_all add: bump_page_def Let_def)
  from bump_pages_disjoint[OF low dis this(1) _ this(2)] show ?thesis by auto
qed

text \<open>
  Any run of the boot allocator serves disjoint pages. With usable regions that do not overlap and lie
  below 4 GiB, \<open>m\<close> calls of \<open>bump_page\<close> before the page allocator is up return \<open>m\<close> addresses; two of them
  that are not NULL are different pages of physical memory without a common byte, each inside one of the
  regions.
\<close>

theorem bump_run_disjoint:
  assumes "\<forall>r \<in> set regions. low_region r" and "disjoint_regions regions" and "\<not> buddy_is_init s"
    and "unat (bump_allocated s) + m < 2 ^ 32"
  shows "\<exists>as s'. serve (\<lambda>_ s. bump_page hhdm regions s) (replicate m ()) s = Ok (as, s') \<and> length as = m
     \<and> (\<forall>j<m. \<forall>i<j. as ! i \<noteq> NULL \<and> as ! j \<noteq> NULL \<longrightarrow>
          (\<exists>p q. as ! i = of_nat p + hhdm \<and> as ! j = of_nat q + hhdm \<and> (p + 4096 \<le> q \<or> q + 4096 \<le> p)
             \<and> (\<exists>r \<in> set regions. unat (r_base r) \<le> p \<and> p + 4096 \<le> unat (r_base r) + unat (r_size r))
             \<and> (\<exists>r \<in> set regions. unat (r_base r) \<le> q \<and> q + 4096 \<le> unat (r_base r) + unat (r_size r))))"
proof -
  have inv: "boot_inv regions s (unat (bump_allocated s))" using assms(1-3) by (simp add: boot_inv_def)
  obtain as s' R where r: "serve (\<lambda>_ s. bump_page hhdm regions s) (replicate m ()) s = Ok (as, s')"
    "served (\<lambda>_. boot_page hhdm regions) (boot_room regions (unat (bump_allocated s))) (replicate m ()) as R"
    using ba.serve_served[OF inv, of "replicate m ()" hhdm] assms(4) by auto
  have "\<exists>p q. as ! i = of_nat p + hhdm \<and> as ! j = of_nat q + hhdm \<and> (p + 4096 \<le> q \<or> q + 4096 \<le> p)
             \<and> (\<exists>r \<in> set regions. unat (r_base r) \<le> p \<and> p + 4096 \<le> unat (r_base r) + unat (r_size r))
             \<and> (\<exists>r \<in> set regions. unat (r_base r) \<le> q \<and> q + 4096 \<le> unat (r_base r) + unat (r_size r))"
    if ij: "i < j" "j < m" and n: "as ! i \<noteq> NULL" "as ! j \<noteq> NULL" for i j
  proof -
    obtain X Y where XY: "boot_page hhdm regions (as ! i) X" "boot_page hhdm regions (as ! j) Y" "X \<inter> Y = {}"
      using served_disjoint[OF r(2), of i j] ij by auto
    then obtain p q k l where pq: "as ! i = of_nat p + hhdm" "X = page_bytes p" "nth_page regions k = Some p"
      "as ! j = of_nat q + hhdm" "Y = page_bytes q" "nth_page regions l = Some q"
      using n by (auto simp: boot_page_def)
    have "p + 4096 \<le> q \<or> q + 4096 \<le> p" using XY(3) pq(2,5) by (auto simp: page_bytes_def)
    then show ?thesis using pq(1,4) nth_page_bounds[OF pq(3)] nth_page_bounds[OF pq(6)] by blast
  qed
  then show ?thesis using r served_length[OF r(2)] by auto
qed

theorem bump_run_disjoint_witness:
  "\<exists>as s'. serve (\<lambda>_ s. bump_page 0 [\<lparr>r_base = 0x1000, r_size = 0x1000\<rparr>, \<lparr>r_base = 0x8000, r_size = 0x2fff\<rparr>] s) (replicate 2 ())
       \<lparr>bump_allocated = 0, buddy_is_init = False, bump_mem = Map.empty\<rparr> = Ok (as, s')
     \<and> (\<exists>p q. as ! 0 = of_nat p \<and> as ! 1 = of_nat q \<and> (p + 4096 \<le> q \<or> q + 4096 \<le> p))"
proof -
  let ?rs = "[\<lparr>r_base = 0x1000, r_size = 0x1000\<rparr>, \<lparr>r_base = 0x8000, r_size = 0x2fff\<rparr>]"
  let ?s = "\<lparr>bump_allocated = 0, buddy_is_init = False, bump_mem = Map.empty\<rparr>"
  have rs: "\<forall>r \<in> set ?rs. low_region r" "disjoint_regions ?rs" by (simp_all add: low_region_def)
  have s: "\<not> buddy_is_init ?s" "unat (bump_allocated ?s) + 2 < 2 ^ 32" by simp_all
  from bump_run_disjoint[OF rs s, of 0] obtain as s' where r: "serve (\<lambda>_ s. bump_page 0 ?rs s) (replicate 2 ()) ?s = Ok (as, s')"
    "\<forall>j<2. \<forall>i<j. as ! i \<noteq> NULL \<and> as ! j \<noteq> NULL \<longrightarrow>
          (\<exists>p q. as ! i = of_nat p + 0 \<and> as ! j = of_nat q + 0 \<and> (p + 4096 \<le> q \<or> q + 4096 \<le> p)
             \<and> (\<exists>r \<in> set ?rs. unat (r_base r) \<le> p \<and> p + 4096 \<le> unat (r_base r) + unat (r_size r))
             \<and> (\<exists>r \<in> set ?rs. unat (r_base r) \<le> q \<and> q + 4096 \<le> unat (r_base r) + unat (r_size r)))"
    by (elim exE conjE) (rule that)
  have two: "replicate 2 () = [(), ()]" by (simp add: numeral_2_eq_2)
  have "serve (\<lambda>_ s. bump_page 0 ?rs s) (replicate 2 ()) ?s = Ok ([0x1000, 0x8000], ?s\<lparr>bump_allocated := 2\<rparr>)"
    unfolding two by (simp add: bump_page_def Let_def)
  then have as: "as = [0x1000, 0x8000]" using r(1) by simp
  have "\<exists>p q. as ! 0 = of_nat p \<and> as ! 1 = of_nat q \<and> (p + 4096 \<le> q \<or> q + 4096 \<le> p)"
    using r(2)[rule_format, of 1 0] as by auto
  then show ?thesis using r(1) by blast
qed

text \<open>
  Above 4 GiB the boot allocator returns memory that is not in the memory map. The physical base
  is read into an \<open>unsigned int\<close>: for a single usable region that starts at or above 8 GiB
  every page it returns has a physical address below the region.
\<close>

lemma unat_ucast_32:
  fixes z :: u32
  shows "unat (ucast z :: u64) < 2 ^ 32"
  using unsigned_less[of z, where ?'a = nat]
  by (simp add: unsigned_ucast_eq unsigned_take_bit_eq take_bit_nat_eq_self)

theorem bump_page_truncates_base:
  assumes high: "2 ^ 33 \<le> unat (r_base r)"
    and "bump_page 0 [r] s = Ok (a, s')" and "a \<noteq> NULL"
  shows "unat a < unat (r_base r)"
proof -
  have "bump_scan 0 [r] (bump_allocated s) = Some a"
    using assms(2,3) by (auto simp: bump_page_def split: if_splits option.splits)
  then obtain x y :: u32 where a: "a = ucast x + ucast y"
    by (auto simp: Let_def split: if_splits)
  have "unat a \<le> unat (ucast x :: u64) + unat (ucast y :: u64)"
    unfolding a by (simp add: unat_word_ariths)
  also have "\<dots> < 2 ^ 33" using unat_ucast_32[of x] unat_ucast_32[of y] by simp
  finally show ?thesis using high by simp
qed

theorem bump_page_truncates_base_witness:
  "unat (0x5000 :: addr) < unat (0x300005000 :: addr)"
proof -
  have "bump_page 0 [\<lparr>r_base = 0x300005000, r_size = 0x4000\<rparr>]
      \<lparr>bump_allocated = 0, buddy_is_init = False, bump_mem = Map.empty\<rparr>
      = Ok (0x5000, \<lparr>bump_allocated = 1, buddy_is_init = False, bump_mem = Map.empty\<rparr>)"
    by (simp add: bump_page_def Let_def)
  from bump_page_truncates_base[OF _ this] show ?thesis by simp
qed

end
