(* ===== verification/Klist.thy ===== *)
theory Klist
  imports Prelude
begin

section \<open>dsa/list.c: intrusive lists and the double-ended queue\<close>

text \<open>
  Intrusive list nodes are identified with the structures they are embedded in, so
  \<open>container_of\<close> is the identity and a heap maps the address of a structure to its embedded
  \<open>list_head\<close>. A parameter \<open>struct list_head **head\<close> becomes the value of the head
  variable, returned updated. \<open>dlist\<close> nodes live in a heap of \<open>dnode\<close>s with a \<open>void *\<close>
  value of any type; the address \<open>kzalloc\<close> returns for a new node is an argument (its body is
  not in the repository), and \<open>kfree\<close> of a node takes it out of the heap.
\<close>

record list_head =
  lh_next :: addr
  lh_prev :: addr

type_synonym lheap = "addr \<rightharpoonup> list_head"

definition set_next :: "lheap \<Rightarrow> addr \<Rightarrow> addr \<Rightarrow> lheap result" where
  "set_next h p v = bnd (fetch h p) (\<lambda>n. Ok (h(p \<mapsto> n\<lparr>lh_next := v\<rparr>)))"

definition set_prev :: "lheap \<Rightarrow> addr \<Rightarrow> addr \<Rightarrow> lheap result" where
  "set_prev h p v = bnd (fetch h p) (\<lambda>n. Ok (h(p \<mapsto> n\<lparr>lh_prev := v\<rparr>)))"

definition list_pop_front :: "lheap \<Rightarrow> addr \<Rightarrow> (addr \<times> addr) result" where
  "list_pop_front h head = bnd (fetch h head) (\<lambda>n. Ok (head, lh_next n))"

definition list_push_front :: "lheap \<Rightarrow> addr \<Rightarrow> addr \<Rightarrow> (lheap \<times> addr) result" where
  "list_push_front h head needle =
     bnd (if head \<noteq> NULL then set_prev h head needle else Ok h) (\<lambda>h.
     bnd (set_next h needle head) (\<lambda>h.
     Ok (h, needle)))"

definition list_remove_node :: "lheap \<Rightarrow> addr \<Rightarrow> addr \<Rightarrow> (lheap \<times> addr) result" where
  "list_remove_node h head needle =
     bnd (if head = needle then bnd (fetch h head) (\<lambda>n. Ok (lh_next n)) else Ok head) (\<lambda>head.
     bnd (fetch h needle) (\<lambda>n.
     bnd (if lh_next n \<noteq> NULL then set_prev h (lh_next n) (lh_prev n) else Ok h) (\<lambda>h.
     bnd (fetch h needle) (\<lambda>n.
     bnd (if lh_prev n \<noteq> NULL then set_next h (lh_prev n) (lh_next n) else Ok h) (\<lambda>h.
     bnd (set_next h needle NULL) (\<lambda>h.
     bnd (set_prev h needle NULL) (\<lambda>h.
     Ok (h, head))))))))"

type_synonym sheap = "addr \<rightharpoonup> addr"

definition slist_pop_front :: "sheap \<Rightarrow> addr \<Rightarrow> (addr \<times> addr) result" where
  "slist_pop_front h head = bnd (fetch h head) (\<lambda>nx. Ok (head, nx))"

definition slist_push_front :: "sheap \<Rightarrow> addr \<Rightarrow> addr \<Rightarrow> (sheap \<times> addr) result" where
  "slist_push_front h head needle = bnd (fetch h needle) (\<lambda>_. Ok (h(needle \<mapsto> head), needle))"

subsection \<open>The double-ended queue\<close>

record 'v dnode =
  dn_value :: 'v
  dn_next :: addr
  dn_prev :: addr

record dlist =
  dl_count :: u64
  dl_head :: addr
  dl_tail :: addr

type_synonym 'v dheap = "addr \<rightharpoonup> 'v dnode"

definition set_dnext :: "'v dheap \<Rightarrow> addr \<Rightarrow> addr \<Rightarrow> 'v dheap result" where
  "set_dnext h p v = bnd (fetch h p) (\<lambda>n. Ok (h(p \<mapsto> n\<lparr>dn_next := v\<rparr>)))"

definition set_dprev :: "'v dheap \<Rightarrow> addr \<Rightarrow> addr \<Rightarrow> 'v dheap result" where
  "set_dprev h p v = bnd (fetch h p) (\<lambda>n. Ok (h(p \<mapsto> n\<lparr>dn_prev := v\<rparr>)))"

text \<open>\<open>new\<close> is what \<open>kzalloc(sizeof(struct dnode))\<close> returned: NULL, or a fresh zeroed node.\<close>

definition dlist_front_push :: "addr \<Rightarrow> 'v dheap \<Rightarrow> dlist \<Rightarrow> 'v \<Rightarrow> ('v dheap \<times> dlist) result" where
  "dlist_front_push new h stack value =
     (if new = NULL then Fault Null_Deref else
      let h = h(new \<mapsto> \<lparr>dn_value = value, dn_next = dl_head stack, dn_prev = NULL\<rparr>) in
      bnd (if dl_head stack \<noteq> NULL then set_dprev h (dl_head stack) new else Ok h) (\<lambda>h.
      let stack = stack\<lparr>dl_head := new\<rparr>;
          stack = (if dl_tail stack = NULL then stack\<lparr>dl_tail := dl_head stack\<rparr> else stack)
      in Ok (h, stack\<lparr>dl_count := dl_count stack + 1\<rparr>)))"

text \<open>The returned value is \<open>None\<close> for the NULL of an empty list.\<close>

definition dlist_front_pop :: "'v dheap \<Rightarrow> dlist \<Rightarrow> ('v option \<times> 'v dheap \<times> dlist) result" where
  "dlist_front_pop h stack =
     (let ret = dl_head stack in
      if ret = NULL then Ok (None, h, stack) else
      bnd (fetch h ret) (\<lambda>n.
      bnd (if dn_next n \<noteq> NULL then set_dprev h (dn_next n) NULL else Ok h) (\<lambda>h.
      bnd (fetch h ret) (\<lambda>n.
      let stack = stack\<lparr>dl_head := dn_next n\<rparr>;
          stack = (if dl_head stack = NULL then stack\<lparr>dl_tail := NULL\<rparr> else stack);
          stack = stack\<lparr>dl_count := dl_count stack - 1\<rparr>
      in Ok (Some (dn_value n), h(ret := None), stack)))))"

definition dlist_back_push :: "addr \<Rightarrow> 'v dheap \<Rightarrow> dlist \<Rightarrow> 'v \<Rightarrow> ('v dheap \<times> dlist) result" where
  "dlist_back_push new h queue value =
     (if new = NULL then Fault Null_Deref else
      let h = h(new \<mapsto> \<lparr>dn_value = value, dn_next = NULL, dn_prev = dl_tail queue\<rparr>) in
      bnd (if dl_tail queue \<noteq> NULL then set_dnext h (dl_tail queue) new else Ok h) (\<lambda>h.
      let queue = queue\<lparr>dl_tail := new\<rparr>;
          queue = (if dl_head queue = NULL then queue\<lparr>dl_head := dl_tail queue\<rparr> else queue)
      in Ok (h, queue\<lparr>dl_count := dl_count queue + 1\<rparr>)))"

definition dlist_back_pop :: "'v dheap \<Rightarrow> dlist \<Rightarrow> ('v \<times> 'v dheap \<times> dlist) result" where
  "dlist_back_pop h queue =
     (let ret = dl_tail queue in
      bnd (fetch h ret) (\<lambda>n.
      bnd (if dn_prev n \<noteq> NULL then set_dnext h (dn_prev n) NULL else Ok h) (\<lambda>h.
      bnd (fetch h ret) (\<lambda>n.
      let queue = queue\<lparr>dl_tail := dn_prev n\<rparr>;
          queue = (if dl_tail queue = NULL then queue\<lparr>dl_head := NULL\<rparr> else queue);
          queue = queue\<lparr>dl_count := dl_count queue - 1\<rparr>
      in Ok (dn_value n, h(ret := None), queue)))))"

text \<open>
  The two loops over a whole list follow the pointers, so on a cyclic list they would not end:
  they carry fuel, and \<open>length xs\<close> plus one is enough for a list that holds \<open>xs\<close>. The result is
  the sequence of values passed to \<open>kfree\<close>, or to the destructor and then \<open>kfree\<close>.
\<close>

fun dlist_kfree_values :: "nat \<Rightarrow> 'v dheap \<Rightarrow> dlist \<Rightarrow> ('v list \<times> 'v dheap \<times> dlist) result" where
  "dlist_kfree_values 0 h d = Fault Diverges"
| "dlist_kfree_values (Suc fuel) h d =
     (if dl_head d = NULL then Ok ([], h, d) else
      bnd (dlist_front_pop h d) (\<lambda>(v, h, d).
      bnd (dlist_kfree_values fuel h d) (\<lambda>(vs, h, d).
      Ok ((case v of None \<Rightarrow> vs | Some v \<Rightarrow> v # vs), h, d))))"

fun dlist_destroy_values :: "nat \<Rightarrow> 'v dheap \<Rightarrow> addr \<Rightarrow> 'v list result" where
  "dlist_destroy_values 0 h cur = Fault Diverges"
| "dlist_destroy_values (Suc fuel) h cur =
     (if cur = NULL then Ok [] else
      bnd (fetch h cur) (\<lambda>n.
      bnd (dlist_destroy_values fuel h (dn_next n)) (\<lambda>vs. Ok (dn_value n # vs))))"

definition dlist_remove_item :: "'v dheap \<Rightarrow> dlist \<Rightarrow> addr \<Rightarrow> ('v dheap \<times> dlist) result" where
  "dlist_remove_item h d item =
     (if item = dl_head d then bnd (dlist_front_pop h d) (\<lambda>(_, h, d). Ok (h, d))
      else if item = dl_tail d then bnd (dlist_back_pop h d) (\<lambda>(_, h, d). Ok (h, d))
      else bnd (fetch h item) (\<lambda>n.
           bnd (set_dprev h (dn_next n) (dn_prev n)) (\<lambda>h.
           bnd (fetch h item) (\<lambda>n.
           bnd (set_dnext h (dn_prev n) (dn_next n)) (\<lambda>h.
           Ok (h, d\<lparr>dl_count := dl_count d - 1\<rparr>))))))"

section \<open>Representation of lists by nodes\<close>

text \<open>
  \<open>dseg h pr p xs t e\<close>: from \<open>p\<close> on, the nodes of \<open>xs\<close> (address and value) are linked by
  \<open>dn_next\<close> up to the end pointer \<open>e\<close>; the first one's \<open>dn_prev\<close> is \<open>pr\<close>, each later one's is
  its predecessor, and \<open>t\<close> is the last node, or \<open>pr\<close> where there is none.
\<close>

fun dseg :: "'v dheap \<Rightarrow> addr \<Rightarrow> addr \<Rightarrow> (addr \<times> 'v) list \<Rightarrow> addr \<Rightarrow> addr \<Rightarrow> bool" where
  "dseg h pr p [] t e \<longleftrightarrow> p = e \<and> t = pr"
| "dseg h pr p ((a, v) # xs) t e \<longleftrightarrow>
     p = a \<and> a \<noteq> NULL \<and>
     (\<exists>nx. h a = Some \<lparr>dn_value = v, dn_next = nx, dn_prev = pr\<rparr> \<and> dseg h a nx xs t e)"

definition dlist_rep :: "'v dheap \<Rightarrow> dlist \<Rightarrow> (addr \<times> 'v) list \<Rightarrow> bool" where
  "dlist_rep h d xs \<longleftrightarrow>
     dseg h NULL (dl_head d) xs (dl_tail d) NULL \<and> distinct (map fst xs) \<and>
     dl_count d = of_nat (length xs)"

text \<open>Two heaps agree outside a set of nodes: what an operation leaves alone.\<close>

definition same_outside :: "addr set \<Rightarrow> 'v dheap \<Rightarrow> 'v dheap \<Rightarrow> bool" where
  "same_outside S h h' \<longleftrightarrow> (\<forall>a. a \<notin> S \<longrightarrow> h' a = h a)"

lemma dseg_append:
  "dseg h pr p (xs @ ys) t e \<longleftrightarrow> (\<exists>m u. dseg h pr p xs u m \<and> dseg h u m ys t e)"
  by (induction h pr p xs t e rule: dseg.induct) auto

lemma dseg_snoc:
  "dseg h pr p (xs @ [(a, v)]) t e \<longleftrightarrow>
     a = t \<and> a \<noteq> NULL \<and>
     (\<exists>u. dseg h pr p xs u a \<and> h a = Some \<lparr>dn_value = v, dn_next = e, dn_prev = u\<rparr>)"
  by (auto simp: dseg_append)

lemma dseg_cong:
  "dseg h pr p xs t e \<Longrightarrow> (\<And>a. a \<in> fst ` set xs \<Longrightarrow> h' a = h a) \<Longrightarrow> dseg h' pr p xs t e"
  by (induction h pr p xs t e rule: dseg.induct) auto

lemma dseg_upd [simp]:
  assumes "a \<notin> fst ` set xs"
  shows "dseg (h(a := y)) pr p xs t e = dseg h pr p xs t e"
  by (rule iffI; erule dseg_cong) (use assms in force)+

lemma dseg_not_NULL: "dseg h pr p xs t e \<Longrightarrow> NULL \<notin> fst ` set xs"
  by (induction h pr p xs t e rule: dseg.induct) auto

lemma dseg_dom: "dseg h pr p xs t e \<Longrightarrow> fst ` set xs \<subseteq> dom h"
  by (induction h pr p xs t e rule: dseg.induct) auto

lemma dseg_head_NULL: "dseg h pr NULL xs t NULL \<longleftrightarrow> xs = [] \<and> t = pr"
  by (cases "(h, pr, NULL, xs, t, NULL)" rule: dseg.cases) auto

lemma dseg_tail:
  assumes "dseg h pr p xs t e" and "xs \<noteq> []"
  shows "t = fst (last xs)" and "t \<in> fst ` set xs" and "t \<noteq> NULL"
proof -
  from assms(2) obtain ys a v where xs: "xs = ys @ [(a, v)]"
    by (metis prod.collapse rev_exhaust)
  with assms(1) show "t = fst (last xs)" "t \<in> fst ` set xs" "t \<noteq> NULL"
    by (auto simp: dseg_snoc)
qed

text \<open>The end pointer of a segment is the next pointer of its last node.\<close>

lemma dseg_set_end:
  assumes "dseg h pr p (xs @ [(a, v)]) a e" and "a \<notin> fst ` set xs"
  shows "dseg (h(a \<mapsto> \<lparr>dn_value = v, dn_next = e', dn_prev = dn_prev (the (h a))\<rparr>))
              pr p (xs @ [(a, v)]) a e'"
  using assms by (auto simp: dseg_snoc)

lemma same_outside_refl [simp]: "same_outside S h h"
  by (simp add: same_outside_def)

lemma same_outside_trans:
  "same_outside S h h' \<Longrightarrow> same_outside S h' h'' \<Longrightarrow> same_outside S h h''"
  by (simp add: same_outside_def)

lemma same_outside_mono: "same_outside S h h' \<Longrightarrow> S \<subseteq> T \<Longrightarrow> same_outside T h h'"
  by (auto simp: same_outside_def)

lemma same_outside_upd:
  "a \<in> S \<Longrightarrow> same_outside S h h' \<Longrightarrow> same_outside S h (h'(a := y))"
  by (auto simp: same_outside_def)

lemma dlist_rep_frame:
  "dlist_rep h d xs \<Longrightarrow> same_outside S h h' \<Longrightarrow> S \<inter> fst ` set xs = {} \<Longrightarrow> dlist_rep h' d xs"
  unfolding dlist_rep_def same_outside_def by (blast intro: dseg_cong)

section \<open>The queue operations on represented lists\<close>

lemma dlist_rep_Nil: "dlist_rep h d [] \<longleftrightarrow> dl_head d = NULL \<and> dl_tail d = NULL \<and> dl_count d = 0"
  by (auto simp: dlist_rep_def)

lemma dlist_back_push_rep:
  assumes rep: "dlist_rep h q xs" and new: "new \<notin> fst ` set xs" "new \<noteq> NULL"
  shows "\<exists>h' q'. dlist_back_push new h q v = Ok (h', q') \<and> dlist_rep h' q' (xs @ [(new, v)])
           \<and> same_outside (insert new (fst ` set xs)) h h'"
proof (cases xs rule: rev_cases)
  case Nil
  with rep new show ?thesis
    by (auto simp: dlist_back_push_def dlist_rep_def Let_def same_outside_def)
next
  case (snoc ys aw)
  obtain a w where aw: "aw = (a, w)" by (cases aw)
  from rep snoc aw obtain u where
    seg: "dseg h NULL (dl_head q) ys u a" and ha: "h a = Some \<lparr>dn_value = w, dn_next = NULL, dn_prev = u\<rparr>"
    and a: "a = dl_tail q" "a \<noteq> NULL" and cnt: "dl_count q = of_nat (length xs)"
    and dist: "distinct (map fst xs)"
    by (auto simp: dlist_rep_def dseg_snoc)
  from seg a have hd: "dl_head q \<noteq> NULL"
    by (cases "(h, NULL::addr, dl_head q, ys, u, a)" rule: dseg.cases) auto
  from new snoc aw have neq: "new \<noteq> a" "new \<notin> fst ` set ys" by auto
  from dist snoc aw have "a \<notin> fst ` set ys" by auto
  with seg ha a neq new show ?thesis using cnt dist snoc aw hd
    by (auto simp: dlist_back_push_def dlist_rep_def Let_def same_outside_def set_dnext_def
        fetch_def dseg_snoc dseg_append)
qed

lemma dlist_front_push_rep:
  assumes rep: "dlist_rep h q xs" and new: "new \<notin> fst ` set xs" "new \<noteq> NULL"
  shows "\<exists>h' q'. dlist_front_push new h q v = Ok (h', q') \<and> dlist_rep h' q' ((new, v) # xs)
           \<and> same_outside (insert new (fst ` set xs)) h h'"
proof (cases xs)
  case Nil
  with rep new show ?thesis
    by (auto simp: dlist_front_push_def dlist_rep_def Let_def same_outside_def)
next
  case (Cons aw ys)
  obtain a w where aw: "aw = (a, w)" by (cases aw)
  from rep Cons aw have "dl_tail q \<noteq> NULL"
    using dseg_tail(3)[of h NULL "dl_head q" xs "dl_tail q" NULL] by (simp add: dlist_rep_def)
  with rep Cons aw new show ?thesis
    by (auto simp: dlist_front_push_def dlist_rep_def Let_def same_outside_def set_dprev_def
        fetch_def)
qed

lemma dlist_front_pop_rep:
  assumes rep: "dlist_rep h q ((a, v) # xs)"
  shows "\<exists>h' q'. dlist_front_pop h q = Ok (Some v, h', q') \<and> dlist_rep h' q' xs \<and> h' a = None
           \<and> same_outside (insert a (fst ` set xs)) h h'"
proof (cases xs)
  case Nil
  with rep show ?thesis
    by (auto simp: dlist_front_pop_def dlist_rep_def Let_def same_outside_def fetch_def)
next
  case (Cons bw ys)
  obtain b w where bw: "bw = (b, w)" by (cases bw)
  with rep Cons show ?thesis
    by (auto simp: dlist_front_pop_def dlist_rep_def Let_def same_outside_def fetch_def set_dprev_def)
qed

lemma dlist_front_pop_empty: "dlist_rep h q [] \<Longrightarrow> dlist_front_pop h q = Ok (None, h, q)"
  by (simp add: dlist_front_pop_def dlist_rep_Nil)

lemma dlist_back_pop_rep:
  assumes rep: "dlist_rep h q (xs @ [(a, v)])"
  shows "\<exists>h' q'. dlist_back_pop h q = Ok (v, h', q') \<and> dlist_rep h' q' xs \<and> h' a = None
           \<and> same_outside (insert a (fst ` set xs)) h h'"
proof (cases xs rule: rev_cases)
  case Nil
  with rep show ?thesis
    by (auto simp: dlist_back_pop_def dlist_rep_def Let_def same_outside_def fetch_def)
next
  case (snoc ys bw)
  obtain b w where bw: "bw = (b, w)" by (cases bw)
  from rep have "dseg h NULL (dl_head q) (xs @ [(a, v)]) (dl_tail q) NULL"
    by (simp add: dlist_rep_def)
  then obtain u where seg: "dseg h NULL (dl_head q) xs u a" and a: "a = dl_tail q" "a \<noteq> NULL"
    and ha: "h a = Some \<lparr>dn_value = v, dn_next = NULL, dn_prev = u\<rparr>"
    unfolding dseg_snoc by blast
  from seg snoc bw obtain u' where seg': "dseg h NULL (dl_head q) ys u' b" and b: "b = u" "b \<noteq> NULL"
    and hb: "h b = Some \<lparr>dn_value = w, dn_next = a, dn_prev = u'\<rparr>"
    by (auto simp: dseg_snoc)
  from rep snoc bw seg' a ha b hb show ?thesis
    by (auto simp: dlist_back_pop_def dlist_rep_def Let_def same_outside_def fetch_def set_dnext_def
        dseg_snoc)
qed

lemma dlist_back_pop_empty: "dlist_rep h q [] \<Longrightarrow> dlist_back_pop h q = Fault Null_Deref"
  by (simp add: dlist_back_pop_def dlist_rep_Nil)

lemma dlist_remove_item_rep:
  assumes rep: "dlist_rep h d (xs @ (a, v) # ys)"
  shows "\<exists>h' d'. dlist_remove_item h d a = Ok (h', d') \<and> dlist_rep h' d' (xs @ ys)
           \<and> same_outside (fst ` set (xs @ (a, v) # ys)) h h'"
proof -
  from rep obtain u m where seg: "dseg h NULL (dl_head d) xs u m"
    and seg': "dseg h u m ((a, v) # ys) (dl_tail d) NULL"
    and dist: "distinct (map fst (xs @ (a, v) # ys))"
    and cnt: "dl_count d = of_nat (length (xs @ (a, v) # ys))"
    unfolding dlist_rep_def dseg_append by blast
  then have m: "m = a" "a \<noteq> NULL" by auto
  consider (first) "xs = []" | (final) "xs \<noteq> []" "ys = []" | (inner) "xs \<noteq> []" "ys \<noteq> []"
    by blast
  then show ?thesis
  proof cases
    case first
    with seg m have "dl_head d = a" by simp
    with dlist_front_pop_rep[of h d a v ys] rep first show ?thesis
      by (auto simp: dlist_remove_item_def)
  next
    case final
    with seg' m have tl: "dl_tail d = a" by simp
    from final(1) seg dist have "dl_head d \<noteq> a"
      by (cases xs) auto
    with tl dlist_back_pop_rep[of h d xs a v] rep final show ?thesis
      by (auto simp: dlist_remove_item_def)
  next
    case inner
    from inner(1) obtain xs' c w where xs: "xs = xs' @ [(c, w)]" by (metis prod.collapse rev_exhaust)
    from inner(2) obtain b x ys' where ys: "ys = (b, x) # ys'" by (metis prod.collapse neq_Nil_conv)
    from seg xs m obtain u' where sx: "dseg h NULL (dl_head d) xs' u' c" and c: "c = u" "c \<noteq> NULL"
      and hc: "h c = Some \<lparr>dn_value = w, dn_next = a, dn_prev = u'\<rparr>"
      by (auto simp: dseg_snoc)
    from seg' ys obtain nx where ha: "h a = Some \<lparr>dn_value = v, dn_next = b, dn_prev = u\<rparr>"
      and b: "b \<noteq> NULL" and hb: "h b = Some \<lparr>dn_value = x, dn_next = nx, dn_prev = a\<rparr>"
      and sy: "dseg h b nx ys' (dl_tail d) NULL"
      by auto
    have hd: "dl_head d \<noteq> a"
      using sx dist xs hc by (cases "(h, NULL::addr, dl_head d, xs', u', c)" rule: dseg.cases) auto
    have tl: "dl_tail d \<noteq> a"
      using dseg_tail(2)[of h a b ys "dl_tail d" NULL] seg' ys ha dist by auto
    have ne: "a \<noteq> b" "a \<noteq> c" "b \<noteq> c" and nin: "a \<notin> fst ` set xs'" "a \<notin> fst ` set ys'"
      "b \<notin> fst ` set xs'" "b \<notin> fst ` set ys'" "c \<notin> fst ` set xs'" "c \<notin> fst ` set ys'"
      using dist xs ys by auto
    show ?thesis
      using hd tl m(2) ha hb hc b c sx sy ne nin dist cnt xs ys
      by (auto simp: dlist_remove_item_def set_dprev_def set_dnext_def fetch_def dlist_rep_def
          dseg_append same_outside_def)
  qed
qed

lemma dlist_kfree_values_rep:
  "dlist_rep h d xs \<Longrightarrow> length xs < fuel \<Longrightarrow>
   \<exists>h' d'. dlist_kfree_values fuel h d = Ok (map snd xs, h', d') \<and> dlist_rep h' d' []"
proof (induction xs arbitrary: fuel h d)
  case Nil
  then show ?case by (cases fuel) (auto simp: dlist_rep_Nil)
next
  case (Cons av xs)
  obtain a v where av: "av = (a, v)" by (cases av)
  from Cons.prems obtain f where f: "fuel = Suc f" "length xs < f" by (cases fuel) auto
  from dlist_front_pop_rep[of h d a v xs] Cons.prems(1) av obtain h1 d1
    where pop: "dlist_front_pop h d = Ok (Some v, h1, d1)" "dlist_rep h1 d1 xs" by auto
  from Cons.IH[OF pop(2) f(2)] obtain h2 d2
    where "dlist_kfree_values f h1 d1 = Ok (map snd xs, h2, d2)" "dlist_rep h2 d2 []" by blast
  moreover have "dl_head d \<noteq> NULL" using Cons.prems(1) av by (auto simp: dlist_rep_def)
  ultimately show ?case using f(1) pop(1) av by simp
qed

lemma dlist_destroy_values_seg:
  "dseg h pr p xs t NULL \<Longrightarrow> length xs < fuel \<Longrightarrow>
   dlist_destroy_values fuel h p = Ok (map snd xs)"
proof (induction xs arbitrary: fuel pr p)
  case Nil
  then show ?case by (cases fuel) auto
next
  case (Cons av xs)
  then show ?case by (cases fuel; cases av) (auto simp: fetch_def)
qed

section \<open>The interface of the queue\<close>

text \<open>
  What the clients of \<open>dlist\<close> (the hash map's buckets, path components, directory children) rely
  on: a queue that represents a list of named nodes with values, and four operations on its ends.
\<close>

locale deque =
  fixes rep :: "'h \<Rightarrow> 'd \<Rightarrow> ('n \<times> 'v) list \<Rightarrow> bool"
    and good :: "'n \<Rightarrow> bool"
    and push_back :: "'n \<Rightarrow> 'h \<Rightarrow> 'd \<Rightarrow> 'v \<Rightarrow> ('h \<times> 'd) result"
    and push_front :: "'n \<Rightarrow> 'h \<Rightarrow> 'd \<Rightarrow> 'v \<Rightarrow> ('h \<times> 'd) result"
    and pop_front :: "'h \<Rightarrow> 'd \<Rightarrow> ('v option \<times> 'h \<times> 'd) result"
    and pop_back :: "'h \<Rightarrow> 'd \<Rightarrow> ('v \<times> 'h \<times> 'd) result"
  assumes push_back_law:
      "rep h d xs \<Longrightarrow> n \<notin> fst ` set xs \<Longrightarrow> good n \<Longrightarrow>
       \<exists>h' d'. push_back n h d v = Ok (h', d') \<and> rep h' d' (xs @ [(n, v)])"
    and push_front_law:
      "rep h d xs \<Longrightarrow> n \<notin> fst ` set xs \<Longrightarrow> good n \<Longrightarrow>
       \<exists>h' d'. push_front n h d v = Ok (h', d') \<and> rep h' d' ((n, v) # xs)"
    and pop_front_law:
      "rep h d ((n, v) # xs) \<Longrightarrow> \<exists>h' d'. pop_front h d = Ok (Some v, h', d') \<and> rep h' d' xs"
    and pop_front_empty_law: "rep h d [] \<Longrightarrow> pop_front h d = Ok (None, h, d)"
    and pop_back_law:
      "rep h d (xs @ [(n, v)]) \<Longrightarrow> \<exists>h' d'. pop_back h d = Ok (v, h', d') \<and> rep h' d' xs"

text \<open>Pushing a list of nodes one by one, and popping a number of values.\<close>

fun push_all :: "('n \<Rightarrow> 'h \<Rightarrow> 'd \<Rightarrow> 'v \<Rightarrow> ('h \<times> 'd) result) \<Rightarrow> 'h \<Rightarrow> 'd \<Rightarrow> ('n \<times> 'v) list \<Rightarrow> ('h \<times> 'd) result"
where
  "push_all push h d [] = Ok (h, d)"
| "push_all push h d ((n, v) # nvs) = bnd (push n h d v) (\<lambda>(h, d). push_all push h d nvs)"

fun pop_all :: "('h \<Rightarrow> 'd \<Rightarrow> ('v \<times> 'h \<times> 'd) result) \<Rightarrow> nat \<Rightarrow> 'h \<Rightarrow> 'd \<Rightarrow> ('v list \<times> 'h \<times> 'd) result"
where
  "pop_all pop 0 h d = Ok ([], h, d)"
| "pop_all pop (Suc k) h d =
     bnd (pop h d) (\<lambda>(v, h, d). bnd (pop_all pop k h d) (\<lambda>(vs, h, d). Ok (v # vs, h, d)))"

context deque
begin

lemma push_back_all:
  assumes "rep h d xs" and "distinct (map fst (xs @ nvs))" and "\<forall>n \<in> fst ` set nvs. good n"
  shows "\<exists>h' d'. push_all push_back h d nvs = Ok (h', d') \<and> rep h' d' (xs @ nvs)"
  using assms
proof (induction nvs arbitrary: h d xs)
  case Nil
  then show ?case by simp
next
  case (Cons nv nvs)
  obtain n v where nv: "nv = (n, v)" by (cases nv)
  with Cons.prems have "n \<notin> fst ` set xs" "good n" by auto
  from push_back_law[OF Cons.prems(1) this] obtain h1 d1
    where 1: "push_back n h d v = Ok (h1, d1)" "rep h1 d1 (xs @ [(n, v)])" by blast
  have "\<exists>h' d'. push_all push_back h1 d1 nvs = Ok (h', d') \<and> rep h' d' ((xs @ [(n, v)]) @ nvs)"
    using Cons.prems nv by (intro Cons.IH[OF 1(2)]) auto
  with 1(1) nv show ?case by simp
qed

lemma pop_front_all:
  assumes "rep h d (xs @ ys)"
  shows "\<exists>h' d'. pop_all pop_front (length xs) h d = Ok (map (Some \<circ> snd) xs, h', d') \<and> rep h' d' ys"
  using assms
proof (induction xs arbitrary: h d)
  case Nil
  then show ?case by simp
next
  case (Cons nv xs)
  obtain n v where nv: "nv = (n, v)" by (cases nv)
  from Cons.prems nv obtain h1 d1
    where 1: "pop_front h d = Ok (Some v, h1, d1)" "rep h1 d1 (xs @ ys)"
    using pop_front_law[of h d n v "xs @ ys"] by auto
  from Cons.IH[OF 1(2)] 1(1) nv show ?case by auto
qed

lemma pop_back_all:
  assumes "rep h d (xs @ ys)"
  shows "\<exists>h' d'. pop_all pop_back (length ys) h d = Ok (rev (map snd ys), h', d') \<and> rep h' d' xs"
  using assms
proof (induction ys arbitrary: h d rule: rev_induct)
  case Nil
  then show ?case by simp
next
  case (snoc nv ys)
  obtain n v where nv: "nv = (n, v)" by (cases nv)
  from snoc.prems nv obtain h1 d1
    where 1: "pop_back h d = Ok (v, h1, d1)" "rep h1 d1 (xs @ ys)"
    using pop_back_law[of h d "xs @ ys" n v] by auto
  from snoc.IH[OF 1(2)] 1(1) nv show ?case by auto
qed

text \<open>Pushed at the back, values come out at the front in order, and at the back reversed.\<close>

lemma fifo:
  assumes "rep h d []" and "distinct (map fst nvs)" and "\<forall>n \<in> fst ` set nvs. good n"
  shows "\<exists>h' d'. bnd (push_all push_back h d nvs) (\<lambda>(h, d). pop_all pop_front (length nvs) h d)
           = Ok (map (Some \<circ> snd) nvs, h', d') \<and> rep h' d' []"
  using push_back_all[OF assms(1), of nvs] pop_front_all[where ys = "[]"] assms(2,3)
  by (fastforce simp: result_simps)

lemma lifo:
  assumes "rep h d []" and "distinct (map fst nvs)" and "\<forall>n \<in> fst ` set nvs. good n"
  shows "\<exists>h' d'. bnd (push_all push_back h d nvs) (\<lambda>(h, d). pop_all pop_back (length nvs) h d)
           = Ok (rev (map snd nvs), h', d') \<and> rep h' d' []"
  using push_back_all[OF assms(1), of nvs] pop_back_all[where xs = "[]"] assms(2,3)
  by (fastforce simp: result_simps)

end

interpretation dq: deque dlist_rep "\<lambda>n. n \<noteq> NULL" dlist_back_push dlist_front_push
    dlist_front_pop dlist_back_pop
proof unfold_locales
  fix h :: "'a dheap" and d xs n and v :: 'a
  show "\<exists>h' d'. dlist_back_push n h d v = Ok (h', d') \<and> dlist_rep h' d' (xs @ [(n, v)])"
    if "dlist_rep h d xs" "n \<notin> fst ` set xs" "n \<noteq> NULL"
    using dlist_back_push_rep[OF that, of v] by auto
  show "\<exists>h' d'. dlist_front_push n h d v = Ok (h', d') \<and> dlist_rep h' d' ((n, v) # xs)"
    if "dlist_rep h d xs" "n \<notin> fst ` set xs" "n \<noteq> NULL"
    using dlist_front_push_rep[OF that, of v] by auto
  show "\<exists>h' d'. dlist_front_pop h d = Ok (Some v, h', d') \<and> dlist_rep h' d' xs"
    if "dlist_rep h d ((n, v) # xs)"
    using dlist_front_pop_rep[OF that] by auto
  show "dlist_front_pop h d = Ok (None, h, d)" if "dlist_rep h d []"
    using that by (rule dlist_front_pop_empty)
  show "\<exists>h' d'. dlist_back_pop h d = Ok (v, h', d') \<and> dlist_rep h' d' xs"
    if "dlist_rep h d (xs @ [(n, v)])"
    using dlist_back_pop_rep[OF that] by auto
qed

section \<open>Intrusive lists\<close>

text \<open>
  \<open>lseg h pr p xs t e\<close>: the nodes \<open>xs\<close> are linked from \<open>p\<close> to \<open>e\<close>, each later node's \<open>lh_prev\<close>
  is its predecessor, the first one's is \<open>pr\<close>, and \<open>t\<close> is the last one, or \<open>pr\<close>. A list ends at
  NULL. Neither \<open>list_pop_front\<close> nor \<open>list_push_front\<close> writes the new head's \<open>lh_prev\<close>, so
  \<open>pr\<close> need not be NULL.
\<close>

fun lseg :: "lheap \<Rightarrow> addr \<Rightarrow> addr \<Rightarrow> addr list \<Rightarrow> addr \<Rightarrow> addr \<Rightarrow> bool" where
  "lseg h pr p [] t e \<longleftrightarrow> p = e \<and> t = pr"
| "lseg h pr p (a # as) t e \<longleftrightarrow>
     p = a \<and> a \<noteq> NULL \<and> (\<exists>nx. h a = Some \<lparr>lh_next = nx, lh_prev = pr\<rparr> \<and> lseg h a nx as t e)"

definition llist :: "lheap \<Rightarrow> addr \<Rightarrow> addr \<Rightarrow> addr list \<Rightarrow> bool" where
  "llist h pr p xs \<longleftrightarrow> (\<exists>t. lseg h pr p xs t NULL)"

lemma llist_Nil [simp]: "llist h pr p [] \<longleftrightarrow> p = NULL"
  by (simp add: llist_def)

lemma llist_Cons [simp]:
  "llist h pr p (a # as) \<longleftrightarrow>
     p = a \<and> a \<noteq> NULL \<and> (\<exists>nx. h a = Some \<lparr>lh_next = nx, lh_prev = pr\<rparr> \<and> llist h a nx as)"
  by (auto simp: llist_def)

lemma lseg_append:
  "lseg h pr p (xs @ ys) t e \<longleftrightarrow> (\<exists>m u. lseg h pr p xs u m \<and> lseg h u m ys t e)"
  by (induction h pr p xs t e rule: lseg.induct) auto

lemma llist_append: "llist h pr p (xs @ ys) \<longleftrightarrow> (\<exists>m u. lseg h pr p xs u m \<and> llist h u m ys)"
  by (auto simp: llist_def lseg_append)

lemma lseg_cong:
  "lseg h pr p xs t e \<Longrightarrow> (\<And>a. a \<in> set xs \<Longrightarrow> h' a = h a) \<Longrightarrow> lseg h' pr p xs t e"
  by (induction h pr p xs t e rule: lseg.induct) auto

lemma lseg_upd [simp]: "a \<notin> set xs \<Longrightarrow> lseg (h(a := y)) pr p xs t e = lseg h pr p xs t e"
  by (rule iffI; erule lseg_cong) auto

lemma llist_upd [simp]: "a \<notin> set xs \<Longrightarrow> llist (h(a := y)) pr p xs = llist h pr p xs"
  by (simp add: llist_def)

lemma llist_cong:
  "llist h pr p xs \<Longrightarrow> (\<And>a. a \<in> set xs \<Longrightarrow> h' a = h a) \<Longrightarrow> llist h' pr p xs"
  unfolding llist_def by (blast intro: lseg_cong)

lemma llist_not_NULL: "llist h pr p xs \<Longrightarrow> NULL \<notin> set xs"
  by (induction xs arbitrary: pr p) auto

lemma llist_head: "llist h pr p xs \<Longrightarrow> p = (case xs of [] \<Rightarrow> NULL | a # _ \<Rightarrow> a)"
  by (cases xs) auto

lemma llist_dom: "llist h pr p xs \<Longrightarrow> set xs \<subseteq> dom h"
  by (induction xs arbitrary: pr p) auto

lemma list_push_front_llist:
  assumes "llist h pr p xs" and "distinct xs" and "a \<notin> set xs" and "a \<noteq> NULL" and "h a = Some n"
  shows "\<exists>h'. list_push_front h p a = Ok (h', a) \<and> llist h' (lh_prev n) a (a # xs)
           \<and> (\<forall>b. b \<notin> set (a # xs) \<longrightarrow> h' b = h b)"
proof (cases xs)
  case Nil
  with assms show ?thesis by (auto simp: list_push_front_def set_next_def)
next
  case (Cons b ys)
  with assms show ?thesis
    by (auto simp: list_push_front_def set_next_def set_prev_def fetch_def)
qed

lemma list_pop_front_llist:
  "llist h pr p (a # xs) \<Longrightarrow> \<exists>nx. list_pop_front h p = Ok (a, nx) \<and> llist h a nx xs"
  by (auto simp: list_pop_front_def)

lemma list_pop_front_NULL: "list_pop_front h NULL = Fault Null_Deref"
  by (simp add: list_pop_front_def)

text \<open>
  Removing a node is right where it is not the head, or where the head's \<open>lh_prev\<close> is NULL; the
  removed node comes out with both pointers cleared.
\<close>

lemma list_remove_head_llist:
  assumes "llist h NULL p (a # ys)" and "distinct (a # ys)"
  shows "\<exists>h' p'. list_remove_node h p a = Ok (h', p') \<and> llist h' NULL p' ys
           \<and> h' a = Some \<lparr>lh_next = NULL, lh_prev = NULL\<rparr>
           \<and> (\<forall>b. b \<notin> set (a # ys) \<longrightarrow> h' b = h b)"
  using assms
  by (cases ys) (auto simp: list_remove_node_def set_next_def set_prev_def fetch_def)

lemma list_remove_inner_llist:
  assumes "llist h pr p (xs @ c # a # ys)" and "distinct (xs @ c # a # ys)"
  shows "\<exists>h'. list_remove_node h p a = Ok (h', p) \<and> llist h' pr p (xs @ c # ys)
           \<and> h' a = Some \<lparr>lh_next = NULL, lh_prev = NULL\<rparr>
           \<and> (\<forall>b. b \<notin> set (xs @ c # a # ys) \<longrightarrow> h' b = h b)"
proof -
  from assms(1) obtain u nx
    where seg: "lseg h pr p xs u c" and c: "c \<noteq> NULL" "h c = Some \<lparr>lh_next = a, lh_prev = u\<rparr>"
    and a: "a \<noteq> NULL" "h a = Some \<lparr>lh_next = nx, lh_prev = c\<rparr>" and ys: "llist h a nx ys"
    by (auto simp: llist_append)
  have p: "p \<noteq> a" using seg assms(2) by (cases xs) auto
  show ?thesis
  proof (cases ys)
    case Nil
    with seg c a ys p assms(2) show ?thesis
      by (auto simp: list_remove_node_def set_next_def set_prev_def fetch_def llist_append)
  next
    case (Cons b zs)
    with seg c a ys p assms(2) show ?thesis
      by (auto simp: list_remove_node_def set_next_def set_prev_def fetch_def llist_append)
  qed
qed

lemma list_remove_llist:
  assumes "llist h pr p (xs @ a # ys)" and "distinct (xs @ a # ys)" and "xs = [] \<Longrightarrow> pr = NULL"
  shows "\<exists>h' p'. list_remove_node h p a = Ok (h', p') \<and> llist h' pr p' (xs @ ys)
           \<and> h' a = Some \<lparr>lh_next = NULL, lh_prev = NULL\<rparr>
           \<and> (\<forall>b. b \<notin> set (xs @ a # ys) \<longrightarrow> h' b = h b)"
proof (cases xs rule: rev_cases)
  case Nil
  then show ?thesis using list_remove_head_llist[of h p a ys] assms by auto
next
  case (snoc zs c)
  then show ?thesis using list_remove_inner_llist[of h pr p zs c a ys] assms by auto
qed

text \<open>Removing a head whose \<open>lh_prev\<close> is stale writes the \<open>lh_next\<close> of that other node.\<close>

lemma list_remove_stale_head:
  assumes "llist h pr p (a # ys)" and "distinct (a # ys)"
    and "pr \<noteq> NULL" and "pr \<notin> set (a # ys)" and "h pr = Some n"
  shows "\<exists>h' p'. list_remove_node h p a = Ok (h', p') \<and> llist h' pr p' ys
           \<and> h' pr = Some (n\<lparr>lh_next := p'\<rparr>)"
  using assms
  by (cases ys) (auto simp: list_remove_node_def set_next_def set_prev_def fetch_def)

lemma slist_push_pop:
  "slist_push_front h p a = Ok (h', p') \<Longrightarrow> slist_pop_front h' p' = Ok (a, p)"
  by (auto simp: slist_push_front_def slist_pop_front_def result_simps)

section \<open>Any sequence of queue operations\<close>

text \<open>
  The operations on a \<open>dlist\<close> as data, their run on the heap, and their meaning on the list of
  nodes; \<open>None\<close> is a call the queue's contract excludes (a node that is not fresh, a pop from the
  back of an empty queue, the removal of a node that is not in the queue).
\<close>

datatype 'v dq_op =
    Front_Push addr 'v | Back_Push addr 'v | Front_Pop | Back_Pop | Remove_Item addr

fun dq_step :: "'v dq_op \<Rightarrow> 'v dheap \<Rightarrow> dlist \<Rightarrow> ('v option \<times> 'v dheap \<times> dlist) result" where
  "dq_step (Front_Push n v) h d = bnd (dlist_front_push n h d v) (\<lambda>(h, d). Ok (None, h, d))"
| "dq_step (Back_Push n v) h d = bnd (dlist_back_push n h d v) (\<lambda>(h, d). Ok (None, h, d))"
| "dq_step Front_Pop h d = dlist_front_pop h d"
| "dq_step Back_Pop h d = bnd (dlist_back_pop h d) (\<lambda>(v, h, d). Ok (Some v, h, d))"
| "dq_step (Remove_Item n) h d = bnd (dlist_remove_item h d n) (\<lambda>(h, d). Ok (None, h, d))"

fun dq_spec :: "'v dq_op \<Rightarrow> (addr \<times> 'v) list \<Rightarrow> ('v option \<times> (addr \<times> 'v) list) option" where
  "dq_spec (Front_Push n v) xs =
     (if n \<noteq> NULL \<and> n \<notin> fst ` set xs then Some (None, (n, v) # xs) else None)"
| "dq_spec (Back_Push n v) xs =
     (if n \<noteq> NULL \<and> n \<notin> fst ` set xs then Some (None, xs @ [(n, v)]) else None)"
| "dq_spec Front_Pop xs = (case xs of [] \<Rightarrow> Some (None, []) | (_, v) # ys \<Rightarrow> Some (Some v, ys))"
| "dq_spec Back_Pop xs = (if xs = [] then None else Some (Some (snd (last xs)), butlast xs))"
| "dq_spec (Remove_Item n) xs =
     (if n \<in> fst ` set xs then Some (None, filter (\<lambda>(m, _). m \<noteq> n) xs) else None)"

fun dq_run :: "'v dq_op list \<Rightarrow> 'v dheap \<Rightarrow> dlist \<Rightarrow> ('v option list \<times> 'v dheap \<times> dlist) result" where
  "dq_run [] h d = Ok ([], h, d)"
| "dq_run (x # ops) h d =
     bnd (dq_step x h d) (\<lambda>(r, h, d). bnd (dq_run ops h d) (\<lambda>(rs, h, d). Ok (r # rs, h, d)))"

fun dq_spec_run :: "'v dq_op list \<Rightarrow> (addr \<times> 'v) list \<Rightarrow> ('v option list \<times> (addr \<times> 'v) list) option" where
  "dq_spec_run [] xs = Some ([], xs)"
| "dq_spec_run (x # ops) xs =
     (case dq_spec x xs of None \<Rightarrow> None
      | Some (r, ys) \<Rightarrow> (case dq_spec_run ops ys of None \<Rightarrow> None
          | Some (rs, zs) \<Rightarrow> Some (r # rs, zs)))"

lemma filter_remove_node:
  assumes "distinct (map fst (ys @ (n, v) # zs))"
  shows "filter (\<lambda>(m, _). m \<noteq> n) (ys @ (n, v) # zs) = ys @ zs"
proof -
  have keep: "filter (\<lambda>(m, _). m \<noteq> n) us = us" if "n \<notin> fst ` set us" for us :: "('a \<times> 'b) list"
    using that by (force simp: filter_id_conv)
  from assms show ?thesis by (simp add: keep)
qed

lemma dq_step_refines:
  assumes rep: "dlist_rep h d xs" and spec: "dq_spec x xs = Some (r, ys)"
  shows "\<exists>h' d'. dq_step x h d = Ok (r, h', d') \<and> dlist_rep h' d' ys"
proof (cases x)
  case (Front_Push n v)
  with spec dq.push_front_law[OF rep, of n v] show ?thesis by (auto split: if_splits)
next
  case (Back_Push n v)
  with spec dq.push_back_law[OF rep, of n v] show ?thesis by (auto split: if_splits)
next
  case Front_Pop
  with spec rep dq.pop_front_law dq.pop_front_empty_law show ?thesis
    by (cases xs) (fastforce split: prod.splits)+
next
  case Back_Pop
  with spec have ne: "xs \<noteq> []" and r: "r = Some (snd (last xs))" "ys = butlast xs"
    by (auto split: if_splits)
  then have "xs = ys @ [(fst (last xs), snd (last xs))]" by simp
  with rep dq.pop_back_law[of h d ys] obtain h' d'
    where "dlist_back_pop h d = Ok (snd (last xs), h', d')" "dlist_rep h' d' ys" by metis
  with Back_Pop r show ?thesis by simp
next
  case (Remove_Item n)
  with spec have "n \<in> fst ` set xs" and r: "r = None" "ys = filter (\<lambda>(m, _). m \<noteq> n) xs"
    by (auto split: if_splits)
  then obtain us v vs where xs: "xs = us @ (n, v) # vs"
    by (auto dest: split_list)
  moreover from this rep have "ys = us @ vs"
    using filter_remove_node[of us n v vs] r by (simp add: dlist_rep_def)
  ultimately show ?thesis
    using dlist_remove_item_rep[of h d us n v vs] rep Remove_Item r by auto
qed

section \<open>Properties of dsa/list.c\<close>

text \<open>
  C5: \<open>dlist\<close> implements a double-ended queue: for every sequence of pushes and pops at both ends and
  removals of items that the contract allows, starting from a queue that represents a list, the
  heap code runs without a fault, returns the values the list operations return, and leaves a queue
  that represents the resulting list.
\<close>

theorem dlist_refines_deque:
  assumes "dlist_rep h d xs" and "dq_spec_run ops xs = Some (rs, ys)"
  shows "\<exists>h' d'. dq_run ops h d = Ok (rs, h', d') \<and> dlist_rep h' d' ys"
  using assms
proof (induction ops arbitrary: h d xs rs)
  case Nil
  then show ?case by simp
next
  case (Cons x ops)
  from Cons.prems(2) obtain r zs rs' where "dq_spec x xs = Some (r, zs)"
    and rest: "dq_spec_run ops zs = Some (rs', ys)" and rs: "rs = r # rs'"
    by (auto split: option.splits)
  then obtain h1 d1 where "dq_step x h d = Ok (r, h1, d1)" and rep1: "dlist_rep h1 d1 zs"
    using dq_step_refines[OF Cons.prems(1)] by blast
  with Cons.IH[OF rep1 rest] rs show ?case by auto
qed

theorem dlist_refines_deque_witness:
  "\<exists>h' d'. dq_run [Back_Push 8 (1::nat), Front_Push 16 2, Back_Push 24 3, Remove_Item 8, Back_Pop]
       Map.empty \<lparr>dl_count = 0, dl_head = 0, dl_tail = 0\<rparr>
     = Ok ([None, None, None, None, Some 3], h', d') \<and> dlist_rep h' d' [(16, 2)]"
proof (rule dlist_refines_deque)
  show "dlist_rep Map.empty \<lparr>dl_count = 0, dl_head = 0, dl_tail = 0\<rparr> ([] :: (addr \<times> nat) list)"
    by (simp add: dlist_rep_Nil)
qed simp

text \<open>
  \<open>list_remove_node\<close> unlinks: from a doubly linked list whose head has a NULL \<open>prev\<close> it removes
  exactly the given node, wherever it stands, clears both its pointers, and touches no node outside
  the list.
\<close>

theorem list_remove_node_unlinks:
  assumes "llist h NULL p (xs @ a # ys)" and "distinct (xs @ a # ys)"
  shows "\<exists>h' p'. list_remove_node h p a = Ok (h', p') \<and> llist h' NULL p' (xs @ ys)
           \<and> h' a = Some \<lparr>lh_next = NULL, lh_prev = NULL\<rparr>
           \<and> (\<forall>b. b \<notin> set (xs @ a # ys) \<longrightarrow> h' b = h b)"
  using list_remove_llist[OF assms] by blast

theorem list_remove_node_unlinks_witness:
  "\<exists>h' p'. list_remove_node [8 \<mapsto> \<lparr>lh_next = 16, lh_prev = 0\<rparr>, 16 \<mapsto> \<lparr>lh_next = 24, lh_prev = 8\<rparr>,
       24 \<mapsto> \<lparr>lh_next = 0, lh_prev = 16\<rparr>] 8 16 = Ok (h', p') \<and> llist h' NULL p' [8, 24]"
proof -
  let ?h = "[8 \<mapsto> \<lparr>lh_next = 16, lh_prev = 0\<rparr>, 16 \<mapsto> \<lparr>lh_next = 24, lh_prev = 8\<rparr>,
       24 \<mapsto> \<lparr>lh_next = 0, lh_prev = 16\<rparr>] :: lheap"
  have "llist ?h NULL 8 ([8] @ 16 # [24])" by simp
  moreover have "distinct ([8] @ 16 # [24 :: addr])" by simp
  ultimately show ?thesis using list_remove_node_unlinks[of ?h 8 "[8]" 16 "[24]"] by auto
qed

text \<open>
  \<open>list_pop_front\<close> leaves the next node's \<open>prev\<close> pointing at the node it took off, and a later
  \<open>list_remove_node\<close> of that new head writes through it: the node that was popped, and no longer
  belongs to the list, gets a new \<open>next\<close> pointer. (In the page allocator that word of \<open>struct page\<close>
  is shared with the \<open>slab\<close> and \<open>mempool\<close> owner pointers.)
\<close>

theorem pop_then_remove_writes_popped:
  assumes "llist h pr p (a # b # c # xs)" and "distinct (a # b # c # xs)"
  shows "\<exists>q h' n. list_pop_front h p = Ok (a, q) \<and> q = b
           \<and> list_remove_node h q b = Ok (h', c) \<and> llist h' a c (c # xs)
           \<and> h a = Some n \<and> lh_next n = b \<and> h' a = Some (n\<lparr>lh_next := c\<rparr>)"
proof -
  from list_pop_front_llist[OF assms(1)] assms(1)
  have pop: "list_pop_front h p = Ok (a, b)" and rest: "llist h a b (b # c # xs)" by auto
  from assms(1) have a: "a \<noteq> NULL" "h a = Some \<lparr>lh_next = b, lh_prev = pr\<rparr>" by auto
  from list_remove_stale_head[OF rest _ a(1) _ a(2)] assms(2) obtain h' p'
    where "list_remove_node h b b = Ok (h', p')" "llist h' a p' (c # xs)"
      "h' a = Some (\<lparr>lh_next = b, lh_prev = pr\<rparr>\<lparr>lh_next := p'\<rparr>)" by auto
  with pop a show ?thesis by auto
qed

theorem pop_then_remove_writes_popped_witness:
  "\<exists>q h' n. list_pop_front [8 \<mapsto> \<lparr>lh_next = 16, lh_prev = 0\<rparr>, 16 \<mapsto> \<lparr>lh_next = 24, lh_prev = 8\<rparr>,
       24 \<mapsto> \<lparr>lh_next = 0, lh_prev = 16\<rparr>] 8 = Ok (8, q) \<and> q = 16
     \<and> list_remove_node [8 \<mapsto> \<lparr>lh_next = 16, lh_prev = 0\<rparr>, 16 \<mapsto> \<lparr>lh_next = 24, lh_prev = 8\<rparr>,
       24 \<mapsto> \<lparr>lh_next = 0, lh_prev = 16\<rparr>] q 16 = Ok (h', 24)
     \<and> h' 8 = Some (n\<lparr>lh_next := 24\<rparr>)"
proof -
  let ?h = "[8 \<mapsto> \<lparr>lh_next = 16, lh_prev = 0\<rparr>, 16 \<mapsto> \<lparr>lh_next = 24, lh_prev = 8\<rparr>,
       24 \<mapsto> \<lparr>lh_next = 0, lh_prev = 16\<rparr>] :: lheap"
  have "llist ?h NULL 8 (8 # 16 # 24 # [])" by simp
  moreover have "distinct (8 # 16 # 24 # [] :: addr list)" by simp
  ultimately show ?thesis using pop_then_remove_writes_popped[of ?h NULL 8 8 16 24 "[]"] by blast
qed

end
