(* ===== verification/Spinlock.thy ===== *)
theory Spinlock
  imports Prelude
begin

section \<open>arch/x86-64/spinlock.c: locks and interrupt nesting\<close>

text \<open>
  Two models. The first is what one CPU computes when nobody else moves: the lock word, the
  nesting counter \<open>cli_count\<close> of the CPU and its interrupt flag; an acquire of a lock that is
  taken spins for ever, a \<open>Deadlock\<close>. The components use its lock part, \<open>lock_word\<close> and
  \<open>unlock_word\<close>. The second is the concurrent machine: any number of CPUs, each going through the
  machine steps of \<open>acquire\<close> and \<open>release\<close> on one shared lock word, in any interleaving.
\<close>

record cpu =
  lapic_id :: u64
  cli_count :: u64
  preempt_count :: u64
  hz :: u64
  current_task :: addr
  tss_ptr :: addr

definition MAX_CPUS :: nat where "MAX_CPUS = 16"

text \<open>\<open>cpu_cores\<close>, and the interrupt flag of each CPU.\<close>

record cores =
  cpu_cores :: "cpu list"
  irq_on :: "nat \<Rightarrow> bool"

definition cpu_at :: "cores \<Rightarrow> nat \<Rightarrow> cpu result" where
  "cpu_at s i = (if i < length (cpu_cores s) then Ok (cpu_cores s ! i) else Fault Out_Of_Bounds)"

definition set_cpu :: "cores \<Rightarrow> nat \<Rightarrow> cpu \<Rightarrow> cores" where
  "set_cpu s i c = s\<lparr>cpu_cores := (cpu_cores s)[i := c]\<rparr>"

definition pushcli :: "nat \<Rightarrow> cores \<Rightarrow> cores result" where
  "pushcli me s =
     bnd (cpu_at s me) (\<lambda>c.
     let s = set_cpu s me (c\<lparr>cli_count := cli_count c + 1\<rparr>)
     in Ok (s\<lparr>irq_on := (irq_on s)(me := False)\<rparr>))"

definition popcli :: "nat \<Rightarrow> cores \<Rightarrow> cores result" where
  "popcli me s =
     bnd (cpu_at s me) (\<lambda>c.
     let n = cli_count c - 1;
         s = set_cpu s me (c\<lparr>cli_count := n\<rparr>)
     in Ok (if n = 0 then s\<lparr>irq_on := (irq_on s)(me := True)\<rparr> else s))"

text \<open>\<open>raw_acquire\<close>: exchange 1 with the lock word until the old value is 0.\<close>

definition lock_word :: "u64 \<Rightarrow> u64 result" where
  "lock_word locked = (if locked = 0 then Ok 1 else Fault Deadlock)"

definition unlock_word :: "u64 \<Rightarrow> u64" where
  "unlock_word locked = 0"

definition acquire :: "nat \<Rightarrow> u64 \<Rightarrow> cores \<Rightarrow> (u64 \<times> cores) result" where
  "acquire me lock s = bnd (pushcli me s) (\<lambda>s. bnd (lock_word lock) (\<lambda>l. Ok (l, s)))"

definition release :: "nat \<Rightarrow> u64 \<Rightarrow> cores \<Rightarrow> (u64 \<times> cores) result" where
  "release me lock s = (let l = unlock_word lock in bnd (popcli me s) (\<lambda>s. Ok (l, s)))"

definition preempt_enable :: "nat \<Rightarrow> cores \<Rightarrow> cores result" where
  "preempt_enable me s =
     bnd (cpu_at s me) (\<lambda>c.
       Ok (if preempt_count c \<noteq> 0 then set_cpu s me (c\<lparr>preempt_count := preempt_count c - 1\<rparr>) else s))"

definition preempt_disable :: "nat \<Rightarrow> cores \<Rightarrow> cores result" where
  "preempt_disable me s =
     bnd (cpu_at s me) (\<lambda>c. Ok (set_cpu s me (c\<lparr>preempt_count := preempt_count c + 1\<rparr>)))"

lemma lock_word_simps [simp]:
  "lock_word 0 = Ok 1" "lock_word 1 = Fault Deadlock" "unlock_word l = 0"
  by (simp_all add: lock_word_def unlock_word_def)

lemma lock_word_eq_Ok [result_simps]: "lock_word l = Ok k \<longleftrightarrow> l = 0 \<and> k = 1"
  by (auto simp: lock_word_def)

subsection \<open>Interrupt nesting\<close>

text \<open>
  Interrupts are on exactly where the nesting counter is zero. It holds from the moment
  \<open>limine_init\<close> sets every counter to one with interrupts off.
\<close>

definition irq_inv :: "cores \<Rightarrow> bool" where
  "irq_inv s \<longleftrightarrow> (\<forall>i < length (cpu_cores s). irq_on s i \<longleftrightarrow> cli_count (cpu_cores s ! i) = 0)"

lemma pushcli_popcli:
  assumes me: "me < length (cpu_cores s)" and inv: "irq_inv s"
  shows "bnd (pushcli me s) (popcli me) = Ok s"
proof (cases "cli_count (cpu_cores s ! me) = 0")
  case True
  let ?c = "cpu_cores s ! me"
  have "?c\<lparr>cli_count := 0\<rparr> = ?c" using True by (metis cpu.update_convs(2) cpu.surjective)
  then have "(cpu_cores s)[me := ?c\<lparr>cli_count := 0\<rparr>] = cpu_cores s" by simp
  moreover have "(irq_on s)(me := True) = irq_on s"
    using me inv True by (simp add: irq_inv_def fun_upd_idem)
  ultimately show ?thesis
    using me True by (simp add: pushcli_def popcli_def cpu_at_def set_cpu_def Let_def)
next
  case False
  then have "(irq_on s)(me := False) = irq_on s"
    using me inv by (simp add: irq_inv_def fun_upd_idem)
  then show ?thesis
    using me False by (simp add: pushcli_def popcli_def cpu_at_def set_cpu_def Let_def)
qed

lemma pushcli_inv:
  assumes "irq_inv s" and "pushcli me s = Ok s'"
    and "cli_count (cpu_cores s ! me) \<noteq> - 1"
  shows "irq_inv s' \<and> \<not> irq_on s' me"
proof -
  have "x + 1 = 0 \<longleftrightarrow> x = - 1" for x :: u64
    by (metis add.right_neutral add_right_cancel add.left_inverse)
  then show ?thesis
    using assms
    by (auto simp: pushcli_def cpu_at_def set_cpu_def Let_def irq_inv_def nth_list_update split: if_splits)
qed

lemma popcli_inv:
  assumes "irq_inv s" and "popcli me s = Ok s'" and "cli_count (cpu_cores s ! me) \<noteq> 0"
  shows "irq_inv s'"
  using assms
  by (auto simp: popcli_def cpu_at_def set_cpu_def Let_def irq_inv_def nth_list_update split: if_splits)


section \<open>The concurrent machine\<close>

text \<open>
  Where a CPU stands in \<open>acquire\<close> or \<open>release\<close> of the one lock considered; each constructor is the
  next machine step: \<open>cli_count++\<close>, \<open>cli\<close>, the locked exchange, the critical section, the store
  of 0, and the decrement with its conditional \<open>sti\<close>.
\<close>

datatype lock_pc = Outside | At_Cli | At_Xchg | Critical | At_Pop

record lock_sys =
  lk :: u64
  pc :: "nat \<Rightarrow> lock_pc"
  depth :: "nat \<Rightarrow> nat"
  irq :: "nat \<Rightarrow> bool"

definition lock_init :: lock_sys where
  "lock_init = \<lparr>lk = 0, pc = (\<lambda>_. Outside), depth = (\<lambda>_. 0), irq = (\<lambda>_. True)\<rparr>"

inductive lock_step :: "lock_sys \<Rightarrow> lock_sys \<Rightarrow> bool" where
  count_up: "pc s i = Outside \<Longrightarrow>
     lock_step s (s\<lparr>pc := (pc s)(i := At_Cli), depth := (depth s)(i := Suc (depth s i))\<rparr>)"
| cli: "pc s i = At_Cli \<Longrightarrow>
     lock_step s (s\<lparr>pc := (pc s)(i := At_Xchg), irq := (irq s)(i := False)\<rparr>)"
| xchg_taken: "pc s i = At_Xchg \<Longrightarrow> lk s \<noteq> 0 \<Longrightarrow> lock_step s (s\<lparr>lk := 1\<rparr>)"
| xchg_free: "pc s i = At_Xchg \<Longrightarrow> lk s = 0 \<Longrightarrow>
     lock_step s (s\<lparr>lk := 1, pc := (pc s)(i := Critical)\<rparr>)"
| unlock: "pc s i = Critical \<Longrightarrow>
     lock_step s (s\<lparr>lk := 0, pc := (pc s)(i := At_Pop)\<rparr>)"
| count_down: "pc s i = At_Pop \<Longrightarrow>
     lock_step s (s\<lparr>pc := (pc s)(i := Outside), depth := (depth s)(i := depth s i - 1),
                    irq := (irq s)(i := (if depth s i - 1 = 0 then True else irq s i))\<rparr>)"

inductive lock_reachable :: "lock_sys \<Rightarrow> bool" where
  init: "lock_reachable lock_init"
| step: "lock_reachable s \<Longrightarrow> lock_step s t \<Longrightarrow> lock_reachable t"

inductive_cases lock_stepE: "lock_step s t"

definition lock_inv :: "lock_sys \<Rightarrow> bool" where
  "lock_inv s \<longleftrightarrow>
     (\<forall>i j. pc s i = Critical \<longrightarrow> pc s j = Critical \<longrightarrow> i = j) \<and>
     (lk s \<noteq> 0 \<longleftrightarrow> (\<exists>i. pc s i = Critical)) \<and>
     (\<forall>i. depth s i = (if pc s i = Outside then 0 else 1)) \<and>
     (\<forall>i. irq s i \<longleftrightarrow> pc s i = Outside \<or> pc s i = At_Cli)"

lemma lock_inv_init: "lock_inv lock_init"
  by (simp add: lock_inv_def lock_init_def)

lemma lock_step_inv: "lock_step s t \<Longrightarrow> lock_inv s \<Longrightarrow> lock_inv t"
proof (induction rule: lock_step.induct)
  case (unlock s i)
  then have "\<forall>j. pc s j = Critical \<longrightarrow> j = i" by (auto simp: lock_inv_def)
  with unlock show ?case by (auto simp: lock_inv_def)
next
  case (xchg_free s i)
  then have "\<forall>j. pc s j \<noteq> Critical" by (auto simp: lock_inv_def)
  with xchg_free show ?case by (auto simp: lock_inv_def)
next
  case (count_up s i)
  then have "\<forall>j. ((pc s)(i := At_Cli)) j = Critical \<longleftrightarrow> pc s j = Critical" by auto
  with count_up show ?case by (simp add: lock_inv_def)
next
  case (cli s i)
  then have "\<forall>j. ((pc s)(i := At_Xchg)) j = Critical \<longleftrightarrow> pc s j = Critical" by auto
  with cli show ?case by (simp add: lock_inv_def)
next
  case (xchg_taken s i)
  then show ?case unfolding lock_inv_def by simp
next
  case (count_down s i)
  then have "\<forall>j. ((pc s)(i := Outside)) j = Critical \<longleftrightarrow> pc s j = Critical" by auto
  with count_down show ?case by (simp add: lock_inv_def)
qed

lemma lock_reachable_inv: "lock_reachable s \<Longrightarrow> lock_inv s"
  by (induction rule: lock_reachable.induct) (auto intro: lock_inv_init lock_step_inv)

section \<open>Properties of spinlock.c\<close>

text \<open>
  C11: Mutual exclusion. In every state the CPUs can reach by interleaving the machine steps of
  \<open>acquire\<close> and \<open>release\<close>, at most one is in the critical section, the lock word is nonzero exactly
  while one is, and that CPU has interrupts off.
\<close>

theorem spinlock_mutual_exclusion:
  assumes "lock_reachable s" and "pc s i = Critical"
  shows "(\<forall>j. pc s j = Critical \<longrightarrow> j = i) \<and> lk s \<noteq> 0 \<and> \<not> irq s i"
  using lock_reachable_inv[OF assms(1)] assms(2) unfolding lock_inv_def by auto

theorem spinlock_mutual_exclusion_witness:
  "\<exists>s. pc s 3 = Critical \<and> lock_reachable s \<and> (\<forall>j. pc s j = Critical \<longrightarrow> j = 3)"
proof -
  let ?s1 = "lock_init\<lparr>pc := (pc lock_init)(3 := At_Cli), depth := (depth lock_init)(3 := Suc (depth lock_init 3))\<rparr>"
  let ?s2 = "?s1\<lparr>pc := (pc ?s1)(3 := At_Xchg), irq := (irq ?s1)(3 := False)\<rparr>"
  let ?s3 = "?s2\<lparr>lk := 1, pc := (pc ?s2)(3 := Critical)\<rparr>"
  have "lock_step lock_init ?s1" by (rule lock_step.count_up) (simp add: lock_init_def)
  moreover have "lock_step ?s1 ?s2" by (rule lock_step.cli) simp
  moreover have "lock_step ?s2 ?s3" by (rule lock_step.xchg_free) (simp_all add: lock_init_def)
  ultimately have r: "lock_reachable ?s3" by (blast intro: lock_reachable.intros)
  moreover have c: "pc ?s3 3 = Critical" by simp
  ultimately show ?thesis using spinlock_mutual_exclusion[OF r c] by blast
qed

text \<open>
  \<open>acquire\<close> then \<open>release\<close> on one CPU is neutral: where interrupts are on exactly if the nesting
  counter is zero, taking a free lock and releasing it gives back the free lock, the nesting counter
  and the interrupt flag of every CPU; in between, interrupts are off.
\<close>

theorem acquire_release_neutral:
  assumes "me < length (cpu_cores s)" and "irq_inv s"
  shows "\<exists>s1. acquire me 0 s = Ok (1, s1) \<and> \<not> irq_on s1 me \<and> release me 1 s1 = Ok (0, s)"
proof -
  obtain s1 where push: "pushcli me s = Ok s1"
    using assms(1) by (auto simp: pushcli_def cpu_at_def Let_def)
  then have "popcli me s1 = Ok s" using pushcli_popcli[OF assms] by simp
  moreover have "\<not> irq_on s1 me"
    using push by (auto simp: pushcli_def Let_def set_cpu_def result_simps)
  ultimately show ?thesis using push by (simp add: acquire_def release_def Let_def)
qed

theorem acquire_release_neutral_witness:
  "\<exists>s1. release 0 1 s1 = Ok (0, \<lparr>cpu_cores = [\<lparr>lapic_id = 0, cli_count = 0, preempt_count = 0,
     hz = 0, current_task = 0, tss_ptr = 0\<rparr>], irq_on = (\<lambda>_. True)\<rparr>)"
proof -
  let ?s = "\<lparr>cpu_cores = [\<lparr>lapic_id = 0, cli_count = 0, preempt_count = 0,
     hz = 0, current_task = 0, tss_ptr = 0\<rparr>], irq_on = (\<lambda>_. True)\<rparr>"
  have "irq_inv ?s" by (simp add: irq_inv_def)
  from acquire_release_neutral[OF _ this, of 0] show ?thesis by auto
qed

end
