(* ===== verification/Buddy.thy ===== *)
theory Buddy
  imports Bump Klist Spinlock
begin

section \<open>mm/buddy.c: the physical page allocator\<close>

text \<open>
  \<open>struct page\<close> lives in the array at \<open>sparsemap_array\<close>, 64 bytes per page frame number, and pages
  keep their real addresses. The fields of a page the allocator uses are its flags and order
  (\<open>pages\<close>) and its embedded list node (\<open>blist\<close>); an address with no entry is a part of the array
  that \<open>sparse_init\<close> did not map. The union of \<open>struct page\<close> lays the owner pointer of a slab or
  mempool page over \<open>buddy_list.next\<close>. Orders are natural numbers: every caller passes a literal or
  a loop variable that is not negative.
\<close>

definition sparsemap_array :: addr where "sparsemap_array = 0xffffc00000000000"

definition MAX_ORDER :: nat where "MAX_ORDER = 15"

definition N_ORDERS :: nat where "N_ORDERS = 16"

definition MAX_BUDDY_ZONES :: nat where "MAX_BUDDY_ZONES = 32"

definition pfn_to_page :: "u64 \<Rightarrow> addr" where
  "pfn_to_page pfn = sparsemap_array + pfn * 64"

definition page_to_pfn :: "addr \<Rightarrow> u64" where
  "page_to_pfn pg = signed_drop_bit 6 (pg - sparsemap_array)"

definition pfn_to_virt :: "u64 \<Rightarrow> u64 \<Rightarrow> addr" where
  "pfn_to_virt hhdm pfn = push_bit 12 pfn + hhdm"

definition page_to_virt :: "u64 \<Rightarrow> addr \<Rightarrow> addr" where
  "page_to_virt hhdm pg = pfn_to_virt hhdm (page_to_pfn pg)"

definition hhdm_to_page :: "u64 \<Rightarrow> addr \<Rightarrow> addr" where
  "hhdm_to_page hhdm a = pfn_to_page (drop_bit 12 (a - hhdm))"

record page =
  pg_flags :: u64
  pg_order :: nat

record buddy_freelist =
  fl_head :: addr
  fl_count :: u32

record buddy_zone =
  z_base :: u64
  z_size :: u32

datatype zpage_source = From_Bump | From_Buddy

record buddy_state =
  pages :: "addr \<rightharpoonup> page"
  blist :: lheap
  buddy_lists :: "buddy_freelist list"
  buddy_zones :: "buddy_zone list"
  kmem_lock :: u64
  buddy_initialized :: bool
  mapper_alloc_zpage :: zpage_source
  phys_mem :: mem

definition PAGE_FLAG_FREE :: u64 where "PAGE_FLAG_FREE = 1"

definition valid_buddy_pfn :: "buddy_state \<Rightarrow> u64 \<Rightarrow> bool" where
  "valid_buddy_pfn s pfn =
     list_ex (\<lambda>z. z_base z \<le> pfn \<and> z_base z + ucast (z_size z) > pfn) (buddy_zones s)"

definition get_buddy :: "u64 \<Rightarrow> nat \<Rightarrow> u64" where
  "get_buddy pfn order = pfn XOR push_bit order 1"

definition list_at :: "buddy_state \<Rightarrow> nat \<Rightarrow> buddy_freelist result" where
  "list_at s k = (if k < N_ORDERS then Ok (buddy_lists s ! k) else Fault Out_Of_Bounds)"

definition remove_from_freelist :: "buddy_state \<Rightarrow> addr \<Rightarrow> buddy_state result" where
  "remove_from_freelist s page =
     bnd (fetch (pages s) page) (\<lambda>p.
     bnd (list_at s (pg_order p)) (\<lambda>fl.
     bnd (list_remove_node (blist s) (fl_head fl) page) (\<lambda>(bl, hd).
     Ok (s\<lparr>blist := bl,
           buddy_lists := (buddy_lists s)[pg_order p := \<lparr>fl_head = hd, fl_count = fl_count fl - 1\<rparr>],
           pages := (pages s)(page \<mapsto> p\<lparr>pg_flags := pg_flags p AND NOT PAGE_FLAG_FREE\<rparr>)\<rparr>))))"

definition direct_free :: "buddy_state \<Rightarrow> addr \<Rightarrow> nat \<Rightarrow> buddy_state result" where
  "direct_free s page order =
     bnd (fetch (pages s) page) (\<lambda>p.
     bnd (list_at s order) (\<lambda>fl.
     bnd (list_push_front (blist s) (fl_head fl) page) (\<lambda>(bl, hd).
     Ok (s\<lparr>blist := bl,
           buddy_lists := (buddy_lists s)[order := \<lparr>fl_head = hd, fl_count = fl_count fl + 1\<rparr>],
           pages := (pages s)(page \<mapsto> p\<lparr>pg_flags := pg_flags p OR PAGE_FLAG_FREE, pg_order := order\<rparr>)\<rparr>))))"

lemma remove_from_freelist_order:
  "remove_from_freelist s p = Ok s' \<Longrightarrow> \<exists>q. pages s p = Some q \<and> pg_order q < N_ORDERS"
  by (auto simp: remove_from_freelist_def list_at_def result_simps split: if_splits)

text \<open>
  \<open>free_pages_nolock\<close>. The buddy's frame number passes through an \<open>unsigned int\<close>. The shift
  \<open>1 << order\<close> of an \<open>int\<close> overflows from order 31 on.
\<close>

function free_pages_nolock :: "buddy_state \<Rightarrow> addr \<Rightarrow> nat \<Rightarrow> buddy_state result" where
  "free_pages_nolock s page order =
     (if 31 \<le> order then Fault Overflow else
      let pfn = page_to_pfn page;
          buddy_pfn = (ucast (get_buddy pfn order) :: u32);
          buddy_page = pfn_to_page (ucast buddy_pfn)
      in
      if \<not> valid_buddy_pfn s (ucast buddy_pfn) then direct_free s page order else
      bnd (fetch (pages s) buddy_page) (\<lambda>b.
      if pg_flags b AND PAGE_FLAG_FREE = 0 then direct_free s page order
      else if pg_order b \<noteq> order then direct_free s page order
      else if pg_order b = MAX_ORDER then direct_free s page order
      else
      bnd (remove_from_freelist s buddy_page) (\<lambda>s.
      if ucast buddy_pfn > pfn
      then free_pages_nolock s page (order + 1)
      else free_pages_nolock s buddy_page (order + 1))))"
  by pat_completeness auto
termination
  by (relation "measure (\<lambda>(s, p, k). N_ORDERS - k)")
    (auto simp: N_ORDERS_def result_simps dest!: remove_from_freelist_order)

declare free_pages_nolock.simps [simp del]

definition free_pages :: "buddy_state \<Rightarrow> addr \<Rightarrow> nat \<Rightarrow> buddy_state result" where
  "free_pages s page order =
     bnd (lock_word (kmem_lock s)) (\<lambda>l.
     bnd (free_pages_nolock (s\<lparr>kmem_lock := l\<rparr>) page order) (\<lambda>s.
     Ok (s\<lparr>kmem_lock := unlock_word (kmem_lock s)\<rparr>)))"

definition free_page :: "buddy_state \<Rightarrow> addr \<Rightarrow> buddy_state result" where
  "free_page s page = free_pages s page 0"

function alloc_pages_nolock :: "buddy_state \<Rightarrow> nat \<Rightarrow> (addr \<times> buddy_state) result" where
  "alloc_pages_nolock s order =
     (if order > MAX_ORDER then Fault Halted else
      let fl = buddy_lists s ! order in
      if fl_count fl > 0
      then bnd (list_pop_front (blist s) (fl_head fl)) (\<lambda>(ret, hd).
           Ok (ret, s\<lparr>buddy_lists := (buddy_lists s)[order := \<lparr>fl_head = hd, fl_count = fl_count fl - 1\<rparr>]\<rparr>))
      else if order = MAX_ORDER then Ok (NULL, s)
      else
      bnd (alloc_pages_nolock s (order + 1)) (\<lambda>(ret, s).
      if ret = NULL then Ok (NULL, s) else
      let buddy_pfn = get_buddy (page_to_pfn ret) order in
      bnd (free_pages_nolock s (pfn_to_page buddy_pfn) order) (\<lambda>s.
      bnd (fetch (pages s) ret) (\<lambda>p.
      Ok (ret, s\<lparr>pages := (pages s)(ret \<mapsto> p\<lparr>pg_flags := pg_flags p AND NOT PAGE_FLAG_FREE\<rparr>)\<rparr>)))))"
  by pat_completeness auto
termination
  by (relation "measure (\<lambda>(s, k). N_ORDERS - k)") (auto simp: N_ORDERS_def MAX_ORDER_def)

declare alloc_pages_nolock.simps [simp del]

definition BUDDY_ZERO :: u32 where "BUDDY_ZERO = 1"

text \<open>The zeroing is done on \<open>page_to_virt(ret)\<close> also when \<open>ret\<close> is NULL.\<close>

definition alloc_pages :: "u64 \<Rightarrow> buddy_state \<Rightarrow> nat \<Rightarrow> u32 \<Rightarrow> (addr \<times> buddy_state) result" where
  "alloc_pages hhdm s order flags =
     (if flags AND NOT BUDDY_ZERO \<noteq> 0 then Ok (NULL, s) else
      bnd (lock_word (kmem_lock s)) (\<lambda>l.
      bnd (alloc_pages_nolock (s\<lparr>kmem_lock := l\<rparr>) order) (\<lambda>(ret, s).
      let s = s\<lparr>kmem_lock := unlock_word (kmem_lock s)\<rparr> in
      if flags AND BUDDY_ZERO \<noteq> 0
      then bnd (memset (phys_mem s) (page_to_virt hhdm ret) 0 (push_bit order 4096)) (\<lambda>(_, m).
           Ok (ret, s\<lparr>phys_mem := m\<rparr>))
      else Ok (ret, s))))"

definition alloc_page :: "u64 \<Rightarrow> buddy_state \<Rightarrow> (addr \<times> buddy_state) result" where
  "alloc_page hhdm s = alloc_pages hhdm s 0 0"

definition pgalloc :: "u64 \<Rightarrow> buddy_state \<Rightarrow> (addr \<times> buddy_state) result" where
  "pgalloc hhdm s = bnd (alloc_pages hhdm s 0 0) (\<lambda>(pg, s). Ok (page_to_virt hhdm pg, s))"

definition pgzalloc :: "u64 \<Rightarrow> buddy_state \<Rightarrow> (addr \<times> buddy_state) result" where
  "pgzalloc hhdm s = bnd (alloc_pages hhdm s 0 BUDDY_ZERO) (\<lambda>(pg, s). Ok (page_to_virt hhdm pg, s))"

definition pgfree :: "u64 \<Rightarrow> buddy_state \<Rightarrow> addr \<Rightarrow> buddy_state result" where
  "pgfree hhdm s a = free_page s (hhdm_to_page hhdm a)"

subsection \<open>buddy_init\<close>

text \<open>
  The order loop compares the pages left with \<open>1 << cur_order\<close>. \<open>i\<close> and \<open>page_idx\<close> are \<open>int\<close>s;
  a zone of \<open>2^31\<close> pages or more overflows them.
\<close>

function init_order :: "nat \<Rightarrow> nat \<Rightarrow> nat" where
  "init_order left cur_order =
     (if left < 2 ^ cur_order \<and> cur_order < MAX_ORDER then init_order left (cur_order + 1) else cur_order)"
  by pat_completeness auto
termination by (relation "measure (\<lambda>(l, c). MAX_ORDER - c)") auto

declare init_order.simps [simp del]

function init_zone :: "u32 \<Rightarrow> buddy_zone \<Rightarrow> nat \<Rightarrow> nat \<Rightarrow> buddy_state \<Rightarrow> (nat \<times> buddy_state) result" where
  "init_zone bump z i page_idx s =
     (if 2 ^ 31 \<le> i \<or> 2 ^ 31 \<le> page_idx then Fault Overflow else
      if i < unat (z_size z)
      then if page_idx < unat bump then init_zone bump z (i + 1) (page_idx + 1) s
           else let cur_order = init_order (unat (z_size z) - i) 0;
                    pfn = z_base z + of_nat i
                in bnd (free_pages s (pfn_to_page pfn) cur_order) (\<lambda>s.
                   init_zone bump z (i + 2 ^ cur_order + 1) (page_idx + 2 ^ cur_order) s)
      else Ok (page_idx, s))"
  by pat_completeness auto
termination by (relation "measure (\<lambda>(b, z, i, p, s). unat (z_size z) - i)") auto

declare init_zone.simps [simp del]

fun init_zones :: "u32 \<Rightarrow> buddy_zone list \<Rightarrow> nat \<Rightarrow> buddy_state \<Rightarrow> (nat \<times> buddy_state) result" where
  "init_zones bump [] page_idx s = Ok (page_idx, s)"
| "init_zones bump (z # zs) page_idx s =
     bnd (init_zone bump z 0 page_idx s) (\<lambda>(page_idx, s). init_zones bump zs page_idx s)"

definition zone_of_region :: "region \<Rightarrow> buddy_zone" where
  "zone_of_region r = \<lparr>z_base = drop_bit 12 (r_base r), z_size = ucast (drop_bit 12 (r_size r))\<rparr>"

definition buddy_init :: "region list \<Rightarrow> u32 \<Rightarrow> buddy_state \<Rightarrow> buddy_state result" where
  "buddy_init regions bump s =
     (if length regions > MAX_BUDDY_ZONES then Fault Out_Of_Bounds else
      let zones = List.map zone_of_region regions @ drop (length regions) (buddy_zones s);
          s = s\<lparr>buddy_zones := zones\<rparr>
      in bnd (init_zones bump zones 0 s) (\<lambda>(_, s).
         Ok (s\<lparr>buddy_initialized := True, mapper_alloc_zpage := From_Buddy\<rparr>)))"

section \<open>Frame numbers, pages and blocks\<close>

text \<open>
  Frame numbers as natural numbers below \<open>2^32\<close>, the range in which the truncation of the buddy's
  frame number changes nothing. \<open>pg n\<close> is the page of frame \<open>n\<close>; \<open>blk n k\<close> are the frames of the
  block of order \<open>k\<close> at \<open>n\<close>.
\<close>

definition pg :: "nat \<Rightarrow> addr" where "pg n = pfn_to_page (of_nat n)"

definition bud :: "nat \<Rightarrow> nat \<Rightarrow> nat" where
  "bud n k = (if even (n div 2 ^ k) then n + 2 ^ k else n - 2 ^ k)"

definition blk :: "nat \<Rightarrow> nat \<Rightarrow> nat set" where "blk n k = {n..<n + 2 ^ k}"

lemma word_of_nat_less_2_32: "n < 2 ^ 32 \<Longrightarrow> unat (of_nat n :: u64) = n"
  by (simp add: unat_of_nat)

lemma unat_of_nat_scaled: "n < 2 ^ 32 \<Longrightarrow> unat ((of_nat n :: u64) * 64) = n * 64"
proof -
  assume n: "n < 2 ^ 32"
  have "unat (of_nat (n * 64) :: u64) = n * 64" using n by (simp add: unat_of_nat del: of_nat_mult)
  then show ?thesis by simp
qed

lemma pg_inj: "n < 2 ^ 32 \<Longrightarrow> m < 2 ^ 32 \<Longrightarrow> pg n = pg m \<longleftrightarrow> n = m"
proof
  assume n: "n < 2 ^ 32" and m: "m < 2 ^ 32" and "pg n = pg m"
  then have "unat ((of_nat n :: u64) * 64) = unat ((of_nat m :: u64) * 64)"
    by (simp add: pg_def pfn_to_page_def)
  then show "n = m" using n m by (simp add: unat_of_nat_scaled)
qed simp

lemma pg_not_NULL [simp]: "n < 2 ^ 32 \<Longrightarrow> pg n \<noteq> NULL"
proof
  assume n: "n < 2 ^ 32" and "pg n = NULL"
  then have "(of_nat n :: u64) * 64 = - sparsemap_array"
    by (simp add: pg_def pfn_to_page_def eq_neg_iff_add_eq_0 add.commute)
  then have "n * 64 = unat (- sparsemap_array)" using unat_of_nat_scaled[OF n] by simp
  also have "\<dots> = 0x400000000000" by (simp add: sparsemap_array_def)
  finally show False using n by simp
qed

lemma page_to_pfn_pg: "n < 2 ^ 32 \<Longrightarrow> page_to_pfn (pg n) = of_nat n"
proof -
  assume n: "n < 2 ^ 32"
  have "signed_drop_bit 6 (push_bit 6 (of_nat n :: u64)) = of_nat n"
  proof (rule bit_word_eqI)
    fix i assume i: "i < LENGTH(64)"
    have hi: "\<not> bit (of_nat n :: u64) j" if "32 \<le> j" for j
    proof -
      have "n < 2 ^ j" using n that by (meson order_less_le_trans one_le_numeral power_increasing)
      then have "\<not> bit (unat (of_nat n :: u64)) j"
        using n by (simp add: word_of_nat_less_2_32 bit_iff_odd)
      then show ?thesis by (simp add: bit_unsigned_iff)
    qed
    show "bit (signed_drop_bit 6 (push_bit 6 (of_nat n :: u64))) i = bit (of_nat n :: u64) i"
      using i hi by (auto simp: bit_signed_drop_bit_iff bit_push_bit_iff not_le min_def)
  qed
  then show ?thesis by (simp add: page_to_pfn_def pg_def pfn_to_page_def push_bit_eq_mult)
qed

lemma xor_even_bit: "even (n div 2 ^ k) \<Longrightarrow> n XOR 2 ^ k = n + 2 ^ k" for n :: nat
proof -
  assume "even (n div 2 ^ k)"
  then have b: "\<not> bit n k" by (simp add: bit_iff_odd)
  have "n XOR 2 ^ k = flip_bit k n" by (simp add: flip_bit_eq_xor push_bit_eq_mult)
  also have "\<dots> = n + 2 ^ k" using b by (simp add: flip_bit_eq_if set_bit_eq)
  finally show ?thesis .
qed

lemma xor_bud: "n XOR 2 ^ k = bud n k"
proof (cases "even (n div 2 ^ k)")
  case True
  then show ?thesis by (simp add: bud_def xor_even_bit)
next
  case False
  define m where "m = n - 2 ^ k"
  have "2 ^ k \<le> n" using False by (metis div_less even_zero not_le)
  then have n: "n = m + 2 ^ k" by (simp add: m_def)
  then have "n div 2 ^ k = Suc (m div 2 ^ k)" by (simp add: div_add_self2)
  then have "even (m div 2 ^ k)" using False by simp
  then have "m XOR 2 ^ k = n" using n by (simp add: xor_even_bit)
  then have "n XOR 2 ^ k = m" by (metis xor.assoc xor.right_neutral xor_self_eq)
  then show ?thesis using False by (simp add: bud_def m_def)
qed

lemma get_buddy_nat:
  assumes "n < 2 ^ 32" and "k < 64"
  shows "unat (get_buddy (of_nat n) k) = bud n k"
proof -
  have "unat (push_bit k 1 :: u64) = 2 ^ k"
    using unat_of_nat[of "2 ^ k", where ?'a = 64] power_strict_increasing[of k 64 "2::nat"] assms(2)
    by (simp add: push_bit_eq_mult take_bit_nat_eq_self)
  then show ?thesis
    using assms(1) by (simp add: get_buddy_def unsigned_xor_eq xor_bud word_of_nat_less_2_32)
qed

subsection \<open>Aligned blocks\<close>

lemma blk_mem: "x \<in> blk n k \<longleftrightarrow> n \<le> x \<and> x < n + 2 ^ k"
  by (simp add: blk_def)

lemma blk_first [simp]: "n \<in> blk n k"
  by (simp add: blk_def)

lemma bud_cases:
  assumes "2 ^ k dvd n"
  obtains (left) "bud n k = n + 2 ^ k" "2 ^ Suc k dvd n"
  | (right) "2 ^ k \<le> n" "n = bud n k + 2 ^ k" "2 ^ Suc k dvd bud n k"
proof -
  obtain q where q: "n = 2 ^ k * q" using assms by blast
  show ?thesis
  proof (cases "even q")
    case True
    then show ?thesis using left q by (auto simp: bud_def mult.commute)
  next
    case False
    then obtain r where "q = Suc (2 * r)" by (auto elim: oddE)
    then show ?thesis using right q by (auto simp: bud_def algebra_simps)
  qed
qed

lemma bud_aligned: "2 ^ k dvd n \<Longrightarrow> 2 ^ k dvd bud n k"
  by (erule bud_cases[of k n]) (auto simp: dvd_add_right_iff intro: dvd_trans[OF le_imp_power_dvd])

section \<open>The pool of free blocks\<close>

text \<open>
  The abstract state: \<open>L k\<close> lists the first frames of the free blocks of order \<open>k\<close>. \<open>blocks_ok\<close>:
  blocks are aligned, below frame \<open>2^31\<close> (8 TiB) and pairwise disjoint. \<open>lists_ok\<close>: each freelist of
  the code is a well-formed list of exactly these pages with the right count; \<open>pr k\<close> is what the
  \<open>prev\<close> field of the head of list \<open>k\<close> holds, which pops and pushes do not keep at NULL.
  \<open>marks_ok\<close>: the first page of a free block carries the block's order.
\<close>

type_synonym blocks = "nat \<Rightarrow> nat list"

definition free_set :: "blocks \<Rightarrow> nat set" where
  "free_set L = (\<Union>k \<in> {..<16}. \<Union>n \<in> set (L k). blk n k)"

definition blocks_ok :: "blocks \<Rightarrow> bool" where
  "blocks_ok L \<longleftrightarrow>
     (\<forall>k < 16. distinct (L k) \<and> (\<forall>n \<in> set (L k). 2 ^ k dvd n \<and> n + 2 ^ k \<le> 2 ^ 31)) \<and>
     (\<forall>k < 16. \<forall>j < 16. \<forall>n \<in> set (L k). \<forall>m \<in> set (L j). (n, k) = (m, j) \<or> blk n k \<inter> blk m j = {})"

definition lists_ok :: "buddy_state \<Rightarrow> (nat \<Rightarrow> addr) \<Rightarrow> blocks \<Rightarrow> bool" where
  "lists_ok s pr L \<longleftrightarrow> length (buddy_lists s) = 16 \<and>
     (\<forall>k < 16. llist (blist s) (pr k) (fl_head (buddy_lists s ! k)) (List.map pg (L k))
              \<and> fl_count (buddy_lists s ! k) = of_nat (length (L k)))"

definition marks_ok :: "buddy_state \<Rightarrow> blocks \<Rightarrow> bool" where
  "marks_ok s L \<longleftrightarrow>
     (\<forall>k < 16. \<forall>n \<in> set (L k). (\<exists>p. pages s (pg n) = Some p \<and> pg_order p = k)
              \<and> (\<forall>x \<in> blk n k. pg x \<in> dom (pages s) \<and> pg x \<in> dom (blist s)))"

definition pool :: "buddy_state \<Rightarrow> (nat \<Rightarrow> addr) \<Rightarrow> blocks \<Rightarrow> bool" where
  "pool s pr L \<longleftrightarrow> blocks_ok L \<and> lists_ok s pr L \<and> marks_ok s L"

lemma free_set_iff: "x \<in> free_set L \<longleftrightarrow> (\<exists>k n. k < 16 \<and> n \<in> set (L k) \<and> x \<in> blk n k)"
  by (auto simp: free_set_def)

lemma free_set_mem: "k < 16 \<Longrightarrow> n \<in> set (L k) \<Longrightarrow> blk n k \<subseteq> free_set L"
  by (auto simp: free_set_def)

lemma free_set_first: "k < 16 \<Longrightarrow> n \<in> set (L k) \<Longrightarrow> n \<in> free_set L"
  by (drule (1) free_set_mem[THEN subsetD]) auto

lemma free_set_insert: "k < 16 \<Longrightarrow> free_set (L(k := n # L k)) = free_set L \<union> blk n k"
  by (rule set_eqI) (auto simp: free_set_iff split: if_splits; metis)

lemma blocks_insert:
  assumes "blocks_ok L" and k: "k < 16" and "2 ^ k dvd n" and "n + 2 ^ k \<le> 2 ^ 31"
    and dis: "blk n k \<inter> free_set L = {}"
  shows "blocks_ok (L(k := n # L k))"
proof -
  have new: "n \<notin> set (L k)" using dis free_set_first[OF k] by force
  have apart: "blk n k \<inter> blk m j = {}" if "j < 16" "m \<in> set (L j)" for m j
    using dis free_set_mem[of j m L] that by blast
  show ?thesis
    unfolding blocks_ok_def
  proof (intro conjI allI impI ballI)
    fix i assume "i < (16 :: nat)"
    then show "distinct ((L(k := n # L k)) i)" using assms(1) new by (auto simp: blocks_ok_def)
    fix m assume "m \<in> set ((L(k := n # L k)) i)"
    then show "2 ^ i dvd m" "m + 2 ^ i \<le> 2 ^ 31"
      using assms(1,3,4) \<open>i < 16\<close> by (auto simp: blocks_ok_def split: if_splits)
  next
    fix i j x y assume ij: "i < (16 :: nat)" "j < (16 :: nat)"
      and "x \<in> set ((L(k := n # L k)) i)" "y \<in> set ((L(k := n # L k)) j)"
    then have "x \<in> set (L i) \<or> (x, i) = (n, k)" "y \<in> set (L j) \<or> (y, j) = (n, k)"
      by (auto split: if_splits)
    then show "(x, i) = (y, j) \<or> blk x i \<inter> blk y j = {}"
      using apart[of j y] apart[of i x] ij assms(1) unfolding blocks_ok_def by blast
  qed
qed

lemma blocks_remove:
  assumes ok: "blocks_ok L" and k: "k < 16" and L: "L k = xs @ n # ys"
  shows "blocks_ok (L(k := xs @ ys))" and "free_set (L(k := xs @ ys)) = free_set L - blk n k"
proof -
  have apart: "blk n k \<inter> blk m j = {}" if "j < 16" "m \<in> set (L j)" "(m, j) \<noteq> (n, k)" for m j
    using ok k L that unfolding blocks_ok_def by (metis in_set_conv_decomp)
  have d: "n \<notin> set xs" "n \<notin> set ys" using ok k L by (auto simp: blocks_ok_def)
  show "free_set (L(k := xs @ ys)) = free_set L - blk n k"
  proof (intro set_eqI iffI)
    fix x assume "x \<in> free_set (L(k := xs @ ys))"
    then obtain j m where "j < 16" "m \<in> set ((L(k := xs @ ys)) j)" "x \<in> blk m j"
      unfolding free_set_def by blast
    moreover from this have "m \<in> set (L j)" "(m, j) \<noteq> (n, k)" using d L by (auto split: if_splits)
    ultimately show "x \<in> free_set L - blk n k" using apart[of j m] free_set_mem[of j m L] by blast
  next
    fix x assume "x \<in> free_set L - blk n k"
    then show "x \<in> free_set (L(k := xs @ ys))" using L by (force simp: free_set_def)
  qed
  have sub: "m \<in> set ((L(k := xs @ ys)) j) \<Longrightarrow> m \<in> set (L j)" for m j
    using L by (auto split: if_splits)
  show "blocks_ok (L(k := xs @ ys))"
    unfolding blocks_ok_def
  proof (intro conjI allI impI ballI)
    fix i assume i: "i < (16 :: nat)"
    have "distinct (xs @ n # ys)" using ok k L by (metis blocks_ok_def)
    then show "distinct ((L(k := xs @ ys)) i)" using ok i by (simp add: blocks_ok_def)
    fix m assume "m \<in> set ((L(k := xs @ ys)) i)"
    then show "2 ^ i dvd m" "m + 2 ^ i \<le> 2 ^ 31" using ok i sub by (auto simp: blocks_ok_def)
  next
    fix i j x y assume "i < (16 :: nat)" "j < (16 :: nat)"
      and "x \<in> set ((L(k := xs @ ys)) i)" "y \<in> set ((L(k := xs @ ys)) j)"
    then show "(x, i) = (y, j) \<or> blk x i \<inter> blk y j = {}"
      using ok sub unfolding blocks_ok_def by blast
  qed
qed

lemma pool_bound: "blocks_ok L \<Longrightarrow> k < 16 \<Longrightarrow> n \<in> set (L k) \<Longrightarrow> n < 2 ^ 31"
proof -
  assume "blocks_ok L" "k < 16" "n \<in> set (L k)"
  then have "n + 2 ^ k \<le> 2 ^ 31" by (simp add: blocks_ok_def)
  moreover have "(0::nat) < 2 ^ k" by simp
  ultimately show ?thesis by linarith
qed

lemma pool_length: "blocks_ok L \<Longrightarrow> k < 16 \<Longrightarrow> length (L k) \<le> 2 ^ 31"
proof -
  assume ok: "blocks_ok L" "k < 16"
  then have "set (L k) \<subseteq> {..<2 ^ 31}" using pool_bound by blast
  then have "card (set (L k)) \<le> 2 ^ 31" using card_mono[of "{..<2 ^ 31 :: nat}"] by (metis card_lessThan finite_lessThan)
  then show ?thesis using ok by (simp add: blocks_ok_def distinct_card)
qed

lemma pool_other_list: "blocks_ok L \<Longrightarrow> k < 16 \<Longrightarrow> j < 16 \<Longrightarrow> n \<in> set (L k) \<Longrightarrow> n \<in> set (L j) \<Longrightarrow> j = k"
proof (rule ccontr)
  assume "blocks_ok L" "k < 16" "j < 16" "n \<in> set (L k)" "n \<in> set (L j)" "j \<noteq> k"
  then have "blk n k \<inter> blk n j = {}" unfolding blocks_ok_def by blast
  moreover have "n \<in> blk n k \<inter> blk n j" by simp
  ultimately show False by blast
qed

lemma pg_mem_iff:
  "blocks_ok L \<Longrightarrow> k < 16 \<Longrightarrow> n < 2 ^ 32 \<Longrightarrow> pg n \<in> set (List.map pg (L k)) \<longleftrightarrow> n \<in> set (L k)"
proof -
  assume a: "blocks_ok L" "k < 16" "n < 2 ^ 32"
  have "m = n" if "m \<in> set (L k)" "pg n = pg m" for m
    using pg_inj[of n m] pool_bound[OF a(1,2) that(1)] a(3) that(2) by simp
  then show ?thesis by auto
qed

lemma pg_distinct: "blocks_ok L \<Longrightarrow> k < 16 \<Longrightarrow> distinct (List.map pg (L k))"
proof -
  assume a: "blocks_ok L" "k < 16"
  have "inj_on pg (set (L k))"
  proof (rule inj_onI)
    fix x y assume "x \<in> set (L k)" "y \<in> set (L k)" "pg x = pg y"
    then show "x = y" using pool_bound[OF a, of x] pool_bound[OF a, of y] pg_inj[of x y] by simp
  qed
  then show ?thesis using a by (simp add: distinct_map blocks_ok_def)
qed

subsection \<open>The list operations on the pool\<close>

text \<open>What the operations never change.\<close>

definition same_frame :: "buddy_state \<Rightarrow> buddy_state \<Rightarrow> bool" where
  "same_frame s s' \<longleftrightarrow> buddy_zones s' = buddy_zones s \<and> kmem_lock s' = kmem_lock s
     \<and> buddy_initialized s' = buddy_initialized s \<and> mapper_alloc_zpage s' = mapper_alloc_zpage s
     \<and> phys_mem s' = phys_mem s \<and> dom (pages s') = dom (pages s) \<and> dom (blist s') = dom (blist s)"

lemma same_frame_refl [simp]: "same_frame s s"
  by (simp add: same_frame_def)

lemma same_frame_trans: "same_frame s t \<Longrightarrow> same_frame t u \<Longrightarrow> same_frame s u"
  by (simp add: same_frame_def)

lemma same_frame_valid: "same_frame s s' \<Longrightarrow> valid_buddy_pfn s' = valid_buddy_pfn s"
  by (rule ext) (simp add: valid_buddy_pfn_def same_frame_def)

lemma lists_okD:
  "lists_ok s pr L \<Longrightarrow> k < 16 \<Longrightarrow> llist (blist s) (pr k) (fl_head (buddy_lists s ! k)) (List.map pg (L k))"
  "lists_ok s pr L \<Longrightarrow> k < 16 \<Longrightarrow> fl_count (buddy_lists s ! k) = of_nat (length (L k))"
  "lists_ok s pr L \<Longrightarrow> length (buddy_lists s) = 16"
  by (simp_all add: lists_ok_def)

lemma lists_ok_upd:
  assumes ok: "lists_ok s pr L" and k: "k < 16"
    and new: "llist bl p (fl_head fl) (List.map pg xs)" and cnt: "fl_count fl = of_nat (length xs)"
    and same: "\<And>j b. j < 16 \<Longrightarrow> j \<noteq> k \<Longrightarrow> b \<in> set (List.map pg (L j)) \<Longrightarrow> bl b = blist s b"
  shows "lists_ok (s\<lparr>blist := bl, buddy_lists := (buddy_lists s)[k := fl], pages := pgs\<rparr>)
           (pr(k := p)) (L(k := xs))"
proof -
  have "llist bl (pr j) (fl_head (buddy_lists s ! j)) (List.map pg (L j))" if "j < 16" "j \<noteq> k" for j
    using llist_cong[OF lists_okD(1)[OF ok that(1)], of bl] same[OF that] by blast
  then show ?thesis using ok k new cnt by (auto simp: lists_ok_def nth_list_update)
qed

lemma marks_ok_mono: "marks_ok s L \<Longrightarrow> (\<And>k. set (L' k) \<subseteq> set (L k)) \<Longrightarrow> marks_ok s L'"
  unfolding marks_ok_def by (meson subsetD)

lemma marks_ok_cong:
  assumes "marks_ok s L" and "dom (pages s') = dom (pages s)" and "dom (blist s') = dom (blist s)"
    and "\<And>k n. k < 16 \<Longrightarrow> n \<in> set (L k) \<Longrightarrow> pages s' (pg n) = pages s (pg n)"
  shows "marks_ok s' L"
  using assms unfolding marks_ok_def by metis

lemma direct_free_pool:
  assumes p: "pool s pr L" and k: "k < 16" and al: "2 ^ k dvd n" and bd: "n + 2 ^ k \<le> 2 ^ 31"
    and dis: "blk n k \<inter> free_set L = {}"
    and mapped: "\<And>x. x \<in> blk n k \<Longrightarrow> pg x \<in> dom (pages s) \<and> pg x \<in> dom (blist s)"
    and page: "pages s (pg n) = Some q" and node: "blist s (pg n) = Some l"
  shows "\<exists>s'. direct_free s (pg n) k = Ok s' \<and> pool s' (pr(k := lh_prev l)) (L(k := n # L k))
     \<and> same_frame s s'
     \<and> pages s' = (pages s)(pg n \<mapsto> q\<lparr>pg_flags := pg_flags q OR PAGE_FLAG_FREE, pg_order := k\<rparr>)
     \<and> (\<forall>m < 2 ^ 31. m \<noteq> n \<longrightarrow> m \<notin> set (L k) \<longrightarrow> blist s' (pg m) = blist s (pg m))"
proof -
  have ok: "blocks_ok L" and lk: "lists_ok s pr L" and mk: "marks_ok s L" using p by (auto simp: pool_def)
  have "(0::nat) < 2 ^ k" by simp
  then have n: "n < 2 ^ 31" using bd by linarith
  then have n32: "n < 2 ^ 32" by simp
  have new: "n \<notin> set (L j)" if "j < 16" for j
    using dis free_set_first[OF that, of n L] blk_first by blast
  have newp: "pg n \<notin> set (List.map pg (L j))" if "j < 16" for j
    using pg_mem_iff[OF ok that n32] new[OF that] by blast
  let ?h = "fl_head (buddy_lists s ! k)"
  obtain bl where bl: "list_push_front (blist s) ?h (pg n) = Ok (bl, pg n)"
    "llist bl (lh_prev l) (pg n) (pg n # List.map pg (L k))"
    "\<forall>b. b \<notin> set (pg n # List.map pg (L k)) \<longrightarrow> bl b = blist s b"
    using list_push_front_llist[OF lists_okD(1)[OF lk k] pg_distinct[OF ok k] newp[OF k]
      pg_not_NULL[OF n32] node] by blast
  let ?fl = "\<lparr>fl_head = pg n, fl_count = fl_count (buddy_lists s ! k) + 1\<rparr>"
  let ?pgs = "(pages s)(pg n \<mapsto> q\<lparr>pg_flags := pg_flags q OR PAGE_FLAG_FREE, pg_order := k\<rparr>)"
  let ?s = "s\<lparr>blist := bl, buddy_lists := (buddy_lists s)[k := ?fl], pages := ?pgs\<rparr>"
  have run: "direct_free s (pg n) k = Ok ?s"
    using page pg_not_NULL[OF n32] k bl(1) by (simp add: direct_free_def list_at_def N_ORDERS_def)
  have other: "bl (pg m) = blist s (pg m)" if "m < 2 ^ 31" "m \<noteq> n" "m \<notin> set (L k)" for m
  proof -
    have "pg m \<noteq> pg n" using pg_inj[of m n] that n by simp
    moreover have "pg m \<notin> set (List.map pg (L k))" using pg_mem_iff[OF ok k, of m] that by simp
    ultimately show ?thesis using bl(3) by simp
  qed
  have lists: "lists_ok ?s (pr(k := lh_prev l)) (L(k := n # L k))"
  proof (rule lists_ok_upd[OF lk k])
    show "llist bl (lh_prev l) (fl_head ?fl) (List.map pg (n # L k))" using bl(2) by simp
    show "fl_count ?fl = of_nat (length (n # L k))" using lists_okD(2)[OF lk k] by simp
    fix j b assume j: "j < (16 :: nat)" "j \<noteq> k" and "b \<in> set (List.map pg (L j))"
    then obtain m where m: "m \<in> set (L j)" "b = pg m" by auto
    have "m \<notin> set (L k)" using pool_other_list[OF ok k j(1), of m] m(1) j(2) by blast
    then show "bl b = blist s b" using other[of m] pool_bound[OF ok j(1) m(1)] m new[OF j(1)] by auto
  qed
  have "b \<in> dom bl \<longleftrightarrow> b \<in> dom (blist s)" for b
    using bl(3) llist_dom[OF bl(2)] llist_dom[OF lists_okD(1)[OF lk k]] node
    by (cases "b \<in> set (pg n # List.map pg (L k))") (auto simp: domIff)
  then have db: "dom bl = dom (blist s)" by blast
  then have frame: "same_frame s ?s" using page by (auto simp: same_frame_def)
  have "marks_ok ?s (L(k := n # L k))"
    unfolding marks_ok_def
  proof (intro allI impI ballI conjI)
    fix j m assume j: "j < (16 :: nat)" and m: "m \<in> set ((L(k := n # L k)) j)"
    show "\<exists>q. pages ?s (pg m) = Some q \<and> pg_order q = j"
    proof (cases "m = n")
      case True
      then have "j = k" using m new[OF j] by (auto split: if_splits)
      then show ?thesis using True by simp
    next
      case False
      then have m: "m \<in> set (L j)" using m by (auto split: if_splits)
      then have "pg m \<noteq> pg n" using pg_inj[of m n] pool_bound[OF ok j m] n False by simp
      then show ?thesis using mk j m by (simp add: marks_ok_def)
    qed
    fix x assume x: "x \<in> blk m j"
    have "m \<in> set (L j) \<or> (m = n \<and> j = k)" using m by (auto split: if_splits)
    then have "pg x \<in> dom (pages s) \<and> pg x \<in> dom (blist s)"
      using mapped mk j x unfolding marks_ok_def by blast
    then show "pg x \<in> dom (pages ?s)" "pg x \<in> dom (blist ?s)" using db page by auto
  qed
  with run lists frame blocks_insert[OF ok k al bd dis] other show ?thesis
    by (intro exI[of _ ?s]) (simp add: pool_def)
qed

lemma remove_from_freelist_pool:
  assumes p: "pool s pr L" and k: "k < 16" and L: "L k = xs @ n # ys" and pr: "xs = [] \<Longrightarrow> pr k = NULL"
    and page: "pages s (pg n) = Some q"
  shows "\<exists>s'. remove_from_freelist s (pg n) = Ok s' \<and> pool s' pr (L(k := xs @ ys))
     \<and> same_frame s s'
     \<and> pages s' = (pages s)(pg n \<mapsto> q\<lparr>pg_flags := pg_flags q AND NOT PAGE_FLAG_FREE\<rparr>)
     \<and> blist s' (pg n) = Some \<lparr>lh_next = NULL, lh_prev = NULL\<rparr>
     \<and> (\<forall>m < 2 ^ 31. m \<notin> set (L k) \<longrightarrow> blist s' (pg m) = blist s (pg m))"
proof -
  have ok: "blocks_ok L" and lk: "lists_ok s pr L" and mk: "marks_ok s L" using p by (auto simp: pool_def)
  have nk: "n \<in> set (L k)" using L by simp
  note n = pool_bound[OF ok k nk]
  then have n32: "n < 2 ^ 32" by simp
  have q: "pg_order q = k" using mk k nk page unfolding marks_ok_def by (metis option.inject)
  let ?h = "fl_head (buddy_lists s ! k)"
  have ll: "llist (blist s) (pr k) ?h (List.map pg xs @ pg n # List.map pg ys)"
    using lists_okD(1)[OF lk k] L by simp
  have dd: "distinct (List.map pg xs @ pg n # List.map pg ys)" using pg_distinct[OF ok k] L by simp
  obtain bl hd where bl: "list_remove_node (blist s) ?h (pg n) = Ok (bl, hd)"
    "llist bl (pr k) hd (List.map pg (xs @ ys))" "bl (pg n) = Some \<lparr>lh_next = NULL, lh_prev = NULL\<rparr>"
    "\<forall>b. b \<notin> set (List.map pg (L k)) \<longrightarrow> bl b = blist s b"
    using list_remove_llist[OF ll dd] pr L by auto
  let ?fl = "\<lparr>fl_head = hd, fl_count = fl_count (buddy_lists s ! k) - 1\<rparr>"
  let ?pgs = "(pages s)(pg n \<mapsto> q\<lparr>pg_flags := pg_flags q AND NOT PAGE_FLAG_FREE\<rparr>)"
  let ?s = "s\<lparr>blist := bl, buddy_lists := (buddy_lists s)[k := ?fl], pages := ?pgs\<rparr>"
  have run: "remove_from_freelist s (pg n) = Ok ?s"
    using page pg_not_NULL[OF n32] k bl(1) q by (simp add: remove_from_freelist_def list_at_def N_ORDERS_def)
  have other: "bl (pg m) = blist s (pg m)" if "m < 2 ^ 31" "m \<notin> set (L k)" for m
    using bl(4) pg_mem_iff[OF ok k, of m] that by simp
  have lists: "lists_ok ?s (pr(k := pr k)) (L(k := xs @ ys))"
  proof (rule lists_ok_upd[OF lk k])
    show "llist bl (pr k) (fl_head ?fl) (List.map pg (xs @ ys))" using bl(2) by simp
    show "fl_count ?fl = of_nat (length (xs @ ys))" using lists_okD(2)[OF lk k] L by simp
    fix j b assume j: "j < (16 :: nat)" "j \<noteq> k" and "b \<in> set (List.map pg (L j))"
    then obtain m where m: "m \<in> set (L j)" "b = pg m" by auto
    have "m \<notin> set (L k)" using pool_other_list[OF ok k j(1), of m] m(1) j(2) by blast
    then show "bl b = blist s b" using other[of m] pool_bound[OF ok j(1) m(1)] m by auto
  qed
  have "b \<in> dom bl \<longleftrightarrow> b \<in> dom (blist s)" for b
  proof (cases "b \<in> set (List.map pg (L k))")
    case True
    then have "b \<in> dom (blist s)" using llist_dom[OF lists_okD(1)[OF lk k]] by blast
    moreover have "b = pg n \<or> b \<in> set (List.map pg (xs @ ys))" using True L by auto
    then have "b \<in> dom bl" using llist_dom[OF bl(2)] bl(3) by blast
    ultimately show ?thesis by blast
  next
    case False
    then show ?thesis using bl(4) by (auto simp: domIff)
  qed
  then have db: "dom bl = dom (blist s)" by blast
  then have frame: "same_frame s ?s" using page by (auto simp: same_frame_def)
  have "marks_ok s (L(k := xs @ ys))"
    by (rule marks_ok_mono[OF mk]) (use L in auto)
  then have "marks_ok ?s (L(k := xs @ ys))"
  proof (rule marks_ok_cong)
    show "dom (pages ?s) = dom (pages s)" "dom (blist ?s) = dom (blist s)" using db page by auto
    fix j m assume j: "j < (16 :: nat)" and m: "m \<in> set ((L(k := xs @ ys)) j)"
    have "distinct (xs @ n # ys)" using ok k L by (metis blocks_ok_def)
    then have "m \<noteq> n" using m pool_other_list[OF ok k j nk] by (auto split: if_splits)
    moreover have "m \<in> set (L j)" using m L by (auto split: if_splits)
    ultimately have "pg m \<noteq> pg n" using pg_inj[of m n] pool_bound[OF ok j, of m] n by simp
    then show "pages ?s (pg m) = pages s (pg m)" by simp
  qed
  with run lists frame blocks_remove(1)[OF ok k L] other bl(3) show ?thesis
    by (intro exI[of _ ?s]) (simp add: pool_def)
qed

lemma pop_pool:
  assumes p: "pool s pr L" and k: "k < 16" and L: "L k = n # ys"
  defines "s' \<equiv> s\<lparr>buddy_lists := (buddy_lists s)
     [k := \<lparr>fl_head = case ys of [] \<Rightarrow> NULL | m # _ \<Rightarrow> pg m, fl_count = fl_count (buddy_lists s ! k) - 1\<rparr>]\<rparr>"
  shows "fl_count (buddy_lists s ! k) > 0"
    and "list_pop_front (blist s) (fl_head (buddy_lists s ! k))
           = Ok (pg n, case ys of [] \<Rightarrow> NULL | m # _ \<Rightarrow> pg m)"
    and "pool s' (pr(k := pg n)) (L(k := ys))"
proof -
  have ok: "blocks_ok L" and lk: "lists_ok s pr L" and mk: "marks_ok s L" using p by (auto simp: pool_def)
  have ll: "llist (blist s) (pr k) (fl_head (buddy_lists s ! k)) (pg n # List.map pg ys)"
    using lists_okD(1)[OF lk k] L by simp
  then obtain nx where nx: "list_pop_front (blist s) (fl_head (buddy_lists s ! k)) = Ok (pg n, nx)"
    "llist (blist s) (pg n) nx (List.map pg ys)"
    using list_pop_front_llist by blast
  have nxv: "nx = (case ys of [] \<Rightarrow> NULL | m # _ \<Rightarrow> pg m)"
    using llist_head[OF nx(2)] by (auto split: list.splits)
  then show "list_pop_front (blist s) (fl_head (buddy_lists s ! k))
           = Ok (pg n, case ys of [] \<Rightarrow> NULL | m # _ \<Rightarrow> pg m)" using nx by simp
  have "fl_count (buddy_lists s ! k) = of_nat (length (L k))" using lists_okD(2)[OF lk k] .
  moreover have "(of_nat (length (L k)) :: u32) \<noteq> 0"
  proof
    assume "(of_nat (length (L k)) :: u32) = 0"
    then have "unat (of_nat (length (L k)) :: u32) = 0" by (simp only: unsigned_0)
    then have "length (L k) mod 2 ^ 32 = 0" by (simp add: unat_of_nat del: of_nat_Suc)
    then show False using pool_length[OF ok k] L by simp
  qed
  ultimately show "fl_count (buddy_lists s ! k) > 0" by (simp add: word_gt_0)
  let ?fl = "\<lparr>fl_head = nx, fl_count = fl_count (buddy_lists s ! k) - 1\<rparr>"
  have "lists_ok (s\<lparr>blist := blist s, buddy_lists := (buddy_lists s)[k := ?fl], pages := pages s\<rparr>)
      (pr(k := pg n)) (L(k := ys))"
    by (rule lists_ok_upd[OF lk k]) (use nx(2) lists_okD(2)[OF lk k] L in simp_all)
  then have "lists_ok s' (pr(k := pg n)) (L(k := ys))" using nxv by (simp add: s'_def)
  moreover have "marks_ok s' (L(k := ys))" 
  proof -
    have "marks_ok s (L(k := ys))" by (rule marks_ok_mono[OF mk]) (use L in auto)
    then show ?thesis by (simp add: marks_ok_def s'_def)
  qed
  moreover have "blocks_ok (L(k := ys))" using blocks_remove(1)[OF ok k, of "[]" n ys] L by simp
  ultimately show "pool s' (pr(k := pg n)) (L(k := ys))" by (simp add: pool_def)
qed

section \<open>Freeing\<close>

text \<open>
  The state in which freeing is right: nothing stale is left behind. The heads' \<open>prev\<close> fields are
  NULL, the FREE flag is set on exactly the first pages of the free blocks, every valid frame has a
  page, and every free block is valid.
\<close>

definition page_free :: "page \<Rightarrow> bool" where
  "page_free p \<longleftrightarrow> pg_flags p AND PAGE_FLAG_FREE \<noteq> 0"

definition flags_exact :: "buddy_state \<Rightarrow> blocks \<Rightarrow> bool" where
  "flags_exact s L \<longleftrightarrow>
     (\<forall>n < 2 ^ 31. \<forall>p. pages s (pg n) = Some p \<longrightarrow>
        (page_free p \<longleftrightarrow> (\<exists>k < 16. n \<in> set (L k))))"

definition frames_valid :: "buddy_state \<Rightarrow> blocks \<Rightarrow> bool" where
  "frames_valid s L \<longleftrightarrow>
     (\<forall>n < 2 ^ 31. valid_buddy_pfn s (of_nat n) \<longrightarrow> pg n \<in> dom (pages s)) \<and>
     (\<forall>k < 16. \<forall>n \<in> set (L k). valid_buddy_pfn s (of_nat n))"

definition clean_pool :: "buddy_state \<Rightarrow> blocks \<Rightarrow> bool" where
  "clean_pool s L \<longleftrightarrow> pool s (\<lambda>_. NULL) L \<and> flags_exact s L \<and> frames_valid s L"

definition coalesced :: "blocks \<Rightarrow> bool" where
  "coalesced L \<longleftrightarrow> (\<forall>k < 15. \<forall>n \<in> set (L k). bud n k \<notin> set (L k))"

lemma page_free_set [simp]: "page_free (p\<lparr>pg_flags := f OR PAGE_FLAG_FREE, pg_order := k\<rparr>)"
proof -
  have "bit ((f OR PAGE_FLAG_FREE) AND PAGE_FLAG_FREE) 0"
    by (simp add: bit_simps PAGE_FLAG_FREE_def)
  then show ?thesis unfolding page_free_def by (auto simp del: bit_and_iff)
qed

lemma page_free_clear [simp]: "\<not> page_free (p\<lparr>pg_flags := f AND NOT PAGE_FLAG_FREE\<rparr>)"
  by (simp add: page_free_def and.assoc)

lemma bud_bound:
  assumes al: "2 ^ k dvd n" and bd: "n + 2 ^ k \<le> 2 ^ 31" and k: "k < 31"
  shows "bud n k + 2 ^ k \<le> 2 ^ 31"
  using al
proof (cases rule: bud_cases)
  case left
  have p: "(2::nat) ^ Suc k dvd 2 ^ 31" using k by (intro le_imp_power_dvd) simp
  obtain q where q: "n = 2 ^ Suc k * q" using left(2) by blast
  obtain r where r: "(2::nat) ^ 31 = 2 ^ Suc k * r" using p by blast
  have "(0::nat) < 2 ^ k" by simp
  then have "n < 2 ^ 31" using bd by linarith
  then have "2 ^ Suc k * q < 2 ^ Suc k * r" using q r by (simp only:)
  then have "q < r" by (simp only: mult_less_cancel1)
  then have "2 ^ Suc k * Suc q \<le> 2 ^ Suc k * r" by (intro mult_le_mono2) simp
  then have "n + 2 ^ Suc k \<le> 2 ^ 31" by (simp only: q r mult_Suc_right add.commute)
  then show ?thesis using left(1) by simp
next
  case right
  then show ?thesis using bd by simp
qed

lemma bud_involution: "2 ^ k dvd n \<Longrightarrow> bud (bud n k) k = n"
  by (metis xor_bud xor.assoc xor.right_neutral xor_self_eq)

lemma bud_neq: "2 ^ k dvd n \<Longrightarrow> bud n k \<noteq> n"
  by (erule bud_cases[of k n]) auto

lemma merged_block:
  assumes "2 ^ k dvd n"
  shows "blk (min n (bud n k)) (Suc k) = blk n k \<union> blk (bud n k) k" and "2 ^ Suc k dvd min n (bud n k)"
  using assms by (cases rule: bud_cases; auto simp: blk_def min_def)+

lemma bud_disjoint: "2 ^ k dvd n \<Longrightarrow> blk n k \<inter> blk (bud n k) k = {}"
  by (erule bud_cases[of k n]) (auto simp: blk_def)

lemma buddy_addresses:
  assumes al: "2 ^ k dvd n" and bd: "n + 2 ^ k \<le> 2 ^ 31" and k: "k < 31"
  shows "ucast (ucast (get_buddy (page_to_pfn (pg n)) k) :: u32) = (of_nat (bud n k) :: u64)"
    and "of_nat (bud n k) > page_to_pfn (pg n) \<longleftrightarrow> bud n k > n"
proof -
  have "(0::nat) < 2 ^ k" by simp
  then have n: "n < 2 ^ 31" and b: "bud n k < 2 ^ 31" using bd bud_bound[OF assms] by linarith+
  have pfn: "page_to_pfn (pg n) = of_nat n" using page_to_pfn_pg[of n] n by simp
  have u: "unat (get_buddy (page_to_pfn (pg n)) k) = bud n k"
    using get_buddy_nat[of n k] n k pfn by simp
  then have "ucast (ucast (get_buddy (page_to_pfn (pg n)) k) :: u32) = get_buddy (page_to_pfn (pg n)) k"
    using b by (intro ucast_low) simp
  also have "\<dots> = of_nat (bud n k)" 
    by (rule unsigned_word_eqI[where 'a = nat]) (use u b in \<open>simp add: unat_of_nat\<close>)
  finally show "ucast (ucast (get_buddy (page_to_pfn (pg n)) k) :: u32) = (of_nat (bud n k) :: u64)" .
  show "of_nat (bud n k) > page_to_pfn (pg n) \<longleftrightarrow> bud n k > n"
    using n b pfn by (simp add: word_less_nat_alt unat_of_nat)
qed

lemma free_pages_nolock_cases:
  assumes c: "clean_pool s L" and k: "k < 16" and al: "2 ^ k dvd n" and bd: "n + 2 ^ k \<le> 2 ^ 31"
  shows "free_pages_nolock s (pg n) k =
    (if bud n k \<in> set (L k) \<and> k < 15
     then bnd (remove_from_freelist s (pg (bud n k))) (\<lambda>s. free_pages_nolock s (pg (min n (bud n k))) (Suc k))
     else direct_free s (pg n) k)"
proof -
  let ?b = "bud n k"
  have fl: "flags_exact s L" and fv: "frames_valid s L" and mk: "marks_ok s L" and ok: "blocks_ok L"
    using c by (auto simp: clean_pool_def pool_def)
  have "(0::nat) < 2 ^ k" by simp
  then have b: "?b < 2 ^ 31" using bud_bound[OF al bd] k by linarith
  note addr = buddy_addresses[OF al bd]
  have k31: "k < 31" using k by simp
  have pb: "pfn_to_page (of_nat ?b) = pg ?b" by (simp add: pg_def)
  show ?thesis
  proof (cases "valid_buddy_pfn s (of_nat ?b)")
    case False
    then have "?b \<notin> set (L k)" using fv k by (auto simp: frames_valid_def)
    then show ?thesis using False k31
      by (subst free_pages_nolock.simps) (simp add: Let_def addr)
  next
    case True
    then obtain p where p: "pages s (pg ?b) = Some p" using fv b unfolding frames_valid_def by blast
    have fb: "fetch (pages s) (pg ?b) = Ok p" using p pg_not_NULL[of ?b] b by simp
    have dec: "page_free p \<and> pg_order p = k \<longleftrightarrow> ?b \<in> set (L k)"
    proof
      assume a: "page_free p \<and> pg_order p = k"
      then obtain j where j: "j < 16" "?b \<in> set (L j)" using fl b p unfolding flags_exact_def by blast
      then have "pg_order p = j" using mk p unfolding marks_ok_def by (metis option.inject)
      then show "?b \<in> set (L k)" using a j by simp
    next
      assume a: "?b \<in> set (L k)"
      then have "page_free p" using fl b p k unfolding flags_exact_def by blast
      moreover have "pg_order p = k" using mk p a k unfolding marks_ok_def by (metis option.inject)
      ultimately show "page_free p \<and> pg_order p = k" by simp
    qed
    have "min n ?b = (if ?b > n then n else ?b)" by simp
    then show ?thesis using True k31 dec k
      by (subst free_pages_nolock.simps) (auto simp: Let_def addr pb fb page_free_def MAX_ORDER_def)
  qed
qed

lemma fun_upd_NULL: "(\<lambda>_. NULL)(k := NULL) = (\<lambda>_. NULL)"
  by auto

lemma flags_exact_upd:
  assumes "flags_exact s L" and "pages s' = (pages s)(pg n \<mapsto> q)" and n: "n < 2 ^ 31"
    and "\<And>m. m \<noteq> n \<Longrightarrow> (\<exists>k < 16. m \<in> set (L' k)) \<longleftrightarrow> (\<exists>k < 16. m \<in> set (L k))"
    and "page_free q \<longleftrightarrow> (\<exists>k < 16. n \<in> set (L' k))"
  shows "flags_exact s' L'"
  unfolding flags_exact_def
proof (intro allI impI)
  fix m p assume m: "m < (2 ^ 31 :: nat)" and p: "pages s' (pg m) = Some p"
  show "page_free p \<longleftrightarrow> (\<exists>k < 16. m \<in> set (L' k))"
  proof (cases "m = n")
    case True
    then show ?thesis using p assms(2,5) by simp
  next
    case False
    then have "pg m \<noteq> pg n" using pg_inj[of m n] m n by simp
    then show ?thesis using p assms(1,2,4) m False by (simp add: flags_exact_def)
  qed
qed

lemma frames_valid_upd:
  assumes "frames_valid s L" and "same_frame s s'"
    and "\<And>k n. k < 16 \<Longrightarrow> n \<in> set (L' k) \<Longrightarrow> n \<in> set (L k) \<or> valid_buddy_pfn s (of_nat n)"
  shows "frames_valid s' L'"
  using assms same_frame_valid[OF assms(2)] unfolding frames_valid_def same_frame_def by metis

lemma direct_free_clean:
  assumes c: "clean_pool s L" and k: "k < 16" and al: "2 ^ k dvd n" and bd: "n + 2 ^ k \<le> 2 ^ 31"
    and dis: "blk n k \<inter> free_set L = {}" and valid: "valid_buddy_pfn s (of_nat n)"
    and mapped: "\<And>x. x \<in> blk n k \<Longrightarrow> pg x \<in> dom (pages s) \<and> pg x \<in> dom (blist s)"
    and node: "blist s (pg n) = Some l" "lh_prev l = NULL"
  shows "\<exists>s'. direct_free s (pg n) k = Ok s' \<and> clean_pool s' (L(k := n # L k)) \<and> same_frame s s'
     \<and> (\<forall>m < 2 ^ 31. m \<noteq> n \<longrightarrow> m \<notin> set (L k) \<longrightarrow> blist s' (pg m) = blist s (pg m))"
proof -
  have p: "pool s (\<lambda>_. NULL) L" and fl: "flags_exact s L" and fv: "frames_valid s L"
    using c by (auto simp: clean_pool_def)
  obtain q where q: "pages s (pg n) = Some q" using mapped[of n] by auto
  obtain s' where s': "direct_free s (pg n) k = Ok s'" "pool s' ((\<lambda>_. NULL)(k := NULL)) (L(k := n # L k))"
    "same_frame s s'"
    "pages s' = (pages s)(pg n \<mapsto> q\<lparr>pg_flags := pg_flags q OR PAGE_FLAG_FREE, pg_order := k\<rparr>)"
    "\<forall>m < 2 ^ 31. m \<noteq> n \<longrightarrow> m \<notin> set (L k) \<longrightarrow> blist s' (pg m) = blist s (pg m)"
    using direct_free_pool[OF p k al bd dis mapped q node(1)] node(2) by auto
  have "(0::nat) < 2 ^ k" by simp
  then have n: "n < 2 ^ 31" using bd by linarith
  have "flags_exact s' (L(k := n # L k))"
    by (rule flags_exact_upd[OF fl s'(4) n]) (use k in auto)
  moreover have "frames_valid s' (L(k := n # L k))"
    by (rule frames_valid_upd[OF fv s'(3)]) (use valid in \<open>auto split: if_splits\<close>)
  ultimately show ?thesis using s' by (auto simp: clean_pool_def fun_upd_NULL)
qed

lemma remove_clean:
  assumes c: "clean_pool s L" and k: "k < 16" and L: "L k = xs @ n # ys"
  shows "\<exists>s'. remove_from_freelist s (pg n) = Ok s' \<and> clean_pool s' (L(k := xs @ ys)) \<and> same_frame s s'
     \<and> blist s' (pg n) = Some \<lparr>lh_next = NULL, lh_prev = NULL\<rparr>
     \<and> (\<forall>m < 2 ^ 31. m \<notin> set (L k) \<longrightarrow> blist s' (pg m) = blist s (pg m))"
proof -
  have p: "pool s (\<lambda>_. NULL) L" and fl: "flags_exact s L" and fv: "frames_valid s L"
    and ok: "blocks_ok L" and mk: "marks_ok s L"
    using c by (auto simp: clean_pool_def pool_def)
  have nk: "n \<in> set (L k)" using L by simp
  obtain q where q: "pages s (pg n) = Some q" using mk k nk unfolding marks_ok_def by blast
  obtain s' where s': "remove_from_freelist s (pg n) = Ok s'" "pool s' (\<lambda>_. NULL) (L(k := xs @ ys))"
    "same_frame s s'"
    "pages s' = (pages s)(pg n \<mapsto> q\<lparr>pg_flags := pg_flags q AND NOT PAGE_FLAG_FREE\<rparr>)"
    "blist s' (pg n) = Some \<lparr>lh_next = NULL, lh_prev = NULL\<rparr>"
    "\<forall>m < 2 ^ 31. m \<notin> set (L k) \<longrightarrow> blist s' (pg m) = blist s (pg m)"
    using remove_from_freelist_pool[OF p k L _ q] by auto
  have d: "distinct (xs @ n # ys)" using ok k L by (metis blocks_ok_def)
  have "flags_exact s' (L(k := xs @ ys))"
  proof (rule flags_exact_upd[OF fl s'(4) pool_bound[OF ok k nk]])
    show "(\<exists>j < 16. m \<in> set ((L(k := xs @ ys)) j)) \<longleftrightarrow> (\<exists>j < 16. m \<in> set (L j))" if "m \<noteq> n" for m
    proof -
      have "m \<in> set ((L(k := xs @ ys)) j) \<longleftrightarrow> m \<in> set (L j)" for j using that L by auto
      then show ?thesis by simp
    qed
    have "n \<notin> set ((L(k := xs @ ys)) j)" if "j < 16" for j
      using d pool_other_list[OF ok k that nk] by auto
    then show "page_free (q\<lparr>pg_flags := pg_flags q AND NOT PAGE_FLAG_FREE\<rparr>)
        \<longleftrightarrow> (\<exists>j < 16. n \<in> set ((L(k := xs @ ys)) j))" by simp
  qed
  moreover have "frames_valid s' (L(k := xs @ ys))"
    by (rule frames_valid_upd[OF fv s'(3)]) (use L in \<open>auto split: if_splits\<close>)
  ultimately show ?thesis using s' by (auto simp: clean_pool_def)
qed

lemma coalesced_insert:
  assumes "coalesced L" and k: "k < 16" and al: "2 ^ k dvd n" and ok: "blocks_ok L"
    and nb: "k < 15 \<Longrightarrow> bud n k \<notin> set (L k)"
  shows "coalesced (L(k := n # L k))"
  unfolding coalesced_def
proof (intro allI impI ballI)
  fix j m assume j: "j < (15 :: nat)" and m: "m \<in> set ((L(k := n # L k)) j)"
  show "bud m j \<notin> set ((L(k := n # L k)) j)"
  proof (cases "j = k")
    case False
    then show ?thesis using assms(1) j m by (simp add: coalesced_def)
  next
    case True
    have "bud n k \<noteq> n" using bud_neq[OF al] .
    moreover have "bud m k \<noteq> n" if "m \<in> set (L k)"
    proof
      assume "bud m k = n"
      moreover have "2 ^ k dvd m" using ok k that unfolding blocks_ok_def by blast
      ultimately have "bud n k = m" using bud_involution[of k m] by simp
      then show False using nb j True that by simp
    qed
    moreover have "bud m k \<notin> set (L k)" if "m \<in> set (L k)"
      using assms(1) j True that by (simp add: coalesced_def)
    ultimately show ?thesis using m True nb j by auto
  qed
qed

lemma coalesced_remove: "coalesced L \<Longrightarrow> L k = xs @ n # ys \<Longrightarrow> coalesced (L(k := xs @ ys))"
  unfolding coalesced_def by (auto split: if_splits)

text \<open>Freeing a block merges it with free buddies as far as it goes.\<close>

lemma free_pages_nolock_clean:
  assumes "clean_pool s L" and "k < 16" and "2 ^ k dvd n" and "n + 2 ^ k \<le> 2 ^ 31"
    and "blk n k \<inter> free_set L = {}" and "valid_buddy_pfn s (of_nat n)"
    and "\<And>x. x \<in> blk n k \<Longrightarrow> pg x \<in> dom (pages s) \<and> pg x \<in> dom (blist s)"
    and "blist s (pg n) = Some l" and "lh_prev l = NULL" and "coalesced L"
  shows "\<exists>s' L'. free_pages_nolock s (pg n) k = Ok s' \<and> clean_pool s' L'
     \<and> free_set L' = free_set L \<union> blk n k \<and> same_frame s s' \<and> coalesced L'
     \<and> (\<forall>m < 2 ^ 31. m \<notin> free_set L \<union> {n} \<longrightarrow> blist s' (pg m) = blist s (pg m))"
  using assms
proof (induction "15 - k" arbitrary: s L n k l rule: less_induct)
  case less
  note c = less.prems(1) and k = less.prems(2) and al = less.prems(3) and bd = less.prems(4)
    and dis = less.prems(5) and valid = less.prems(6) and mapped = less.prems(7) and node = less.prems(8,9)
    and co = less.prems(10)
  note step = free_pages_nolock_cases[OF c k al bd]
  have ok: "blocks_ok L" and mk: "marks_ok s L" using c by (auto simp: clean_pool_def pool_def)
  show ?case
  proof (cases "bud n k \<in> set (L k) \<and> k < 15")
    case False
    obtain s' where s': "direct_free s (pg n) k = Ok s'" "clean_pool s' (L(k := n # L k))" "same_frame s s'"
      "\<forall>m < 2 ^ 31. m \<noteq> n \<longrightarrow> m \<notin> set (L k) \<longrightarrow> blist s' (pg m) = blist s (pg m)"
      using direct_free_clean[OF c k al bd dis valid mapped node] by auto
    have "coalesced (L(k := n # L k))"
      using coalesced_insert[OF co k al ok] False by blast
    then show ?thesis
      using False step s' free_set_insert[OF k, of L n] free_set_first[OF k, of _ L]
      by (intro exI[of _ s'] exI[of _ "L(k := n # L k)"]) auto
  next
    case True
    let ?b = "bud n k" and ?m = "min n (bud n k)"
    have bk: "?b \<in> set (L k)" and k15: "k < 15" using True by auto
    obtain xs ys where L: "L k = xs @ ?b # ys" using bk by (meson split_list)
    let ?L = "L(k := xs @ ys)"
    obtain s1 where s1: "remove_from_freelist s (pg ?b) = Ok s1" "clean_pool s1 ?L" "same_frame s s1"
      "blist s1 (pg ?b) = Some \<lparr>lh_next = NULL, lh_prev = NULL\<rparr>"
      "\<forall>m < 2 ^ 31. m \<notin> set (L k) \<longrightarrow> blist s1 (pg m) = blist s (pg m)"
      using remove_clean[OF c k L] by auto
    have fs: "free_set ?L = free_set L - blk ?b k" by (rule blocks_remove(2)[OF ok k L])
    have bb: "blk ?b k \<subseteq> free_set L" by (rule free_set_mem[where L = L, OF k bk])
    note mb = merged_block[OF al]
    have "(0::nat) < 2 ^ k" by simp
    then have n31: "n < 2 ^ 31" using bd by linarith
    have nL: "n \<notin> set (L k)" using dis free_set_first[OF k, of n L] blk_first[of n k] by blast
    obtain l1 where l1: "blist s1 (pg ?m) = Some l1" "lh_prev l1 = NULL"
      using node s1(4,5) n31 nL by (cases "n \<le> ?b") (auto simp: min_def)
    have P1: "?m + 2 ^ Suc k \<le> 2 ^ 31"
    proof -
      have "(0::nat) < 2 ^ Suc k" by simp
      then have "?m + 2 ^ Suc k - 1 \<in> blk ?m (Suc k)" unfolding blk_mem by linarith
      then have "?m + 2 ^ Suc k - 1 < n + 2 ^ k \<or> ?m + 2 ^ Suc k - 1 < ?b + 2 ^ k"
        unfolding mb(1) by (auto simp: blk_def)
      then show ?thesis using bd bud_bound[OF al bd] k by linarith
    qed
    have P2: "blk ?m (Suc k) \<inter> free_set ?L = {}" unfolding mb(1) fs using dis by blast
    have P3: "valid_buddy_pfn s1 (of_nat ?m)"
    proof -
      have "valid_buddy_pfn s (of_nat ?b)"
        using c k bk unfolding clean_pool_def frames_valid_def by blast
      then show ?thesis using valid same_frame_valid[OF s1(3)] by (simp add: min_def)
    qed
    have P4: "pg x \<in> dom (pages s1) \<and> pg x \<in> dom (blist s1)" if "x \<in> blk ?m (Suc k)" for x
    proof -
      have "x \<in> blk n k \<or> x \<in> blk ?b k" using that unfolding mb(1) by blast
      then have "pg x \<in> dom (pages s) \<and> pg x \<in> dom (blist s)"
      proof
        assume "x \<in> blk n k"
        then show ?thesis by (rule mapped)
      next
        assume "x \<in> blk ?b k"
        then show ?thesis using mk k bk unfolding marks_ok_def by (metis (no_types))
      qed
      then show ?thesis using s1(3) by (simp add: same_frame_def)
    qed
    have lt: "15 - Suc k < 15 - k" and k16: "Suc k < 16" using k15 by auto
    from less.hyps[OF lt s1(2) k16 mb(2) P1 P2 P3 P4 l1 coalesced_remove[OF co L]]
    obtain s' L' where s': "free_pages_nolock s1 (pg ?m) (Suc k) = Ok s'" "clean_pool s' L'"
      "free_set L' = free_set ?L \<union> blk ?m (Suc k)" "same_frame s1 s'" "coalesced L'"
      "\<forall>x < 2 ^ 31. x \<notin> free_set ?L \<union> {?m} \<longrightarrow> blist s' (pg x) = blist s1 (pg x)" by blast
    have "free_set L' = free_set L \<union> blk n k" using s'(3) mb(1) fs bb by blast
    moreover have "blist s' (pg x) = blist s (pg x)" if "x < 2 ^ 31" "x \<notin> free_set L \<union> {n}" for x
    proof -
      have "x \<noteq> ?b" using that bb blk_first[of ?b k] by blast
      then have "x \<notin> free_set ?L \<union> {?m}" using that fs by (auto simp: min_def)
      moreover have "x \<notin> set (L k)" using that free_set_first[OF k, of x L] by blast
      ultimately show ?thesis using s'(6) s1(5) that(1) by simp
    qed
    ultimately show ?thesis
      using True step s1(1) s' same_frame_trans[OF s1(3) s'(4)] by auto
  qed
qed

lemma clean_pool_lock [simp]: "clean_pool (s\<lparr>kmem_lock := l\<rparr>) L = clean_pool s L"
  by (simp add: clean_pool_def pool_def lists_ok_def marks_ok_def flags_exact_def frames_valid_def
      valid_buddy_pfn_def)

lemma valid_lock [simp]: "valid_buddy_pfn (s\<lparr>kmem_lock := l\<rparr>) = valid_buddy_pfn s"
  by (rule ext) (simp add: valid_buddy_pfn_def)

lemma free_pages_clean:
  assumes "kmem_lock s = 0" and "clean_pool s L" and "k < 16" and "2 ^ k dvd n" and "n + 2 ^ k \<le> 2 ^ 31"
    and "blk n k \<inter> free_set L = {}" and "valid_buddy_pfn s (of_nat n)"
    and "\<And>x. x \<in> blk n k \<Longrightarrow> pg x \<in> dom (pages s) \<and> pg x \<in> dom (blist s)"
    and "blist s (pg n) = Some l" and "lh_prev l = NULL" and "coalesced L"
  shows "\<exists>s' L'. free_pages s (pg n) k = Ok s' \<and> clean_pool s' L'
     \<and> free_set L' = free_set L \<union> blk n k \<and> same_frame s s' \<and> coalesced L'
     \<and> (\<forall>m < 2 ^ 31. m \<notin> free_set L \<union> {n} \<longrightarrow> blist s' (pg m) = blist s (pg m))"
proof -
  let ?s = "s\<lparr>kmem_lock := 1\<rparr>"
  obtain s' L' where s': "free_pages_nolock ?s (pg n) k = Ok s'" "clean_pool s' L'"
     "free_set L' = free_set L \<union> blk n k" "same_frame ?s s'" "coalesced L'"
     "\<forall>m < 2 ^ 31. m \<notin> free_set L \<union> {n} \<longrightarrow> blist s' (pg m) = blist s (pg m)"
    using free_pages_nolock_clean[of ?s L k n l] assms by auto
  then show ?thesis using assms(1)
    by (intro exI[of _ "s'\<lparr>kmem_lock := 0\<rparr>"] exI[of _ L']) (auto simp: free_pages_def same_frame_def)
qed

section \<open>Allocating\<close>

lemma free_set_mapped: "marks_ok s L \<Longrightarrow> x \<in> free_set L \<Longrightarrow> pg x \<in> dom (pages s) \<and> pg x \<in> dom (blist s)"
  unfolding free_set_iff marks_ok_def by (metis (no_types))

lemma alloc_none:
  assumes p: "pool s pr L" and k: "k < 16" and none: "\<And>j. k \<le> j \<Longrightarrow> j < 16 \<Longrightarrow> L j = []"
  shows "alloc_pages_nolock s k = Ok (NULL, s)"
  using k none
proof (induction "15 - k" arbitrary: k)
  case 0
  then have "fl_count (buddy_lists s ! k) = 0" "k = MAX_ORDER"
    using lists_okD(2)[of s pr L k] p by (auto simp: pool_def MAX_ORDER_def)
  then show ?case by (subst alloc_pages_nolock.simps) (simp add: Let_def)
next
  case (Suc d)
  then have "fl_count (buddy_lists s ! k) = 0" "k < MAX_ORDER"
    using lists_okD(2)[of s pr L k] p by (auto simp: pool_def MAX_ORDER_def)
  moreover have "alloc_pages_nolock s (Suc k) = Ok (NULL, s)"
    using Suc(1)[of "Suc k"] Suc(2-) by simp
  ultimately show ?case by (subst alloc_pages_nolock.simps) (simp add: Let_def)
qed

text \<open>The buddy of a block just split off is freed without a merge: its own buddy has a larger order.\<close>

lemma split_free_direct:
  assumes p: "pages s (pg n) = Some q" "k < pg_order q" and k: "k < 15"
    and al: "2 ^ Suc k dvd n" and bd: "n + 2 ^ Suc k \<le> 2 ^ 31"
  shows "get_buddy (page_to_pfn (pg n)) k = of_nat (n + 2 ^ k)"
    and "free_pages_nolock s (pg (n + 2 ^ k)) k = direct_free s (pg (n + 2 ^ k)) k"
proof -
  have alk: "2 ^ k dvd n" using al by (rule dvd_trans[rotated]) (simp add: le_imp_power_dvd)
  have b: "bud n k = n + 2 ^ k"
    using al by (auto simp: bud_def)
  have n0: "(0::nat) < 2 ^ k" by simp
  then have n: "n < 2 ^ 31" and bd': "n + 2 ^ k \<le> 2 ^ 31" "n + 2 ^ k + 2 ^ k \<le> 2 ^ 31"
    using bd unfolding power_Suc by linarith+
  have pfn: "page_to_pfn (pg n) = of_nat n" using page_to_pfn_pg[of n] n by simp
  have "unat (get_buddy (page_to_pfn (pg n)) k) = n + 2 ^ k"
    using get_buddy_nat[of n k] n k pfn b by simp
  then show "get_buddy (page_to_pfn (pg n)) k = of_nat (n + 2 ^ k)"
    using bd' by (intro unsigned_word_eqI[where 'a = nat]) (simp add: unat_of_nat del: of_nat_add)
  have bb: "bud (n + 2 ^ k) k = n" using bud_involution[OF alk] b by simp
  have "2 ^ k dvd n + 2 ^ k" using alk by simp
  note a = buddy_addresses(1)[OF this bd'(2), unfolded bb]
  have pn: "pfn_to_page (of_nat n) = pg n" by (simp add: pg_def)
  have "fetch (pages s) (pg n) = Ok q" using p(1) pg_not_NULL[of n] n by simp
  then show "free_pages_nolock s (pg (n + 2 ^ k)) k = direct_free s (pg (n + 2 ^ k)) k"
    using p(2) k by (subst free_pages_nolock.simps) (simp add: Let_def a pn)
qed

lemma alloc_some:
  assumes "pool s pr L" and "k < 16" and "\<exists>j. k \<le> j \<and> j < 16 \<and> L j \<noteq> []"
  shows "\<exists>n s' pr' L' q. alloc_pages_nolock s k = Ok (pg n, s') \<and> pool s' pr' L' \<and> same_frame s s'
     \<and> 2 ^ k dvd n \<and> n + 2 ^ k \<le> 2 ^ 31 \<and> blk n k \<subseteq> free_set L \<and> free_set L' = free_set L - blk n k
     \<and> pages s' (pg n) = Some q \<and> k \<le> pg_order q"
  using assms
proof (induction "15 - k" arbitrary: k rule: less_induct)
  case less
  note p = less.prems(1) and k = less.prems(2) and ex = less.prems(3)
  have ok: "blocks_ok L" and mk: "marks_ok s L" and lk: "lists_ok s pr L" using p by (auto simp: pool_def)
  show ?case
  proof (cases "L k")
    case (Cons n ys)
    let ?fl = "\<lparr>fl_head = case ys of [] \<Rightarrow> NULL | m # _ \<Rightarrow> pg m, fl_count = fl_count (buddy_lists s ! k) - 1\<rparr>"
    let ?s = "s\<lparr>buddy_lists := (buddy_lists s)[k := ?fl]\<rparr>"
    note pop = pop_pool[OF p k Cons]
    have "alloc_pages_nolock s k = Ok (pg n, ?s)"
      using pop(1,2) k by (subst alloc_pages_nolock.simps) (simp add: Let_def MAX_ORDER_def)
    moreover have nk: "n \<in> set (L k)" using Cons by simp
    moreover have "2 ^ k dvd n" "n + 2 ^ k \<le> 2 ^ 31" using ok k nk by (auto simp: blocks_ok_def)
    moreover obtain q where "pages s (pg n) = Some q" "pg_order q = k"
      using mk k nk unfolding marks_ok_def by blast
    moreover have "free_set (L(k := ys)) = free_set L - blk n k"
      using blocks_remove(2)[OF ok k, of "[]" n ys] Cons by simp
    moreover have "same_frame s ?s" by (simp add: same_frame_def)
    ultimately show ?thesis using pop(3) free_set_mem[of k n L] k
      by (intro exI[of _ n] exI[of _ ?s] exI[of _ "pr(k := pg n)"] exI[of _ "L(k := ys)"] exI[of _ q]) simp
  next
    case Nil
    then obtain j where j: "k \<le> j" "j < 16" "L j \<noteq> []" and jk: "j \<noteq> k" using ex by auto
    have k15: "k < 15" using j jk by linarith
    have ex': "\<exists>j. Suc k \<le> j \<and> j < 16 \<and> L j \<noteq> []" using j jk by (metis Suc_leI le_neq_implies_less)
    have "15 - Suc k < 15 - k" "Suc k < 16" using k15 by auto
    from less.hyps[OF this(1) p this(2) ex'] obtain n s1 pr1 L1 q where
      r: "alloc_pages_nolock s (Suc k) = Ok (pg n, s1)" "pool s1 pr1 L1" "same_frame s s1"
        "2 ^ Suc k dvd n" "n + 2 ^ Suc k \<le> 2 ^ 31" "blk n (Suc k) \<subseteq> free_set L"
        "free_set L1 = free_set L - blk n (Suc k)" "pages s1 (pg n) = Some q" "Suc k \<le> pg_order q"
      by blast
    let ?b = "n + 2 ^ k"
    have kq: "k < pg_order q" using r(9) by simp
    note sp = split_free_direct[OF r(8) kq k15 r(4,5)]
    have halves: "blk n (Suc k) = blk n k \<union> blk ?b k" "blk n k \<inter> blk ?b k = {}" by (auto simp: blk_def)
    have al: "2 ^ k dvd n" using r(4) by (rule dvd_trans[rotated]) (simp add: le_imp_power_dvd)
    have alb: "2 ^ k dvd ?b" using al by simp
    have mapped: "pg x \<in> dom (pages s1) \<and> pg x \<in> dom (blist s1)" if "x \<in> blk n (Suc k)" for x
      using free_set_mapped[OF mk, of x] r(3,6) that by (auto simp: same_frame_def)
    have p0: "(0::nat) < 2 ^ k" by simp
    have n31: "n < 2 ^ 31" "?b < 2 ^ 31" using r(5) p0 unfolding power_Suc by linarith+
    obtain qb lb where qb: "pages s1 (pg ?b) = Some qb" "blist s1 (pg ?b) = Some lb"
      using mapped[of ?b] halves by auto
    have disb: "blk ?b k \<inter> free_set L1 = {}" using r(7) halves(1) by blast
    have bdb: "?b + 2 ^ k \<le> 2 ^ 31" using r(5) by simp
    have mb: "\<And>x. x \<in> blk ?b k \<Longrightarrow> pg x \<in> dom (pages s1) \<and> pg x \<in> dom (blist s1)"
      using mapped halves(1) by blast
    from direct_free_pool[OF r(2) k alb bdb disb mb qb] obtain s2 where
      s2: "direct_free s1 (pg ?b) k = Ok s2" "pool s2 (pr1(k := lh_prev lb)) (L1(k := ?b # L1 k))"
        "same_frame s1 s2"
        "pages s2 = (pages s1)(pg ?b \<mapsto> qb\<lparr>pg_flags := pg_flags qb OR PAGE_FLAG_FREE, pg_order := k\<rparr>)"
      by blast
    have "pg n \<noteq> pg ?b" using pg_inj[of n ?b] n31 by simp
    then have q2: "pages s2 (pg n) = Some q" using s2(4) r(8) by simp
    let ?q = "q\<lparr>pg_flags := pg_flags q AND NOT PAGE_FLAG_FREE\<rparr>"
    let ?s = "s2\<lparr>pages := (pages s2)(pg n \<mapsto> ?q)\<rparr>"
    let ?L = "L1(k := ?b # L1 k)"
    have cnt: "fl_count (buddy_lists s ! k) = 0" using lists_okD(2)[OF lk k] Nil by simp
    have run: "alloc_pages_nolock s k = Ok (pg n, ?s)"
      using cnt k15 r(1) sp s2(1) q2 pg_not_NULL[of n] n31
      by (subst alloc_pages_nolock.simps) (simp add: Let_def MAX_ORDER_def pg_def[of ?b, symmetric] del: of_nat_add)
    have fs: "free_set ?L = free_set L - blk n k"
      using free_set_insert[OF k, of L1 ?b] r(6,7) halves by blast
    have "n \<notin> set (?L j)" if "j < 16" for j
      using free_set_first[OF that, of n ?L] fs blk_first[of n k] by blast
    then have "pages ?s (pg m) = pages s2 (pg m)" if "j < 16" "m \<in> set (?L j)" for j m
    proof -
      have "m \<noteq> n" using that \<open>\<And>j. j < 16 \<Longrightarrow> n \<notin> set (?L j)\<close> by blast
      moreover have "m < 2 ^ 31" using pool_bound[of ?L j m] s2(2) that by (simp add: pool_def)
      ultimately show ?thesis using pg_inj[of m n] n31 by simp
    qed
    moreover have "marks_ok s2 ?L" using s2(2) by (simp add: pool_def)
    ultimately have "marks_ok ?s ?L"
      by (intro marks_ok_cong[of s2 ?L ?s]) (use q2 in auto)
    then have "pool ?s (pr1(k := lh_prev lb)) ?L" using s2(2) by (simp add: pool_def lists_ok_def)
    moreover have "same_frame s ?s"
      using r(3) s2(3) q2 by (auto simp: same_frame_def)
    ultimately show ?thesis using run fs r(5,6) halves(1) al kq
      by (intro exI[of _ n] exI[of _ ?s] exI[of _ "pr1(k := lh_prev lb)"] exI[of _ ?L] exI[of _ ?q]) auto
  qed
qed

section \<open>The pool at boot\<close>

definition zone_frames :: "buddy_zone \<Rightarrow> nat set" where
  "zone_frames z = {unat (z_base z)..<unat (z_base z) + unat (z_size z)}"

definition zone_ok :: "buddy_zone \<Rightarrow> bool" where
  "zone_ok z \<longleftrightarrow> even (unat (z_base z)) \<and> unat (z_base z) + unat (z_size z) \<le> 2 ^ 31"

text \<open>The frames \<open>buddy_init\<close> frees when \<open>b\<close> pages are still to be skipped.\<close>

definition half :: "nat \<Rightarrow> buddy_zone \<Rightarrow> nat set" where
  "half d z = {unat (z_base z) + i | i. d \<le> i \<and> i < unat (z_size z) \<and> even (i - d)}"

fun init_free :: "nat \<Rightarrow> buddy_zone list \<Rightarrow> nat set" where
  "init_free b [] = {}"
| "init_free b (z # zs) = half (min b (unat (z_size z))) z \<union> init_free (b - unat (z_size z)) zs"

lemma half_sub: "half d z \<subseteq> zone_frames z"
  by (auto simp: half_def zone_frames_def)

lemma half_step:
  "d < unat (z_size z) \<Longrightarrow> half d z = insert (unat (z_base z) + d) (half (d + 2) z)"
proof (intro set_eqI iffI)
  fix x assume d: "d < unat (z_size z)" and "x \<in> half d z"
  then obtain i where i: "x = unat (z_base z) + i" "d \<le> i" "i < unat (z_size z)" "even (i - d)"
    by (auto simp: half_def)
  then show "x \<in> insert (unat (z_base z) + d) (half (d + 2) z)"
    by (cases "i = d"; cases "i = d + 1") (auto simp: half_def)
next
  fix x assume d: "d < unat (z_size z)" and "x \<in> insert (unat (z_base z) + d) (half (d + 2) z)"
  then consider "x = unat (z_base z) + d"
    | i where "x = unat (z_base z) + i" "d + 2 \<le> i" "i < unat (z_size z)" "even (i - (d + 2))"
    by (auto simp: half_def)
  then show "x \<in> half d z"
  proof cases
    case 1
    then show ?thesis using d by (auto simp: half_def)
  next
    case 2
    from 2(4) obtain c where "i - (d + 2) = 2 * c" by (rule evenE)
    then have "i - d = 2 * Suc c" using 2(2) by arith
    then have "even (i - d)" by (metis dvd_triv_left)
    then show ?thesis using 2 by (auto simp: half_def)
  qed
qed

lemma half_end: "unat (z_size z) \<le> d \<Longrightarrow> half d z = {}"
  by (auto simp: half_def)

lemma init_order_1 [simp]: "0 < left \<Longrightarrow> init_order left 0 = 0"
  by (subst init_order.simps) simp

lemma zone_end:
  assumes "zone_ok z"
  shows "unat (z_base z + ucast (z_size z)) = unat (z_base z) + unat (z_size z)"
proof -
  have sz: "unat (ucast (z_size z) :: u64) = unat (z_size z)"
    using unsigned_less[of "z_size z", where ?'a = nat]
    by (simp add: unsigned_ucast_eq unsigned_take_bit_eq take_bit_nat_eq_self)
  have "unat (z_base z) + unat (z_size z) < 2 ^ 64" using assms by (simp add: zone_ok_def)
  then show ?thesis using sz by (simp add: unat_word_ariths)
qed

lemma zone_valid:
  assumes z: "z \<in> set (buddy_zones s)" and ok: "zone_ok z" and x: "x \<in> zone_frames z"
  shows "valid_buddy_pfn s (of_nat x)"
proof -
  have x31: "x < 2 ^ 31" using ok x by (auto simp: zone_ok_def zone_frames_def)
  have u: "unat (of_nat x :: u64) = x" using x31 by (simp add: unat_of_nat)
  show ?thesis using z u x zone_end[OF ok]
    by (auto simp: valid_buddy_pfn_def list_ex_iff word_le_nat_alt word_less_nat_alt zone_frames_def)
qed

lemma valid_zone:
  assumes ok: "\<forall>z \<in> set (buddy_zones s). zone_ok z" and x31: "x < 2 ^ 31"
    and v: "valid_buddy_pfn s (of_nat x)"
  shows "\<exists>z \<in> set (buddy_zones s). x \<in> zone_frames z"
proof -
  have u: "unat (of_nat x :: u64) = x" using x31 by (simp add: unat_of_nat)
  obtain z where z: "z \<in> set (buddy_zones s)" "z_base z \<le> of_nat x" "z_base z + ucast (z_size z) > of_nat x"
    using v by (auto simp: valid_buddy_pfn_def list_ex_iff)
  moreover have "zone_ok z" using ok z(1) by blast
  ultimately show ?thesis using u zone_end[of z]
    by (auto simp: word_le_nat_alt word_less_nat_alt zone_frames_def)
qed

text \<open>The skip phase: pages below \<open>bump_allocated\<close> are stepped over one by one.\<close>

lemma init_zone_skip:
  assumes "i + d \<le> unat (z_size z)" and "idx + d \<le> unat bump" and "i + d < 2 ^ 31" and "idx + d < 2 ^ 31"
  shows "init_zone bump z i idx s = init_zone bump z (i + d) (idx + d) s"
  using assms
proof (induction d)
  case (Suc d)
  then have "init_zone bump z i idx s = init_zone bump z (i + d) (idx + d) s" by simp
  also have "\<dots> = init_zone bump z (i + d + 1) (idx + d + 1) s"
    using Suc.prems by (subst init_zone.simps) simp
  finally show ?case by simp
qed simp

definition fresh_frames :: "buddy_state \<Rightarrow> nat set \<Rightarrow> bool" where
  "fresh_frames s X \<longleftrightarrow>
     (\<forall>x \<in> X. pg x \<in> dom (pages s) \<and> (\<exists>l. blist s (pg x) = Some l \<and> lh_prev l = NULL))"

lemma fresh_frames_mono: "fresh_frames s X \<Longrightarrow> Y \<subseteq> X \<Longrightarrow> fresh_frames s Y"
  by (auto simp: fresh_frames_def)

lemma free_set_order0: "(\<And>j. 0 < j \<Longrightarrow> L j = []) \<Longrightarrow> free_set L = set (L 0)"
proof (intro set_eqI iffI)
  fix x assume only: "\<And>j. 0 < j \<Longrightarrow> L j = []" and "x \<in> free_set L"
  then obtain k n where kn: "n \<in> set (L k)" "x \<in> blk n k" by (auto simp: free_set_iff)
  then have "k = 0" using only[of k] by (cases k) auto
  then show "x \<in> set (L 0)" using kn by (auto simp: blk_def)
next
  fix x assume "x \<in> set (L 0)"
  then show "x \<in> free_set L" using free_set_first[of 0 x L] by simp
qed

lemma free_frame:
  assumes c: "clean_pool s L" and lk: "kmem_lock s = 0" and only: "\<And>j. 0 < j \<Longrightarrow> L j = []"
    and x: "x < 2 ^ 31" "valid_buddy_pfn s (of_nat x)" "x \<notin> set (L 0)" "bud x 0 \<notin> set (L 0)"
    and fresh: "fresh_frames s {x}"
  shows "\<exists>s'. free_pages s (pg x) 0 = Ok s' \<and> clean_pool s' (L(0 := x # L 0)) \<and> same_frame s s'
     \<and> (\<forall>m < 2 ^ 31. m \<noteq> x \<longrightarrow> m \<notin> set (L 0) \<longrightarrow> blist s' (pg m) = blist s (pg m))"
proof -
  let ?s = "s\<lparr>kmem_lock := 1\<rparr>"
  have b0: "blk m 0 = {m}" for m by (auto simp: blk_def)
  have "blk x 0 \<inter> free_set L = {}"
    using free_set_order0[OF only] x(3) by (simp add: b0)
  moreover obtain l where l: "blist s (pg x) = Some l" "lh_prev l = NULL" "pg x \<in> dom (pages s)"
    using fresh by (auto simp: fresh_frames_def)
  ultimately obtain s1 where s1: "direct_free ?s (pg x) 0 = Ok s1" "clean_pool s1 (L(0 := x # L 0))"
    "same_frame ?s s1"
    "\<forall>m < 2 ^ 31. m \<noteq> x \<longrightarrow> m \<notin> set (L 0) \<longrightarrow> blist s1 (pg m) = blist s (pg m)"
    using direct_free_clean[of ?s L 0 x l] c x(1,2) by (auto simp: b0)
  have "free_pages_nolock ?s (pg x) 0 = direct_free ?s (pg x) 0"
    using free_pages_nolock_cases[of ?s L 0 x] c x(1,4) by simp
  then show ?thesis using s1 lk
    by (intro exI[of _ "s1\<lparr>kmem_lock := 0\<rparr>"]) (auto simp: free_pages_def same_frame_def)
qed

text \<open>The freeing phase of one zone: every second frame, and nothing merges.\<close>

lemma init_zone_free:
  assumes "clean_pool s L" and "kmem_lock s = 0" and "\<And>j. 0 < j \<Longrightarrow> L j = []"
    and "zone_ok z" and "z \<in> set (buddy_zones s)" and "unat bump \<le> idx" and "idx + unat (z_size z) < 2 ^ 31 + i"
    and "unat (z_size z) + 1 < 2 ^ 31" and "idx < 2 ^ 31" and "i \<le> unat (z_size z) + 1"
    and "fresh_frames s {unat (z_base z) + i..<unat (z_base z) + unat (z_size z)}"
    and "\<And>x. unat (z_base z) + i \<le> x \<Longrightarrow> x \<in> zone_frames z \<Longrightarrow> x \<notin> set (L 0) \<and> bud x 0 \<notin> set (L 0)"
  shows "\<exists>s' L' idx'. init_zone bump z i idx s = Ok (idx', s') \<and> clean_pool s' L'
     \<and> (\<forall>j > 0. L' j = []) \<and> set (L' 0) = set (L 0) \<union> half i z \<and> same_frame s s'
     \<and> idx \<le> idx' \<and> idx' \<le> idx + (unat (z_size z) - i)
     \<and> (\<forall>m < 2 ^ 31. m \<notin> set (L 0) \<union> zone_frames z \<longrightarrow> blist s' (pg m) = blist s (pg m))"
  using assms
proof (induction "unat (z_size z) + 1 - i" arbitrary: s L i idx rule: less_induct)
  case less
  note c = less.prems(1) and lk = less.prems(2) and only = less.prems(3) and zok = less.prems(4)
    and zin = less.prems(5) and fresh = less.prems(11) and clear = less.prems(12)
  have base: "unat (z_base z) + unat (z_size z) \<le> 2 ^ 31" using zok by (simp add: zone_ok_def)
  show ?case
  proof (cases "i < unat (z_size z)")
    case False
    then have "init_zone bump z i idx s = Ok (idx, s)"
      using less.prems(8,9,10) by (subst init_zone.simps) simp
    then show ?thesis using False c only half_end[of z i]
      by (intro exI[of _ s] exI[of _ L] exI[of _ idx]) simp
  next
    case True
    let ?x = "unat (z_base z) + i"
    have xz: "?x \<in> zone_frames z" using True by (simp add: zone_frames_def)
    have x31: "?x < 2 ^ 31" using True base by simp
    have fx: "fresh_frames s {?x}" by (rule fresh_frames_mono[OF fresh]) (use True in auto)
    from free_frame[OF c lk only x31 zone_valid[OF zin zok xz] _ _ fx] clear[OF _ xz]
    obtain s1 where s1: "free_pages s (pg ?x) 0 = Ok s1" "clean_pool s1 (L(0 := ?x # L 0))" "same_frame s s1"
      "\<forall>m < 2 ^ 31. m \<noteq> ?x \<longrightarrow> m \<notin> set (L 0) \<longrightarrow> blist s1 (pg m) = blist s (pg m)"
      by auto
    have px: "pfn_to_page (z_base z + of_nat i) = pg ?x" by (simp add: pg_def)
    have run: "init_zone bump z i idx s = init_zone bump z (i + 2) (idx + 1) s1"
      using True less.prems(6,8,9,10) s1(1)
      by (subst init_zone.simps) (simp add: Let_def px)
    let ?L = "L(0 := ?x # L 0)"
    have cx: "\<And>y. unat (z_base z) + (i + 2) \<le> y \<Longrightarrow> y \<in> zone_frames z \<Longrightarrow> y \<notin> set (?L 0) \<and> bud y 0 \<notin> set (?L 0)"
    proof -
      fix y assume y: "unat (z_base z) + (i + 2) \<le> y" "y \<in> zone_frames z"
      then have "bud y 0 \<noteq> ?x" by (auto simp: bud_def)
      then show "y \<notin> set (?L 0) \<and> bud y 0 \<notin> set (?L 0)" using y clear[of y] by auto
    qed
    have fr: "fresh_frames s1 {unat (z_base z) + (i + 2)..<unat (z_base z) + unat (z_size z)}"
      unfolding fresh_frames_def
    proof
      fix y assume y: "y \<in> {unat (z_base z) + (i + 2)..<unat (z_base z) + unat (z_size z)}"
      then have "y \<notin> set (L 0)" using clear[of y] by (auto simp: zone_frames_def)
      then have "blist s1 (pg y) = blist s (pg y)" using s1(4) y base by simp
      then show "pg y \<in> dom (pages s1) \<and> (\<exists>l. blist s1 (pg y) = Some l \<and> lh_prev l = NULL)"
        using fresh y s1(3) by (auto simp: fresh_frames_def same_frame_def)
    qed
    have e: "unat (z_size z) + 1 - (i + 2) < unat (z_size z) + 1 - i" "kmem_lock s1 = 0"
      "\<And>j. 0 < j \<Longrightarrow> ?L j = []" "z \<in> set (buddy_zones s1)" "unat bump \<le> idx + 1"
      "idx + 1 + unat (z_size z) < 2 ^ 31 + (i + 2)" "idx + 1 < 2 ^ 31" "i + 2 \<le> unat (z_size z) + 1"
      using True lk only zin s1(3) less.prems(6,7) by (auto simp: same_frame_def)
    from less.hyps[OF e(1) s1(2) e(2,3) zok e(4,5,6) less.prems(8) e(7,8) fr cx]
    obtain s' L' idx' where r: "init_zone bump z (i + 2) (idx + 1) s1 = Ok (idx', s')" "clean_pool s' L'"
      "\<forall>j > 0. L' j = []" "set (L' 0) = set (?L 0) \<union> half (i + 2) z" "same_frame s1 s'"
      "idx + 1 \<le> idx'" "idx' \<le> idx + 1 + (unat (z_size z) - (i + 2))"
      "\<forall>m < 2 ^ 31. m \<notin> set (?L 0) \<union> zone_frames z \<longrightarrow> blist s' (pg m) = blist s1 (pg m)"
      by blast
    have "set (L' 0) = set (L 0) \<union> half i z" using r(4) half_step[OF True] by auto
    moreover have "blist s' (pg m) = blist s (pg m)" if "m < 2 ^ 31" "m \<notin> set (L 0) \<union> zone_frames z" for m
      using r(8) s1(4) that xz by auto
    moreover have "idx' \<le> idx + (unat (z_size z) - i)" "idx \<le> idx'" using r(6,7) True by auto
    ultimately show ?thesis using run r(1,2,3) same_frame_trans[OF s1(3) r(5)] by auto
  qed
qed

lemma init_zone_clean:
  assumes c: "clean_pool s L" and lk: "kmem_lock s = 0" and only: "\<And>j. 0 < j \<Longrightarrow> L j = []"
    and zok: "zone_ok z" and zin: "z \<in> set (buddy_zones s)"
    and sz: "idx + unat (z_size z) + 1 < 2 ^ 31"
    and fresh: "fresh_frames s (zone_frames z)"
    and clear: "\<And>x. x \<in> zone_frames z \<Longrightarrow> x \<notin> set (L 0) \<and> bud x 0 \<notin> set (L 0)"
  shows "\<exists>s' L' idx'. init_zone bump z 0 idx s = Ok (idx', s') \<and> clean_pool s' L'
     \<and> (\<forall>j > 0. L' j = []) \<and> set (L' 0) = set (L 0) \<union> half (min (unat bump - idx) (unat (z_size z))) z
     \<and> same_frame s s' \<and> idx' \<le> idx + unat (z_size z) \<and> unat bump - idx' = unat bump - idx - unat (z_size z)
     \<and> (\<forall>m < 2 ^ 31. m \<notin> set (L 0) \<union> zone_frames z \<longrightarrow> blist s' (pg m) = blist s (pg m))"
proof -
  let ?n = "unat (z_size z)" and ?d = "min (unat bump - idx) (unat (z_size z))"
  have skip: "init_zone bump z 0 idx s = init_zone bump z ?d (idx + ?d) s"
    using init_zone_skip[of 0 ?d z idx bump s] sz by (cases "unat bump \<le> idx") auto
  show ?thesis
  proof (cases "?d < ?n")
    case False
    then have d: "?d = ?n" by simp
    have "init_zone bump z ?n (idx + ?n) s = Ok (idx + ?n, s)"
      using sz by (subst init_zone.simps) simp
    then show ?thesis using skip d c only half_end[of z ?n]
      by (intro exI[of _ s] exI[of _ L] exI[of _ "idx + ?n"]) simp
  next
    case True
    then have b: "unat bump \<le> idx + ?d" by simp
    have fr: "fresh_frames s {unat (z_base z) + ?d..<unat (z_base z) + ?n}"
      by (rule fresh_frames_mono[OF fresh]) (auto simp: zone_frames_def)
    have e: "idx + ?d + ?n < 2 ^ 31 + ?d" "?n + 1 < 2 ^ 31" "idx + ?d < 2 ^ 31" "?d \<le> ?n + 1"
      using sz True by auto
    obtain s' L' idx' where r: "init_zone bump z ?d (idx + ?d) s = Ok (idx', s')" "clean_pool s' L'"
      "\<forall>j > 0. L' j = []" "set (L' 0) = set (L 0) \<union> half ?d z" "same_frame s s'"
      "idx + ?d \<le> idx'" "idx' \<le> idx + ?d + (?n - ?d)"
      "\<forall>m < 2 ^ 31. m \<notin> set (L 0) \<union> zone_frames z \<longrightarrow> blist s' (pg m) = blist s (pg m)"
      using init_zone_free[OF c lk only zok zin b e fr] clear by blast
    have "unat bump - idx' = unat bump - idx - ?n" "idx' \<le> idx + ?n" using b r(6,7) True by auto
    then show ?thesis using skip r by auto
  qed
qed

fun zones_apart :: "buddy_zone list \<Rightarrow> bool" where
  "zones_apart [] = True"
| "zones_apart (z # zs) = ((\<forall>y \<in> set zs. zone_frames z \<inter> zone_frames y = {}) \<and> zones_apart zs)"

lemma zone_buddy_apart:
  assumes "zone_ok y" and "zone_ok z" and dis: "zone_frames z \<inter> zone_frames y = {}" and x: "x \<in> zone_frames y"
  shows "bud x 0 \<notin> zone_frames z"
proof
  assume b: "bud x 0 \<in> zone_frames z"
  have ey: "even (unat (z_base y))" and ez: "even (unat (z_base z))" using assms by (auto simp: zone_ok_def)
  show False
  proof (cases "even x")
    case True
    then have "bud x 0 = x + 1" by (simp add: bud_def)
    moreover have "x \<notin> zone_frames z" using dis x by blast
    ultimately have "unat (z_base z) = x + 1" using b by (auto simp: zone_frames_def)
    then show False using ez True by simp
  next
    case False
    then have "bud x 0 = x - 1" "0 < x" by (auto simp: bud_def intro: gr0I)
    moreover have "bud x 0 \<notin> zone_frames y" using dis b by blast
    ultimately have "unat (z_base y) = x" using x by (auto simp: zone_frames_def)
    then show False using ey False by simp
  qed
qed

lemma init_zones_clean:
  assumes "clean_pool s L" and "kmem_lock s = 0" and "\<And>j. 0 < j \<Longrightarrow> L j = []"
    and "\<forall>z \<in> set zs. zone_ok z \<and> z \<in> set (buddy_zones s)" and "zones_apart zs"
    and "idx + (\<Sum>z \<leftarrow> zs. unat (z_size z)) + 1 < 2 ^ 31"
    and "\<forall>z \<in> set zs. fresh_frames s (zone_frames z)"
    and "\<And>z x. z \<in> set zs \<Longrightarrow> x \<in> zone_frames z \<Longrightarrow> x \<notin> set (L 0) \<and> bud x 0 \<notin> set (L 0)"
  shows "\<exists>s' L' idx'. init_zones bump zs idx s = Ok (idx', s') \<and> clean_pool s' L'
     \<and> (\<forall>j > 0. L' j = []) \<and> set (L' 0) = set (L 0) \<union> init_free (unat bump - idx) zs \<and> same_frame s s'"
  using assms
proof (induction zs arbitrary: s L idx)
  case Nil
  then show ?case by auto
next
  case (Cons z zs)
  have z: "zone_ok z" "z \<in> set (buddy_zones s)" "fresh_frames s (zone_frames z)" using Cons.prems(4,7) by auto
  have sz: "idx + unat (z_size z) + 1 < 2 ^ 31" using Cons.prems(6) by simp
  have cl: "\<And>x. x \<in> zone_frames z \<Longrightarrow> x \<notin> set (L 0) \<and> bud x 0 \<notin> set (L 0)"
    using Cons.prems(8)[of z] by simp
  from init_zone_clean[OF Cons.prems(1,2,3) z(1,2) sz z(3) cl, of bump]
  obtain s1 L1 idx1 where r: "init_zone bump z 0 idx s = Ok (idx1, s1)" "clean_pool s1 L1"
    "\<forall>j > 0. L1 j = []" "set (L1 0) = set (L 0) \<union> half (min (unat bump - idx) (unat (z_size z))) z"
    "same_frame s s1" "idx1 \<le> idx + unat (z_size z)"
    "unat bump - idx1 = unat bump - idx - unat (z_size z)"
    "\<forall>m < 2 ^ 31. m \<notin> set (L 0) \<union> zone_frames z \<longrightarrow> blist s1 (pg m) = blist s (pg m)"
    by blast
  have clear: "x \<notin> set (L1 0) \<and> bud x 0 \<notin> set (L1 0)" if y: "y \<in> set zs" and x: "x \<in> zone_frames y" for y x
  proof -
    have "zone_frames z \<inter> zone_frames y = {}" using Cons.prems(5) y by simp
    then have "x \<notin> zone_frames z" "bud x 0 \<notin> zone_frames z"
      using zone_buddy_apart[of y z x] Cons.prems(4) y x z(1) by auto
    then show ?thesis using Cons.prems(8)[of y x] y x r(4) half_sub by auto
  qed
  have fresh: "\<forall>y \<in> set zs. fresh_frames s1 (zone_frames y)"
    unfolding fresh_frames_def
  proof (intro ballI)
    fix y x assume y: "y \<in> set zs" and x: "x \<in> zone_frames y"
    have "x \<notin> set (L 0)" using Cons.prems(8)[of y x] y x by simp
    moreover have "x \<notin> zone_frames z" using Cons.prems(5) y x by auto
    moreover have "x < 2 ^ 31" using Cons.prems(4) y x by (auto simp: zone_ok_def zone_frames_def)
    ultimately have "blist s1 (pg x) = blist s (pg x)" using r(8) by simp
    then show "pg x \<in> dom (pages s1) \<and> (\<exists>l. blist s1 (pg x) = Some l \<and> lh_prev l = NULL)"
      using Cons.prems(7) y x r(5) by (auto simp: fresh_frames_def same_frame_def)
  qed
  have e: "kmem_lock s1 = 0" "\<forall>y \<in> set zs. zone_ok y \<and> y \<in> set (buddy_zones s1)" "zones_apart zs"
    "idx1 + (\<Sum>z \<leftarrow> zs. unat (z_size z)) + 1 < 2 ^ 31" "\<And>j. 0 < j \<Longrightarrow> L1 j = []"
    using Cons.prems(2,4,5,6) r(3,5,6) by (auto simp: same_frame_def)
  have "\<exists>s' L' idx'. init_zones bump zs idx1 s1 = Ok (idx', s') \<and> clean_pool s' L'
     \<and> (\<forall>j > 0. L' j = []) \<and> set (L' 0) = set (L1 0) \<union> init_free (unat bump - idx1) zs \<and> same_frame s1 s'"
    by (rule Cons.IH[OF r(2) e(1) _ e(2,3,4) fresh]) (use e(5) clear in blast)+
  then obtain s' L' idx' where "init_zones bump zs idx1 s1 = Ok (idx', s')" "clean_pool s' L'"
    "\<forall>j > 0. L' j = []" "set (L' 0) = set (L1 0) \<union> init_free (unat bump - idx1) zs" "same_frame s1 s'"
    by blast
  then show ?case using r(1,4,7) same_frame_trans[OF r(5)] by auto
qed

section \<open>Runs of allocations\<close>

lemma pool_lock [simp]: "pool (s\<lparr>kmem_lock := l\<rparr>) pr L = pool s pr L"
  by (simp add: pool_def lists_ok_def marks_ok_def)

lemma alloc_pages_none:
  assumes "pool s pr L" and "kmem_lock s = 0" and "k < 16" and "\<And>j. k \<le> j \<Longrightarrow> j < 16 \<Longrightarrow> L j = []"
  shows "alloc_pages hhdm s k 0 = Ok (NULL, s)"
proof -
  have "alloc_pages_nolock (s\<lparr>kmem_lock := 1\<rparr>) k = Ok (NULL, s\<lparr>kmem_lock := 1\<rparr>)"
    using alloc_none[of "s\<lparr>kmem_lock := 1\<rparr>" pr L k] assms by simp
  moreover have "s\<lparr>kmem_lock := 0\<rparr> = s" using assms(2) by simp
  ultimately show ?thesis using assms(2) by (simp add: alloc_pages_def)
qed

lemma alloc_pages_some:
  assumes "pool s pr L" and "kmem_lock s = 0" and "k < 16" and "\<exists>j. k \<le> j \<and> j < 16 \<and> L j \<noteq> []"
  shows "\<exists>n s' pr' L'. alloc_pages hhdm s k 0 = Ok (pg n, s') \<and> pool s' pr' L' \<and> same_frame s s'
     \<and> 2 ^ k dvd n \<and> n + 2 ^ k \<le> 2 ^ 31 \<and> blk n k \<subseteq> free_set L \<and> free_set L' = free_set L - blk n k"
proof -
  obtain n s' pr' L' where r: "alloc_pages_nolock (s\<lparr>kmem_lock := 1\<rparr>) k = Ok (pg n, s')" "pool s' pr' L'"
    "same_frame (s\<lparr>kmem_lock := 1\<rparr>) s'" "2 ^ k dvd n" "n + 2 ^ k \<le> 2 ^ 31" "blk n k \<subseteq> free_set L"
    "free_set L' = free_set L - blk n k"
    using alloc_some[of "s\<lparr>kmem_lock := 1\<rparr>" pr L k] assms by auto
  have "alloc_pages hhdm s k 0 = Ok (pg n, s'\<lparr>kmem_lock := 0\<rparr>)"
    using r(1) assms(2) by (simp add: alloc_pages_def)
  moreover have "same_frame s (s'\<lparr>kmem_lock := 0\<rparr>)" using r(3) assms(2) by (simp add: same_frame_def)
  ultimately show ?thesis using r by (intro exI[of _ n] exI[of _ "s'\<lparr>kmem_lock := 0\<rparr>"]) auto
qed

fun alloc_run :: "u64 \<Rightarrow> buddy_state \<Rightarrow> nat list \<Rightarrow> (addr list \<times> buddy_state) result" where
  "alloc_run hhdm s [] = Ok ([], s)"
| "alloc_run hhdm s (k # ks) =
     bnd (alloc_pages hhdm s k 0) (\<lambda>(pg, s). bnd (alloc_run hhdm s ks) (\<lambda>(pgs, s). Ok (pg # pgs, s)))"

text \<open>
  What a run of requests \<open>ks\<close> may return from the frames \<open>F\<close>: for each request NULL, or the first
  page of an aligned block inside \<open>F\<close>, disjoint from the blocks of the other requests.
\<close>

fun grants :: "nat set \<Rightarrow> nat list \<Rightarrow> addr list \<Rightarrow> bool" where
  "grants F [] [] = True"
| "grants F (k # ks) (p # ps) =
     ((p = NULL \<and> grants F ks ps) \<or>
      (\<exists>n. p = pg n \<and> 2 ^ k dvd n \<and> blk n k \<subseteq> F \<and> grants (F - blk n k) ks ps))"
| "grants F _ _ = False"

text \<open>The page allocator as an allocator of frames: NULL stands for no frame.\<close>

definition block_of :: "nat \<Rightarrow> addr \<Rightarrow> nat set \<Rightarrow> bool" where
  "block_of k p X \<longleftrightarrow> p = NULL \<and> X = {} \<or> (\<exists>n. p = pg n \<and> 2 ^ k dvd n \<and> X = blk n k)"

interpretation pa: allocator "\<lambda>k s. alloc_pages hhdm s k 0" "\<lambda>s (pr, L). pool s pr L \<and> kmem_lock s = 0" "\<lambda>(pr, L). free_set L"
    block_of "\<lambda>ks c. list_all (\<lambda>k. k < 16) ks"
  for hhdm
proof unfold_locales
  fix s :: buddy_state and c :: "(nat \<Rightarrow> addr) \<times> blocks" and k :: nat and ks
  assume "case c of (pr, L) \<Rightarrow> pool s pr L \<and> kmem_lock s = 0" "list_all (\<lambda>k. k < 16) (k # ks)"
  then obtain pr L where c: "c = (pr, L)" "pool s pr L" "kmem_lock s = 0" "k < 16" "list_all (\<lambda>k. k < 16) ks" by (cases c) auto
  have "\<exists>b X s' pr' L'. alloc_pages hhdm s k 0 = Ok (b, s') \<and> pool s' pr' L' \<and> kmem_lock s' = 0 \<and> block_of k b X
     \<and> X \<subseteq> free_set L \<and> free_set L' = free_set L - X"
  proof (cases "\<exists>j. k \<le> j \<and> j < 16 \<and> L j \<noteq> []")
    case False
    then have "alloc_pages hhdm s k 0 = Ok (NULL, s)" using alloc_pages_none[OF c(2-4)] by blast
    then show ?thesis using c(2,3) by (auto simp: block_of_def)
  next
    case True
    obtain n s1 pr1 L1 where r: "alloc_pages hhdm s k 0 = Ok (pg n, s1)" "pool s1 pr1 L1" "same_frame s s1"
      "2 ^ k dvd n" "blk n k \<subseteq> free_set L" "free_set L1 = free_set L - blk n k"
      using alloc_pages_some[OF c(2-4) True] by blast
    moreover have "kmem_lock s1 = 0" using r(3) c(3) by (simp add: same_frame_def)
    ultimately show ?thesis unfolding block_of_def by blast
  qed
  then show "\<exists>b X s' c'. alloc_pages hhdm s k 0 = Ok (b, s') \<and> (case c' of (pr, L) \<Rightarrow> pool s' pr L \<and> kmem_lock s' = 0)
     \<and> list_all (\<lambda>k. k < 16) ks \<and> block_of k b X \<and> X \<subseteq> (case c of (pr, L) \<Rightarrow> free_set L)
     \<and> (case c' of (pr, L) \<Rightarrow> free_set L) = (case c of (pr, L) \<Rightarrow> free_set L) - X"
    using c(1,5) by (auto split: prod.splits)
qed

lemma alloc_run_serve: "alloc_run hhdm s ks = serve (\<lambda>k s. alloc_pages hhdm s k 0) ks s"
  by (induction ks arbitrary: s) simp_all

lemma served_grants: "served block_of F ks ps R \<Longrightarrow> grants F ks ps"
proof (induction block_of F ks ps R rule: served.induct)
  case (2 F k ks p ps R)
  then obtain X where X: "block_of k p X" "X \<subseteq> F" "grants (F - X) ks ps" by auto
  then show ?case by (auto simp: block_of_def)
qed simp_all

section \<open>Properties of the page allocator\<close>

text \<open>A pool of two frames, frame 0 allocated and frame 1 free, on which the properties are run.\<close>

definition two_frames :: buddy_state where
  "two_frames = \<lparr>pages = [pg 0 \<mapsto> \<lparr>pg_flags = 0, pg_order = 0\<rparr>, pg 1 \<mapsto> \<lparr>pg_flags = 1, pg_order = 0\<rparr>],
     blist = [pg 0 \<mapsto> \<lparr>lh_next = NULL, lh_prev = NULL\<rparr>, pg 1 \<mapsto> \<lparr>lh_next = NULL, lh_prev = NULL\<rparr>],
     buddy_lists = \<lparr>fl_head = pg 1, fl_count = 1\<rparr> # replicate 15 \<lparr>fl_head = NULL, fl_count = 0\<rparr>,
     buddy_zones = \<lparr>z_base = 0, z_size = 2\<rparr> # replicate 31 \<lparr>z_base = 0, z_size = 0\<rparr>,
     kmem_lock = 0, buddy_initialized = True, mapper_alloc_zpage = From_Buddy, phys_mem = Map.empty\<rparr>"

definition two_blocks :: blocks where "two_blocks = (\<lambda>k. if k = 0 then [1] else [])"

lemma two_valid: "n < 2 ^ 31 \<Longrightarrow> valid_buddy_pfn two_frames (of_nat n) \<longleftrightarrow> n < 2"
  by (simp add: valid_buddy_pfn_def two_frames_def word_less_nat_alt unat_of_nat list_ex_iff)

lemma two_frames_clean: "clean_pool two_frames two_blocks"
proof -
  have ne: "pg 0 \<noteq> pg 1" using pg_inj[of 0 1] by simp
  have nn: "pg 0 \<noteq> NULL" "pg 1 \<noteq> NULL" by simp_all
  have b: "blk n 0 = {n}" for n by (auto simp: blk_def)
  have "blocks_ok two_blocks" by (auto simp: blocks_ok_def two_blocks_def)
  moreover have "lists_ok two_frames (\<lambda>_. NULL) two_blocks"
    using nn by (auto simp: lists_ok_def two_frames_def two_blocks_def nth_Cons split: nat.splits)
  moreover have "marks_ok two_frames two_blocks"
    by (auto simp: marks_ok_def two_frames_def two_blocks_def b)
  moreover have "flags_exact two_frames two_blocks"
    unfolding flags_exact_def
  proof (intro allI impI)
    fix n p assume n: "n < (2 ^ 31 :: nat)" and p: "pages two_frames (pg n) = Some p"
    then have "n = 0 \<or> n = 1" using pg_inj[of n 0] pg_inj[of n 1]
      by (auto simp: two_frames_def split: if_splits)
    then show "page_free p \<longleftrightarrow> (\<exists>k < 16. n \<in> set (two_blocks k))"
      using p ne by (auto simp: two_frames_def two_blocks_def page_free_def PAGE_FLAG_FREE_def)
  qed
  moreover have "frames_valid two_frames two_blocks"
    unfolding frames_valid_def
  proof (intro conjI allI impI ballI)
    fix n assume "n < (2 ^ 31 :: nat)" and "valid_buddy_pfn two_frames (of_nat n)"
    then have "n = 0 \<or> n = 1" using two_valid by auto
    then show "pg n \<in> dom (pages two_frames)" by (auto simp: two_frames_def)
  next
    fix k n assume "n \<in> set (two_blocks k)"
    then show "valid_buddy_pfn two_frames (of_nat n)"
      using two_valid[of 1] by (simp add: two_blocks_def split: if_splits)
  qed
  ultimately show ?thesis by (simp add: clean_pool_def pool_def)
qed

lemma two_free_set: "free_set two_blocks = {1}"
  by (subst free_set_order0) (simp_all add: two_blocks_def)

text \<open>
  C1: Freeing merges. In a state where no list head and no FREE flag is stale, \<open>free_pages\<close> of an
  allocated, valid, aligned block adds exactly the frames of the block to the free frames, whatever
  merges happen: the freelists stay well formed with exact counts and flags, blocks stay aligned and
  disjoint, no two free buddies are left unmerged, and the lock is free again.
\<close>

theorem free_pages_merges:
  assumes "kmem_lock s = 0" and "clean_pool s L" and "coalesced L"
    and "k < 16" and "2 ^ k dvd n" and "n + 2 ^ k \<le> 2 ^ 31"
    and "blk n k \<inter> free_set L = {}" and "valid_buddy_pfn s (of_nat n)"
    and "\<forall>x \<in> blk n k. pg x \<in> dom (pages s) \<and> pg x \<in> dom (blist s)"
    and "blist s (pg n) = Some l" and "lh_prev l = NULL"
  shows "\<exists>s' L'. free_pages s (pg n) k = Ok s' \<and> clean_pool s' L' \<and> coalesced L'
     \<and> free_set L' = free_set L \<union> blk n k \<and> kmem_lock s' = 0"
proof -
  have "pg x \<in> dom (pages s) \<and> pg x \<in> dom (blist s)" if "x \<in> blk n k" for x using assms(9) that by blast
  from free_pages_clean[OF assms(1,2,4,5,6,7,8) this assms(10,11,3)] show ?thesis
    using assms(1) by (auto simp: same_frame_def)
qed

theorem free_pages_merges_witness:
  "\<exists>s' L'. free_pages two_frames (pg 0) 0 = Ok s' \<and> clean_pool s' L' \<and> coalesced L' \<and> free_set L' = {0, 1}"
proof -
  have b: "blk 0 0 = {0}" by (auto simp: blk_def)
  have "coalesced two_blocks" by (simp add: coalesced_def two_blocks_def bud_def)
  moreover have "blist two_frames (pg 0) = Some \<lparr>lh_next = NULL, lh_prev = NULL\<rparr>"
    using pg_inj[of 0 1] by (simp add: two_frames_def)
  ultimately have "\<exists>s' L'. free_pages two_frames (pg 0) 0 = Ok s' \<and> clean_pool s' L' \<and> coalesced L'
     \<and> free_set L' = free_set two_blocks \<union> blk 0 0 \<and> kmem_lock s' = 0"
    using two_valid[of 0] two_frames_clean
    by (intro free_pages_merges) (auto simp: b two_free_set two_frames_def)
  then show ?thesis by (auto simp: b two_free_set)
qed

text \<open>
  C2: An allocation takes a whole free block. On any pool of well-formed freelists \<open>alloc_pages\<close> of
  order \<open>k\<close> returns NULL and changes nothing if no block of order \<open>k\<close> or larger is free; otherwise it
  returns the first page of a block that is aligned to its size, all of whose frames were free, and
  exactly these frames leave the pool, larger blocks being split on the way.
\<close>

theorem alloc_pages_takes_block:
  assumes "pool s pr L" and "kmem_lock s = 0" and "k < 16"
  shows "if \<forall>j. k \<le> j \<and> j < 16 \<longrightarrow> L j = [] then alloc_pages hhdm s k 0 = Ok (NULL, s)
    else \<exists>n s' pr' L'. alloc_pages hhdm s k 0 = Ok (pg n, s') \<and> pool s' pr' L' \<and> kmem_lock s' = 0
       \<and> 2 ^ k dvd n \<and> pg n \<noteq> NULL \<and> blk n k \<subseteq> free_set L \<and> free_set L' = free_set L - blk n k"
proof (cases "\<forall>j. k \<le> j \<and> j < 16 \<longrightarrow> L j = []")
  case True
  then show ?thesis using alloc_pages_none[OF assms] by simp
next
  case False
  then obtain n s' pr' L' where r: "alloc_pages hhdm s k 0 = Ok (pg n, s')" "pool s' pr' L'" "same_frame s s'"
    "2 ^ k dvd n" "n + 2 ^ k \<le> 2 ^ 31" "blk n k \<subseteq> free_set L" "free_set L' = free_set L - blk n k"
    using alloc_pages_some[OF assms] by blast
  have "n < 2 ^ 32" using r(5) by simp
  then have "pg n \<noteq> NULL" by (rule pg_not_NULL)
  moreover have "kmem_lock s' = 0" using r(3) assms(2) by (simp add: same_frame_def)
  ultimately show ?thesis unfolding if_not_P[OF False] using r by blast
qed

theorem alloc_pages_takes_block_witness:
  "\<exists>n s'. alloc_pages 0 two_frames 0 0 = Ok (pg n, s') \<and> blk n 0 \<subseteq> {1}"
proof -
  have "pool two_frames (\<lambda>_. NULL) two_blocks" using two_frames_clean by (simp add: clean_pool_def)
  note t = alloc_pages_takes_block[OF this, of 0 0, unfolded two_free_set]
  have "\<not> (\<forall>j. 0 \<le> j \<and> j < 16 \<longrightarrow> two_blocks j = [])" by (auto simp: two_blocks_def)
  from t[unfolded if_not_P[OF this]] show ?thesis by (auto simp: two_frames_def)
qed

text \<open>
  C3: Allocations never overlap. From any well-formed pool every sequence of allocations runs without a
  fault, and the blocks it returns are aligned, were free, and are pairwise disjoint.
\<close>

theorem alloc_run_disjoint:
  assumes "pool s pr L" and "kmem_lock s = 0" and "list_all (\<lambda>k. k < 16) ks"
  shows "\<exists>ps s'. alloc_run hhdm s ks = Ok (ps, s') \<and> grants (free_set L) ks ps"
proof -
  obtain ps s' c where "serve (\<lambda>k s. alloc_pages hhdm s k 0) ks s = Ok (ps, s')" "served block_of (free_set L) ks ps c"
    using pa.serve_served[of s "(pr, L)" ks hhdm] assms by auto
  then show ?thesis using served_grants by (auto simp: alloc_run_serve)
qed

theorem alloc_run_disjoint_witness:
  "\<exists>ps s'. alloc_run 0 two_frames [1, 0, 0] = Ok (ps, s') \<and> grants {1} [1, 0, 0] ps"
proof -
  have "pool two_frames (\<lambda>_. NULL) two_blocks" using two_frames_clean by (simp add: clean_pool_def)
  from alloc_run_disjoint[OF this, of "[1, 0, 0]" 0] show ?thesis
    by (simp add: two_free_set two_frames_def)
qed

lemma lonely_alloc:
  assumes c: "clean_pool s L" and L: "L = (\<lambda>k. if k = 0 then [n] else [])"
  shows "\<exists>q. pages s (pg n) = Some q \<and> page_free q \<and> pg_order q = 0"
    and "buddy_lists s ! 0 = \<lparr>fl_head = pg n, fl_count = 1\<rparr>"
    and "buddy_lists s ! 1 = \<lparr>fl_head = NULL, fl_count = 0\<rparr>"
    and "blist s (pg n) = Some \<lparr>lh_next = NULL, lh_prev = NULL\<rparr>"
    and "length (buddy_lists s) = 16" and "n < 2 ^ 31"
    and "\<And>m p. m < 2 ^ 31 \<Longrightarrow> m \<noteq> n \<Longrightarrow> pages s (pg m) = Some p \<Longrightarrow> \<not> page_free p"
proof -
  have ok: "blocks_ok L" and lk: "lists_ok s (\<lambda>_. NULL) L" and mk: "marks_ok s L" and fl: "flags_exact s L"
    using c by (auto simp: clean_pool_def pool_def)
  show n: "n < 2 ^ 31" using pool_bound[OF ok, of 0 n] L by simp
  obtain q where q: "pages s (pg n) = Some q" "pg_order q = 0" using mk L unfolding marks_ok_def by fastforce
  moreover have "page_free q" using fl n q(1) L unfolding flags_exact_def by fastforce
  ultimately show "\<exists>q. pages s (pg n) = Some q \<and> page_free q \<and> pg_order q = 0" by blast
  have l0: "llist (blist s) NULL (fl_head (buddy_lists s ! 0)) [pg n]" "fl_count (buddy_lists s ! 0) = 1"
    and l1: "fl_head (buddy_lists s ! 1) = NULL" "fl_count (buddy_lists s ! 1) = 0"
    using lists_okD(1,2)[OF lk, of 0] lists_okD(1,2)[OF lk, of 1] L by simp_all
  then show "buddy_lists s ! 0 = \<lparr>fl_head = pg n, fl_count = 1\<rparr>"
    "buddy_lists s ! 1 = \<lparr>fl_head = NULL, fl_count = 0\<rparr>"
    "blist s (pg n) = Some \<lparr>lh_next = NULL, lh_prev = NULL\<rparr>" by auto
  show "length (buddy_lists s) = 16" using lists_okD(3)[OF lk] .
  show "\<not> page_free p" if "m < 2 ^ 31" "m \<noteq> n" "pages s (pg m) = Some p" for m p
    using fl that L unfolding flags_exact_def by (metis empty_iff list.set set_ConsD)
qed


lemma stale_free_merges:
  assumes pn: "pages s (pg n) = Some q" "page_free q" "pg_order q = 0"
    and l0: "buddy_lists s ! 0 = \<lparr>fl_head = NULL, fl_count = 0\<rparr>"
    and l1: "buddy_lists s ! 1 = \<lparr>fl_head = NULL, fl_count = 0\<rparr>"
    and bn: "blist s (pg n) = Some \<lparr>lh_next = NULL, lh_prev = NULL\<rparr>"
    and len: "length (buddy_lists s) = 16" and n: "n < 2 ^ 31"
    and vn: "valid_buddy_pfn s (of_nat n)" and b: "bud n 0 < 2 ^ 31"
    and pb: "pages s (pg (bud n 0)) = Some pb" and bb: "blist s (pg (bud n 0)) = Some lb"
    and frames: "\<And>m. m < 2 ^ 31 \<Longrightarrow> valid_buddy_pfn s (of_nat m) \<Longrightarrow> pg m \<in> dom (pages s)"
    and clean: "\<And>m p. m < 2 ^ 31 \<Longrightarrow> m \<noteq> n \<Longrightarrow> pages s (pg m) = Some p \<Longrightarrow> \<not> page_free p"
  shows "\<exists>s'. free_pages_nolock s (pg (bud n 0)) 0 = Ok s'
     \<and> buddy_lists s' ! 0 = \<lparr>fl_head = NULL, fl_count = - 1\<rparr>
     \<and> buddy_lists s' ! 1 = \<lparr>fl_head = pg (min n (bud n 0)), fl_count = 1\<rparr>
     \<and> pg (min n (bud n 0)) \<in> dom (blist s') \<and> kmem_lock s' = kmem_lock s"
proof -
  let ?b = "bud n 0" and ?m = "min n (bud n 0)"
  have al: "2 ^ 0 dvd n" "2 ^ 0 dvd ?b" by simp_all
  have nb: "pg n \<noteq> pg ?b" using pg_inj[of n ?b] bud_neq[OF al(1)] n b by simp
  have inv: "bud ?b 0 = n" by (rule bud_involution[OF al(1)])
  have bd: "?b + 2 ^ 0 \<le> 2 ^ 31" using b by simp
  note a = buddy_addresses[OF al(2) bd, unfolded inv]
  have pn': "pfn_to_page (of_nat n) = pg n" by (simp add: pg_def)
  have fn: "fetch (pages s) (pg n) = Ok q" "fetch (blist s) (pg n) = Ok \<lparr>lh_next = NULL, lh_prev = NULL\<rparr>"
    using pn(1) bn pg_not_NULL[of n] n by simp_all
  let ?q = "q\<lparr>pg_flags := pg_flags q AND NOT PAGE_FLAG_FREE\<rparr>"
  let ?s = "s\<lparr>blist := (blist s)(pg n \<mapsto> \<lparr>lh_next = NULL, lh_prev = NULL\<rparr>),
    buddy_lists := (buddy_lists s)[0 := \<lparr>fl_head = NULL, fl_count = - 1\<rparr>],
    pages := (pages s)(pg n \<mapsto> ?q)\<rparr>"
  have rem: "remove_from_freelist s (pg n) = Ok ?s"
    using pn bn l0 pg_not_NULL[of n] n
    by (simp add: remove_from_freelist_def list_at_def N_ORDERS_def list_remove_node_def set_next_def set_prev_def)
  have step1: "free_pages_nolock s (pg ?b) 0 = free_pages_nolock ?s (pg ?m) 1"
    using vn pn(2,3) by (subst free_pages_nolock.simps)
      (simp add: Let_def a pn' fn page_free_def MAX_ORDER_def rem min_def)
  have m31: "?m < 2 ^ 31" using n by simp
  have alm: "2 ^ 1 dvd ?m" using merged_block(2)[OF al(1)] by simp
  have bdm: "?m + 2 ^ 1 \<le> 2 ^ 31"
  proof -
    have "?m + 2 ^ 1 = n + 1 \<or> ?m + 2 ^ 1 = ?b + 1"
      by (rule bud_cases[OF al(1)]) auto
    then show ?thesis using n b by auto
  qed
  let ?c = "bud ?m 1"
  have c: "?c < 2 ^ 31" using bud_bound[OF alm bdm] by simp
  have dj: "blk ?m 1 \<inter> blk ?c 1 = {}" by (rule bud_disjoint[OF alm])
  have mb: "blk ?m 1 = blk n 0 \<union> blk ?b 0" using merged_block(1)[OF al(1)] by simp
  have "n \<in> blk ?m 1" "?b \<in> blk ?m 1" "?c \<in> blk ?c 1"
    unfolding mb by (rule UnI1, rule blk_first, rule UnI2, rule blk_first, rule blk_first)
  then have cn: "?c \<noteq> n" "?c \<noteq> ?b" using dj by (metis disjoint_iff)+
  have vs: "valid_buddy_pfn ?s = valid_buddy_pfn s" by (rule ext) (simp add: valid_buddy_pfn_def)
  obtain pm lm where pm: "pages ?s (pg ?m) = Some pm" "blist ?s (pg ?m) = Some lm"
    using pb bb nb by (cases "n \<le> ?b") (auto simp: min_def)
  have pgc: "pfn_to_page (of_nat (bud ?m (Suc 0))) = pg (bud ?m (Suc 0))" by (simp add: pg_def)
  note ad = buddy_addresses(1)[OF alm bdm, unfolded One_nat_def]
  have step2: "free_pages_nolock ?s (pg ?m) 1 = direct_free ?s (pg ?m) 1"
  proof (cases "valid_buddy_pfn s (of_nat ?c)")
    case False
    then show ?thesis
      by (subst free_pages_nolock.simps) (simp add: Let_def ad vs)
  next
    case True
    then obtain pc where pc: "pages s (pg ?c) = Some pc" using frames c by blast
    have "pg ?c \<noteq> pg n" using pg_inj[of ?c n] c n cn by simp
    then have "fetch (pages ?s) (pg ?c) = Ok pc" using pc c by simp
    moreover have "\<not> page_free pc" using clean[OF c cn(1) pc] .
    ultimately show ?thesis using True
      by (subst free_pages_nolock.simps)
        (simp add: Let_def ad vs pgc page_free_def)
  qed
  have "pg ?m \<noteq> NULL" using m31 by simp
  then show ?thesis
    unfolding step1 step2 using pm l1 len
    by (auto simp: direct_free_def list_at_def N_ORDERS_def list_push_front_def set_next_def)
qed

text \<open>
  C10: An allocated page can be handed out twice. \<open>alloc_pages\<close> of an exact order does not clear the
  FREE flag of the page it returns, so freeing the page's buddy merges the allocated page: with page
  \<open>n\<close> the only free block, allocating it and then freeing its buddy puts the pair that contains \<open>n\<close> on
  the list of order 1, from where it is allocated again, while the count of list 0 has wrapped around
  and the next allocation of order 0 dereferences NULL.
\<close>

theorem alloc_leaves_free_flag:
  assumes c: "clean_pool s (\<lambda>k. if k = 0 then [n] else [])" and lk: "kmem_lock s = 0"
    and b: "bud n 0 < 2 ^ 31" and pb: "pages s (pg (bud n 0)) = Some pb"
    and bb: "blist s (pg (bud n 0)) = Some lb"
  shows "\<exists>s1 s2 s3. alloc_pages hhdm s 0 0 = Ok (pg n, s1)
     \<and> free_pages s1 (pg (bud n 0)) 0 = Ok s2
     \<and> alloc_pages hhdm s2 1 0 = Ok (pg (min n (bud n 0)), s3) \<and> n \<in> blk (min n (bud n 0)) 1
     \<and> alloc_pages hhdm s2 0 0 = Fault Null_Deref"
proof -
  note l = lonely_alloc[OF c refl]
  obtain q where q: "pages s (pg n) = Some q" "page_free q" "pg_order q = 0" using l(1) by blast
  let ?s1 = "s\<lparr>buddy_lists := (buddy_lists s)[0 := \<lparr>fl_head = NULL, fl_count = 0\<rparr>]\<rparr>"
  have len: "0 < length (buddy_lists s)" using l(5) by simp
  have "alloc_pages_nolock (s\<lparr>kmem_lock := 1\<rparr>) 0 = Ok (pg n, ?s1\<lparr>kmem_lock := 1\<rparr>)"
    using l(2,4,6) pg_not_NULL[of n]
    by (subst alloc_pages_nolock.simps) (simp add: Let_def MAX_ORDER_def list_pop_front_def)
  then have a: "alloc_pages hhdm s 0 0 = Ok (pg n, ?s1)" using lk by (simp add: alloc_pages_def)
  have fv: "frames_valid s (\<lambda>k. if k = 0 then [n] else [])" using c by (simp add: clean_pool_def)
  then have vn: "valid_buddy_pfn s (of_nat n)" unfolding frames_valid_def by force
  let ?t = "?s1\<lparr>kmem_lock := 1\<rparr>"
  have vt: "valid_buddy_pfn ?t = valid_buddy_pfn s" by (rule ext) (simp add: valid_buddy_pfn_def)
  obtain s2 where s2: "free_pages_nolock ?t (pg (bud n 0)) 0 = Ok s2"
    "buddy_lists s2 ! 0 = \<lparr>fl_head = NULL, fl_count = - 1\<rparr>"
    "buddy_lists s2 ! 1 = \<lparr>fl_head = pg (min n (bud n 0)), fl_count = 1\<rparr>"
    "pg (min n (bud n 0)) \<in> dom (blist s2)"
    using stale_free_merges[of ?t n q pb lb] q l len vn vt b pb bb fv
    by (auto simp: frames_valid_def)
  let ?s2 = "s2\<lparr>kmem_lock := 0\<rparr>"
  have f: "free_pages ?s1 (pg (bud n 0)) 0 = Ok ?s2" using s2(1) lk by (simp add: free_pages_def)
  have n0: "alloc_pages_nolock (?s2\<lparr>kmem_lock := 1\<rparr>) 0 = Fault Null_Deref"
    using s2(2) by (subst alloc_pages_nolock.simps)
      (simp add: Let_def MAX_ORDER_def list_pop_front_def word_gt_0)
  have "pg (min n (bud n 0)) \<noteq> NULL" using l(6) by simp
  moreover obtain lm where "blist s2 (pg (min n (bud n 0))) = Some lm" using s2(4) by auto
  ultimately have "\<exists>t. alloc_pages_nolock (?s2\<lparr>kmem_lock := 1\<rparr>) 1 = Ok (pg (min n (bud n 0)), t)"
    using s2(3) by (subst alloc_pages_nolock.simps) (simp add: Let_def MAX_ORDER_def list_pop_front_def)
  then obtain t where n1: "alloc_pages_nolock (?s2\<lparr>kmem_lock := 1\<rparr>) 1 = Ok (pg (min n (bud n 0)), t)" ..
  have mem: "n \<in> blk (min n (bud n 0)) 1" using merged_block(1)[of 0 n] by simp
  show ?thesis
    using a f n0 n1 mem
    by (intro exI[of _ ?s1] exI[of _ ?s2] exI[of _ "t\<lparr>kmem_lock := 0\<rparr>"]) (simp add: alloc_pages_def)
qed

theorem alloc_leaves_free_flag_witness:
  "\<exists>s1 s2 s3. alloc_pages 0 two_frames 0 0 = Ok (pg 1, s1) \<and> free_pages s1 (pg 0) 0 = Ok s2
     \<and> alloc_pages 0 s2 1 0 = Ok (pg 0, s3) \<and> alloc_pages 0 s2 0 0 = Fault Null_Deref"
proof -
  have b: "bud (Suc 0) 0 = 0" by (simp add: bud_def)
  have p: "pages two_frames (pg (bud 1 0)) = Some \<lparr>pg_flags = 0, pg_order = 0\<rparr>"
    "blist two_frames (pg (bud 1 0)) = Some \<lparr>lh_next = NULL, lh_prev = NULL\<rparr>"
    using pg_inj[of 0 1] by (simp_all add: two_frames_def b)
  have c: "clean_pool two_frames (\<lambda>k. if k = 0 then [1] else [])"
    using two_frames_clean by (simp add: two_blocks_def)
  have "kmem_lock two_frames = 0" "bud 1 0 < 2 ^ 31" by (simp_all add: two_frames_def b)
  from alloc_leaves_free_flag[OF c this p, of 0] show ?thesis by (auto simp: b)
qed

text \<open>The state \<open>buddy_init\<close> starts from: empty lists, no FREE flag, and the frames of the zones mapped.\<close>

definition before_init :: "buddy_zone list \<Rightarrow> buddy_state \<Rightarrow> bool" where
  "before_init zones s \<longleftrightarrow>
     buddy_lists s = replicate 16 \<lparr>fl_head = NULL, fl_count = 0\<rparr> \<and> kmem_lock s = 0
     \<and> (\<forall>n < 2 ^ 31. \<forall>p. pages s (pg n) = Some p \<longrightarrow> \<not> page_free p)
     \<and> (\<forall>z \<in> set zones. zone_ok z \<and> fresh_frames s (zone_frames z)) \<and> zones_apart zones
     \<and> (\<Sum>z \<leftarrow> zones. unat (z_size z)) + 1 < 2 ^ 31"

lemma before_init_clean:
  assumes "before_init (buddy_zones s) s"
  shows "clean_pool s (\<lambda>_. [])"
proof -
  have "blocks_ok (\<lambda>_. [])" by (simp add: blocks_ok_def)
  moreover have "lists_ok s (\<lambda>_. NULL) (\<lambda>_. [])" using assms by (simp add: before_init_def lists_ok_def)
  moreover have "marks_ok s (\<lambda>_. [])" by (simp add: marks_ok_def)
  moreover have "flags_exact s (\<lambda>_. [])" using assms by (simp add: before_init_def flags_exact_def)
  moreover have "frames_valid s (\<lambda>_. [])"
    unfolding frames_valid_def
  proof (intro conjI allI impI)
    fix n assume n: "n < (2 ^ 31 :: nat)" "valid_buddy_pfn s (of_nat n)"
    have "\<forall>z \<in> set (buddy_zones s). zone_ok z" using assms by (simp add: before_init_def)
    from valid_zone[OF this n] obtain z where "z \<in> set (buddy_zones s)" "n \<in> zone_frames z" by blast
    then show "pg n \<in> dom (pages s)" using assms by (auto simp: before_init_def fresh_frames_def)
  qed simp
  ultimately show ?thesis by (simp add: clean_pool_def pool_def)
qed

text \<open>
  \<open>buddy_init\<close> frees only every second page, so no block larger than one page can ever be
  allocated. The loop body adds \<open>1 << cur_order\<close> to \<open>i\<close> and the loop header one more; the freed frames
  are exactly those of \<open>init_free\<close>, none of which are buddies. The pool it leaves is a clean one, all
  lists but that of order 0 are empty, and every request of a higher order returns NULL.
\<close>

theorem buddy_init_frees_half:
  assumes "length regions \<le> MAX_BUDDY_ZONES"
    and "zones = List.map zone_of_region regions @ drop (length regions) (buddy_zones s)"
    and "before_init zones (s\<lparr>buddy_zones := zones\<rparr>)"
  shows "\<exists>s' L. buddy_init regions bump s = Ok s' \<and> clean_pool s' L
     \<and> set (L 0) = init_free (unat bump) zones \<and> free_set L = init_free (unat bump) zones
     \<and> buddy_initialized s' \<and> mapper_alloc_zpage s' = From_Buddy
     \<and> (\<forall>k. 0 < k \<and> k < 16 \<longrightarrow> alloc_pages hhdm s' k 0 = Ok (NULL, s'))"
proof -
  let ?s = "s\<lparr>buddy_zones := zones\<rparr>"
  have c: "clean_pool ?s (\<lambda>_. [])" using before_init_clean[of ?s] assms(3) by simp
  have b: "kmem_lock ?s = 0" "\<forall>z \<in> set zones. zone_ok z \<and> z \<in> set (buddy_zones ?s)" "zones_apart zones"
    "0 + (\<Sum>z \<leftarrow> zones. unat (z_size z)) + 1 < 2 ^ 31" "\<forall>z \<in> set zones. fresh_frames ?s (zone_frames z)"
    using assms(3) by (auto simp: before_init_def)
  obtain s' L idx where r: "init_zones bump zones 0 ?s = Ok (idx, s')" "clean_pool s' L"
    "\<forall>j > 0. L j = []" "set (L 0) = init_free (unat bump) zones" "same_frame ?s s'"
    using init_zones_clean[OF c b(1) _ b(2,3,4,5), of bump] by auto
  let ?t = "s'\<lparr>buddy_initialized := True, mapper_alloc_zpage := From_Buddy\<rparr>"
  have ct: "clean_pool ?t L" using r(2)
    by (simp add: clean_pool_def pool_def lists_ok_def marks_ok_def flags_exact_def frames_valid_def
        valid_buddy_pfn_def)
  have lk: "kmem_lock ?t = 0" using r(5) b(1) by (simp add: same_frame_def)
  have "alloc_pages hhdm ?t k 0 = Ok (NULL, ?t)" if "0 < k" "k < 16" for k
    using alloc_pages_none[of ?t "\<lambda>_. NULL" L k hhdm] ct lk r(3) that by (simp add: clean_pool_def)
  moreover have "buddy_init regions bump s = Ok ?t"
    using r(1) assms(1,2) by (simp add: buddy_init_def Let_def)
  moreover have "free_set L = init_free (unat bump) zones" using free_set_order0[of L] r(3,4) by simp
  ultimately show ?thesis using ct r(4) by (intro exI[of _ ?t] exI[of _ L]) simp
qed

definition four_frames :: buddy_state where
  "four_frames = \<lparr>pages = (\<lambda>a. if a \<in> pg ` {0, 1, 2, 3} then Some \<lparr>pg_flags = 0, pg_order = 0\<rparr> else None),
     blist = (\<lambda>a. if a \<in> pg ` {0, 1, 2, 3} then Some \<lparr>lh_next = NULL, lh_prev = NULL\<rparr> else None),
     buddy_lists = replicate 16 \<lparr>fl_head = NULL, fl_count = 0\<rparr>,
     buddy_zones = replicate 32 \<lparr>z_base = 0, z_size = 0\<rparr>,
     kmem_lock = 0, buddy_initialized = False, mapper_alloc_zpage = From_Bump, phys_mem = Map.empty\<rparr>"

theorem buddy_init_frees_half_witness:
  "\<exists>s' L. buddy_init [\<lparr>r_base = 0, r_size = 0x4000\<rparr>] 0 four_frames = Ok s' \<and> free_set L = {0, 2}
     \<and> clean_pool s' L \<and> alloc_pages 0 s' 1 0 = Ok (NULL, s')"
proof -
  let ?z = "\<lparr>z_base = 0, z_size = 4\<rparr> :: buddy_zone" and ?o = "\<lparr>z_base = 0, z_size = 0\<rparr> :: buddy_zone"
  let ?zs = "?z # replicate 31 ?o"
  have o: "zone_ok ?o" "zone_frames ?o = {}" "zone_ok ?z" "zone_frames ?z = {0, 1, 2, 3}"
    by (auto simp: zone_ok_def zone_frames_def)
  have ap: "zones_apart (replicate n ?o)" for n by (induction n) (auto simp: o)
  have fr: "init_free 0 (replicate n ?o) = {}" for n by (induction n) (auto simp: half_def)
  have h: "half 0 ?z = {0, 2}"
  proof -
    have "i < 4 \<and> even i \<longleftrightarrow> i = 0 \<or> i = 2" for i :: nat by presburger
    then show ?thesis by (auto simp: half_def)
  qed
  have "before_init ?zs (four_frames\<lparr>buddy_zones := ?zs\<rparr>)"
    using ap by (auto simp: before_init_def o four_frames_def page_free_def fresh_frames_def sum_list_replicate
        split: if_splits)
  moreover have "?zs = List.map zone_of_region [\<lparr>r_base = 0, r_size = 0x4000\<rparr>]
      @ drop (length [\<lparr>r_base = 0, r_size = 0x4000\<rparr> :: region]) (buddy_zones four_frames)"
    by (simp add: zone_of_region_def four_frames_def drop_bit_eq_div)
  ultimately obtain s' L where r: "buddy_init [\<lparr>r_base = 0, r_size = 0x4000\<rparr>] 0 four_frames = Ok s'"
    "free_set L = init_free (unat (0 :: u32)) ?zs" "clean_pool s' L"
    "\<forall>k. 0 < k \<and> k < 16 \<longrightarrow> alloc_pages 0 s' k 0 = Ok (NULL, s')"
    using buddy_init_frees_half[of "[\<lparr>r_base = 0, r_size = 0x4000\<rparr>]" ?zs four_frames 0 0]
    by (auto simp: MAX_BUDDY_ZONES_def)
  have "init_free (unat (0 :: u32)) ?zs = {0, 2}" by (simp add: fr h)
  with r show ?thesis by auto
qed

end
