(* ===== verification/Mapper.thy ===== *)
theory Mapper
  imports Buddy
begin

section \<open>mm/mapper.c and mm/sparse.c: page tables\<close>

text \<open>
  Page tables live in a heap of 64-bit entries at their addresses in the direct map. A page that
  \<open>mapper_alloc_zpage\<close> (\<open>bump_zpage\<close>, later \<open>pgzalloc\<close>) hands out joins the heap zeroed; which
  pages it hands out is the list \<open>zpages\<close> of the state. When that list is empty the allocator returns
  NULL and both of its implementations fault in their \<open>memset\<close>. The TLB is not modelled, so
  \<open>vm_invalidate\<close> has no effect.
\<close>

record ptm =
  pmem :: "addr \<rightharpoonup> u64"
  zpages :: "addr list"
  pt_lock :: u64

definition PG_PRESENT :: u64 where "PG_PRESENT = 1"
definition PG_WRITE :: u64 where "PG_WRITE = 2"
definition PG_USER :: u64 where "PG_USER = 4"
definition PG_NX :: u64 where "PG_NX = 0x8000000000000000"
definition PG_PS :: u64 where "PG_PS = 0x40"

definition PG_FLAGMASK :: u64 where
  "PG_FLAGMASK = PG_PRESENT OR PG_WRITE OR PG_USER OR PG_NX OR PG_PS"

definition PG_ADDR :: u64 where "PG_ADDR = 0x7ffffffffffff000"

definition get_index :: "nat \<Rightarrow> addr \<Rightarrow> u64" where
  "get_index level a = drop_bit (12 + 9 * level) a AND 0x1ff"

text \<open>The address of entry \<open>i\<close> of the table at \<open>t\<close>: \<open>uint64_t *\<close> arithmetic.\<close>

definition entry :: "addr \<Rightarrow> u64 \<Rightarrow> addr" where
  "entry t i = t + 8 * i"

definition zero_page :: "(addr \<rightharpoonup> u64) \<Rightarrow> addr \<Rightarrow> addr \<rightharpoonup> u64" where
  "zero_page pm p = (\<lambda>a. if unat (a - p) < 4096 \<and> unat (a - p) mod 8 = 0 then Some 0 else pm a)"

definition alloc_zpage :: "ptm \<Rightarrow> (addr \<times> ptm) result" where
  "alloc_zpage s =
     (case zpages s of [] \<Rightarrow> Fault Null_Deref
      | p # ps \<Rightarrow> Ok (p, s\<lparr>zpages := ps, pmem := zero_page (pmem s) p\<rparr>))"

definition is_present :: "u64 \<Rightarrow> bool" where
  "is_present e \<longleftrightarrow> e AND PG_PRESENT \<noteq> 0"

fun map_loop :: "u64 \<Rightarrow> addr \<Rightarrow> nat \<Rightarrow> addr \<Rightarrow> ptm \<Rightarrow> (addr \<times> ptm) result" where
  "map_loop hhdm virt 0 table s = Ok (table, s)"
| "map_loop hhdm virt (Suc l) table s =
     bnd (fetch (pmem s) table) (\<lambda>value.
     if is_present value
     then map_loop hhdm virt l (entry ((value AND PG_ADDR) + hhdm) (get_index l virt)) s
     else
       bnd (alloc_zpage s) (\<lambda>(p, s).
       let value = p - hhdm;
           s = s\<lparr>pmem := (pmem s)(table \<mapsto> value OR PG_PRESENT OR PG_WRITE)\<rparr>
       in map_loop hhdm virt l (entry (value + hhdm) (get_index l virt)) s))"

definition map_page :: "u64 \<Rightarrow> addr \<Rightarrow> u64 \<Rightarrow> addr \<Rightarrow> u64 \<Rightarrow> ptm \<Rightarrow> ptm result" where
  "map_page hhdm cr3 phys virt flags s =
     bnd (lock_word (pt_lock s)) (\<lambda>l.
     let s = s\<lparr>pt_lock := l\<rparr> in
     if flags AND NOT PG_FLAGMASK \<noteq> 0 then Fault Halted else
     bnd (map_loop hhdm virt 3 (entry cr3 (get_index 3 virt)) s) (\<lambda>(table, s).
     bnd (fetch (pmem s) table) (\<lambda>_.
     Ok (s\<lparr>pmem := (pmem s)(table \<mapsto> phys OR flags OR PG_PRESENT), pt_lock := unlock_word (pt_lock s)\<rparr>))))"

text \<open>The walk of \<open>unmap_page\<close>: \<open>None\<close> is the early return.\<close>

fun unmap_loop :: "u64 \<Rightarrow> addr \<Rightarrow> nat \<Rightarrow> addr \<Rightarrow> ptm \<Rightarrow> addr option result" where
  "unmap_loop hhdm virt 0 table s = Ok (Some table)"
| "unmap_loop hhdm virt (Suc l) table s =
     bnd (fetch (pmem s) table) (\<lambda>value.
     if is_present value
     then unmap_loop hhdm virt l (entry ((value AND PG_ADDR) + hhdm) (get_index l virt)) s
     else Ok None)"

text \<open>The early return of \<open>unmap_page\<close> does not release the lock.\<close>

definition unmap_page :: "u64 \<Rightarrow> addr \<Rightarrow> addr \<Rightarrow> ptm \<Rightarrow> ptm result" where
  "unmap_page hhdm cr3 virt s =
     bnd (lock_word (pt_lock s)) (\<lambda>l.
     let s = s\<lparr>pt_lock := l\<rparr> in
     bnd (unmap_loop hhdm virt 3 (entry cr3 (get_index 3 virt)) s) (\<lambda>r.
     case r of None \<Rightarrow> Ok s
     | Some table \<Rightarrow>
         bnd (fetch (pmem s) table) (\<lambda>_.
         Ok (s\<lparr>pmem := (pmem s)(table \<mapsto> 0), pt_lock := unlock_word (pt_lock s)\<rparr>))))"

fun is_mapped_loop :: "u64 \<Rightarrow> addr \<Rightarrow> nat \<Rightarrow> addr \<Rightarrow> ptm \<Rightarrow> bool result" where
  "is_mapped_loop hhdm virt 0 table s = bnd (fetch (pmem s) table) (\<lambda>value. Ok (is_present value))"
| "is_mapped_loop hhdm virt (Suc l) table s =
     bnd (fetch (pmem s) table) (\<lambda>value.
     if value AND PG_PS \<noteq> 0 then Ok True
     else if is_present value
     then is_mapped_loop hhdm virt l (entry ((value AND PG_ADDR) + hhdm) (get_index l virt)) s
     else Ok False)"

definition is_mapped :: "u64 \<Rightarrow> addr \<Rightarrow> addr \<Rightarrow> ptm \<Rightarrow> (bool \<times> ptm) result" where
  "is_mapped hhdm cr3 virt s =
     bnd (lock_word (pt_lock s)) (\<lambda>l.
     let s = s\<lparr>pt_lock := l\<rparr> in
     bnd (is_mapped_loop hhdm virt 3 (entry cr3 (get_index 3 virt)) s) (\<lambda>b.
     Ok (b, s\<lparr>pt_lock := unlock_word (pt_lock s)\<rparr>)))"

text \<open>The page size is multiplied by \<open>0x1000\<close>, not \<open>0x200\<close>, per level.\<close>

definition virt_offset :: "nat \<Rightarrow> addr \<Rightarrow> u64" where
  "virt_offset level virt = virt AND (0x1000 * 0x1000 ^ level - 1)"

text \<open>The result is an \<open>int\<close>: the low 32 bits.\<close>

fun virt_to_pfn_loop :: "u64 \<Rightarrow> addr \<Rightarrow> nat \<Rightarrow> addr \<Rightarrow> (addr \<rightharpoonup> u64) \<Rightarrow> u32 result" where
  "virt_to_pfn_loop hhdm virt 0 table pm =
     bnd (fetch pm table) (\<lambda>value. Ok (ucast (drop_bit 12 ((value AND PG_ADDR) + virt_offset 0 virt))))"
| "virt_to_pfn_loop hhdm virt (Suc l) table pm =
     bnd (fetch pm table) (\<lambda>value.
     if value AND PG_PS \<noteq> 0 then Ok (ucast ((value AND PG_ADDR) + virt_offset (Suc l) virt))
     else if is_present value
     then virt_to_pfn_loop hhdm virt l (entry ((value AND PG_ADDR) + hhdm) (get_index l virt)) pm
     else Ok 0)"

definition virt_to_pfn :: "u64 \<Rightarrow> u64 \<Rightarrow> addr \<Rightarrow> (addr \<rightharpoonup> u64) \<Rightarrow> u32 result" where
  "virt_to_pfn hhdm readcr3 virt pm =
     virt_to_pfn_loop hhdm virt 3 (entry (readcr3 + hhdm) (get_index 3 virt)) pm"

fun copy_words :: "(addr \<rightharpoonup> u64) \<Rightarrow> addr \<Rightarrow> addr \<Rightarrow> nat \<Rightarrow> (addr \<rightharpoonup> u64) result" where
  "copy_words pm dst src 0 = Ok pm"
| "copy_words pm dst src (Suc n) =
     bnd (fetch pm src) (\<lambda>w. if dst = NULL then Fault Null_Deref else
       copy_words (pm(dst \<mapsto> w)) (dst + 8) (src + 8) n)"

text \<open>\<open>kernel_top_pgt_init\<close>: the loop over entries 0x100 to 0x1ff, \<open>n\<close> of them left.\<close>

fun top_pgt_loop :: "u64 \<Rightarrow> addr \<Rightarrow> nat \<Rightarrow> u64 \<Rightarrow> ptm \<Rightarrow> ptm result" where
  "top_pgt_loop hhdm cr3 0 i s = Ok s"
| "top_pgt_loop hhdm cr3 (Suc n) i s =
     bnd (fetch (pmem s) (entry cr3 i)) (\<lambda>e.
     if e \<noteq> 0 then top_pgt_loop hhdm cr3 n (i + 1) s else
     bnd (alloc_zpage s) (\<lambda>(p, s).
     top_pgt_loop hhdm cr3 n (i + 1)
       (s\<lparr>pmem := (pmem s)(entry cr3 i \<mapsto> (p - hhdm) OR PG_PRESENT OR PG_WRITE)\<rparr>)))"

text \<open>The last page is one of \<open>bump_page\<close>, which does not clear it; it is overwritten entirely.\<close>

definition kernel_top_pgt_init :: "u64 \<Rightarrow> u64 \<Rightarrow> ptm \<Rightarrow> (addr \<times> ptm) result" where
  "kernel_top_pgt_init hhdm readcr3 s =
     (let cr3 = readcr3 + hhdm in
      bnd (top_pgt_loop hhdm cr3 0x100 0x100 s) (\<lambda>s.
      case zpages s of [] \<Rightarrow> Fault Null_Deref
      | p # ps \<Rightarrow>
          bnd (copy_words (pmem s) p cr3 512) (\<lambda>pm.
          Ok (p, s\<lparr>pmem := pm, zpages := ps\<rparr>))))"

text \<open>
  \<open>new_page_table\<close>: the page of \<open>zpgalloc\<close> and the object of \<open>kmalloc\<close> are arguments, neither function
  is in the repository; the lock of the new table holds what \<open>kmalloc\<close> left there.
\<close>

record page_table =
  cr3_of :: addr
  lock_of :: u64

definition new_page_table :: "addr \<Rightarrow> page_table \<Rightarrow> addr \<Rightarrow> (addr \<rightharpoonup> u64) \<Rightarrow> (page_table \<times> (addr \<rightharpoonup> u64)) result" where
  "new_page_table new_pg pt kernel_cr3 pm =
     bnd (copy_words (zero_page pm new_pg) new_pg kernel_cr3 512) (\<lambda>pm. Ok (pt\<lparr>cr3_of := new_pg\<rparr>, pm))"

section \<open>mm/sparse.c\<close>

definition STRUCTS_PER_PAGE :: u64 where "STRUCTS_PER_PAGE = 64"

text \<open>The \<open>while\<close> loop can wrap around at the end of the address space; it runs on fuel.\<close>

fun map_region_struct :: "nat \<Rightarrow> u64 \<Rightarrow> addr \<Rightarrow> region \<Rightarrow> u64 \<Rightarrow> ptm \<Rightarrow> ptm result" where
  "map_region_struct fuel hhdm cr3 r curr_addr s =
     (if curr_addr < r_base r + r_size r
      then case fuel of 0 \<Rightarrow> Fault Diverges
        | Suc fuel \<Rightarrow>
            let ptr = pfn_to_page (drop_bit 12 curr_addr);
                aligned = ptr AND NOT 0xfff
            in bnd (alloc_zpage s) (\<lambda>(p, s).
               bnd (map_page hhdm cr3 (p - hhdm) aligned (PG_NX OR PG_WRITE) s) (\<lambda>s.
               map_region_struct fuel hhdm cr3 r (curr_addr + 0x1000 * STRUCTS_PER_PAGE) s))
      else Ok s)"

fun sparse_init :: "nat \<Rightarrow> u64 \<Rightarrow> addr \<Rightarrow> region list \<Rightarrow> ptm \<Rightarrow> ptm result" where
  "sparse_init fuel hhdm cr3 [] s = Ok s"
| "sparse_init fuel hhdm cr3 (r # rs) s =
     bnd (map_region_struct fuel hhdm cr3 r (r_base r) s) (\<lambda>s. sparse_init fuel hhdm cr3 rs s)"

section \<open>Trees of tables\<close>

text \<open>
  \<open>tables pm hhdm l t\<close> are the tables reachable from the table \<open>t\<close> of level \<open>l\<close>; \<open>ptree\<close> says that
  they form a tree of page-aligned tables with all 512 entries in the heap. \<open>translate\<close> is what a
  lookup computes: the leaf entry, or 0 where an intermediate table is missing.
\<close>

definition page_at :: "(addr \<rightharpoonup> u64) \<Rightarrow> addr \<Rightarrow> bool" where
  "page_at pm t \<longleftrightarrow> t AND 0xfff = 0 \<and> t \<noteq> NULL \<and> (\<forall>i < 512. pm (entry t i) \<noteq> None)"

definition child :: "(addr \<rightharpoonup> u64) \<Rightarrow> u64 \<Rightarrow> addr \<Rightarrow> u64 \<Rightarrow> addr option" where
  "child pm hhdm t i =
     (case pm (entry t i) of None \<Rightarrow> None
      | Some e \<Rightarrow> if is_present e then Some ((e AND PG_ADDR) + hhdm) else None)"

fun tables :: "(addr \<rightharpoonup> u64) \<Rightarrow> u64 \<Rightarrow> nat \<Rightarrow> addr \<Rightarrow> addr set" where
  "tables pm hhdm 0 t = {t}"
| "tables pm hhdm (Suc l) t = {t} \<union> (\<Union>i \<in> {..<512}. case child pm hhdm t i of None \<Rightarrow> {} | Some c \<Rightarrow> tables pm hhdm l c)"

fun ptree :: "(addr \<rightharpoonup> u64) \<Rightarrow> u64 \<Rightarrow> nat \<Rightarrow> addr \<Rightarrow> bool" where
  "ptree pm hhdm 0 t \<longleftrightarrow> page_at pm t"
| "ptree pm hhdm (Suc l) t \<longleftrightarrow> page_at pm t
     \<and> (\<forall>i < 512. \<forall>c. child pm hhdm t i = Some c \<longrightarrow> ptree pm hhdm l c \<and> t \<notin> tables pm hhdm l c)
     \<and> (\<forall>i < 512. \<forall>j < 512. \<forall>c d. i \<noteq> j \<longrightarrow> child pm hhdm t i = Some c \<longrightarrow> child pm hhdm t j = Some d \<longrightarrow>
          tables pm hhdm l c \<inter> tables pm hhdm l d = {})"

fun translate :: "(addr \<rightharpoonup> u64) \<Rightarrow> u64 \<Rightarrow> addr \<Rightarrow> nat \<Rightarrow> addr \<Rightarrow> u64" where
  "translate pm hhdm v 0 t = (case pm (entry t (get_index 0 v)) of None \<Rightarrow> 0 | Some e \<Rightarrow> e)"
| "translate pm hhdm v (Suc l) t =
     (case child pm hhdm t (get_index (Suc l) v) of None \<Rightarrow> 0 | Some c \<Rightarrow> translate pm hhdm v l c)"

fun leaf_of :: "(addr \<rightharpoonup> u64) \<Rightarrow> u64 \<Rightarrow> addr \<Rightarrow> nat \<Rightarrow> addr \<Rightarrow> addr option" where
  "leaf_of pm hhdm v 0 t = Some (entry t (get_index 0 v))"
| "leaf_of pm hhdm v (Suc l) t =
     (case child pm hhdm t (get_index (Suc l) v) of None \<Rightarrow> None | Some c \<Rightarrow> leaf_of pm hhdm v l c)"

text \<open>Two addresses take the same path from level \<open>l\<close> down.\<close>

definition same_path :: "nat \<Rightarrow> addr \<Rightarrow> addr \<Rightarrow> bool" where
  "same_path l v w \<longleftrightarrow> (\<forall>j \<le> l. get_index j v = get_index j w)"

definition agree :: "(addr \<rightharpoonup> u64) \<Rightarrow> (addr \<rightharpoonup> u64) \<Rightarrow> addr set \<Rightarrow> bool" where
  "agree pm pm' T \<longleftrightarrow> (\<forall>t \<in> T. \<forall>i < 512. pm' (entry t i) = pm (entry t i))"

lemma get_index_less [simp]: "get_index l v < 512"
proof -
  have "get_index l v = take_bit 9 (drop_bit (12 + 9 * l) v)"
    by (simp add: get_index_def take_bit_eq_mask mask_eq_exp_minus_1)
  then have "unat (get_index l v) < 2 ^ 9"
    using take_bit_nat_less_exp[of 9 "unat (drop_bit (12 + 9 * l) v)"] by (simp add: unsigned_take_bit_eq)
  then show ?thesis by (simp add: word_less_nat_alt)
qed

lemma same_path_Suc: "same_path (Suc l) v w \<longleftrightarrow> same_path l v w \<and> get_index (Suc l) v = get_index (Suc l) w"
  by (auto simp: same_path_def le_Suc_eq)

lemma same_path_0: "same_path 0 v w \<longleftrightarrow> get_index 0 v = get_index 0 w"
  by (simp add: same_path_def)

text \<open>Entries of different page-aligned tables are different.\<close>

lemma mod_0_multiple: "m mod d = 0 \<Longrightarrow> \<exists>q. m = d * q" for m d :: nat
  by auto

lemma page_mod: "t AND 0xfff = 0 \<longleftrightarrow> unat t mod 4096 = 0" for t :: addr
proof -
  have "t AND 0xfff = take_bit 12 t" by (simp add: take_bit_eq_mask mask_eq_exp_minus_1)
  moreover have "unat (take_bit 12 t) = take_bit 12 (unat t)" by (rule unsigned_take_bit_eq)
  moreover have "take_bit 12 (unat t) = unat t mod 4096" by (simp add: take_bit_eq_mod)
  ultimately show ?thesis by (metis unsigned_0 unsigned_eq_0_iff)
qed

lemma unat_entry:
  assumes "t AND 0xfff = 0" and "i < 512"
  shows "unat (entry t i) = unat t + 8 * unat i"
proof -
  obtain q where q: "unat t = 4096 * q" using assms(1) unfolding page_mod by (meson mod_0_multiple)
  have "unat t < 2 ^ 64" using unsigned_less[of t, where ?'a = nat] by simp
  then have "q < 2 ^ 52" using q by simp
  then have "unat t + 8 * unat i < 2 ^ 64" using q assms(2) by (simp add: word_less_nat_alt)
  then show ?thesis using assms(2) by (simp add: entry_def unat_word_ariths word_less_nat_alt)
qed

lemma entry_inj:
  assumes "t AND 0xfff = 0" and "i < 512" and "t' AND 0xfff = 0" and "i' < 512"
  shows "entry t i = entry t' i' \<longleftrightarrow> t = t' \<and> i = i'"
proof
  assume "entry t i = entry t' i'"
  then have e: "unat t + 8 * unat i = unat t' + 8 * unat i'"
    using unat_entry[OF assms(1,2)] unat_entry[OF assms(3,4)] by simp
  obtain q q' where q: "unat t = 4096 * q" "unat t' = 4096 * q'"
    using assms(1,3) unfolding page_mod by (meson mod_0_multiple)
  have "8 * unat i < 4096" "8 * unat i' < 4096" using assms(2,4) by (simp_all add: word_less_nat_alt)
  then have "q = q'" using e q by linarith
  then have "unat t = unat t'" "unat i = unat i'" using e q by simp_all
  then show "t = t' \<and> i = i'" by (simp add: word_unat_eq_iff)
qed simp

lemma entry_not_NULL: "page_at pm t \<Longrightarrow> i < 512 \<Longrightarrow> entry t i \<noteq> NULL"
proof
  assume "page_at pm t" "i < 512" "entry t i = NULL"
  then have "unat t + 8 * unat i = 0" using unat_entry[of t i] by (simp add: page_at_def)
  then show False using \<open>page_at pm t\<close> by (simp add: page_at_def unsigned_eq_0_iff)
qed

lemma entry_in_zero_page:
  assumes "t AND 0xfff = 0" and "i < 512"
  shows "unat (entry t i - t) < 4096 \<and> unat (entry t i - t) mod 8 = 0"
proof -
  have "unat (8 * i) = 8 * unat i" using assms(2) by (simp add: unat_word_ariths word_less_nat_alt)
  then show ?thesis using assms(2) by (simp add: entry_def word_less_nat_alt)
qed

lemma zero_page_same: "t AND 0xfff = 0 \<Longrightarrow> i < 512 \<Longrightarrow> zero_page pm t (entry t i) = Some 0"
  using entry_in_zero_page by (simp add: zero_page_def)

lemma zero_page_other:
  assumes "t AND 0xfff = 0" and "i < 512" and "p AND 0xfff = 0" and "t \<noteq> p"
  shows "zero_page pm p (entry t i) = pm (entry t i)"
proof -
  have "\<not> (unat (entry t i - p) < 4096 \<and> unat (entry t i - p) mod 8 = 0)"
  proof
    assume a: "unat (entry t i - p) < 4096 \<and> unat (entry t i - p) mod 8 = 0"
    define j where "j = entry t i - p"
    obtain q where q: "unat j = 8 * q" using a unfolding j_def by (meson mod_0_multiple)
    have q512: "q < 512" using a q by (simp add: j_def)
    have "j = 8 * of_nat q"
    proof (rule unsigned_word_eqI[where 'a = nat])
      show "unat j = unat (8 * of_nat q :: addr)" using q q512 by (simp add: unat_word_ariths unat_of_nat)
    qed
    then have "entry t i = entry p (of_nat q)" by (simp add: entry_def j_def algebra_simps)
    moreover have "(of_nat q :: u64) < 512" using q512 by (simp add: word_less_nat_alt unat_of_nat)
    ultimately show False using entry_inj[OF assms(1,2,3)] assms(4) by blast
  qed
  then show ?thesis unfolding zero_page_def by (rule if_not_P)
qed

subsection \<open>Frame lemmas\<close>

lemma ptree_child:
  "ptree pm hhdm (Suc l) t \<Longrightarrow> child pm hhdm t i = Some c \<Longrightarrow> i < 512 \<Longrightarrow> ptree pm hhdm l c \<and> t \<notin> tables pm hhdm l c"
  "ptree pm hhdm (Suc l) t \<Longrightarrow> child pm hhdm t i = Some c \<Longrightarrow> i < 512 \<Longrightarrow> child pm hhdm t j = Some d \<Longrightarrow> j < 512
    \<Longrightarrow> i \<noteq> j \<Longrightarrow> tables pm hhdm l c \<inter> tables pm hhdm l d = {}"
  "ptree pm hhdm (Suc l) t \<Longrightarrow> page_at pm t"
  by simp_all

lemma agree_child: "agree pm pm' T \<Longrightarrow> t \<in> T \<Longrightarrow> i < 512 \<Longrightarrow> child pm' hhdm t i = child pm hhdm t i"
  by (simp add: agree_def child_def)

lemma agree_mono: "agree pm pm' T \<Longrightarrow> S \<subseteq> T \<Longrightarrow> agree pm pm' S"
  by (auto simp: agree_def)

lemma tables_Suc_iff:
  "x \<in> tables pm hhdm (Suc l) t \<longleftrightarrow> x = t \<or> (\<exists>i < 512. \<exists>c. child pm hhdm t i = Some c \<and> x \<in> tables pm hhdm l c)"
  by (force split: option.splits)

lemma tables_child: "child pm hhdm t i = Some c \<Longrightarrow> i < 512 \<Longrightarrow> tables pm hhdm l c \<subseteq> tables pm hhdm (Suc l) t"
  by (auto intro!: bexI[of _ i])

lemma tables_self [simp]: "t \<in> tables pm hhdm l t"
  by (cases l) simp_all

lemma agree_tables:
  assumes "agree pm pm' (tables pm hhdm l t)"
  shows "tables pm' hhdm l t = tables pm hhdm l t"
  using assms
proof (induction l arbitrary: t)
  case (Suc l)
  have c: "child pm' hhdm t i = child pm hhdm t i" if "i < 512" for i
    using agree_child[OF Suc.prems _ that, of t] by simp
  have "tables pm' hhdm l d = tables pm hhdm l d" if "i < 512" "child pm hhdm t i = Some d" for i d
    by (rule Suc.IH, rule agree_mono[OF Suc.prems], rule tables_child[OF that(2,1)])
  then have "(case child pm' hhdm t i of None \<Rightarrow> {} | Some c \<Rightarrow> tables pm' hhdm l c)
      = (case child pm hhdm t i of None \<Rightarrow> {} | Some c \<Rightarrow> tables pm hhdm l c)" if "i < 512" for i
    using c[OF that] that by (auto split: option.splits)
  then show ?case by simp
qed simp

lemma agree_page_at: "agree pm pm' T \<Longrightarrow> t \<in> T \<Longrightarrow> page_at pm' t \<longleftrightarrow> page_at pm t"
  by (simp add: agree_def page_at_def)

lemma agree_ptree:
  assumes "agree pm pm' (tables pm hhdm l t)" and "ptree pm hhdm l t"
  shows "ptree pm' hhdm l t"
  using assms
proof (induction l arbitrary: t)
  case 0
  then show ?case using agree_page_at[OF 0(1), of t] by simp
next
  case (Suc l)
  have c: "child pm' hhdm t i = child pm hhdm t i" if "i < 512" for i
    using agree_child[OF Suc.prems(1) _ that, of t] by simp
  have ag: "agree pm pm' (tables pm hhdm l d)" if "i < 512" "child pm hhdm t i = Some d" for i d
    by (rule agree_mono[OF Suc.prems(1)], rule tables_child[OF that(2,1)])
  have "ptree pm' hhdm l d \<and> t \<notin> tables pm' hhdm l d" if "i < 512" "child pm' hhdm t i = Some d" for i d
    using Suc.IH[OF ag, of i d] Suc.prems(2) agree_tables[OF ag, of i d] c[OF that(1)] that by auto
  moreover have "tables pm' hhdm l d \<inter> tables pm' hhdm l e = {}"
    if "i < 512" "j < 512" "i \<noteq> j" "child pm' hhdm t i = Some d" "child pm' hhdm t j = Some e" for i j d e
    using agree_tables[OF ag, of i d] agree_tables[OF ag, of j e] Suc.prems(2) c that by auto
  moreover have "page_at pm' t" using agree_page_at[OF Suc.prems(1), of t] Suc.prems(2) by simp
  ultimately show ?case by simp
qed

lemma agree_translate:
  "agree pm pm' (tables pm hhdm l t) \<Longrightarrow> translate pm' hhdm v l t = translate pm hhdm v l t"
proof (induction l arbitrary: t)
  case 0
  then show ?case by (simp add: agree_def)
next
  case (Suc l)
  have c: "child pm' hhdm t (get_index (Suc l) v) = child pm hhdm t (get_index (Suc l) v)"
    using agree_child[OF Suc.prems, of t] by simp
  have "translate pm' hhdm v l d = translate pm hhdm v l d" if "child pm hhdm t (get_index (Suc l) v) = Some d" for d
    by (rule Suc.IH, rule agree_mono[OF Suc.prems], rule tables_child[OF that]) simp
  then show ?case using c by (auto split: option.splits)
qed

lemma ptree_pages: "ptree pm hhdm l t \<Longrightarrow> u \<in> tables pm hhdm l t \<Longrightarrow> page_at pm u"
proof (induction l arbitrary: t)
  case (Suc l)
  then consider "u = t" | i c where "i < 512" "child pm hhdm t i = Some c" "u \<in> tables pm hhdm l c"
    by (auto split: option.splits)
  then show ?case using Suc by cases auto
qed simp

subsection \<open>Changing a subtree\<close>

text \<open>\<open>apart pm pm' T\<close>: the two heaps agree on every page-aligned page that is not in \<open>T\<close>.\<close>

definition apart :: "(addr \<rightharpoonup> u64) \<Rightarrow> (addr \<rightharpoonup> u64) \<Rightarrow> addr set \<Rightarrow> bool" where
  "apart pm pm' T \<longleftrightarrow> (\<forall>u. u AND 0xfff = 0 \<longrightarrow> u \<notin> T \<longrightarrow> (\<forall>i < 512. pm' (entry u i) = pm (entry u i)))"

lemma apart_agree:
  "apart pm pm' T \<Longrightarrow> (\<And>u. u \<in> S \<Longrightarrow> u AND 0xfff = 0) \<Longrightarrow> S \<inter> T = {} \<Longrightarrow> agree pm pm' S"
  unfolding apart_def agree_def by blast

lemma apart_mono: "apart pm pm' T \<Longrightarrow> T \<subseteq> U \<Longrightarrow> apart pm pm' U"
  unfolding apart_def by blast

lemma apart_trans: "apart pm pm' T \<Longrightarrow> apart pm' pm'' T \<Longrightarrow> apart pm pm'' T"
  unfolding apart_def by simp

lemma subtree_replace:
  assumes pt: "ptree pm hhdm (Suc l) t" and i: "i < 512" and c: "child pm hhdm t i = Some c"
    and ap: "apart pm pm' (tables pm hhdm l c \<union> P)" and P: "P \<inter> tables pm hhdm (Suc l) t = {}"
    and pc: "ptree pm' hhdm l c" and tc: "tables pm' hhdm l c \<subseteq> tables pm hhdm l c \<union> P"
  shows "ptree pm' hhdm (Suc l) t"
    and "tables pm' hhdm (Suc l) t \<subseteq> tables pm hhdm (Suc l) t \<union> P"
    and "translate pm' hhdm w (Suc l) t =
      (if get_index (Suc l) w = i then translate pm' hhdm w l c else translate pm hhdm w (Suc l) t)"
    and "child pm' hhdm t i = Some c"
proof -
  have al: "u AND 0xfff = 0" if "u \<in> tables pm hhdm (Suc l) t" for u
    using ptree_pages[OF pt that] by (simp add: page_at_def)
  have tT: "t \<notin> tables pm hhdm l c \<union> P"
    using pt i c P tables_self[of t pm hhdm "Suc l"] by auto
  have agt: "agree pm pm' {t}"
    by (rule apart_agree[OF ap]) (use tT al[of t] in auto)
  have ch: "child pm' hhdm t j = child pm hhdm t j" if "j < 512" for j
    using agree_child[OF agt _ that] by simp
  then show "child pm' hhdm t i = Some c" using c i by simp
  have agd: "agree pm pm' (tables pm hhdm l d)" if j: "j < 512" "j \<noteq> i" "child pm hhdm t j = Some d" for j d
  proof (rule apart_agree[OF ap])
    show "u AND 0xfff = 0" if "u \<in> tables pm hhdm l d" for u
      using al tables_child[OF j(3,1)] that by blast
    have "tables pm hhdm l d \<inter> tables pm hhdm l c = {}" using pt j i c by auto
    moreover have "tables pm hhdm l d \<inter> P = {}" using P tables_child[OF j(3,1)] by blast
    ultimately show "tables pm hhdm l d \<inter> (tables pm hhdm l c \<union> P) = {}" by blast
  qed
  have td: "tables pm' hhdm l d = tables pm hhdm l d" if "j < 512" "j \<noteq> i" "child pm hhdm t j = Some d" for j d
    by (rule agree_tables[OF agd[OF that]])
  have tsub: "tables pm' hhdm l d \<subseteq> tables pm hhdm (Suc l) t \<union> P"
    if "j < 512" "child pm hhdm t j = Some d" for j d
  proof (cases "j = i")
    case True
    then have "d = c" using that c by simp
    then show ?thesis using tc tables_child[OF c i, of l] by blast
  next
    case False
    then show ?thesis using td[OF that(1) False that(2)] tables_child[OF that(2,1), of l] by blast
  qed
  show "tables pm' hhdm (Suc l) t \<subseteq> tables pm hhdm (Suc l) t \<union> P"
  proof
    fix x assume "x \<in> tables pm' hhdm (Suc l) t"
    then consider "x = t" | j d where "j < 512" "child pm' hhdm t j = Some d" "x \<in> tables pm' hhdm l d"
      unfolding tables_Suc_iff by blast
    then show "x \<in> tables pm hhdm (Suc l) t \<union> P"
    proof cases
      case 1
      then show ?thesis using tables_self by blast
    next
      case 2
      then show ?thesis using tsub[of j d] ch[of j] by auto
    qed
  qed
  have pg: "page_at pm' t" using agree_page_at[OF agt, of t] pt by simp
  have k1: "ptree pm' hhdm l d \<and> t \<notin> tables pm' hhdm l d" if j: "j < 512" "child pm' hhdm t j = Some d" for j d
  proof (cases "j = i")
    case True
    then show ?thesis using j ch[OF j(1)] c pc tc tT by auto
  next
    case False
    then have "child pm hhdm t j = Some d" using j ch by simp
    then show ?thesis
      using agree_ptree[OF agd[OF j(1) False]] td[OF j(1) False] pt j(1) by auto
  qed
  have k2: "tables pm' hhdm l d \<inter> tables pm' hhdm l e = {}"
    if j: "j < 512" "k < 512" "j \<noteq> k" "child pm' hhdm t j = Some d" "child pm' hhdm t k = Some e" for j k d e
  proof -
    have jd: "child pm hhdm t j = Some d" "child pm hhdm t k = Some e" using j ch by simp_all
    have base: "tables pm hhdm l d \<inter> tables pm hhdm l e = {}" using pt j(1-3) jd by auto
    have "tables pm hhdm l x \<inter> P = {}" if "m < 512" "child pm hhdm t m = Some x" for m x
      using P tables_child[OF that(2,1)] by blast
    then have Pd: "tables pm hhdm l d \<inter> P = {}" "tables pm hhdm l e \<inter> P = {}" using j(1,2) jd by blast+
    show ?thesis
    proof (cases "j = i")
      case True
      then have "d = c" using jd c by simp
      moreover have "tables pm' hhdm l e = tables pm hhdm l e" using td[OF j(2) _ jd(2)] True j(3) by blast
      ultimately show ?thesis using tc base Pd by blast
    next
      case False
      then have d': "tables pm' hhdm l d = tables pm hhdm l d" using td[OF j(1) _ jd(1)] by blast
      show ?thesis
      proof (cases "k = i")
        case True
        then have "e = c" using jd c by simp
        then show ?thesis using d' tc base Pd by blast
      next
        case False
        then show ?thesis using d' td[OF j(2) _ jd(2)] base by blast
      qed
    qed
  qed
  show "ptree pm' hhdm (Suc l) t" using pg k1 k2 by simp
  show "translate pm' hhdm w (Suc l) t =
      (if get_index (Suc l) w = i then translate pm' hhdm w l c else translate pm hhdm w (Suc l) t)"
    using ch[of "get_index (Suc l) w"] c agree_translate[OF agd, of "get_index (Suc l) w"]
    by (auto split: option.splits)
qed

lemma apart_upd: "a = entry u j \<Longrightarrow> u AND 0xfff = 0 \<Longrightarrow> j < 512 \<Longrightarrow> apart pm (pm(a := x)) {u}"
  unfolding apart_def using entry_inj by auto

text \<open>Storing into the leaf entry of a path changes the translation of exactly that path.\<close>

lemma leaf_update:
  assumes upd: "pm' = pm(a \<mapsto> x)" and "ptree pm hhdm l t" and "leaf_of pm hhdm v l t = Some a"
  shows "ptree pm' hhdm l t \<and> tables pm' hhdm l t = tables pm hhdm l t
     \<and> (\<forall>w. translate pm' hhdm w l t = (if same_path l v w then x else translate pm hhdm w l t))
     \<and> (\<exists>u \<in> tables pm hhdm l t. a = entry u (get_index 0 v)) \<and> leaf_of pm' hhdm v l t = Some a"
  using assms(2,3)
proof (induction l arbitrary: t)
  case 0
  have al: "t AND 0xfff = 0" using 0 by (simp add: page_at_def)
  have a: "a = entry t (get_index 0 v)" using 0 by simp
  have e: "entry t j = a \<longleftrightarrow> j = get_index 0 v" if "j < 512" for j
    using a entry_inj[OF al that al, of "get_index 0 v"] by auto
  have "\<forall>w. translate pm' hhdm w 0 t = (if same_path 0 v w then x else translate pm hhdm w 0 t)"
    using e by (auto simp: same_path_0 upd)
  moreover have "ptree pm' hhdm 0 t" using 0(1) by (simp add: page_at_def upd)
  moreover have "tables pm' hhdm 0 t = tables pm hhdm 0 t" by simp
  moreover have "\<exists>u \<in> tables pm hhdm 0 t. a = entry u (get_index 0 v)" using a by simp
  moreover have "leaf_of pm' hhdm v 0 t = Some a" using a by simp
  ultimately show ?case by (intro conjI)
next
  case (Suc l)
  let ?i = "get_index (Suc l) v"
  obtain c where c: "child pm hhdm t ?i = Some c" "leaf_of pm hhdm v l c = Some a"
    using Suc.prems(2) by (auto split: option.splits)
  have pc: "ptree pm hhdm l c" using ptree_child(1)[OF Suc.prems(1) c(1)] by simp
  note ih = Suc.IH[OF pc c(2)]
  obtain u where u: "u \<in> tables pm hhdm l c" "a = entry u (get_index 0 v)" using ih by blast
  have ual: "u AND 0xfff = 0" using ptree_pages[OF pc u(1)] by (simp add: page_at_def)
  have ap: "apart pm pm' (tables pm hhdm l c \<union> {})"
    unfolding upd by (rule apart_mono[OF apart_upd[OF u(2) ual]]) (use u(1) in auto)
  have i: "?i < 512" by simp
  note sr = subtree_replace[OF Suc.prems(1) i c(1) ap, simplified ih Int_empty_left Un_empty_right]
  have tabs: "tables pm' hhdm (Suc l) t = tables pm hhdm (Suc l) t"
  proof -
    have tT: "t \<notin> tables pm hhdm l c" using ptree_child(1)[OF Suc.prems(1) c(1)] by simp
    have agt: "agree pm pm' {t}"
      by (rule apart_agree[OF ap]) (use tT ptree_child(3)[OF Suc.prems(1)] in \<open>auto simp: page_at_def\<close>)
    have ch: "child pm' hhdm t j = child pm hhdm t j" if "j < 512" for j
      using agree_child[OF agt _ that] by simp
    have "tables pm' hhdm l d = tables pm hhdm l d" if jd: "j < 512" "child pm hhdm t j = Some d" for j d
    proof (cases "j = ?i")
      case True
      then show ?thesis using jd c ih by simp
    next
      case False
      then have "tables pm hhdm l d \<inter> tables pm hhdm l c = {}"
        using ptree_child(2)[OF Suc.prems(1) jd(2,1) c(1) i] by blast
      moreover have "u AND 0xfff = 0" if u: "u \<in> tables pm hhdm l d" for u
        using ptree_pages[OF Suc.prems(1) subsetD[OF tables_child[OF jd(2,1)] u]] by (simp add: page_at_def)
      ultimately have "agree pm pm' (tables pm hhdm l d)" using apart_agree[OF ap] by simp
      then show ?thesis by (rule agree_tables)
    qed
    then show ?thesis using ch by (intro set_eqI) (simp only: tables_Suc_iff, metis)
  qed
  have tr: "translate pm hhdm w (Suc l) t = translate pm hhdm w l c" if "get_index (Suc l) w = ?i" for w
    using c(1) that by simp
  show ?case
    using sr ih tabs u tables_child[OF c(1) i, of l] c(1) tr
    by (auto simp: same_path_Suc simp del: tables.simps ptree.simps translate.simps(2))
qed

subsection \<open>The map loop\<close>

text \<open>Pages the allocator will hand out: distinct, aligned, outside the tables \<open>T\<close>, below \<open>2^63\<close>.\<close>

definition pages_fresh :: "u64 \<Rightarrow> addr set \<Rightarrow> addr list \<Rightarrow> bool" where
  "pages_fresh hhdm T ps \<longleftrightarrow> distinct ps \<and>
     (\<forall>p \<in> set ps. p AND 0xfff = 0 \<and> p \<noteq> NULL \<and> p \<notin> T \<and> (p - hhdm) AND PG_ADDR = p - hhdm)"

lemma pages_fresh_mono: "pages_fresh hhdm T ps \<Longrightarrow> S \<subseteq> T \<Longrightarrow> pages_fresh hhdm S ps"
  by (auto simp: pages_fresh_def)

lemma entry_bits:
  assumes "x AND PG_ADDR = x"
  shows "(x OR PG_PRESENT OR PG_WRITE) AND PG_ADDR = x" and "is_present (x OR PG_PRESENT OR PG_WRITE)"
proof -
  have "PG_PRESENT AND PG_ADDR = 0" "PG_WRITE AND PG_ADDR = 0"
    by (simp_all add: PG_PRESENT_def PG_WRITE_def PG_ADDR_def)
  then show "(x OR PG_PRESENT OR PG_WRITE) AND PG_ADDR = x" using assms by (simp add: bit.conj_disj_distrib2)
  have "bit ((x OR PG_PRESENT OR PG_WRITE) AND PG_PRESENT) 0" by (simp add: bit_simps PG_PRESENT_def)
  then show "is_present (x OR PG_PRESENT OR PG_WRITE)"
    unfolding is_present_def by (intro notI) (simp only: bit_0_eq bot_apply bot_bool_def)
qed

lemma zeroed_tree:
  assumes "p AND 0xfff = 0" and "p \<noteq> NULL" and "\<forall>i < 512. pm (entry p i) = Some 0"
  shows "ptree pm hhdm l p" and "tables pm hhdm l p = {p}" and "translate pm hhdm w l p = 0"
proof -
  have "child pm hhdm p i = None" if "i < 512" for i
    using assms(3) that by (simp add: child_def is_present_def)
  moreover have "page_at pm p" using assms by (simp add: page_at_def)
  ultimately show "ptree pm hhdm l p" "tables pm hhdm l p = {p}" "translate pm hhdm w l p = 0"
    using assms(3) by (cases l; auto split: option.splits)+
qed

text \<open>Hanging a zeroed page into an absent entry.\<close>

lemma new_child:
  assumes pt: "ptree pm hhdm (Suc l) t" and i: "i < 512" and none: "child pm hhdm t i = None"
    and fr: "pages_fresh hhdm (tables pm hhdm (Suc l) t) (p # ps)"
    and pm': "pm' = (zero_page pm p)(entry t i \<mapsto> (p - hhdm) OR PG_PRESENT OR PG_WRITE)"
  shows "ptree pm' hhdm (Suc l) t" and "tables pm' hhdm (Suc l) t = insert p (tables pm hhdm (Suc l) t)"
    and "translate pm' hhdm w (Suc l) t = translate pm hhdm w (Suc l) t" and "child pm' hhdm t i = Some p"
    and "apart pm pm' {t, p}"
proof -
  have pf: "p AND 0xfff = 0" "p \<noteq> NULL" "p \<notin> tables pm hhdm (Suc l) t" "(p - hhdm) AND PG_ADDR = p - hhdm"
    using fr by (auto simp: pages_fresh_def)
  have tp: "page_at pm t" using ptree_child(3)[OF pt] .
  then have ta: "t AND 0xfff = 0" by (simp add: page_at_def)
  have ptn: "p \<noteq> t" using pf(3) tables_self by metis
  show ap: "apart pm pm' {t, p}"
    unfolding apart_def
  proof (intro allI impI)
    fix u j :: u64 assume u: "u AND 0xfff = 0" "u \<notin> {t, p}" "j < 512"
    then have "entry u j \<noteq> entry t i" using entry_inj[OF u(1,3) ta i] by blast
    then show "pm' (entry u j) = pm (entry u j)" using zero_page_other[OF u(1,3) pf(1)] u(2) by (simp add: pm')
  qed
  have ej: "pm' (entry t j) = pm (entry t j)" if "j < 512" "j \<noteq> i" for j
    using that entry_inj[OF ta that(1) ta i] zero_page_other[OF ta that(1) pf(1)] ptn by (simp add: pm')
  have cj: "child pm' hhdm t j = child pm hhdm t j" if "j < 512" "j \<noteq> i" for j
    using ej[OF that] by (simp add: child_def)
  show ci: "child pm' hhdm t i = Some p"
    using entry_bits[OF pf(4)] by (simp add: child_def pm')
  have "\<forall>j < 512. pm' (entry p j) = Some 0"
    using entry_inj[OF pf(1) _ ta i] zero_page_same[OF pf(1)] ptn by (simp add: pm')
  note z = zeroed_tree[OF pf(1,2) this, of hhdm]
  have agd: "agree pm pm' (tables pm hhdm l d)" if jd: "j < 512" "child pm hhdm t j = Some d" for j d
  proof (rule apart_agree[OF ap])
    show "u AND 0xfff = 0" if u: "u \<in> tables pm hhdm l d" for u
      using ptree_pages[OF pt subsetD[OF tables_child[OF jd(2,1)] u]] by (simp add: page_at_def)
    show "tables pm hhdm l d \<inter> {t, p} = {}"
      using ptree_child(1)[OF pt jd(2,1)] pf(3) subsetD[OF tables_child[OF jd(2,1), of l]] by blast
  qed
  have jn: "j \<noteq> i" if "child pm hhdm t j = Some d" for j d using none that by auto
  have cd: "child pm' hhdm t j = Some d \<longleftrightarrow> (if j = i then d = p else child pm hhdm t j = Some d)"
    if "j < 512" for j d using ci cj[OF that] by auto
  have td: "tables pm' hhdm l d = tables pm hhdm l d" if "j < 512" "child pm hhdm t j = Some d" for j d
    by (rule agree_tables[OF agd[OF that]])
  have pd: "p \<notin> tables pm hhdm l d" if "j < 512" "child pm hhdm t j = Some d" for j d
    using pf(3) subsetD[OF tables_child[OF that(2,1), of l]] by blast
  show "tables pm' hhdm (Suc l) t = insert p (tables pm hhdm (Suc l) t)"
  proof (intro set_eqI iffI)
    fix x assume "x \<in> tables pm' hhdm (Suc l) t"
    then consider "x = t" | j d where "j < 512" "child pm' hhdm t j = Some d" "x \<in> tables pm' hhdm l d"
      unfolding tables_Suc_iff by blast
    then show "x \<in> insert p (tables pm hhdm (Suc l) t)"
    proof cases
      case 2
      then show ?thesis using cd[OF 2(1), of d] z(2) td[OF 2(1), of d] tables_child[of pm hhdm t j d l]
        by (auto simp del: tables.simps split: if_splits)
    qed (simp add: tables_Suc_iff)
  next
    fix x assume "x \<in> insert p (tables pm hhdm (Suc l) t)"
    then consider "x = p" | "x = t" | j d where "j < 512" "child pm hhdm t j = Some d" "x \<in> tables pm hhdm l d"
      unfolding insert_iff tables_Suc_iff by blast
    then show "x \<in> tables pm' hhdm (Suc l) t"
    proof cases
      case 1
      then show ?thesis using ci i z(2)[of l] unfolding tables_Suc_iff by blast
    next
      case 3
      then have "child pm' hhdm t j = Some d" using cd[OF 3(1)] jn by auto
      then show ?thesis using 3 td unfolding tables_Suc_iff by blast
    qed (simp add: tables_Suc_iff)
  qed
  have "pm' (entry t j) \<noteq> None" if "j < 512" for j
    using ej[OF that] tp that by (cases "j = i") (simp add: pm', simp add: page_at_def)
  then have pg: "page_at pm' t" using tp by (simp add: page_at_def)
  have k1: "ptree pm' hhdm l d \<and> t \<notin> tables pm' hhdm l d" if j: "j < 512" "child pm' hhdm t j = Some d" for j d
  proof (cases "j = i")
    case True
    then show ?thesis using cd[OF j(1)] j z ptn by auto
  next
    case False
    then have d: "child pm hhdm t j = Some d" using cj[OF j(1) False] j by simp
    then show ?thesis using agree_ptree[OF agd[OF j(1) d]] ptree_child(1)[OF pt d j(1)] td[OF j(1) d] by simp
  qed
  have k2: "tables pm' hhdm l d \<inter> tables pm' hhdm l e = {}"
    if j: "j < 512" "k < 512" "j \<noteq> k" "child pm' hhdm t j = Some d" "child pm' hhdm t k = Some e" for j k d e
  proof -
    have "j = i \<and> d = p \<or> child pm hhdm t j = Some d" "k = i \<and> e = p \<or> child pm hhdm t k = Some e"
      using cd[OF j(1), of d] cd[OF j(2), of e] j(4,5) by (auto split: if_splits)
    then consider "d = p" "child pm hhdm t k = Some e" | "e = p" "child pm hhdm t j = Some d"
      | "child pm hhdm t j = Some d" "child pm hhdm t k = Some e" using j(3) by blast
    then show ?thesis
    proof cases
      case 1
      then show ?thesis using z(2) td[OF j(2)] pd[OF j(2)] by simp
    next
      case 2
      then show ?thesis using z(2) td[OF j(1)] pd[OF j(1)] by simp
    next
      case 3
      then show ?thesis using td[OF j(1)] td[OF j(2)] ptree_child(2)[OF pt 3(1) j(1) 3(2) j(2,3)] by simp
    qed
  qed
  show "ptree pm' hhdm (Suc l) t" using pg k1 k2 by simp
  show "translate pm' hhdm w (Suc l) t = translate pm hhdm w (Suc l) t"
    using cd[of "get_index (Suc l) w"] ci none z(3)[of w l] cj[of "get_index (Suc l) w"]
      agree_translate[OF agd, of "get_index (Suc l) w"]
    by (cases "get_index (Suc l) w = i") (auto split: option.splits)
qed

lemma fetch_entry: "page_at pm t \<Longrightarrow> i < 512 \<Longrightarrow> \<exists>e. fetch pm (entry t i) = Ok e \<and> pm (entry t i) = Some e"
  using entry_not_NULL[of pm t i] by (auto simp: page_at_def)

lemma pages_fresh_take: "pages_fresh hhdm T ps \<Longrightarrow> set (take k ps) \<inter> T = {}"
  unfolding pages_fresh_def using set_take_subset[of k ps] by blast

lemma pages_fresh_drop:
  assumes "pages_fresh hhdm T ps" and "S \<subseteq> T \<union> set (take k ps)"
  shows "pages_fresh hhdm S (drop k ps)"
proof -
  have d: "distinct ps" using assms(1) by (simp add: pages_fresh_def)
  then have "set (take k ps) \<inter> set (drop k ps) = {}" by (metis append_take_drop_id distinct_append)
  then have "p \<notin> S" if "p \<in> set (drop k ps)" for p
    using assms that in_set_dropD[OF that] unfolding pages_fresh_def by blast
  then show ?thesis using assms(1) d in_set_dropD by (fastforce simp: pages_fresh_def)
qed

lemma map_loop_tree:
  assumes "ptree (pmem s) hhdm l t" and "pages_fresh hhdm (tables (pmem s) hhdm l t) (zpages s)"
    and "l \<le> length (zpages s)"
  shows "\<exists>s' a k. map_loop hhdm v l (entry t (get_index l v)) s = Ok (a, s')
     \<and> ptree (pmem s') hhdm l t \<and> leaf_of (pmem s') hhdm v l t = Some a
     \<and> (\<forall>w. translate (pmem s') hhdm w l t = translate (pmem s) hhdm w l t)
     \<and> k \<le> l \<and> zpages s' = drop k (zpages s)
     \<and> tables (pmem s') hhdm l t \<subseteq> tables (pmem s) hhdm l t \<union> set (take k (zpages s))
     \<and> pt_lock s' = pt_lock s
     \<and> apart (pmem s) (pmem s') (tables (pmem s) hhdm l t \<union> set (take k (zpages s)))"
  using assms
proof (induction l arbitrary: t s)
  case 0
  then show ?case
    by (intro exI[of _ s] exI[of _ "entry t (get_index 0 v)"] exI[of _ 0]) (auto simp: apart_def)
next
  case (Suc l)
  let ?i = "get_index (Suc l) v" and ?T = "tables (pmem s) hhdm (Suc l) t"
  note pt = Suc.prems(1)
  have i: "?i < 512" by simp
  obtain e where e: "fetch (pmem s) (entry t ?i) = Ok e" "pmem s (entry t ?i) = Some e"
    using fetch_entry[OF ptree_child(3)[OF pt] i] by blast
  show ?case
  proof (cases "is_present e")
    case True
    let ?c = "(e AND PG_ADDR) + hhdm"
    have c: "child (pmem s) hhdm t ?i = Some ?c" using e True by (simp add: child_def)
    have pc: "ptree (pmem s) hhdm l ?c" using ptree_child(1)[OF pt c i] by simp
    have sub: "tables (pmem s) hhdm l ?c \<subseteq> ?T" by (rule tables_child[OF c i])
    have "l \<le> length (zpages s)" using Suc.prems(3) by simp
    from Suc.IH[OF pc pages_fresh_mono[OF Suc.prems(2) sub] this]
    obtain s' a k where r: "map_loop hhdm v l (entry ?c (get_index l v)) s = Ok (a, s')"
      "ptree (pmem s') hhdm l ?c" "leaf_of (pmem s') hhdm v l ?c = Some a"
      "\<forall>w. translate (pmem s') hhdm w l ?c = translate (pmem s) hhdm w l ?c"
      "k \<le> l" "zpages s' = drop k (zpages s)"
      "tables (pmem s') hhdm l ?c \<subseteq> tables (pmem s) hhdm l ?c \<union> set (take k (zpages s))"
      "pt_lock s' = pt_lock s" "apart (pmem s) (pmem s') (tables (pmem s) hhdm l ?c \<union> set (take k (zpages s)))"
      by blast
    let ?P = "set (take k (zpages s))"
    have P: "?P \<inter> ?T = {}" by (rule pages_fresh_take[OF Suc.prems(2)])
    note sr = subtree_replace[OF pt i c r(9) P r(2,7)]
    have "translate (pmem s') hhdm w (Suc l) t = translate (pmem s) hhdm w (Suc l) t" for w
      using sr(3)[of w] r(4) c by (simp split: option.splits)
    moreover have "map_loop hhdm v (Suc l) (entry t ?i) s = Ok (a, s')" using e(1) True r(1) by simp
    moreover have "leaf_of (pmem s') hhdm v (Suc l) t = Some a" using sr(4) r(3) by simp
    moreover have "apart (pmem s) (pmem s') (?T \<union> ?P)" by (rule apart_mono[OF r(9)]) (use sub in blast)
    ultimately show ?thesis using sr(1,2) r(5,6,8)
      by (intro exI[of _ s'] exI[of _ a] exI[of _ k]) (simp del: tables.simps ptree.simps translate.simps)
  next
    case False
    obtain p ps where z: "zpages s = p # ps" using Suc.prems(3) by (cases "zpages s") auto
    define pm where "pm = (zero_page (pmem s) p)(entry t ?i \<mapsto> (p - hhdm) OR PG_PRESENT OR PG_WRITE)"
    let ?s = "s\<lparr>zpages := ps, pmem := pm\<rparr>"
    have none: "child (pmem s) hhdm t ?i = None" using e False by (simp add: child_def)
    note nc = new_child[OF pt i none Suc.prems(2)[unfolded z] pm_def]
    have fr: "pages_fresh hhdm (tables pm hhdm (Suc l) t) ps"
      using pages_fresh_drop[OF Suc.prems(2), of "tables pm hhdm (Suc l) t" 1] nc(2) by (simp add: z del: tables.simps)
    have pc: "ptree (pmem ?s) hhdm l p" using ptree_child(1)[OF nc(1,4) i] by simp
    have sub: "tables pm hhdm l p \<subseteq> tables pm hhdm (Suc l) t" by (rule tables_child[OF nc(4) i])
    have fp: "pages_fresh hhdm (tables (pmem ?s) hhdm l p) (zpages ?s)" using pages_fresh_mono[OF fr sub] by simp
    have "l \<le> length (zpages ?s)" using Suc.prems(3) z by simp
    from Suc.IH[OF pc fp this]
    obtain s' a k where r: "map_loop hhdm v l (entry p (get_index l v)) ?s = Ok (a, s')"
      "ptree (pmem s') hhdm l p" "leaf_of (pmem s') hhdm v l p = Some a"
      "\<forall>w. translate (pmem s') hhdm w l p = translate pm hhdm w l p"
      "k \<le> l" "zpages s' = drop k ps"
      "tables (pmem s') hhdm l p \<subseteq> tables pm hhdm l p \<union> set (take k ps)"
      "pt_lock s' = pt_lock s" "apart pm (pmem s') (tables pm hhdm l p \<union> set (take k ps))"
      by auto
    let ?P = "set (take k ps)"
    have P: "?P \<inter> tables pm hhdm (Suc l) t = {}" by (rule pages_fresh_take[OF fr])
    note sr = subtree_replace[OF nc(1) i nc(4) r(9) P r(2,7)]
    have tr: "translate (pmem s') hhdm w (Suc l) t = translate (pmem s) hhdm w (Suc l) t" for w
      using sr(3)[of w] r(4) nc(4) nc(3)[of w] by (cases "get_index (Suc l) w = ?i") auto
    have run: "map_loop hhdm v (Suc l) (entry t ?i) s = Ok (a, s')"
      using e(1) False r(1) z by (simp add: alloc_zpage_def Let_def pm_def)
    have leaf: "leaf_of (pmem s') hhdm v (Suc l) t = Some a" using sr(4) r(3) by simp
    have tT: "t \<in> ?T" by simp
    have ap: "apart (pmem s) (pmem s') (?T \<union> set (take (Suc k) (zpages s)))"
    proof (rule apart_trans)
      show "apart (pmem s) pm (?T \<union> set (take (Suc k) (zpages s)))"
        by (rule apart_mono[OF nc(5)]) (use tT z in auto)
      show "apart pm (pmem s') (?T \<union> set (take (Suc k) (zpages s)))"
        by (rule apart_mono[OF r(9)]) (use sub nc(2) z in auto)
    qed
    have tb: "tables (pmem s') hhdm (Suc l) t \<subseteq> ?T \<union> set (take (Suc k) (zpages s))"
      using sr(2) nc(2) z by (auto simp del: tables.simps)
    show ?thesis using run leaf tr ap tb sr(1) r(5,6,8) z
      by (intro exI[of _ s'] exI[of _ a] exI[of _ "Suc k"]) (simp del: tables.simps ptree.simps translate.simps)
  qed
qed

lemma leaf_mapped: "ptree pm hhdm l t \<Longrightarrow> leaf_of pm hhdm v l t = Some a \<Longrightarrow> a \<noteq> NULL \<and> pm a \<noteq> None
   \<and> pm a = Some (translate pm hhdm v l t)"
proof (induction l arbitrary: t)
  case 0
  then have "a = entry t (get_index 0 v)" by simp
  then show ?case using fetch_entry[of pm t "get_index 0 v"] entry_not_NULL[of pm t "get_index 0 v"] 0 by auto
next
  case (Suc l)
  obtain c where c: "child pm hhdm t (get_index (Suc l) v) = Some c" "leaf_of pm hhdm v l c = Some a"
    using Suc.prems(2) by (auto split: option.splits)
  then show ?case using Suc.IH[OF _ c(2)] ptree_child(1)[OF Suc.prems(1) c(1)] by simp
qed

lemma unmap_loop_leaf:
  "ptree (pmem s) hhdm l t \<Longrightarrow>
   unmap_loop hhdm v l (entry t (get_index l v)) s = Ok (leaf_of (pmem s) hhdm v l t)"
proof (induction l arbitrary: t)
  case (Suc l)
  let ?i = "get_index (Suc l) v"
  obtain e where e: "fetch (pmem s) (entry t ?i) = Ok e" "pmem s (entry t ?i) = Some e"
    using fetch_entry[OF ptree_child(3)[OF Suc.prems], of ?i] by auto
  show ?case
  proof (cases "is_present e")
    case True
    then have c: "child (pmem s) hhdm t ?i = Some ((e AND PG_ADDR) + hhdm)" using e by (simp add: child_def)
    then show ?thesis using e(1) True Suc.IH ptree_child(1)[OF Suc.prems c] by simp
  next
    case False
    then show ?thesis using e by (simp add: child_def)
  qed
qed simp

text \<open>No entry above the leaf on the path of \<open>v\<close> has the bit that the code takes for a large page.\<close>

fun no_large :: "(addr \<rightharpoonup> u64) \<Rightarrow> u64 \<Rightarrow> addr \<Rightarrow> nat \<Rightarrow> addr \<Rightarrow> bool" where
  "no_large pm hhdm v 0 t = True"
| "no_large pm hhdm v (Suc l) t =
     (case pm (entry t (get_index (Suc l) v)) of None \<Rightarrow> True
      | Some e \<Rightarrow> e AND PG_PS = 0 \<and> (is_present e \<longrightarrow> no_large pm hhdm v l ((e AND PG_ADDR) + hhdm)))"

lemma virt_to_pfn_loop_translate:
  "ptree pm hhdm l t \<Longrightarrow> no_large pm hhdm v l t \<Longrightarrow>
   virt_to_pfn_loop hhdm v l (entry t (get_index l v)) pm =
     Ok (if leaf_of pm hhdm v l t = None then 0
         else ucast (drop_bit 12 ((translate pm hhdm v l t AND PG_ADDR) + (v AND 0xfff))))"
proof (induction l arbitrary: t)
  case 0
  obtain e where "fetch pm (entry t (get_index 0 v)) = Ok e" "pm (entry t (get_index 0 v)) = Some e"
    using fetch_entry[of pm t "get_index 0 v"] 0 by auto
  then show ?case by (simp add: virt_offset_def)
next
  case (Suc l)
  let ?i = "get_index (Suc l) v"
  obtain e where e: "fetch pm (entry t ?i) = Ok e" "pm (entry t ?i) = Some e"
    using fetch_entry[OF ptree_child(3)[OF Suc.prems(1)], of ?i] by auto
  have ps: "e AND PG_PS = 0" using Suc.prems(2) e(2) by simp
  show ?case
  proof (cases "is_present e")
    case True
    then have c: "child pm hhdm t ?i = Some ((e AND PG_ADDR) + hhdm)" using e by (simp add: child_def)
    have "no_large pm hhdm v l ((e AND PG_ADDR) + hhdm)" using Suc.prems(2) e(2) True by simp
    then show ?thesis using e(1) True ps c Suc.IH ptree_child(1)[OF Suc.prems(1) c] by simp
  next
    case False
    then show ?thesis using e ps by (simp add: child_def)
  qed
qed

lemma is_mapped_loop_present:
  "ptree (pmem s) hhdm l t \<Longrightarrow> no_large (pmem s) hhdm v l t \<Longrightarrow>
   is_mapped_loop hhdm v l (entry t (get_index l v)) s = Ok (is_present (translate (pmem s) hhdm v l t))"
proof (induction l arbitrary: t)
  case 0
  obtain e where "fetch (pmem s) (entry t (get_index 0 v)) = Ok e" "pmem s (entry t (get_index 0 v)) = Some e"
    using fetch_entry[of "pmem s" t "get_index 0 v"] 0 by auto
  then show ?case by simp
next
  case (Suc l)
  let ?i = "get_index (Suc l) v"
  obtain e where e: "fetch (pmem s) (entry t ?i) = Ok e" "pmem s (entry t ?i) = Some e"
    using fetch_entry[OF ptree_child(3)[OF Suc.prems(1)], of ?i] by auto
  have ps: "e AND PG_PS = 0" using Suc.prems(2) e(2) by simp
  show ?case
  proof (cases "is_present e")
    case True
    then have c: "child (pmem s) hhdm t ?i = Some ((e AND PG_ADDR) + hhdm)" using e by (simp add: child_def)
    have "no_large (pmem s) hhdm v l ((e AND PG_ADDR) + hhdm)" using Suc.prems(2) e(2) True by simp
    then show ?thesis using e(1) True ps c Suc.IH ptree_child(1)[OF Suc.prems(1) c] by simp
  next
    case False
    then show ?thesis using e ps by (simp add: child_def is_present_def)
  qed
qed

lemma map_page_tree:
  assumes pt: "ptree (pmem s) hhdm 3 cr3" and fr: "pages_fresh hhdm (tables (pmem s) hhdm 3 cr3) (zpages s)"
    and n: "3 \<le> length (zpages s)" and lk: "pt_lock s = 0" and fl: "flags AND NOT PG_FLAGMASK = 0"
  shows "\<exists>s' k. map_page hhdm cr3 phys virt flags s = Ok s' \<and> ptree (pmem s') hhdm 3 cr3
     \<and> pages_fresh hhdm (tables (pmem s') hhdm 3 cr3) (zpages s') \<and> pt_lock s' = 0
     \<and> k \<le> 3 \<and> zpages s' = drop k (zpages s)
     \<and> (\<forall>w. translate (pmem s') hhdm w 3 cr3 =
          (if same_path 3 virt w then phys OR flags OR PG_PRESENT else translate (pmem s) hhdm w 3 cr3))"
proof -
  let ?s = "s\<lparr>pt_lock := 1\<rparr>"
  obtain s1 a k where r: "map_loop hhdm virt 3 (entry cr3 (get_index 3 virt)) ?s = Ok (a, s1)"
    "ptree (pmem s1) hhdm 3 cr3" "leaf_of (pmem s1) hhdm virt 3 cr3 = Some a"
    "\<forall>w. translate (pmem s1) hhdm w 3 cr3 = translate (pmem s) hhdm w 3 cr3"
    "k \<le> 3" "zpages s1 = drop k (zpages s)"
    "tables (pmem s1) hhdm 3 cr3 \<subseteq> tables (pmem s) hhdm 3 cr3 \<union> set (take k (zpages s))"
    using map_loop_tree[of ?s hhdm 3 cr3 virt] pt fr n by auto
  define pm' where "pm' = (pmem s1)(a \<mapsto> phys OR flags OR PG_PRESENT)"
  note u = leaf_update[OF pm'_def r(2,3)]
  have "fetch (pmem s1) a \<noteq> Fault e" for e using leaf_mapped[OF r(2,3)] by (auto simp: fetch_def)
  then obtain x where "fetch (pmem s1) a = Ok x" by (cases "fetch (pmem s1) a") auto
  then have run: "map_page hhdm cr3 phys virt flags s = Ok (s1\<lparr>pmem := pm', pt_lock := 0\<rparr>)"
    using r(1) lk fl by (simp add: map_page_def Let_def pm'_def)
  have "pages_fresh hhdm (tables (pmem s1) hhdm 3 cr3) (zpages s1)"
    using pages_fresh_drop[OF fr r(7)] r(6) by simp
  then show ?thesis using run u r(4,5,6)
    by (intro exI[of _ "s1\<lparr>pmem := pm', pt_lock := 0\<rparr>"] exI[of _ k]) simp
qed

subsection \<open>The sparse map\<close>

definition struct_addr :: "u64 \<Rightarrow> addr" where
  "struct_addr phys = pfn_to_page (drop_bit 12 phys) AND NOT 0xfff"

lemma present_or: "is_present (x OR PG_PRESENT)"
proof -
  have "bit ((x OR PG_PRESENT) AND PG_PRESENT) 0" by (simp add: bit_simps PG_PRESENT_def)
  then show ?thesis unfolding is_present_def by (intro notI) (simp only: bit_0_eq bot_apply bot_bool_def)
qed

lemma map_region_struct_maps:
  assumes "ptree (pmem s) hhdm 3 cr3" and "pages_fresh hhdm (tables (pmem s) hhdm 3 cr3) (zpages s)"
    and "4 * n \<le> length (zpages s)" and "pt_lock s = 0" and "n \<le> fuel"
    and "unat (r_base r + r_size r) \<le> unat c + n * 0x40000"
    and "unat (r_base r + r_size r) + 0x40000 < 2 ^ 64"
  shows "\<exists>s'. map_region_struct fuel hhdm cr3 r c s = Ok s' \<and> ptree (pmem s') hhdm 3 cr3
     \<and> pages_fresh hhdm (tables (pmem s') hhdm 3 cr3) (zpages s') \<and> pt_lock s' = 0
     \<and> length (zpages s) \<le> length (zpages s') + 4 * n
     \<and> (\<forall>w. is_present (translate (pmem s') hhdm w 3 cr3) \<longleftrightarrow>
          is_present (translate (pmem s) hhdm w 3 cr3)
          \<or> (\<exists>j. unat c + j * 0x40000 < unat (r_base r + r_size r)
               \<and> same_path 3 (struct_addr (c + of_nat j * 0x40000)) w))"
  using assms
proof (induction n arbitrary: fuel c s)
  case 0
  then show ?case by (intro exI[of _ s]) (simp add: word_less_nat_alt)
next
  case (Suc n)
  let ?E = "r_base r + r_size r"
  show ?case
  proof (cases "c < ?E")
    case False
    then show ?thesis using Suc.prems
      by (intro exI[of _ s]) (auto simp: word_less_nat_alt)
  next
    case True
    obtain fuel' where f: "fuel = Suc fuel'" "n \<le> fuel'" using Suc.prems(5) by (cases fuel) auto
    obtain p ps where z: "zpages s = p # ps" using Suc.prems(3) by (cases "zpages s") auto
    define pm where "pm = zero_page (pmem s) p"
    let ?s = "s\<lparr>zpages := ps, pmem := pm\<rparr>"
    have pf: "p AND 0xfff = 0" "p \<notin> tables (pmem s) hhdm 3 cr3"
      using Suc.prems(2) z by (auto simp: pages_fresh_def)
    have al: "u AND 0xfff = 0" if "u \<in> tables (pmem s) hhdm 3 cr3" for u
      using ptree_pages[OF Suc.prems(1) that] by (simp add: page_at_def)
    have ag: "agree (pmem s) pm (tables (pmem s) hhdm 3 cr3)"
      unfolding agree_def pm_def
    proof (intro ballI allI impI)
      fix u i :: u64 assume u: "u \<in> tables (pmem s) hhdm 3 cr3" "i < 512"
      have "u \<noteq> p" using u(1) pf(2) by blast
      then show "zero_page (pmem s) p (entry u i) = pmem s (entry u i)"
        by (rule zero_page_other[OF al[OF u(1)] u(2) pf(1)])
    qed
    have tb: "tables pm hhdm 3 cr3 = tables (pmem s) hhdm 3 cr3" by (rule agree_tables[OF ag])
    have pt: "ptree (pmem ?s) hhdm 3 cr3" using agree_ptree[OF ag Suc.prems(1)] by simp
    have "pages_fresh hhdm (tables (pmem s) hhdm 3 cr3) ps"
      using Suc.prems(2) z by (simp add: pages_fresh_def)
    then have fr: "pages_fresh hhdm (tables (pmem ?s) hhdm 3 cr3) (zpages ?s)" using tb by simp
    have n3: "3 \<le> length (zpages ?s)" "pt_lock ?s = 0" using Suc.prems(3,4) z by auto
    have fl: "(PG_NX OR PG_WRITE) AND NOT PG_FLAGMASK = 0"
      by (simp add: PG_NX_def PG_WRITE_def PG_FLAGMASK_def PG_PRESENT_def PG_USER_def PG_PS_def)
    obtain s1 k where r: "map_page hhdm cr3 (p - hhdm) (struct_addr c) (PG_NX OR PG_WRITE) ?s = Ok s1"
      "ptree (pmem s1) hhdm 3 cr3" "pages_fresh hhdm (tables (pmem s1) hhdm 3 cr3) (zpages s1)"
      "pt_lock s1 = 0" "k \<le> 3" "zpages s1 = drop k ps"
      "\<forall>w. translate (pmem s1) hhdm w 3 cr3 = (if same_path 3 (struct_addr c) w
          then (p - hhdm) OR (PG_NX OR PG_WRITE) OR PG_PRESENT else translate pm hhdm w 3 cr3)"
      using map_page_tree[OF pt fr n3 fl, of "p - hhdm" "struct_addr c"] by auto
    have c1: "unat (c + 0x40000) = unat c + 0x40000"
      using True Suc.prems(7) by (simp add: unat_word_ariths word_less_nat_alt)
    have pr: "is_present (translate (pmem s1) hhdm w 3 cr3) \<longleftrightarrow>
        is_present (translate (pmem s) hhdm w 3 cr3) \<or> same_path 3 (struct_addr c) w" for w
      using r(7) agree_translate[OF ag, of w] present_or[of "(p - hhdm) OR (PG_NX OR PG_WRITE)"]
      by (simp add: or.assoc)
    have e: "4 * n \<le> length (zpages s1)" "unat ?E \<le> unat (c + 0x40000) + n * 0x40000"
      using Suc.prems(3,6) r(5,6) z c1 by auto
    obtain s' where q: "map_region_struct fuel' hhdm cr3 r (c + 0x40000) s1 = Ok s'"
      "ptree (pmem s') hhdm 3 cr3" "pages_fresh hhdm (tables (pmem s') hhdm 3 cr3) (zpages s')"
      "pt_lock s' = 0" "length (zpages s1) \<le> length (zpages s') + 4 * n"
      "\<forall>w. is_present (translate (pmem s') hhdm w 3 cr3) \<longleftrightarrow>
          is_present (translate (pmem s1) hhdm w 3 cr3)
          \<or> (\<exists>j. unat (c + 0x40000) + j * 0x40000 < unat ?E
               \<and> same_path 3 (struct_addr (c + 0x40000 + of_nat j * 0x40000)) w)"
      using Suc.IH[OF r(2,3) e(1) r(4) f(2) e(2) Suc.prems(7)] by blast
    have run: "map_region_struct fuel hhdm cr3 r c s = Ok s'"
      using True f(1) z r(1) q(1)
      by (subst map_region_struct.simps)
        (simp add: Let_def alloc_zpage_def struct_addr_def pm_def STRUCTS_PER_PAGE_def)
    have "(\<exists>j. unat c + j * 0x40000 < unat ?E \<and> same_path 3 (struct_addr (c + of_nat j * 0x40000)) w) \<longleftrightarrow>
        same_path 3 (struct_addr c) w \<or> (\<exists>j. unat (c + 0x40000) + j * 0x40000 < unat ?E
               \<and> same_path 3 (struct_addr (c + 0x40000 + of_nat j * 0x40000)) w)" (is "(\<exists>j. ?Q j) \<longleftrightarrow> ?R") for w
    proof -
      have "(\<exists>j. ?Q j) \<longleftrightarrow> ?Q 0 \<or> (\<exists>j. ?Q (Suc j))" by (metis not0_implies_Suc)
      moreover have "?Q 0 \<longleftrightarrow> same_path 3 (struct_addr c) w" using True by (simp add: word_less_nat_alt)
      moreover have "?Q (Suc j) \<longleftrightarrow> unat (c + 0x40000) + j * 0x40000 < unat ?E
               \<and> same_path 3 (struct_addr (c + 0x40000 + of_nat j * 0x40000)) w" for j
        unfolding c1 by (simp add: algebra_simps)
      ultimately show ?thesis by simp
    qed
    then show ?thesis using run q pr r(5,6) z by (intro exI[of _ s']) auto
  qed
qed

section \<open>Properties of the page tables\<close>

definition zero_root :: "addr list \<Rightarrow> ptm" where
  "zero_root ps = \<lparr>pmem = zero_page Map.empty 0x1000, zpages = ps, pt_lock = 0\<rparr>"

lemma zero_root_tree:
  "ptree (pmem (zero_root ps)) 0 3 0x1000" "tables (pmem (zero_root ps)) 0 3 0x1000 = {0x1000}"
  "translate (pmem (zero_root ps)) 0 w 3 0x1000 = 0"
  using zeroed_tree[of "0x1000" "pmem (zero_root ps)"] zero_page_same[of "0x1000"] by (simp_all add: zero_root_def)

text \<open>
  C14: \<open>map_page\<close> maps exactly one page. On page tables that form a tree, with enough fresh pages, it
  succeeds, keeps the tree and releases the lock, and afterwards the lookup of \<open>virt\<close>, and of every
  address that shares its four table indices, gives \<open>phys | flags | PG_PRESENT\<close>, while every other
  address translates as before, whatever intermediate tables had to be added.
\<close>

theorem map_page_translates:
  assumes "ptree (pmem s) hhdm 3 cr3" and "pages_fresh hhdm (tables (pmem s) hhdm 3 cr3) (zpages s)"
    and "3 \<le> length (zpages s)" and "pt_lock s = 0" and "flags AND NOT PG_FLAGMASK = 0"
  shows "\<exists>s'. map_page hhdm cr3 phys virt flags s = Ok s' \<and> ptree (pmem s') hhdm 3 cr3
     \<and> pages_fresh hhdm (tables (pmem s') hhdm 3 cr3) (zpages s') \<and> pt_lock s' = 0
     \<and> (\<forall>w. translate (pmem s') hhdm w 3 cr3 =
          (if same_path 3 virt w then phys OR flags OR PG_PRESENT else translate (pmem s) hhdm w 3 cr3))"
  using map_page_tree[OF assms, of phys virt] by blast

theorem map_page_translates_witness:
  "\<exists>s'. map_page 0 0x1000 0x7000 0xffffd00000000000 PG_WRITE (zero_root [0x2000, 0x3000, 0x4000]) = Ok s'
     \<and> translate (pmem s') 0 0xffffd00000000000 3 0x1000 = 0x7003"
proof -
  have "PG_WRITE AND NOT PG_FLAGMASK = 0"
    by (simp add: PG_NX_def PG_WRITE_def PG_FLAGMASK_def PG_PRESENT_def PG_USER_def PG_PS_def)
  moreover have "pages_fresh 0 (tables (pmem (zero_root [0x2000, 0x3000, 0x4000])) 0 3 0x1000)
      (zpages (zero_root [0x2000, 0x3000, 0x4000]))"
    unfolding zero_root_tree by (simp add: pages_fresh_def zero_root_def PG_ADDR_def)
  ultimately obtain s' where
    "map_page 0 0x1000 0x7000 0xffffd00000000000 PG_WRITE (zero_root [0x2000, 0x3000, 0x4000]) = Ok s'"
    "\<forall>w. translate (pmem s') 0 w 3 0x1000 = (if same_path 3 0xffffd00000000000 w
       then 0x7000 OR PG_WRITE OR PG_PRESENT
       else translate (pmem (zero_root [0x2000, 0x3000, 0x4000])) 0 w 3 0x1000)"
    using map_page_translates[OF zero_root_tree(1), of "[0x2000, 0x3000, 0x4000]" PG_WRITE
      "0x7000" "0xffffd00000000000"]
    by (auto simp: zero_root_def)
  then show ?thesis by (auto simp: same_path_def PG_WRITE_def PG_PRESENT_def)
qed

text \<open>
  \<open>unmap_page\<close> clears exactly the page's entry, or leaves its lock taken for ever. On a tree of
  page tables, if the tables down to the last level exist, the address translates to 0 afterwards,
  every other address as before, and the lock is free. If an intermediate table is missing, the call
  returns with the lock still held, and the next \<open>map_page\<close>, \<open>unmap_page\<close> or \<open>is_mapped\<close> on this page
  table spins for ever.
\<close>

theorem unmap_page_clears_or_locks:
  assumes "ptree (pmem s) hhdm 3 cr3" and "pt_lock s = 0"
  shows "\<exists>s'. unmap_page hhdm cr3 virt s = Ok s' \<and> ptree (pmem s') hhdm 3 cr3 \<and>
    (if leaf_of (pmem s) hhdm virt 3 cr3 \<noteq> None
     then pt_lock s' = 0 \<and> (\<forall>w. translate (pmem s') hhdm w 3 cr3 =
            (if same_path 3 virt w then 0 else translate (pmem s) hhdm w 3 cr3))
     else pmem s' = pmem s
       \<and> (\<forall>p v f. map_page hhdm cr3 p v f s' = Fault Deadlock)
       \<and> (\<forall>v. unmap_page hhdm cr3 v s' = Fault Deadlock \<and> is_mapped hhdm cr3 v s' = Fault Deadlock))"
proof -
  have u: "unmap_loop hhdm virt 3 (entry cr3 (get_index 3 virt)) (s\<lparr>pt_lock := 1\<rparr>)
      = Ok (leaf_of (pmem s) hhdm virt 3 cr3)"
    using unmap_loop_leaf[of "s\<lparr>pt_lock := 1\<rparr>" hhdm 3 cr3 virt] assms(1) by simp
  show ?thesis
  proof (cases "leaf_of (pmem s) hhdm virt 3 cr3")
    case None
    then have "unmap_page hhdm cr3 virt s = Ok (s\<lparr>pt_lock := 1\<rparr>)"
      using u assms(2) by (simp add: unmap_page_def Let_def)
    then show ?thesis using None assms(1)
      by (intro exI[of _ "s\<lparr>pt_lock := 1\<rparr>"]) (simp add: map_page_def unmap_page_def is_mapped_def)
  next
    case (Some a)
    define pm' where "pm' = (pmem s)(a \<mapsto> 0)"
    note l = leaf_update[OF pm'_def assms(1) Some]
    have "a \<noteq> NULL \<and> pmem s a \<noteq> None" using leaf_mapped[OF assms(1) Some] by blast
    then obtain x where "fetch (pmem s) a = Ok x" by (auto simp: fetch_def)
    then have "unmap_page hhdm cr3 virt s = Ok (s\<lparr>pmem := pm', pt_lock := 0\<rparr>)"
      using u assms(2) Some by (simp add: unmap_page_def Let_def pm'_def)
    then show ?thesis using Some l by (intro exI[of _ "s\<lparr>pmem := pm', pt_lock := 0\<rparr>"]) simp
  qed
qed

theorem unmap_page_clears_or_locks_witness:
  "\<exists>s'. unmap_page 0 0x1000 0x5000 (zero_root []) = Ok s' \<and> is_mapped 0 0x1000 0x5000 s' = Fault Deadlock"
proof -
  have "leaf_of (pmem (zero_root [])) 0 0x5000 3 0x1000 = None"
  proof -
    have "child (pmem (zero_root [])) 0 0x1000 i = None" if "i < 512" for i
      using zero_page_same[OF _ that, of "0x1000"] by (simp add: child_def zero_root_def is_present_def)
    then show ?thesis by (simp add: numeral_3_eq_3)
  qed
  then show ?thesis
    using unmap_page_clears_or_locks[OF zero_root_tree(1)[of "[]"], of "0x5000"] by (auto simp: zero_root_def)
qed

text \<open>
  C15: \<open>virt_to_pfn\<close> inverts the mapping below frame \<open>2^32\<close>. On a tree of page tables with no entry
  marked large on the path it returns the frame number of the translation of \<open>virt\<close> truncated to 32
  bits, the whole number if the frame is below \<open>2^32\<close>, and 0 if there is no last-level table;
  \<open>is_mapped\<close> agrees with the present bit of the same translation.
\<close>

theorem virt_to_pfn_inverts:
  assumes "ptree (pmem s) hhdm 3 cr3" and "no_large (pmem s) hhdm virt 3 cr3" and "pt_lock s = 0"
  shows "is_mapped hhdm cr3 virt s = Ok (is_present (translate (pmem s) hhdm virt 3 cr3), s)
    \<and> virt_to_pfn hhdm (cr3 - hhdm) virt (pmem s) = Ok (if leaf_of (pmem s) hhdm virt 3 cr3 = None then 0
       else ucast (drop_bit 12 ((translate (pmem s) hhdm virt 3 cr3 AND PG_ADDR) + (virt AND 0xfff))))"
proof -
  have "is_mapped_loop hhdm virt 3 (entry cr3 (get_index 3 virt)) (s\<lparr>pt_lock := 1\<rparr>)
      = Ok (is_present (translate (pmem s) hhdm virt 3 cr3))"
    using is_mapped_loop_present[of "s\<lparr>pt_lock := 1\<rparr>" hhdm 3 cr3 virt] assms(1,2) by simp
  moreover have "s\<lparr>pt_lock := 0\<rparr> = s" using assms(3) by simp
  moreover have "cr3 - hhdm + hhdm = cr3" by simp
  ultimately show ?thesis
    using virt_to_pfn_loop_translate[OF assms(1,2)] assms(3) by (simp add: is_mapped_def virt_to_pfn_def)
qed

theorem virt_to_pfn_inverts_witness:
  "is_mapped 0 0x1000 0x5000 (zero_root []) = Ok (False, zero_root [])
   \<and> virt_to_pfn 0 0x1000 0x5000 (pmem (zero_root [])) = Ok 0"
proof -
  have e: "pmem (zero_root []) (entry 0x1000 i) = Some 0" if "i < 512" for i
    using zero_page_same[OF _ that, of "0x1000"] by (simp add: zero_root_def)
  then have "no_large (pmem (zero_root [])) 0 0x5000 3 0x1000" "leaf_of (pmem (zero_root [])) 0 0x5000 3 0x1000 = None"
    by (simp_all add: numeral_3_eq_3 is_present_def child_def)
  then show ?thesis using virt_to_pfn_inverts[of "zero_root []" 0 "0x1000" "0x5000"] zero_root_tree(1)[of "[]"]
      zero_root_tree(3)[of "[]" "0x5000"]
    by (simp add: zero_root_def is_present_def)
qed

text \<open>
  \<open>sparse_init\<close> steps by 64 frames from the first frame of a region, not from the first page of
  struct pages: with enough fresh pages and fuel, it maps exactly the pages of the sparse array that
  hold the structs of every 64th frame counted from the region's base. In a region that does not start
  at a multiple of 64 frames, the structs of its last frames can stay unmapped, as the witness shows for
  frame 64 of a region of frames 63 and 64.
\<close>

theorem sparse_init_maps:
  assumes "ptree (pmem s) hhdm 3 cr3" and "pages_fresh hhdm (tables (pmem s) hhdm 3 cr3) (zpages s)"
    and "4 * n \<le> length (zpages s)" and "pt_lock s = 0" and "n \<le> fuel"
    and "unat (r_base r + r_size r) \<le> unat (r_base r) + n * 0x40000"
    and "unat (r_base r + r_size r) + 0x40000 < 2 ^ 64"
  shows "\<exists>s'. sparse_init fuel hhdm cr3 [r] s = Ok s' \<and> ptree (pmem s') hhdm 3 cr3 \<and> pt_lock s' = 0
     \<and> (\<forall>w. is_present (translate (pmem s') hhdm w 3 cr3) \<longleftrightarrow>
          is_present (translate (pmem s) hhdm w 3 cr3)
          \<or> (\<exists>j. unat (r_base r) + j * 0x40000 < unat (r_base r + r_size r)
               \<and> same_path 3 (struct_addr (r_base r + of_nat j * 0x40000)) w))"
  using map_region_struct_maps[OF assms] by auto

theorem sparse_init_maps_witness:
  "\<exists>s'. sparse_init 1 0 0x1000 [\<lparr>r_base = 0x3f000, r_size = 0x2000\<rparr>] (zero_root [0x2000, 0x3000, 0x4000, 0x5000]) = Ok s'
     \<and> is_present (translate (pmem s') 0 (pfn_to_page 63) 3 0x1000)
     \<and> \<not> is_present (translate (pmem s') 0 (pfn_to_page 64) 3 0x1000)"
proof -
  let ?s = "zero_root [0x2000, 0x3000, 0x4000, 0x5000]" and ?r = "\<lparr>r_base = 0x3f000, r_size = 0x2000\<rparr>"
  have fr: "pages_fresh 0 (tables (pmem ?s) 0 3 0x1000) (zpages ?s)"
    unfolding zero_root_tree by (simp add: pages_fresh_def zero_root_def PG_ADDR_def)
  have z: "4 * 1 \<le> length (zpages ?s)" "pt_lock ?s = 0" by (simp_all add: zero_root_def)
  obtain s' where s': "sparse_init 1 0 0x1000 [?r] ?s = Ok s'"
    "\<forall>w. is_present (translate (pmem s') 0 w 3 0x1000) \<longleftrightarrow> is_present (translate (pmem ?s) 0 w 3 0x1000)
       \<or> (\<exists>j. unat (0x3f000 :: u64) + j * 0x40000 < unat (0x41000 :: u64)
               \<and> same_path 3 (struct_addr (0x3f000 + of_nat j * 0x40000)) w)"
    using sparse_init_maps[OF zero_root_tree(1) fr z, of 1 ?r] by auto
  have j: "unat (0x3f000 :: u64) + j * 0x40000 < unat (0x41000 :: u64) \<longleftrightarrow> j = 0" for j by auto
  have v: "struct_addr 0x3f000 = 0xffffc00000000000" "pfn_to_page 63 = 0xffffc00000000fc0"
    "pfn_to_page 64 = 0xffffc00000001000"
    by (simp_all add: struct_addr_def pfn_to_page_def sparsemap_array_def)
  have p: "same_path 3 0xffffc00000000000 0xffffc00000000fc0" "\<not> same_path 3 0xffffc00000000000 0xffffc00000001000"
  proof -
    have "get_index 0 0xffffc00000000000 \<noteq> get_index 0 0xffffc00000001000" by (simp add: get_index_def)
    then show "\<not> same_path 3 0xffffc00000000000 0xffffc00000001000" by (auto simp: same_path_def)
    have "get_index k 0xffffc00000000000 = get_index k 0xffffc00000000fc0" if "k \<le> 3" for k
    proof -
      have "k = 0 \<or> k = 1 \<or> k = 2 \<or> k = 3" using that by auto
      then show ?thesis by (auto simp: get_index_def)
    qed
    then show "same_path 3 0xffffc00000000000 0xffffc00000000fc0" by (simp add: same_path_def)
  qed
  show ?thesis using s' p zero_root_tree(3)[of "[0x2000, 0x3000, 0x4000, 0x5000]"]
    by (intro exI[of _ s']) (simp add: j v is_present_def)
qed

end
