(* ===== verification/Sparse.thy ===== *)
theory Sparse
  imports Mapper
begin

section \<open>The page tables of the running kernel\<close>

text \<open>
  What \<open>kernel_top_pgt_init\<close> and \<open>sparse_init\<close> do together: the first fills the upper half of the boot
  loader's top-level table and copies it, the second maps the array of page structs through the copy. The two
  top-level tables share every table below an entry, so what is mapped through one is mapped in the other. Only
  the tables below the entry of the array matter; nothing is assumed of the rest of the boot loader's tables.
\<close>

lemma zero_page_agree:
  assumes "p AND 0xfff = 0" and "p \<notin> R" and "\<forall>u \<in> R. u AND 0xfff = 0"
  shows "agree pm (zero_page pm p) R"
  unfolding agree_def
proof (intro ballI allI impI)
  fix u i :: u64 assume u: "u \<in> R" "i < 512"
  then have "u \<noteq> p" "u AND 0xfff = 0" using assms(2,3) by auto
  then show "zero_page pm p (entry u i) = pm (entry u i)" by (intro zero_page_other u(2) assms(1)) auto
qed

lemma agree_trans: "agree a b R \<Longrightarrow> agree b c R \<Longrightarrow> agree a c R"
  by (simp add: agree_def)

text \<open>The loop over the upper half: absent entries get a zeroed table, the others stay.\<close>

definition zeroed :: "(addr \<rightharpoonup> u64) \<Rightarrow> addr \<Rightarrow> bool" where
  "zeroed pm p \<longleftrightarrow> (\<forall>m < 512. pm (entry p m) = Some 0)"

lemma zeroed_agree: "zeroed pm p \<Longrightarrow> agree pm pm' {p} \<Longrightarrow> zeroed pm' p"
  by (simp add: zeroed_def agree_def)

lemma page_at_upd: "page_at pm t \<Longrightarrow> page_at (pm(a \<mapsto> x)) t"
  by (simp add: page_at_def)

lemma top_pgt_loop_step:
  assumes "page_at (pmem s) t" and "i < 512" and "pmem s (entry t i) = Some 0" and z: "zpages s = p # ps"
    and fr: "pages_fresh hhdm {t} (p # ps)"
  defines "s' \<equiv> s\<lparr>zpages := ps, pmem := (zero_page (pmem s) p)(entry t i \<mapsto> (p - hhdm) OR PG_PRESENT OR PG_WRITE)\<rparr>"
  shows "top_pgt_loop hhdm t (Suc n) i s = top_pgt_loop hhdm t n (i + 1) s'"
    and "page_at (pmem s') t" and "zeroed (pmem s') p" and "child (pmem s') hhdm t i = Some p"
    and "\<And>u. u AND 0xfff = 0 \<Longrightarrow> u \<noteq> t \<Longrightarrow> u \<noteq> p \<Longrightarrow> agree (pmem s) (pmem s') {u}"
    and "\<And>j. j < 512 \<Longrightarrow> j \<noteq> i \<Longrightarrow> pmem s' (entry t j) = pmem s (entry t j)"
proof -
  have pf: "p AND 0xfff = 0" "p \<noteq> t" "(p - hhdm) AND PG_ADDR = p - hhdm" using fr by (auto simp: pages_fresh_def)
  have t: "t AND 0xfff = 0" using assms(1) by (simp add: page_at_def)
  show "top_pgt_loop hhdm t (Suc n) i s = top_pgt_loop hhdm t n (i + 1) s'"
    using assms(3) entry_not_NULL[OF assms(1,2)] z by (simp add: alloc_zpage_def s'_def)
  show o: "pmem s' (entry t j) = pmem s (entry t j)" if "j < 512" "j \<noteq> i" for j
    using that entry_inj[OF t that(1) t assms(2)] zero_page_other[OF t that(1) pf(1)] pf(2) by (simp add: s'_def)
  have "pmem s' (entry t j) \<noteq> None" if "j < 512" for j
    using o[OF that] assms(1) that by (cases "j = i") (simp add: s'_def, simp add: page_at_def)
  then show "page_at (pmem s') t" using assms(1) by (simp add: page_at_def)
  show "zeroed (pmem s') p"
    using zero_page_same[OF pf(1)] entry_inj[OF pf(1) _ t assms(2)] pf(2) by (simp add: zeroed_def s'_def)
  show "child (pmem s') hhdm t i = Some p" using entry_bits[OF pf(3)] by (simp add: child_def s'_def)
  show "agree (pmem s) (pmem s') {u}" if u: "u AND 0xfff = 0" "u \<noteq> t" "u \<noteq> p" for u
    using zero_page_other[OF u(1) _ pf(1) u(3)] entry_inj[OF u(1) _ t assms(2)] u(2) by (simp add: agree_def s'_def)
qed

lemma top_pgt_loop_fills:
  assumes "page_at (pmem s) t" and "pages_fresh hhdm {t} (zpages s)" and "n \<le> length (zpages s)" and "unat i + n \<le> 512"
  shows "\<exists>s' k. top_pgt_loop hhdm t n i s = Ok s' \<and> k \<le> n \<and> zpages s' = drop k (zpages s) \<and> pt_lock s' = pt_lock s
     \<and> page_at (pmem s') t
     \<and> (\<forall>u. u AND 0xfff = 0 \<longrightarrow> u \<noteq> t \<longrightarrow> u \<notin> set (take k (zpages s)) \<longrightarrow> agree (pmem s) (pmem s') {u})
     \<and> (\<forall>j < 512. pmem s (entry t j) \<noteq> Some 0 \<or> j < i \<longrightarrow> pmem s' (entry t j) = pmem s (entry t j))
     \<and> (\<forall>j < 512. i \<le> j \<and> unat j < unat i + n \<and> pmem s (entry t j) = Some 0 \<longrightarrow>
          (\<exists>p \<in> set (take k (zpages s)). child (pmem s') hhdm t j = Some p \<and> zeroed (pmem s') p))"
  using assms
proof (induction n arbitrary: i s)
  case 0
  have "\<not> (i \<le> j \<and> unat j < unat i)" for j :: u64 by (simp add: word_le_nat_alt)
  then show ?case using 0 by (intro exI[of _ s] exI[of _ 0]) (auto simp: agree_def)
next
  case (Suc n)
  have i: "i < 512" using Suc.prems(4) by (simp add: word_less_nat_alt)
  have i1: "unat (i + 1) = unat i + 1" using Suc.prems(4) by (simp add: unat_word_ariths)
  obtain e where e: "fetch (pmem s) (entry t i) = Ok e" "pmem s (entry t i) = Some e"
    using fetch_entry[OF Suc.prems(1) i] by blast
  have le: "i \<le> j \<longleftrightarrow> j = i \<or> i + 1 \<le> j" "j < i + 1 \<longleftrightarrow> j = i \<or> j < i" for j :: u64
    using i1 by (auto simp: word_le_nat_alt word_less_nat_alt word_unat_eq_iff)
  show ?case
  proof (cases "e = 0")
    case False
    obtain s' k where r: "top_pgt_loop hhdm t n (i + 1) s = Ok s'" "k \<le> n" "zpages s' = drop k (zpages s)" "pt_lock s' = pt_lock s"
      "page_at (pmem s') t" "\<forall>u. u AND 0xfff = 0 \<longrightarrow> u \<noteq> t \<longrightarrow> u \<notin> set (take k (zpages s)) \<longrightarrow> agree (pmem s) (pmem s') {u}"
      "\<forall>j < 512. pmem s (entry t j) \<noteq> Some 0 \<or> j < i + 1 \<longrightarrow> pmem s' (entry t j) = pmem s (entry t j)"
      "\<forall>j < 512. i + 1 \<le> j \<and> unat j < unat (i + 1) + n \<and> pmem s (entry t j) = Some 0 \<longrightarrow>
          (\<exists>p \<in> set (take k (zpages s)). child (pmem s') hhdm t j = Some p \<and> zeroed (pmem s') p)"
      using Suc.IH[of s "i + 1"] Suc.prems i1 by auto
    have "top_pgt_loop hhdm t (Suc n) i s = Ok s'" using e(1) False r(1) by simp
    then show ?thesis using r(2-8) e(2) False i1 le by (intro exI[of _ s'] exI[of _ k]) auto
  next
    case True
    obtain p ps where z: "zpages s = p # ps" using Suc.prems(3) by (cases "zpages s") auto
    define s1 where "s1 = s\<lparr>zpages := ps, pmem := (zero_page (pmem s) p)(entry t i \<mapsto> (p - hhdm) OR PG_PRESENT OR PG_WRITE)\<rparr>"
    note st = top_pgt_loop_step[OF Suc.prems(1) i e(2)[unfolded True] z Suc.prems(2)[unfolded z], folded s1_def]
    have s1: "zpages s1 = ps" "pt_lock s1 = pt_lock s" by (simp_all add: s1_def)
    have pf: "p AND 0xfff = 0" "p \<noteq> t" "p \<notin> set ps" "pages_fresh hhdm {t} ps" using Suc.prems(2) z by (auto simp: pages_fresh_def)
    obtain s' k where r: "top_pgt_loop hhdm t n (i + 1) s1 = Ok s'" "k \<le> n" "zpages s' = drop k ps" "pt_lock s' = pt_lock s"
      "page_at (pmem s') t" "\<forall>u. u AND 0xfff = 0 \<longrightarrow> u \<noteq> t \<longrightarrow> u \<notin> set (take k ps) \<longrightarrow> agree (pmem s1) (pmem s') {u}"
      "\<forall>j < 512. pmem s1 (entry t j) \<noteq> Some 0 \<or> j < i + 1 \<longrightarrow> pmem s' (entry t j) = pmem s1 (entry t j)"
      "\<forall>j < 512. i + 1 \<le> j \<and> unat j < unat (i + 1) + n \<and> pmem s1 (entry t j) = Some 0 \<longrightarrow>
          (\<exists>p \<in> set (take k ps). child (pmem s') hhdm t j = Some p \<and> zeroed (pmem s') p)"
      using Suc.IH[of s1 "i + 1", OF st(2)] Suc.prems(3,4) i1 pf(4) z s1 by auto
    have "pmem s' (entry t i) = pmem s1 (entry t i)" using r(7) i le(2)[of i] by blast
    then have ci: "child (pmem s') hhdm t i = Some p" using st(4) by (simp add: child_def)
    have "p \<notin> set (take k ps)" using pf(3) in_set_takeD by metis
    then have zi: "zeroed (pmem s') p" using zeroed_agree[OF st(3)] r(6) pf(1,2) by blast
    have run: "top_pgt_loop hhdm t (Suc n) i s = Ok s'" using st(1) r(1) by simp
    have ag: "agree (pmem s) (pmem s') {u}" if "u AND 0xfff = 0" "u \<noteq> t" "u \<notin> set (take (Suc k) (p # ps))" for u
      using agree_trans[OF st(5)[of u]] r(6) that by auto
    have old: "pmem s' (entry t j) = pmem s (entry t j)" if "j < 512" "pmem s (entry t j) \<noteq> Some 0 \<or> j < i" for j
    proof -
      have ji: "j \<noteq> i" using that(2) e(2) True by auto
      then show ?thesis using st(6)[OF that(1) ji] r(7) that le(2)[of j] by auto
    qed
    have new: "\<exists>q \<in> set (take (Suc k) (p # ps)). child (pmem s') hhdm t j = Some q \<and> zeroed (pmem s') q"
      if j: "j < 512" "i \<le> j" "unat j < unat i + Suc n" "pmem s (entry t j) = Some 0" for j
    proof (cases "j = i")
      case False
      then have "\<exists>q \<in> set (take k ps). child (pmem s') hhdm t j = Some q \<and> zeroed (pmem s') q"
        using r(8) j le(1)[of j] st(6)[OF j(1) False] i1 by auto
      then show ?thesis by auto
    qed (use ci zi in auto)
    show ?thesis unfolding z using run r(2-5) ag old new by (intro exI[of _ s'] exI[of _ "Suc k"]) auto
  qed
qed

text \<open>Copying a table.\<close>

lemma copy_words_copies:
  assumes "\<forall>j < n. pm (src + 8 * of_nat j) \<noteq> None \<and> src + 8 * of_nat j \<noteq> NULL \<and> dst + 8 * of_nat j \<noteq> NULL"
    and "\<forall>i < n. \<forall>j < n. dst + 8 * of_nat i \<noteq> src + 8 * of_nat j"
    and "n \<le> 512"
  shows "\<exists>pm'. copy_words pm dst src n = Ok pm' \<and> (\<forall>j < n. pm' (dst + 8 * of_nat j) = pm (src + 8 * of_nat j))
     \<and> (\<forall>a. (\<forall>j < n. a \<noteq> dst + 8 * of_nat j) \<longrightarrow> pm' a = pm a)"
  using assms
proof (induction n arbitrary: pm src dst)
  case (Suc n)
  have 0: "pm src \<noteq> None" "src \<noteq> NULL" "dst \<noteq> NULL" using Suc.prems(1)[rule_format, of 0] by auto
  obtain w where w: "pm src = Some w" using 0 by auto
  have sh: "x + 8 + 8 * of_nat j = x + 8 * of_nat (Suc j)" for x :: addr and j by (simp add: algebra_simps)
  let ?pm = "pm(dst \<mapsto> w)"
  have d0: "dst \<noteq> dst + 8 * of_nat (Suc j)" if "j < n" for j
  proof -
    have "unat (8 * of_nat (Suc j) :: addr) = 8 * Suc j"
      using that Suc.prems(3) by (simp add: unat_word_ariths unat_of_nat del: of_nat_Suc)
    then have "8 * of_nat (Suc j) \<noteq> (0 :: addr)" by (metis mult_is_0 nat.simps(3) unat_0 zero_neq_numeral)
    then show ?thesis by simp
  qed
  have ne: "dst \<noteq> src + 8 * of_nat (Suc j)" if "j < n" for j
    using Suc.prems(2)[rule_format, of 0 "Suc j"] that by simp
  have "\<exists>pm'. copy_words ?pm (dst + 8) (src + 8) n = Ok pm' \<and> (\<forall>j < n. pm' (dst + 8 + 8 * of_nat j) = ?pm (src + 8 + 8 * of_nat j))
     \<and> (\<forall>a. (\<forall>j < n. a \<noteq> dst + 8 + 8 * of_nat j) \<longrightarrow> pm' a = ?pm a)"
  proof (rule Suc.IH)
    show "\<forall>j<n. ?pm (src + 8 + 8 * of_nat j) \<noteq> None \<and> src + 8 + 8 * of_nat j \<noteq> NULL \<and> dst + 8 + 8 * of_nat j \<noteq> NULL"
      unfolding sh using Suc.prems(1) by (auto simp del: of_nat_Suc)
    show "\<forall>i<n. \<forall>j<n. dst + 8 + 8 * of_nat i \<noteq> src + 8 + 8 * of_nat j"
      unfolding sh using Suc.prems(2) by (auto simp del: of_nat_Suc)
    show "n \<le> 512" using Suc.prems(3) by simp
  qed
  then obtain pm' where r: "copy_words ?pm (dst + 8) (src + 8) n = Ok pm'"
    "\<forall>j < n. pm' (dst + 8 * of_nat (Suc j)) = ?pm (src + 8 * of_nat (Suc j))"
    "\<forall>a. (\<forall>j < n. a \<noteq> dst + 8 * of_nat (Suc j)) \<longrightarrow> pm' a = ?pm a" unfolding sh by blast
  have "pm' (dst + 8 * of_nat j) = pm (src + 8 * of_nat j)" if j: "j < Suc n" for j
  proof (cases j)
    case 0
    then show ?thesis using r(3) d0 w by simp
  next
    case (Suc m)
    then show ?thesis using r(2) ne[of m] j by (simp del: of_nat_Suc)
  qed
  moreover have "pm' a = pm a" if a: "\<forall>j < Suc n. a \<noteq> dst + 8 * of_nat j" for a
  proof -
    have "a \<noteq> dst" using a[rule_format, of 0] by simp
    moreover have "\<forall>j < n. a \<noteq> dst + 8 * of_nat (Suc j)" using a by blast
    ultimately show ?thesis using r(3) by simp
  qed
  moreover have "copy_words pm dst src (Suc n) = Ok pm'" using 0 w r(1) by simp
  ultimately show ?case by blast
qed simp

lemma entry_of_nat: "entry t (of_nat j) = t + 8 * of_nat j"
  by (simp add: entry_def)

lemma word_512: "i < 512 \<Longrightarrow> \<exists>j < 512. i = (of_nat j :: u64)"
  by (intro exI[of _ "unat i"]) (simp add: word_less_nat_alt)

lemma copy_table:
  assumes "page_at pm t" and p: "p AND 0xfff = 0" "p \<noteq> NULL" "p \<noteq> t"
  shows "\<exists>pm'. copy_words pm p t 512 = Ok pm' \<and> (\<forall>j < 512. pm' (entry p j) = pm (entry t j))
     \<and> (\<forall>u. u AND 0xfff = 0 \<longrightarrow> u \<noteq> p \<longrightarrow> agree pm pm' {u})"
proof -
  have t: "t AND 0xfff = 0" using assms(1) by (simp add: page_at_def)
  have w: "(of_nat j :: u64) < 512" if "j < 512" for j using that by (simp add: word_less_nat_alt unat_of_nat)
  have pn: "entry p i \<noteq> NULL" if "i < 512" for i
    using unat_entry[OF p(1) that] p(2) by (metis add_is_0 unat_0 unat_eq_0)
  have "\<forall>j < 512. pm (t + 8 * of_nat j) \<noteq> None \<and> t + 8 * of_nat j \<noteq> NULL \<and> p + 8 * of_nat j \<noteq> NULL"
    using assms(1) w pn entry_not_NULL[OF assms(1)] by (simp add: page_at_def entry_of_nat[symmetric])
  moreover have "\<forall>i < 512. \<forall>j < 512. p + 8 * of_nat i \<noteq> t + 8 * of_nat j"
    unfolding entry_of_nat[symmetric] using entry_inj[OF p(1) w t w] p(3) by blast
  ultimately obtain pm' where r: "copy_words pm p t 512 = Ok pm'" "\<forall>j < 512. pm' (entry p (of_nat j)) = pm (entry t (of_nat j))"
    "\<forall>a. (\<forall>j < 512. a \<noteq> entry p (of_nat j)) \<longrightarrow> pm' a = pm a"
    using copy_words_copies[of 512 pm t p] unfolding entry_of_nat by blast
  have "agree pm pm' {u}" if u: "u AND 0xfff = 0" "u \<noteq> p" for u
    using r(3) entry_inj[OF u(1) _ p(1) w] u(2) by (simp add: agree_def)
  then show ?thesis using r(1,2) word_512 by (intro exI[of _ pm']) blast
qed

lemma kernel_top_shares:
  fixes readcr3 hhdm :: u64
  defines "root \<equiv> readcr3 + hhdm"
  assumes pg: "page_at (pmem s) root" and J: "pmem s (entry root J) = Some 0" "0x100 \<le> J" "J < 512"
    and fr: "pages_fresh hhdm {root} (zpages s)" and n: "257 \<le> length (zpages s)"
  shows "\<exists>s' top c k. kernel_top_pgt_init hhdm readcr3 s = Ok (top, s') \<and> k \<le> 257 \<and> zpages s' = drop k (zpages s)
     \<and> pt_lock s' = pt_lock s \<and> {top, c} \<subseteq> set (take k (zpages s)) \<and> top \<noteq> c
     \<and> child (pmem s') hhdm root J = Some c \<and> zeroed (pmem s') c
     \<and> page_at (pmem s') root \<and> (\<forall>j < 512. pmem s' (entry top j) = pmem s' (entry root j))"
proof -
  obtain s1 k where r: "top_pgt_loop hhdm root 0x100 0x100 s = Ok s1" "k \<le> 256" "zpages s1 = drop k (zpages s)" "pt_lock s1 = pt_lock s"
    "page_at (pmem s1) root"
    "\<forall>j < 512. 0x100 \<le> j \<and> unat j < unat (0x100 :: u64) + 0x100 \<and> pmem s (entry root j) = Some 0 \<longrightarrow>
          (\<exists>p \<in> set (take k (zpages s)). child (pmem s1) hhdm root j = Some p \<and> zeroed (pmem s1) p)"
    using top_pgt_loop_fills[OF pg fr, of 256 256] n by auto
  have "unat J < unat (0x100 :: u64) + 0x100" using J(3) by (simp add: word_less_nat_alt)
  then obtain c where c: "c \<in> set (take k (zpages s))" "child (pmem s1) hhdm root J = Some c" "zeroed (pmem s1) c"
    using r(6) J by blast
  have kl: "k < length (zpages s)" using r(2) n by simp
  define top where "top = zpages s ! k"
  have z: "zpages s1 = top # drop (Suc k) (zpages s)" using r(3) kl by (simp add: top_def Cons_nth_drop_Suc)
  have tk: "take (Suc k) (zpages s) = take k (zpages s) @ [top]" using kl by (simp add: top_def take_Suc_conv_app_nth)
  have d: "distinct (take (Suc k) (zpages s))" using fr by (simp add: pages_fresh_def)
  have tc: "top \<noteq> c" using d c(1) tk by auto
  have al: "u AND 0xfff = 0 \<and> u \<noteq> NULL \<and> u \<noteq> root" if "u \<in> set (take (Suc k) (zpages s))" for u
    using fr in_set_takeD[OF that] by (auto simp: pages_fresh_def)
  have top: "top AND 0xfff = 0" "top \<noteq> NULL" "top \<noteq> root" using al[of top] tk by auto
  have ca: "c AND 0xfff = 0" "root AND 0xfff = 0" using al[of c] c(1) tk pg by (auto simp: page_at_def)
  obtain pm where pm: "copy_words (pmem s1) top root 512 = Ok pm" "\<forall>j < 512. pm (entry top j) = pmem s1 (entry root j)"
    "\<forall>u. u AND 0xfff = 0 \<longrightarrow> u \<noteq> top \<longrightarrow> agree (pmem s1) pm {u}"
    using copy_table[OF r(5) top] by blast
  have ag: "agree (pmem s1) pm {root}" "agree (pmem s1) pm {c}" using pm(3) ca top(3) tc by auto
  have "kernel_top_pgt_init hhdm readcr3 s = Ok (top, s1\<lparr>pmem := pm, zpages := drop (Suc k) (zpages s)\<rparr>)"
    using r(1) z pm(1) by (simp add: kernel_top_pgt_init_def Let_def root_def[symmetric])
  moreover have "child pm hhdm root J = Some c" using agree_child[OF ag(1), of root J] c(2) J(3) by simp
  moreover have "zeroed pm c" by (rule zeroed_agree[OF c(3) ag(2)])
  moreover have "page_at pm root" using agree_page_at[OF ag(1), of root] r(5) by simp
  moreover have "\<forall>j < 512. pm (entry top j) = pm (entry root j)" using pm(2) ag(1) by (simp add: agree_def)
  ultimately show ?thesis using r(2,4) tk c(1) tc
    by (intro exI[of _ "s1\<lparr>pmem := pm, zpages := drop (Suc k) (zpages s)\<rparr>"] exI[of _ top] exI[of _ c] exI[of _ "Suc k"]) auto
qed

section \<open>Mapping below a shared entry\<close>

text \<open>\<open>under\<close>: the top-level tables \<open>R\<close> share the tree of tables at \<open>c\<close> through entry \<open>J\<close>.\<close>

definition under :: "(addr \<rightharpoonup> u64) \<Rightarrow> u64 \<Rightarrow> addr set \<Rightarrow> u64 \<Rightarrow> addr \<Rightarrow> bool" where
  "under pm hhdm R J c \<longleftrightarrow> ptree pm hhdm 2 c \<and> R \<inter> tables pm hhdm 2 c = {}
     \<and> (\<forall>t \<in> R. t AND 0xfff = 0 \<and> t \<noteq> NULL \<and> child pm hhdm t J = Some c)"

lemma three: "(3 :: nat) = Suc 2" by simp

lemma under_agree:
  assumes "under pm hhdm R J c" and "J < 512" and "agree pm pm' (R \<union> tables pm hhdm 2 c)"
  shows "under pm' hhdm R J c" and "tables pm' hhdm 2 c = tables pm hhdm 2 c"
    and "translate pm' hhdm w 2 c = translate pm hhdm w 2 c"
proof -
  have ag: "agree pm pm' R" "agree pm pm' (tables pm hhdm 2 c)" using assms(3) by (auto simp: agree_def)
  show "tables pm' hhdm 2 c = tables pm hhdm 2 c" by (rule agree_tables[OF ag(2)])
  then show "under pm' hhdm R J c"
    using assms(1) agree_ptree[OF ag(2)] agree_child[OF ag(1) _ assms(2)] by (simp add: under_def)
  show "translate pm' hhdm w 2 c = translate pm hhdm w 2 c" by (rule agree_translate[OF ag(2)])
qed

lemma translate_under:
  assumes "under pm hhdm R J c" and "t \<in> R" and "get_index 3 w = J"
  shows "translate pm hhdm w 3 t = translate pm hhdm w 2 c"
  using assms unfolding three by (simp add: under_def del: Suc_numeral)

lemma map_page_below:
  assumes u: "under (pmem s) hhdm R J c" and t: "t \<in> R" and J: "get_index 3 virt = J"
    and fr: "pages_fresh hhdm (R \<union> tables (pmem s) hhdm 2 c) (zpages s)"
    and n: "2 \<le> length (zpages s)" and lk: "pt_lock s = 0" and fl: "flags AND NOT PG_FLAGMASK = 0"
  shows "\<exists>s' k. map_page hhdm t phys virt flags s = Ok s' \<and> under (pmem s') hhdm R J c
     \<and> pages_fresh hhdm (R \<union> tables (pmem s') hhdm 2 c) (zpages s') \<and> pt_lock s' = 0
     \<and> k \<le> 2 \<and> zpages s' = drop k (zpages s)
     \<and> (\<forall>w. translate (pmem s') hhdm w 2 c =
          (if same_path 2 virt w then phys OR flags OR PG_PRESENT else translate (pmem s) hhdm w 2 c))"
proof -
  let ?s = "s\<lparr>pt_lock := 1\<rparr>"
  have pt: "ptree (pmem s) hhdm 2 c" using u by (simp add: under_def)
  have J5: "J < 512" using J get_index_less[of 3 virt] by simp
  obtain e where e: "pmem s (entry t J) = Some e" "is_present e" "(e AND PG_ADDR) + hhdm = c"
  proof -
    have "child (pmem s) hhdm t J = Some c" using u t by (simp add: under_def)
    then show ?thesis using that by (auto simp: child_def split: option.splits if_splits)
  qed
  have "unat (entry t J) \<noteq> 0" using unat_entry[of t J] u t J5 by (auto simp: under_def unat_eq_0)
  then have "entry t J \<noteq> NULL" by auto
  then have f: "fetch (pmem s) (entry t J) = Ok e" using e(1) by simp
  have fc: "pages_fresh hhdm (tables (pmem s) hhdm 2 c) (zpages s)" by (rule pages_fresh_mono[OF fr]) simp
  obtain s1 a k where r: "map_loop hhdm virt 2 (entry c (get_index 2 virt)) ?s = Ok (a, s1)"
    "ptree (pmem s1) hhdm 2 c" "leaf_of (pmem s1) hhdm virt 2 c = Some a"
    "\<forall>w. translate (pmem s1) hhdm w 2 c = translate (pmem s) hhdm w 2 c"
    "k \<le> 2" "zpages s1 = drop k (zpages s)"
    "tables (pmem s1) hhdm 2 c \<subseteq> tables (pmem s) hhdm 2 c \<union> set (take k (zpages s))"
    "apart (pmem s) (pmem s1) (tables (pmem s) hhdm 2 c \<union> set (take k (zpages s)))"
    using map_loop_tree[of ?s hhdm 2 c virt] pt fc n by auto
  define pm' where "pm' = (pmem s1)(a \<mapsto> phys OR flags OR PG_PRESENT)"
  note lu = leaf_update[OF pm'_def r(2,3)]
  have "fetch (pmem s1) a \<noteq> Fault e" for e using leaf_mapped[OF r(2,3)] by (auto simp: fetch_def)
  then obtain x where x: "fetch (pmem s1) a = Ok x" by (cases "fetch (pmem s1) a") auto
  have "map_loop hhdm virt 3 (entry t (get_index 3 virt)) ?s = Ok (a, s1)"
    using f e(2,3) r(1) J unfolding three by (simp del: Suc_numeral)
  then have run: "map_page hhdm t phys virt flags s = Ok (s1\<lparr>pmem := pm', pt_lock := 0\<rparr>)"
    using x lk fl by (simp add: map_page_def Let_def pm'_def)
  have tk: "set (take k (zpages s)) \<inter> R = {}" using pages_fresh_take[OF fr, of k] by blast
  have Ral: "u AND 0xfff = 0" if "u \<in> R" for u using u that by (simp add: under_def)
  have R0: "R \<inter> tables (pmem s) hhdm 2 c = {}" using u by (simp add: under_def)
  have ag1: "agree (pmem s) (pmem s1) R" by (rule apart_agree[OF r(8)]) (use Ral R0 tk in auto)
  have R1: "R \<inter> tables (pmem s1) hhdm 2 c = {}" using r(7) R0 tk by blast
  obtain l where l: "l \<in> tables (pmem s1) hhdm 2 c" "a = entry l (get_index 0 virt)" using lu by blast
  have "l AND 0xfff = 0" using ptree_pages[OF r(2) l(1)] by (simp add: page_at_def)
  then have "apart (pmem s1) pm' {l}" unfolding pm'_def by (intro apart_upd[OF l(2)]) simp_all
  then have ag2: "agree (pmem s1) pm' R" by (rule apart_agree) (use Ral R1 l(1) in auto)
  have ag: "agree (pmem s) pm' R" by (rule agree_trans[OF ag1 ag2])
  have ch: "child pm' hhdm v J = child (pmem s) hhdm v J" if "v \<in> R" for v using agree_child[OF ag that J5] .
  have un: "under pm' hhdm R J c" using u lu R1 ch by (simp add: under_def)
  have "pages_fresh hhdm (R \<union> tables pm' hhdm 2 c) (drop k (zpages s))"
    by (rule pages_fresh_drop[OF fr]) (use lu r(7) in auto)
  then show ?thesis using run un lu r(4,5,6)
    by (intro exI[of _ "s1\<lparr>pmem := pm', pt_lock := 0\<rparr>"] exI[of _ k]) simp
qed

text \<open>One zeroed page of structs and its mapping, as a step of the loop.\<close>

lemma map_struct_step:
  assumes u: "under (pmem s) hhdm R J c" and t: "t \<in> R" and J: "get_index 3 (struct_addr a) = J"
    and fr: "pages_fresh hhdm (R \<union> tables (pmem s) hhdm 2 c) (zpages s)"
    and n: "3 \<le> length (zpages s)" and lk: "pt_lock s = 0"
  shows "\<exists>p s0 s' k. alloc_zpage s = Ok (p, s0) \<and> map_page hhdm t (p - hhdm) (struct_addr a) (PG_NX OR PG_WRITE) s0 = Ok s'
     \<and> under (pmem s') hhdm R J c \<and> pages_fresh hhdm (R \<union> tables (pmem s') hhdm 2 c) (zpages s') \<and> pt_lock s' = 0
     \<and> k \<le> 3 \<and> zpages s' = drop k (zpages s)
     \<and> (\<forall>w. is_present (translate (pmem s') hhdm w 2 c) \<longleftrightarrow>
          is_present (translate (pmem s) hhdm w 2 c) \<or> same_path 2 (struct_addr a) w)"
proof -
  obtain p ps where z: "zpages s = p # ps" using n by (cases "zpages s") auto
  let ?s = "s\<lparr>zpages := ps, pmem := zero_page (pmem s) p\<rparr>"
  let ?R = "R \<union> tables (pmem s) hhdm 2 c"
  have pf: "p AND 0xfff = 0" "p \<notin> ?R" "pages_fresh hhdm ?R ps" using fr z by (auto simp: pages_fresh_def)
  have al: "\<forall>v \<in> ?R. v AND 0xfff = 0"
    using u ptree_pages[of "pmem s" hhdm 2 c] by (auto simp: under_def page_at_def)
  note ag = zero_page_agree[OF pf(1,2) al, of "pmem s"]
  have J5: "J < 512" using J get_index_less[of 3 "struct_addr a"] by simp
  note ua = under_agree[OF u J5 ag]
  have fl: "(PG_NX OR PG_WRITE) AND NOT PG_FLAGMASK = 0"
    by (simp add: PG_NX_def PG_WRITE_def PG_FLAGMASK_def PG_PRESENT_def PG_USER_def PG_PS_def)
  obtain s' k where r: "map_page hhdm t (p - hhdm) (struct_addr a) (PG_NX OR PG_WRITE) ?s = Ok s'" "under (pmem s') hhdm R J c"
     "pages_fresh hhdm (R \<union> tables (pmem s') hhdm 2 c) (zpages s')" "pt_lock s' = 0" "k \<le> 2" "zpages s' = drop k ps"
     "\<forall>w. translate (pmem s') hhdm w 2 c = (if same_path 2 (struct_addr a) w then (p - hhdm) OR (PG_NX OR PG_WRITE) OR PG_PRESENT
        else translate (pmem s) hhdm w 2 c)"
    using map_page_below[where s = ?s and c = c and phys = "p - hhdm" and hhdm = hhdm, OF _ t J _ _ _ fl] ua pf(3) n lk z by auto
  have "is_present ((p - hhdm) OR (PG_NX OR PG_WRITE) OR PG_PRESENT)"
    using present_or[of "(p - hhdm) OR (PG_NX OR PG_WRITE)"] by (simp add: or.assoc)
  then show ?thesis using r z
    by (intro exI[of _ p] exI[of _ ?s] exI[of _ s'] exI[of _ "Suc k"]) (auto simp: alloc_zpage_def)
qed

section \<open>The array of page structs\<close>

lemma unat_pg: "n < 2 ^ 31 \<Longrightarrow> unat (pg n) = 0xffffc00000000000 + 64 * n"
  by (simp add: pg_def pfn_to_page_def sparsemap_array_def unat_word_ariths unat_of_nat)

lemma unat_get_index: "unat (get_index k a) = unat a div 4096 div 2 ^ (9 * k) mod 512"
proof -
  have "get_index k a = take_bit 9 (drop_bit (12 + 9 * k) a)"
    by (simp add: get_index_def take_bit_eq_mask mask_eq_exp_minus_1)
  then show ?thesis
    by (simp only: unsigned_take_bit_eq unat_drop_bit_eq) (simp add: take_bit_eq_mod drop_bit_eq_div power_add div_mult2_eq)
qed

lemma get_index_page: "get_index k (x AND NOT 0xfff) = get_index k x"
proof -
  have m: "(0xfff :: u64) = mask 12" by (simp add: mask_eq_exp_minus_1)
  have "drop_bit (12 + 9 * k) (x AND NOT (mask 12)) = drop_bit (12 + 9 * k) x"
    by (rule bit_word_eqI) (auto simp: bit_simps dest: bit_imp_le_length)
  then show ?thesis by (simp add: get_index_def m)
qed

lemma struct_addr_pg: "unat a div 4096 = n \<Longrightarrow> struct_addr a = pg n AND NOT 0xfff"
proof -
  assume "unat a div 4096 = n"
  moreover have "unat (drop_bit 12 a) = unat a div 4096" unfolding unat_drop_bit_eq by (simp add: drop_bit_eq_div)
  moreover have "of_nat (unat (drop_bit 12 a)) = drop_bit 12 a" by (simp add: ucast_id)
  ultimately have "drop_bit 12 a = of_nat n" by metis
  then show ?thesis by (simp add: struct_addr_def pg_def)
qed

lemma struct_index:
  assumes "unat a < 2 ^ 43"
  shows "get_index 3 (struct_addr a) = 0x180"
proof -
  let ?n = "unat a div 4096"
  have n: "?n < 2 ^ 31" using assms by simp
  have "unat (get_index 3 (pg ?n)) = (0xffffc00000000000 + 64 * ?n) div 4096 div 2 ^ 27 mod 512"
    unfolding unat_get_index unat_pg[OF n] by simp
  also have "\<dots> = 0x180"
  proof -
    have "(0xffffc00000000000 + 64 * ?n) div 4096 = 0xffffc00000000 + ?n div 64" by simp
    moreover have "(0xffffc00000000 + ?n div 64) div 2 ^ 27 = 0x1ffff80" using n by simp
    ultimately show ?thesis by simp
  qed
  finally have "get_index 3 (pg ?n) = 0x180" by (simp add: word_unat_eq_iff)
  then show ?thesis using get_index_page[of 3 "pg ?n"] struct_addr_pg[OF refl, of a] by simp
qed

lemma struct_path:
  assumes "unat a div 4096 = m" and "m < 2 ^ 31" and "n < 2 ^ 31" and "m div 64 = n div 64"
  shows "same_path 2 (struct_addr a) (pg n)" and "get_index 3 (pg n) = 0x180"
proof -
  have "get_index k (pg m) = get_index k (pg n)" for k
  proof -
    have "unat (pg m) div 4096 = unat (pg n) div 4096"
    proof -
      have "(0xffffc00000000000 + 64 * x) div 4096 = 0xffffc00000000 + x div 64" for x :: nat by simp
      then show ?thesis using unat_pg[OF assms(2)] unat_pg[OF assms(3)] assms(4) by metis
    qed
    then show ?thesis by (simp add: word_unat_eq_iff unat_get_index)
  qed
  note e = this
  then show "same_path 2 (struct_addr a) (pg n)"
    unfolding same_path_def struct_addr_pg[OF assms(1)] get_index_page by simp
  have "unat a < 2 ^ 43" using assms(1,2) by simp
  from struct_index[OF this] show "get_index 3 (pg n) = 0x180"
    unfolding struct_addr_pg[OF assms(1)] get_index_page e .
qed

lemma map_region_below:
  assumes "under (pmem s) hhdm R 0x180 c" and "t \<in> R"
    and "pages_fresh hhdm (R \<union> tables (pmem s) hhdm 2 c) (zpages s)" and "3 * n \<le> length (zpages s)" and "pt_lock s = 0"
    and "n \<le> fuel" and "unat (r_base r + r_size r) \<le> unat a + n * 0x40000" and "unat (r_base r + r_size r) \<le> 2 ^ 43"
  shows "\<exists>s' k. map_region_struct fuel hhdm t r a s = Ok s' \<and> under (pmem s') hhdm R 0x180 c
     \<and> pages_fresh hhdm (R \<union> tables (pmem s') hhdm 2 c) (zpages s') \<and> pt_lock s' = 0
     \<and> k \<le> 3 * n \<and> zpages s' = drop k (zpages s)
     \<and> (\<forall>w. is_present (translate (pmem s) hhdm w 2 c) \<longrightarrow> is_present (translate (pmem s') hhdm w 2 c))
     \<and> (\<forall>j w. unat a + j * 0x40000 < unat (r_base r + r_size r) \<longrightarrow> same_path 2 (struct_addr (a + of_nat (j * 0x40000))) w \<longrightarrow>
          is_present (translate (pmem s') hhdm w 2 c))"
  using assms
proof (induction n arbitrary: fuel a s)
  case 0
  then show ?case by (intro exI[of _ s] exI[of _ 0]) (simp add: word_less_nat_alt)
next
  case (Suc n)
  let ?E = "r_base r + r_size r"
  show ?case
  proof (cases "a < ?E")
    case False
    then show ?thesis using Suc.prems
      by (intro exI[of _ s] exI[of _ 0]) (auto simp: word_less_nat_alt)
  next
    case True
    obtain fuel' where f: "fuel = Suc fuel'" "n \<le> fuel'" using Suc.prems(6) by (cases fuel) auto
    have a: "unat a < 2 ^ 43" using True Suc.prems(8) by (simp add: word_less_nat_alt)
    have a1: "unat (a + 0x40000) = unat a + 0x40000" using a by (simp add: unat_word_ariths)
    obtain p s0 s1 k where r: "alloc_zpage s = Ok (p, s0)"
      "map_page hhdm t (p - hhdm) (struct_addr a) (PG_NX OR PG_WRITE) s0 = Ok s1" "under (pmem s1) hhdm R 0x180 c"
      "pages_fresh hhdm (R \<union> tables (pmem s1) hhdm 2 c) (zpages s1)" "pt_lock s1 = 0" "k \<le> 3" "zpages s1 = drop k (zpages s)"
      "\<forall>w. is_present (translate (pmem s1) hhdm w 2 c) \<longleftrightarrow> is_present (translate (pmem s) hhdm w 2 c) \<or> same_path 2 (struct_addr a) w"
      using map_struct_step[OF Suc.prems(1,2) struct_index[OF a] Suc.prems(3) _ Suc.prems(5)] Suc.prems(4) by auto
    have "3 * n \<le> length (zpages s1)" "unat ?E \<le> unat (a + 0x40000) + n * 0x40000" using Suc.prems(4,7) r(6,7) a1 by auto
    from Suc.IH[OF r(3) Suc.prems(2) r(4) this(1) r(5) f(2) this(2) Suc.prems(8)]
    obtain s' k' where q: "map_region_struct fuel' hhdm t r (a + 0x40000) s1 = Ok s'" "under (pmem s') hhdm R 0x180 c"
      "pages_fresh hhdm (R \<union> tables (pmem s') hhdm 2 c) (zpages s')" "pt_lock s' = 0" "k' \<le> 3 * n" "zpages s' = drop k' (zpages s1)"
      "\<forall>w. is_present (translate (pmem s1) hhdm w 2 c) \<longrightarrow> is_present (translate (pmem s') hhdm w 2 c)"
      "\<forall>j w. unat (a + 0x40000) + j * 0x40000 < unat ?E \<longrightarrow>
          same_path 2 (struct_addr (a + 0x40000 + of_nat (j * 0x40000))) w \<longrightarrow> is_present (translate (pmem s') hhdm w 2 c)"
      by blast
    have run: "map_region_struct fuel hhdm t r a s = Ok s'"
      using f(1) True r(1,2) q(1) by (simp add: STRUCTS_PER_PAGE_def struct_addr_def Let_def)
    have new: "is_present (translate (pmem s') hhdm w 2 c)"
      if j: "unat a + j * 0x40000 < unat ?E" "same_path 2 (struct_addr (a + of_nat (j * 0x40000))) w" for j w
    proof (cases j)
      case 0
      then show ?thesis using j r(8) q(7) by simp
    next
      case (Suc i)
      have "a + of_nat (j * 0x40000) = a + 0x40000 + of_nat (i * 0x40000)" using Suc by simp
      then show ?thesis using q(8)[rule_format, of i w] j a1 Suc by (simp add: add.assoc)
    qed
    show ?thesis
      by (rule exI[of _ s'], rule exI[of _ "k' + k"]) (use run q(2-7) r(6-8) new in simp)
  qed
qed

definition region_chunks :: "region \<Rightarrow> nat" where
  "region_chunks r = (unat (r_size r) + 0x3ffff) div 0x40000"

lemma sparse_init_below:
  assumes "under (pmem s) hhdm R 0x180 c" and "t \<in> R"
    and "pages_fresh hhdm (R \<union> tables (pmem s) hhdm 2 c) (zpages s)" and "3 * (\<Sum>r \<leftarrow> rs. region_chunks r) \<le> length (zpages s)"
    and "pt_lock s = 0" and "\<forall>r \<in> set rs. region_chunks r \<le> fuel \<and> unat (r_base r) + unat (r_size r) \<le> 2 ^ 43"
  shows "\<exists>s' k. sparse_init fuel hhdm t rs s = Ok s' \<and> under (pmem s') hhdm R 0x180 c
     \<and> k \<le> 3 * (\<Sum>r \<leftarrow> rs. region_chunks r) \<and> zpages s' = drop k (zpages s)
     \<and> (\<forall>w. is_present (translate (pmem s) hhdm w 2 c) \<longrightarrow> is_present (translate (pmem s') hhdm w 2 c))
     \<and> (\<forall>r \<in> set rs. \<forall>j w. j * 0x40000 < unat (r_size r) \<longrightarrow> same_path 2 (struct_addr (r_base r + of_nat (j * 0x40000))) w \<longrightarrow>
          is_present (translate (pmem s') hhdm w 2 c))"
  using assms
proof (induction rs arbitrary: s)
  case Nil
  then show ?case by (intro exI[of _ s] exI[of _ 0]) simp
next
  case (Cons r rs)
  have E: "unat (r_base r + r_size r) = unat (r_base r) + unat (r_size r)" "unat (r_base r + r_size r) \<le> 2 ^ 43"
    using Cons.prems(6) by (auto simp: unat_word_ariths)
  have n: "3 * region_chunks r \<le> length (zpages s)" "region_chunks r \<le> fuel" using Cons.prems(4,6) by auto
  have e: "unat (r_base r + r_size r) \<le> unat (r_base r) + region_chunks r * 0x40000"
    using E(1) by (simp add: region_chunks_def)
  obtain s1 k where r: "map_region_struct fuel hhdm t r (r_base r) s = Ok s1" "under (pmem s1) hhdm R 0x180 c"
     "pages_fresh hhdm (R \<union> tables (pmem s1) hhdm 2 c) (zpages s1)" "pt_lock s1 = 0"
     "k \<le> 3 * region_chunks r" "zpages s1 = drop k (zpages s)"
     "\<forall>w. is_present (translate (pmem s) hhdm w 2 c) \<longrightarrow> is_present (translate (pmem s1) hhdm w 2 c)"
     "\<forall>j w. unat (r_base r) + j * 0x40000 < unat (r_base r + r_size r) \<longrightarrow>
        same_path 2 (struct_addr (r_base r + of_nat (j * 0x40000))) w \<longrightarrow> is_present (translate (pmem s1) hhdm w 2 c)"
    using map_region_below[OF Cons.prems(1-3) n(1) Cons.prems(5) n(2) e E(2)] by blast
  have "3 * (\<Sum>r \<leftarrow> rs. region_chunks r) \<le> length (zpages s1)" using Cons.prems(4) r(5,6) by simp
  from Cons.IH[OF r(2) Cons.prems(2) r(3) this r(4)]
  obtain s' k' where q: "sparse_init fuel hhdm t rs s1 = Ok s'" "under (pmem s') hhdm R 0x180 c"
     "k' \<le> 3 * (\<Sum>r \<leftarrow> rs. region_chunks r)" "zpages s' = drop k' (zpages s1)"
     "\<forall>w. is_present (translate (pmem s1) hhdm w 2 c) \<longrightarrow> is_present (translate (pmem s') hhdm w 2 c)"
     "\<forall>r \<in> set rs. \<forall>j w. j * 0x40000 < unat (r_size r) \<longrightarrow> same_path 2 (struct_addr (r_base r + of_nat (j * 0x40000))) w \<longrightarrow>
          is_present (translate (pmem s') hhdm w 2 c)"
    using Cons.prems(6) by auto
  have "zpages s' = drop (k' + k) (zpages s)" using q(4) r(6) by simp
  moreover have "k' + k \<le> 3 * (\<Sum>r \<leftarrow> r # rs. region_chunks r)" using q(3) r(5) by simp
  moreover have "sparse_init fuel hhdm t (r # rs) s = Ok s'" using r(1) q(1) by simp
  ultimately show ?case using q(2,5,6) r(7,8) E(1)
    by (intro exI[of _ s'] exI[of _ "k' + k"]) auto
qed

text \<open>Both functions: the structs are mapped through the boot loader's table and through the copy.\<close>

definition struct_covered :: "region \<Rightarrow> nat \<Rightarrow> bool" where
  "struct_covered r n \<longleftrightarrow>
     (\<exists>j. j * 0x40000 < unat (r_size r) \<and> (unat (r_base r) + j * 0x40000) div 0x1000 div 64 = n div 64)"

lemma boot_tables:
  fixes readcr3 hhdm :: u64
  defines "root \<equiv> readcr3 + hhdm"
  assumes pg: "page_at (pmem s) root" and J: "pmem s (entry root 0x180) = Some 0" and fr: "pages_fresh hhdm {root} (zpages s)"
    and n: "257 + 3 * (\<Sum>r \<leftarrow> rs. region_chunks r) \<le> length (zpages s)" and lk: "pt_lock s = 0"
    and rs: "\<forall>r \<in> set rs. region_chunks r \<le> fuel \<and> unat (r_base r) + unat (r_size r) \<le> 2 ^ 43"
  shows "\<exists>top s1 s' k. kernel_top_pgt_init hhdm readcr3 s = Ok (top, s1) \<and> sparse_init fuel hhdm top rs s1 = Ok s'
     \<and> k \<le> 257 + 3 * (\<Sum>r \<leftarrow> rs. region_chunks r) \<and> zpages s' = drop k (zpages s)
     \<and> (\<forall>r \<in> set rs. \<forall>n < 2 ^ 31. struct_covered r n \<longrightarrow>
          is_present (translate (pmem s') hhdm (pg n) 3 root) \<and> is_present (translate (pmem s') hhdm (pg n) 3 top))"
proof -
  have n1: "257 \<le> length (zpages s)" using n by simp
  obtain s1 top c k where r: "kernel_top_pgt_init hhdm readcr3 s = Ok (top, s1)" "k \<le> 257" "zpages s1 = drop k (zpages s)"
     "pt_lock s1 = pt_lock s" "{top, c} \<subseteq> set (take k (zpages s))" "top \<noteq> c" "child (pmem s1) hhdm root 0x180 = Some c"
     "zeroed (pmem s1) c" "page_at (pmem s1) root" "\<forall>j < 512. pmem s1 (entry top j) = pmem s1 (entry root j)"
    using kernel_top_shares[OF pg[unfolded root_def] J[unfolded root_def] _ _ fr[unfolded root_def] n1] unfolding root_def by auto
  let ?R = "{root, top}"
  have al: "u AND 0xfff = 0 \<and> u \<noteq> NULL \<and> u \<noteq> root" if "u \<in> set (take k (zpages s))" for u
    using fr in_set_takeD[OF that] by (auto simp: pages_fresh_def)
  have tc: "top AND 0xfff = 0" "top \<noteq> NULL" "c AND 0xfff = 0" "c \<noteq> NULL" "c \<noteq> root" using al r(5) by auto
  note z = zeroed_tree[OF tc(3,4) r(8)[unfolded zeroed_def], of hhdm]
  have ct: "child (pmem s1) hhdm top 0x180 = Some c" using r(7,10) by (simp add: child_def)
  have u: "under (pmem s1) hhdm ?R 0x180 c"
    using z(1,2)[of 2] tc r(6,7,9) ct by (auto simp: under_def page_at_def)
  have "?R \<union> tables (pmem s1) hhdm 2 c \<subseteq> {root} \<union> set (take k (zpages s))" using z(2)[of 2] r(5) by auto
  then have f1: "pages_fresh hhdm (?R \<union> tables (pmem s1) hhdm 2 c) (zpages s1)"
    unfolding r(3) by (rule pages_fresh_drop[OF fr])
  have "3 * (\<Sum>r \<leftarrow> rs. region_chunks r) \<le> length (zpages s1)" using n r(2,3) by simp
  from sparse_init_below[OF u _ f1 this _ rs, of top]
  obtain s' k' where q: "sparse_init fuel hhdm top rs s1 = Ok s'" "under (pmem s') hhdm ?R 0x180 c"
     "k' \<le> 3 * (\<Sum>r \<leftarrow> rs. region_chunks r)" "zpages s' = drop k' (zpages s1)"
     "\<forall>r \<in> set rs. \<forall>j w. j * 0x40000 < unat (r_size r) \<longrightarrow> same_path 2 (struct_addr (r_base r + of_nat (j * 0x40000))) w \<longrightarrow>
          is_present (translate (pmem s') hhdm w 2 c)"
    using r(4) lk by auto
  have pr: "is_present (translate (pmem s') hhdm (pg m) 3 root) \<and> is_present (translate (pmem s') hhdm (pg m) 3 top)"
    if m: "r \<in> set rs" "m < 2 ^ 31" "struct_covered r m" for r m
  proof -
    obtain j where j: "j * 0x40000 < unat (r_size r)" "(unat (r_base r) + j * 0x40000) div 0x1000 div 64 = m div 64"
      using m(3) unfolding struct_covered_def by blast
    have b: "unat (r_base r) + j * 0x40000 < 2 ^ 43" using rs m(1) j(1) by fastforce
    then have a: "unat (r_base r + of_nat (j * 0x40000)) = unat (r_base r) + j * 0x40000"
      by (simp add: unat_word_ariths unat_of_nat del: of_nat_mult)
    have "unat (r_base r + of_nat (j * 0x40000)) div 4096 < 2 ^ 31" using a b by simp
    note p = struct_path[OF refl this m(2)]
    have e: "unat (r_base r + of_nat (j * 0x40000)) div 4096 div 64 = m div 64" using a j(2) by simp
    have "is_present (translate (pmem s') hhdm (pg m) 2 c)" using q(5) m(1) j(1) p(1)[OF e] by blast
    then show ?thesis using translate_under[OF q(2) _ p(2)[OF e]] by auto
  qed
  have zz: "zpages s' = drop (k' + k) (zpages s)" using q(4) r(3) by simp
  have kk: "k' + k \<le> 257 + 3 * (\<Sum>r \<leftarrow> rs. region_chunks r)" using q(3) r(2) by simp
  show ?thesis using r(1) q(1) zz kk pr by blast
qed

end
