(* ===== verification/Mempool.thy ===== *)
theory Mempool
  imports Buddy
begin

section \<open>mm/mempool.c: chunks carved out of page blocks\<close>

text \<open>
  The pool allocator on top of the page allocator. A free chunk is a \<open>list_head\<close> at the chunk's address
  (\<open>mp_chunks\<close>); what a client stores in a chunk in use is not part of this state, and no operation
  here reads it. The owner fields of \<open>struct page\<close> share their words with the page allocator's list
  node: \<open>mempool\<close> is \<open>buddy_list.next\<close> and \<open>n_free\<close> the lower half of \<open>buddy_list.prev\<close>, so both are
  written into \<open>blist\<close> of the page allocator's state. \<open>mp_self\<close> is the address of the
  \<open>struct mempool\<close>.
\<close>

record mempool =
  mpl_freelist :: addr
  mpl_count :: u32
  mpl_size :: u32
  mpl_order :: nat
  mpl_lock :: u64

record mp_state =
  mp_pool :: mempool
  mp_self :: addr
  mp_chunks :: lheap
  mp_buddy :: buddy_state
  mp_hhdm :: u64

definition base_pfn :: "u64 \<Rightarrow> nat \<Rightarrow> u64" where
  "base_pfn pfn order = pfn AND NOT (push_bit order 1 - 1)"

definition base_page :: "addr \<Rightarrow> nat \<Rightarrow> addr" where
  "base_page page order = pfn_to_page (base_pfn (page_to_pfn page) order)"

definition set_owner :: "buddy_state \<Rightarrow> addr \<Rightarrow> addr \<Rightarrow> buddy_state result" where
  "set_owner s page p = bnd (set_next (blist s) page p) (\<lambda>bl. Ok (s\<lparr>blist := bl\<rparr>))"

definition get_n_free :: "buddy_state \<Rightarrow> addr \<Rightarrow> u32 result" where
  "get_n_free s page = bnd (fetch (blist s) page) (\<lambda>n. Ok (ucast (lh_prev n)))"

definition set_n_free :: "buddy_state \<Rightarrow> addr \<Rightarrow> u32 \<Rightarrow> buddy_state result" where
  "set_n_free s page v =
     bnd (fetch (blist s) page) (\<lambda>n.
     bnd (set_prev (blist s) page ((lh_prev n AND NOT 0xffffffff) OR ucast v)) (\<lambda>bl.
     Ok (s\<lparr>blist := bl\<rparr>)))"

definition mempool_init :: "mempool \<Rightarrow> u32 \<Rightarrow> nat \<Rightarrow> mempool result" where
  "mempool_init mp sz order =
     (if sz < 16 then Fault Halted
      else if sz > 4096 then Fault Halted
      else Ok (mp\<lparr>mpl_freelist := NULL, mpl_count := 0, mpl_size := sz, mpl_order := order\<rparr>))"

text \<open>\<open>(PAGE_SIZE << order) / size\<close>: an \<open>int\<close> shift, then an unsigned division.\<close>

definition chunks_per_block :: "mempool \<Rightarrow> u32 result" where
  "chunks_per_block mp =
     (if 19 \<le> mpl_order mp then Fault Overflow
      else if mpl_size mp = 0 then Fault Div_By_Zero
      else Ok (push_bit (mpl_order mp) 4096 div mpl_size mp))"

text \<open>The two loops of a refill: the owner of every page, and the list of chunks, whose pages are zeroed.\<close>

fun own_pages :: "nat \<Rightarrow> addr \<Rightarrow> addr \<Rightarrow> buddy_state \<Rightarrow> buddy_state result" where
  "own_pages 0 page p s = Ok s"
| "own_pages (Suc n) page p s = bnd (set_owner s page p) (\<lambda>s. own_pages n (page + 64) p s)"

fun carve :: "u32 \<Rightarrow> addr \<Rightarrow> nat \<Rightarrow> nat \<Rightarrow> lheap \<Rightarrow> addr \<Rightarrow> (lheap \<times> addr) result" where
  "carve sz new_page i 0 h head = Ok (h, head)"
| "carve sz new_page i (Suc n) h head =
     (let c = new_page + ucast (sz * of_nat i) in
      bnd (list_push_front (h(c \<mapsto> \<lparr>lh_next = NULL, lh_prev = NULL\<rparr>)) head c) (\<lambda>(h, head).
      carve sz new_page (i + 1) n h head))"

definition mempool_pop :: "mp_state \<Rightarrow> (addr \<times> mp_state) result" where
  "mempool_pop s =
     bnd (list_pop_front (mp_chunks s) (mpl_freelist (mp_pool s))) (\<lambda>(ret, hd).
     let page = hhdm_to_page (mp_hhdm s) ret;
         base = base_page page (mpl_order (mp_pool s)) in
     bnd (get_n_free (mp_buddy s) base) (\<lambda>n.
     bnd (set_n_free (mp_buddy s) base (n - 1)) (\<lambda>b.
     Ok (ret, s\<lparr>mp_pool := (mp_pool s)\<lparr>mpl_freelist := hd\<rparr>, mp_buddy := b\<rparr>))))"

text \<open>
  \<open>count\<close> is set when the pool is refilled and not changed by any allocation. The function calls itself
  after a refill; \<open>fuel\<close> bounds the calls, and two suffice unless a block holds no chunk.
\<close>

fun mempool_alloc_nolock :: "nat \<Rightarrow> mp_state \<Rightarrow> (addr \<times> mp_state) result" where
  "mempool_alloc_nolock 0 s = Fault Diverges"
| "mempool_alloc_nolock (Suc fuel) s =
     (if mpl_count (mp_pool s) > 0 then mempool_pop s else
      bnd (chunks_per_block (mp_pool s)) (\<lambda>count.
      bnd (alloc_pages (mp_hhdm s) (mp_buddy s) (mpl_order (mp_pool s)) BUDDY_ZERO) (\<lambda>(page, b).
      if page = NULL then Ok (NULL, s\<lparr>mp_buddy := b\<rparr>) else
      bnd (own_pages (2 ^ mpl_order (mp_pool s)) page (mp_self s) b) (\<lambda>b.
      bnd (carve (mpl_size (mp_pool s)) (page_to_virt (mp_hhdm s) page) 0 (unat count) (mp_chunks s) NULL) (\<lambda>(h, head).
      bnd (set_n_free b page count) (\<lambda>b.
      mempool_alloc_nolock fuel (s\<lparr>mp_pool := (mp_pool s)\<lparr>mpl_count := count, mpl_freelist := head\<rparr>,
                                   mp_chunks := h, mp_buddy := b\<rparr>)))))))"

definition mempool_alloc :: "nat \<Rightarrow> mp_state \<Rightarrow> (addr \<times> mp_state) result" where
  "mempool_alloc fuel s =
     bnd (lock_word (mpl_lock (mp_pool s))) (\<lambda>l.
     bnd (mempool_alloc_nolock fuel (s\<lparr>mp_pool := (mp_pool s)\<lparr>mpl_lock := l\<rparr>\<rparr>)) (\<lambda>(ret, s).
     Ok (ret, s\<lparr>mp_pool := (mp_pool s)\<lparr>mpl_lock := unlock_word (mpl_lock (mp_pool s))\<rparr>\<rparr>)))"

definition mempool_zalloc :: "nat \<Rightarrow> mp_state \<Rightarrow> (addr \<times> mp_state) result" where
  "mempool_zalloc fuel s =
     bnd (mempool_alloc fuel s) (\<lambda>(ret, s).
     bnd (memset (phys_mem (mp_buddy s)) ret 0 (ucast (mpl_size (mp_pool s)))) (\<lambda>(_, m).
     Ok (ret, s\<lparr>mp_buddy := (mp_buddy s)\<lparr>phys_mem := m\<rparr>\<rparr>)))"

text \<open>
  \<open>mempool_free\<close> gives the block back when its last chunk is freed; the chunks of the block stay on the
  pool's freelist.
\<close>

definition mempool_free_nolock :: "mp_state \<Rightarrow> addr \<Rightarrow> mp_state result" where
  "mempool_free_nolock s chunk =
     (let page = hhdm_to_page (mp_hhdm s) chunk;
          base = base_page page (mpl_order (mp_pool s)) in
      bnd (chunks_per_block (mp_pool s)) (\<lambda>max_count.
      bnd (list_push_front (mp_chunks s) (mpl_freelist (mp_pool s)) chunk) (\<lambda>(h, head).
      let s = s\<lparr>mp_chunks := h, mp_pool := (mp_pool s)\<lparr>mpl_freelist := head\<rparr>\<rparr> in
      bnd (get_n_free (mp_buddy s) base) (\<lambda>n.
      bnd (set_n_free (mp_buddy s) base (n + 1)) (\<lambda>b.
      if n + 1 = max_count
      then bnd (free_pages b base (mpl_order (mp_pool s))) (\<lambda>b. Ok (s\<lparr>mp_buddy := b\<rparr>))
      else Ok (s\<lparr>mp_buddy := b\<rparr>))))))"

definition mempool_free :: "mp_state \<Rightarrow> addr \<Rightarrow> mp_state result" where
  "mempool_free s chunk =
     bnd (lock_word (mpl_lock (mp_pool s))) (\<lambda>l.
     bnd (mempool_free_nolock (s\<lparr>mp_pool := (mp_pool s)\<lparr>mpl_lock := l\<rparr>\<rparr>) chunk) (\<lambda>s.
     Ok (s\<lparr>mp_pool := (mp_pool s)\<lparr>mpl_lock := unlock_word (mpl_lock (mp_pool s))\<rparr>\<rparr>)))"

declare mempool_alloc_nolock.simps(2) [simp del]

section \<open>Lists read forwards only\<close>

text \<open>
  The pool only follows \<open>next\<close> pointers, so its invariant leaves \<open>prev\<close> open: \<open>nlist h p xs\<close> says that
  from \<open>p\<close> the \<open>next\<close> pointers lead through \<open>xs\<close> to NULL.
\<close>

fun nlist :: "lheap \<Rightarrow> addr \<Rightarrow> addr list \<Rightarrow> bool" where
  "nlist h p [] \<longleftrightarrow> p = NULL"
| "nlist h p (a # xs) \<longleftrightarrow> p = a \<and> a \<noteq> NULL \<and> (\<exists>n. h a = Some n \<and> nlist h (lh_next n) xs)"

lemma nlist_cong:
  "nlist h p xs \<Longrightarrow> (\<And>a. a \<in> set xs \<Longrightarrow> map_option lh_next (h' a) = map_option lh_next (h a)) \<Longrightarrow> nlist h' p xs"
proof (induction xs arbitrary: p)
  case (Cons a xs)
  then obtain n where n: "h a = Some n" "nlist h (lh_next n) xs" by auto
  then obtain n' where n': "h' a = Some n'" "lh_next n' = lh_next n" using Cons.prems(2)[of a] by auto
  then show ?case using Cons.IH[OF n(2)] Cons.prems by simp
qed simp

lemma nlist_upd: "nlist h p xs \<Longrightarrow> a \<notin> set xs \<Longrightarrow> nlist (h(a := y)) p xs"
  by (erule nlist_cong) auto

lemma nlist_NULL: "nlist h NULL xs \<longleftrightarrow> xs = []"
  by (cases xs) auto

text \<open>Two heaps with the same \<open>next\<close> pointers outside a set of nodes.\<close>

definition same_next :: "addr set \<Rightarrow> lheap \<Rightarrow> lheap \<Rightarrow> bool" where
  "same_next S h h' \<longleftrightarrow> (\<forall>b. b \<notin> S \<longrightarrow> map_option lh_next (h' b) = map_option lh_next (h b))"

lemma nlist_same_next: "nlist h p xs \<Longrightarrow> same_next S h h' \<Longrightarrow> S \<inter> set xs = {} \<Longrightarrow> nlist h' p xs"
  by (erule nlist_cong) (auto simp: same_next_def)

lemma same_next_dom: "same_next S h h' \<Longrightarrow> b \<notin> S \<Longrightarrow> b \<in> dom h' \<longleftrightarrow> b \<in> dom h"
  unfolding same_next_def by (metis domIff option.map_disc_iff)

lemma nlist_push_frame:
  assumes "nlist h p xs" and "a \<notin> set xs" and "a \<noteq> NULL" and "h a = Some n"
  shows "\<exists>h'. list_push_front h p a = Ok (h', a) \<and> nlist h' a (a # xs) \<and> same_next {a} h h'"
proof (cases xs)
  case Nil
  then show ?thesis using assms by (simp add: list_push_front_def set_next_def same_next_def)
next
  case (Cons b ys)
  then obtain m where b: "p = b" "b \<noteq> NULL" "h b = Some m" "b \<noteq> a" using assms by auto
  let ?h = "h(b \<mapsto> m\<lparr>lh_prev := a\<rparr>)"
  have "nlist ?h p xs" using assms(1) by (rule nlist_cong) (use b in auto)
  then have "nlist (?h(a \<mapsto> n\<lparr>lh_next := p\<rparr>)) p xs" using assms(2) by (rule nlist_upd)
  then show ?thesis using b assms by (simp add: list_push_front_def set_next_def set_prev_def same_next_def)
qed

lemma nlist_push:
  assumes "nlist h p xs" and "a \<notin> set xs" and "a \<noteq> NULL" and "h a = Some n"
  shows "\<exists>h'. list_push_front h p a = Ok (h', a) \<and> nlist h' a (a # xs)"
  using nlist_push_frame[OF assms] by blast

section \<open>Addresses of chunks\<close>

lemma page_to_virt_pg: "n < 2 ^ 32 \<Longrightarrow> page_to_virt hhdm (pg n) = of_nat (n * 4096) + hhdm"
  by (simp add: page_to_virt_def page_to_pfn_pg pfn_to_virt_def push_bit_eq_mult)

lemma drop_bit_addr: "x < 2 ^ 64 \<Longrightarrow> drop_bit k (of_nat x :: addr) = of_nat (x div 2 ^ k)"
proof -
  assume "x < 2 ^ 64"
  then have "unat (drop_bit k (of_nat x :: addr)) = x div 2 ^ k"
    using unat_drop_bit_eq[of k "of_nat x :: addr"] by (simp only: unat_offset drop_bit_nat_def)
  then show ?thesis by (metis of_nat_unat ucast_id)
qed

lemma hhdm_to_page_block:
  assumes "n + 2 ^ k \<le> 2 ^ 31" and "j < 4096 * 2 ^ k"
  shows "hhdm_to_page hhdm (page_to_virt hhdm (pg n) + of_nat j) = pg (n + j div 4096)"
proof -
  have b: "n * 4096 + j < 2 ^ 43" using assms by (simp add: algebra_simps)
  have "n < 2 ^ 32" using assms(1) by simp
  then have "page_to_virt hhdm (pg n) + of_nat j - hhdm = (of_nat (n * 4096 + j) :: u64)"
    by (simp add: page_to_virt_pg)
  moreover have "drop_bit 12 (of_nat (n * 4096 + j) :: u64) = of_nat (n + j div 4096)"
    using drop_bit_addr[of "n * 4096 + j" 12] b by simp
  ultimately show ?thesis by (simp only: hhdm_to_page_def) (simp only: pg_def)
qed

lemma base_pfn_block:
  assumes "2 ^ k dvd n" and "x \<in> blk n k" and "n + 2 ^ k \<le> 2 ^ 31"
  shows "base_pfn (of_nat x) k = of_nat n"
proof -
  obtain q where q: "n = 2 ^ k * q" using assms(1) by blast
  have x: "x < 2 ^ 31" "n \<le> x" "x < n + 2 ^ k" using assms(2,3) by (auto simp: blk_def)
  then have d: "x div 2 ^ k = q" using q by (intro div_nat_eqI) (auto simp: algebra_simps)
  have m: "(of_nat x :: u64) AND NOT (mask k) = push_bit k (drop_bit k (of_nat x))"
    by (rule bit_eqI) (auto simp: bit_simps)
  have "drop_bit k (of_nat x :: u64) = of_nat q" using drop_bit_addr[of x k] x(1) d by simp
  then show ?thesis using m q by (simp add: base_pfn_def push_bit_eq_mult mask_eq_exp_minus_1)
qed

lemma base_page_block:
  assumes "2 ^ k dvd n" and "x \<in> blk n k" and "n + 2 ^ k \<le> 2 ^ 31"
  shows "base_page (pg x) k = pg n"
proof -
  have "x < 2 ^ 32" using assms by (auto simp: blk_def)
  then show ?thesis using base_pfn_block[OF assms] by (simp add: base_page_def page_to_pfn_pg) (simp add: pg_def)
qed

section \<open>A refill\<close>

text \<open>\<open>caddr v sz j\<close> is chunk \<open>j\<close> of the block at the virtual address \<open>v\<close>.\<close>

definition caddr :: "addr \<Rightarrow> nat \<Rightarrow> nat \<Rightarrow> addr" where "caddr v sz j = v + of_nat (sz * j)"

lemma carve_step_addr:
  assumes "unat sz * i < 2 ^ 32"
  shows "v + ucast (sz * of_nat i :: u32) = caddr v (unat sz) i"
proof -
  have "unat (sz * of_nat i :: u32) = unat sz * i"
    using assms unat_of_nat[of "unat sz * i", where ?'a = 32] by simp
  then have "(ucast (sz * of_nat i :: u32) :: u64) = of_nat (unat sz * i)"
    by (metis of_nat_unat)
  then show ?thesis by (simp add: caddr_def)
qed

lemma carve_list:
  assumes "unat sz * (i + n) < 2 ^ 32" and "\<And>j. j < i + n \<Longrightarrow> caddr v (unat sz) j \<noteq> NULL"
    and "inj_on (caddr v (unat sz)) {..<i + n}"
    and "nlist h p (List.map (caddr v (unat sz)) (rev [0..<i]))"
  shows "\<exists>h' p'. carve sz v i n h p = Ok (h', p') \<and> nlist h' p' (List.map (caddr v (unat sz)) (rev [0..<i + n]))"
  using assms
proof (induction n arbitrary: i h p)
  case (Suc n)
  let ?c = "caddr v (unat sz)" let ?h = "h(?c i \<mapsto> \<lparr>lh_next = NULL, lh_prev = NULL\<rparr>)"
  have new: "?c i \<notin> set (List.map ?c (rev [0..<i]))"
  proof
    assume "?c i \<in> set (List.map ?c (rev [0..<i]))"
    then obtain j where "j < i" "?c j = ?c i" by auto
    then show False using inj_onD[OF Suc.prems(3), of j i] by simp
  qed
  have "nlist ?h p (List.map ?c (rev [0..<i]))" by (rule nlist_upd[OF Suc.prems(4) new])
  from nlist_push[OF this new Suc.prems(2)[of i], of "\<lparr>lh_next = NULL, lh_prev = NULL\<rparr>"]
  obtain h1 where h1: "list_push_front ?h p (?c i) = Ok (h1, ?c i)" "nlist h1 (?c i) (List.map ?c (rev [0..<Suc i]))"
    by auto
  have "unat sz * i < 2 ^ 32" using Suc.prems(1) by (simp add: algebra_simps)
  then have "v + ucast (sz * of_nat i :: u32) = ?c i" by (rule carve_step_addr)
  then have "carve sz v i (Suc n) h p = carve sz v (i + 1) n h1 (?c i)" using h1(1) by (simp add: Let_def)
  moreover have "\<exists>h' p'. carve sz v (Suc i) n h1 (?c i) = Ok (h', p') \<and> nlist h' p' (List.map ?c (rev [0..<Suc i + n]))"
    using Suc.prems(1,2,3) h1(2) by (intro Suc.IH) simp_all
  ultimately show ?case by simp
qed simp

text \<open>Changing the list node of a page that is not free keeps the page allocator's pool.\<close>

definition node_only :: "buddy_state \<Rightarrow> buddy_state \<Rightarrow> nat set \<Rightarrow> bool" where
  "node_only s s' X \<longleftrightarrow> s' = s\<lparr>blist := blist s'\<rparr> \<and> dom (blist s') = dom (blist s)
     \<and> (\<forall>a. a \<notin> pg ` X \<longrightarrow> blist s' a = blist s a)"

lemma node_only_refl: "node_only s s X"
  by (simp add: node_only_def)

lemma node_only_trans: "node_only s t X \<Longrightarrow> node_only t u X \<Longrightarrow> node_only s u X"
  unfolding node_only_def by (metis buddy_state.update_convs(2) buddy_state.surjective)

lemma node_only_same_frame: "node_only s s' X \<Longrightarrow> same_frame s s'"
  unfolding node_only_def same_frame_def by (metis buddy_state.ext_inject buddy_state.surjective buddy_state.update_convs(2))

lemma node_only_pool:
  assumes "pool s pr L" and "node_only s s' X" and "X \<inter> free_set L = {}" and "X \<subseteq> {..<2 ^ 32}"
  shows "pool s' pr L"
proof -
  define bl where "bl = blist s'"
  then have s': "s' = s\<lparr>blist := bl\<rparr>" and d: "dom bl = dom (blist s)"
    and out: "\<And>a. a \<notin> pg ` X \<Longrightarrow> bl a = blist s a"
    using assms(2) by (auto simp: node_only_def)
  have ok: "blocks_ok L" using assms(1) by (simp add: pool_def)
  have notin: "pg n \<notin> pg ` X" if "k < 16" "n \<in> set (L k)" for n k
  proof
    assume "pg n \<in> pg ` X"
    then obtain x where x: "x \<in> X" "pg n = pg x" by auto
    moreover have "n < 2 ^ 31" by (rule pool_bound[OF ok that])
    ultimately have "n = x" using pg_inj[of n x] assms(4) by auto
    then show False using x(1) free_set_first[of k n L] that assms(3) by blast
  qed
  have "llist bl (pr k) (fl_head (buddy_lists s ! k)) (List.map pg (L k))"
    if "k < 16" "llist (blist s) (pr k) (fl_head (buddy_lists s ! k)) (List.map pg (L k))" for k
    using that(2) by (rule llist_cong) (use notin[OF that(1)] out in auto)
  then show ?thesis using assms(1) by (simp add: pool_def lists_ok_def marks_ok_def s' d)
qed

lemma set_owner_node:
  assumes "x < 2 ^ 32" and "blist s (pg x) \<noteq> None"
  shows "\<exists>s'. set_owner s (pg x) p = Ok s' \<and> node_only s s' {x}"
  using assms by (auto simp: set_owner_def set_next_def node_only_def)

lemma set_n_free_node:
  assumes "x < 2 ^ 32" and "blist s (pg x) \<noteq> None"
  shows "\<exists>s'. set_n_free s (pg x) v = Ok s' \<and> node_only s s' {x}"
  using assms by (auto simp: set_n_free_def set_prev_def node_only_def)

lemma node_only_mono: "node_only s s' X \<Longrightarrow> X \<subseteq> Y \<Longrightarrow> node_only s s' Y"
  unfolding node_only_def by blast

lemma node_only_dom: "node_only s s' X \<Longrightarrow> dom (blist s') = dom (blist s)"
  by (auto simp: node_only_def)

lemma pg_next: "x < 2 ^ 31 \<Longrightarrow> pg x + 64 = pg (Suc x)"
  by (simp add: pg_def pfn_to_page_def algebra_simps)

lemma own_pages_node:
  assumes "x + n \<le> 2 ^ 31" and "\<forall>y \<in> {x..<x + n}. pg y \<in> dom (blist s)"
  shows "\<exists>s'. own_pages n (pg x) p s = Ok s' \<and> node_only s s' {x..<x + n}"
  using assms
proof (induction n arbitrary: x s)
  case 0
  then show ?case by (simp add: node_only_refl)
next
  case (Suc n)
  have "blist s (pg x) \<noteq> None" using Suc.prems(2) by auto
  then obtain s1 where s1: "set_owner s (pg x) p = Ok s1" "node_only s s1 {x}"
    using set_owner_node[of x s p] Suc.prems(1) by auto
  have "\<forall>y \<in> {Suc x..<Suc x + n}. pg y \<in> dom (blist s1)"
    using Suc.prems(2) node_only_dom[OF s1(2)] by auto
  then obtain s2 where s2: "own_pages n (pg (Suc x)) p s1 = Ok s2" "node_only s1 s2 {Suc x..<Suc x + n}"
    using Suc.IH[of "Suc x" s1] Suc.prems(1) by auto
  have "node_only s s2 {x..<x + Suc n}"
    by (rule node_only_trans[OF node_only_mono[OF s1(2)] node_only_mono[OF s2(2)]]) auto
  then show ?case using s1(1) s2(1) Suc.prems(1) by (simp add: pg_next)
qed

text \<open>The zeroing allocation, on memory in which every free frame is mapped.\<close>

definition frames_mapped :: "u64 \<Rightarrow> mem \<Rightarrow> nat set \<Rightarrow> bool" where
  "frames_mapped hhdm m X \<longleftrightarrow> (\<forall>x \<in> X. mapped m (page_to_virt hhdm (pg x)) 4096)"

lemma frames_mapped_block:
  assumes "frames_mapped hhdm m (blk n k)" and "n + 2 ^ k \<le> 2 ^ 31"
  shows "mapped m (page_to_virt hhdm (pg n)) (4096 * 2 ^ k)"
  unfolding mapped_def
proof (intro allI impI)
  fix a assume a: "unat (a - page_to_virt hhdm (pg n)) < 4096 * 2 ^ k"
  define j where "j = unat (a - page_to_virt hhdm (pg n))"
  let ?x = "n + j div 4096"
  have j: "j < 4096 * 2 ^ k" "a = page_to_virt hhdm (pg n) + of_nat j" using a by (simp_all add: j_def)
  have "?x \<in> blk n k" using j(1) by (auto simp: blk_def)
  then have mp: "mapped m (page_to_virt hhdm (pg ?x)) 4096" and x: "?x < 2 ^ 32"
    using assms by (auto simp: frames_mapped_def blk_def)
  have "a - page_to_virt hhdm (pg ?x) = of_nat (j mod 4096)"
  proof -
    have "(of_nat j :: u64) = of_nat (j div 4096 * 4096 + j mod 4096)" by simp
    then have "(of_nat j :: u64) = of_nat (j div 4096) * 4096 + of_nat (j mod 4096)" by (simp only: of_nat_add of_nat_mult of_nat_numeral)
    moreover have "n < 2 ^ 32" using x by simp
    ultimately show ?thesis using x by (simp add: j(2) page_to_virt_pg algebra_simps del: of_nat_mod)
  qed
  then have "unat (a - page_to_virt hhdm (pg ?x)) = j mod 4096" by (simp only: unat_offset) (simp add: unat_of_nat)
  then have "unat (a - page_to_virt hhdm (pg ?x)) < 4096" by simp
  then show "m a \<noteq> None" using mp unfolding mapped_def by blast
qed

lemma alloc_pages_zero:
  "alloc_pages hhdm s k BUDDY_ZERO = bnd (alloc_pages hhdm s k 0) (\<lambda>(ret, s).
     bnd (memset (phys_mem s) (page_to_virt hhdm ret) 0 (push_bit k 4096)) (\<lambda>(_, m). Ok (ret, s\<lparr>phys_mem := m\<rparr>)))"
  by (auto simp: alloc_pages_def BUDDY_ZERO_def Let_def bnd_assoc split_def)

lemma pool_phys [simp]: "pool (s\<lparr>phys_mem := m\<rparr>) pr L = pool s pr L"
  by (simp add: pool_def lists_ok_def marks_ok_def)

lemma alloc_pages_zero_some:
  assumes "pool s pr L" and "kmem_lock s = 0" and "k < 16" and "\<exists>j. k \<le> j \<and> j < 16 \<and> L j \<noteq> []"
    and "frames_mapped hhdm (phys_mem s) (free_set L)"
  shows "\<exists>n s' pr' L'. alloc_pages hhdm s k BUDDY_ZERO = Ok (pg n, s') \<and> pool s' pr' L' \<and> kmem_lock s' = 0
     \<and> 2 ^ k dvd n \<and> n + 2 ^ k \<le> 2 ^ 31 \<and> blk n k \<subseteq> free_set L \<and> free_set L' = free_set L - blk n k
     \<and> dom (blist s') = dom (blist s)"
proof -
  obtain n s1 pr' L' where r: "alloc_pages hhdm s k 0 = Ok (pg n, s1)" "pool s1 pr' L'" "same_frame s s1"
    "2 ^ k dvd n" "n + 2 ^ k \<le> 2 ^ 31" "blk n k \<subseteq> free_set L" "free_set L' = free_set L - blk n k"
    using alloc_pages_some[OF assms(1-4)] by blast
  have "frames_mapped hhdm (phys_mem s1) (blk n k)"
    using assms(5) r(3,6) by (auto simp: frames_mapped_def same_frame_def)
  then have "mapped (phys_mem s1) (page_to_virt hhdm (pg n)) (4096 * 2 ^ k)"
    using r(5) by (rule frames_mapped_block)
  moreover have "unat (push_bit k 4096 :: u64) = 4096 * 2 ^ k"
  proof -
    have "(4096 * 2 ^ k :: nat) < 2 ^ 64" using assms(3) power_increasing[of k 15 "2 :: nat"] by simp
    then show ?thesis using unat_of_nat[of "4096 * 2 ^ k", where ?'a = 64] by (simp add: push_bit_eq_mult mult.commute)
  qed
  ultimately have "mapped (phys_mem s1) (page_to_virt hhdm (pg n)) (unat (push_bit k 4096 :: u64))" by simp
  from memset_result[OF this, of 0] obtain m where
    "memset (phys_mem s1) (page_to_virt hhdm (pg n)) 0 (push_bit k 4096) = Ok (page_to_virt hhdm (pg n), m)" by blast
  then have "alloc_pages hhdm s k BUDDY_ZERO = Ok (pg n, s1\<lparr>phys_mem := m\<rparr>)" using r(1) by (simp add: alloc_pages_zero)
  moreover have "kmem_lock (s1\<lparr>phys_mem := m\<rparr>) = 0" "dom (blist (s1\<lparr>phys_mem := m\<rparr>)) = dom (blist s)"
    using r(3) assms(2) by (simp_all add: same_frame_def)
  ultimately show ?thesis using r by (intro exI[of _ n] exI[of _ "s1\<lparr>phys_mem := m\<rparr>"]) auto
qed

section \<open>Serving chunks from one block\<close>

definition serving :: "u64 \<Rightarrow> nat \<Rightarrow> addr list \<Rightarrow> mp_state \<Rightarrow> bool" where
  "serving l n xs s \<longleftrightarrow> nlist (mp_chunks s) (mpl_freelist (mp_pool s)) xs \<and> mpl_count (mp_pool s) > 0
     \<and> mpl_lock (mp_pool s) = l \<and> n < 2 ^ 31 \<and> pg n \<in> dom (blist (mp_buddy s))
     \<and> (\<forall>c \<in> set xs. base_page (hhdm_to_page (mp_hhdm s) c) (mpl_order (mp_pool s)) = pg n)"

lemma mempool_pop_serving:
  assumes "serving l n (c # cs) s"
  shows "\<exists>s'. mempool_pop s = Ok (c, s') \<and> serving l n cs s' \<and> node_only (mp_buddy s) (mp_buddy s') {n}"
proof -
  have n: "n < 2 ^ 32" "blist (mp_buddy s) (pg n) \<noteq> None" using assms by (auto simp: serving_def)
  obtain v where v: "get_n_free (mp_buddy s) (pg n) = Ok v" using n by (auto simp: get_n_free_def)
  obtain b where b: "set_n_free (mp_buddy s) (pg n) (v - 1) = Ok b" "node_only (mp_buddy s) b {n}"
    using set_n_free_node[OF n] by blast
  have "pg n \<in> dom (blist b)" using node_only_dom[OF b(2)] n(2) by auto
  then show ?thesis using assms v b
    by (auto simp: mempool_pop_def serving_def list_pop_front_def fetch_def Let_def)
qed

lemma mempool_alloc_serving:
  assumes "serving 0 n (c # cs) s" and "0 < fuel"
  shows "\<exists>s'. mempool_alloc fuel s = Ok (c, s') \<and> serving 0 n cs s' \<and> node_only (mp_buddy s) (mp_buddy s') {n}"
proof -
  obtain f where f: "fuel = Suc f" using assms(2) by (cases fuel) auto
  let ?s = "s\<lparr>mp_pool := (mp_pool s)\<lparr>mpl_lock := 1\<rparr>\<rparr>"
  have l: "mpl_lock (mp_pool s) = 0" and cnt: "mpl_count (mp_pool s) > 0" and s1: "serving 1 n (c # cs) ?s"
    using assms(1) by (auto simp: serving_def)
  have run: "mempool_alloc fuel s = bnd (mempool_pop ?s) (\<lambda>(ret, s). Ok (ret, s\<lparr>mp_pool := (mp_pool s)\<lparr>mpl_lock := 0\<rparr>\<rparr>))"
    using l cnt f by (simp add: mempool_alloc_def mempool_alloc_nolock.simps(2))
  obtain s' where "mempool_pop ?s = Ok (c, s')" "serving 1 n cs s'" "node_only (mp_buddy s) (mp_buddy s') {n}"
    using mempool_pop_serving[OF s1] by auto
  with run show ?thesis by (intro exI[of _ "s'\<lparr>mp_pool := (mp_pool s')\<lparr>mpl_lock := 0\<rparr>\<rparr>"]) (auto simp: serving_def)
qed

lemma mempool_alloc_exhausted:
  assumes "serving 0 n [] s" and "0 < fuel"
  shows "mempool_alloc fuel s = Fault Null_Deref"
  using assms by (cases fuel) (auto simp: serving_def mempool_alloc_def mempool_alloc_nolock.simps(2) mempool_pop_def list_pop_front_def)

fun mempool_run :: "nat \<Rightarrow> nat \<Rightarrow> mp_state \<Rightarrow> (addr list \<times> mp_state) result" where
  "mempool_run fuel 0 s = Ok ([], s)"
| "mempool_run fuel (Suc m) s =
     bnd (mempool_alloc fuel s) (\<lambda>(c, s). bnd (mempool_run fuel m s) (\<lambda>(cs, s). Ok (c # cs, s)))"

lemma mempool_run_serving:
  assumes "serving 0 n cs s" and "0 < fuel" and "m \<le> length cs"
  shows "\<exists>s'. mempool_run fuel m s = Ok (take m cs, s') \<and> serving 0 n (drop m cs) s' \<and> node_only (mp_buddy s) (mp_buddy s') {n}"
  using assms(1,3)
proof (induction m arbitrary: s cs)
  case (Suc m)
  then obtain c ds where c: "cs = c # ds" by (cases cs) auto
  obtain s1 where s1: "mempool_alloc fuel s = Ok (c, s1)" "serving 0 n ds s1" "node_only (mp_buddy s) (mp_buddy s1) {n}"
    using mempool_alloc_serving[OF _ assms(2)] Suc.prems(1) c by blast
  obtain s2 where s2: "mempool_run fuel m s1 = Ok (take m ds, s2)" "serving 0 n (drop m ds) s2"
    "node_only (mp_buddy s1) (mp_buddy s2) {n}"
    using Suc.IH[OF s1(2)] Suc.prems(2) c by auto
  show ?case using s1 s2 c node_only_trans[OF s1(3) s2(3)] by simp
qed (simp add: node_only_refl)

lemma mempool_run_exhausted:
  assumes "serving 0 n cs s" and "0 < fuel"
  shows "mempool_run fuel (Suc (length cs)) s = Fault Null_Deref"
  using assms(1)
proof (induction cs arbitrary: s)
  case Nil
  then show ?case using mempool_alloc_exhausted[OF _ assms(2)] by simp
next
  case (Cons c cs)
  obtain s1 where "mempool_alloc fuel s = Ok (c, s1)" "serving 0 n cs s1"
    using mempool_alloc_serving[OF Cons.prems assms(2)] by blast
  then show ?case using Cons.IH by simp
qed

text \<open>The direct map ends before the address space does, and its offset is not 0.\<close>

definition hhdm_ok :: "u64 \<Rightarrow> bool" where
  "hhdm_ok hhdm \<longleftrightarrow> hhdm \<noteq> 0 \<and> unat hhdm + 2 ^ 43 \<le> 2 ^ 64"

lemma direct_map_not_NULL:
  assumes "hhdm_ok hhdm" and "m < 2 ^ 43"
  shows "hhdm + of_nat m \<noteq> NULL"
proof
  assume z: "hhdm + of_nat m = NULL"
  have "unat (of_nat m :: u64) = m" using assms(2) by (intro unat_offset) simp
  then have "unat (hhdm + of_nat m) = unat hhdm + m"
    using assms by (simp add: unat_word_ariths hhdm_ok_def)
  then have "unat hhdm = 0" using z by simp
  then show False using assms(1) by (simp add: hhdm_ok_def unat_eq_0)
qed

lemma caddr_pg: "n < 2 ^ 32 \<Longrightarrow> caddr (page_to_virt hhdm (pg n)) sz j = hhdm + of_nat (n * 4096 + sz * j)"
  by (simp add: caddr_def page_to_virt_pg algebra_simps)

definition chunk_count :: "mempool \<Rightarrow> nat" where
  "chunk_count mp = 4096 * 2 ^ mpl_order mp div unat (mpl_size mp)"

definition chunk_list :: "u64 \<Rightarrow> nat \<Rightarrow> mempool \<Rightarrow> addr list" where
  "chunk_list hhdm n mp = List.map (caddr (page_to_virt hhdm (pg n)) (unat (mpl_size mp))) (rev [0..<chunk_count mp])"

lemma pow_order: "k < 16 \<Longrightarrow> (2 :: nat) ^ k \<le> 2 ^ 15"
  by (rule power_increasing) simp_all

lemma chunks_per_block_count:
  assumes "mpl_order mp < 16" and "mpl_size mp \<noteq> 0"
  shows "\<exists>w. chunks_per_block mp = Ok w \<and> unat w = chunk_count mp"
proof -
  have "4096 * 2 ^ mpl_order mp < (2 :: nat) ^ 32" using pow_order[OF assms(1)] by simp
  then have "unat (push_bit (mpl_order mp) 4096 :: u32) = 4096 * 2 ^ mpl_order mp"
    using unat_of_nat[of "4096 * 2 ^ mpl_order mp", where ?'a = 32] by (simp add: push_bit_eq_mult mult.commute)
  then show ?thesis using assms by (simp add: chunks_per_block_def chunk_count_def unat_div)
qed

lemma chunks_per_block_lock [simp]: "chunks_per_block (mp\<lparr>mpl_lock := l\<rparr>) = chunks_per_block mp"
  by (simp add: chunks_per_block_def)

lemma chunk_bounds:
  assumes "mpl_order mp < 16" and "n + 2 ^ mpl_order mp \<le> 2 ^ 31" and "j < chunk_count mp"
  shows "unat (mpl_size mp) * j < 4096 * 2 ^ mpl_order mp" and "unat (mpl_size mp) * j + unat (mpl_size mp) \<le> 4096 * 2 ^ mpl_order mp"
    and "n * 4096 + unat (mpl_size mp) * j < 2 ^ 43"
proof -
  have "0 < unat (mpl_size mp)" using assms(3) by (cases "unat (mpl_size mp)") (simp_all add: chunk_count_def)
  moreover have "unat (mpl_size mp) * Suc j \<le> 4096 * 2 ^ mpl_order mp"
  proof (rule order_trans)
    show "unat (mpl_size mp) * Suc j \<le> unat (mpl_size mp) * chunk_count mp"
      using assms(3) by (intro mult_le_mono2) simp
    show "unat (mpl_size mp) * chunk_count mp \<le> 4096 * 2 ^ mpl_order mp" unfolding chunk_count_def by simp
  qed
  ultimately show "unat (mpl_size mp) * j < 4096 * 2 ^ mpl_order mp"
    "unat (mpl_size mp) * j + unat (mpl_size mp) \<le> 4096 * 2 ^ mpl_order mp" by simp_all
  then show "n * 4096 + unat (mpl_size mp) * j < 2 ^ 43" using assms(2) by simp
qed

lemma chunk_inj:
  assumes "mpl_order mp < 16" and "n + 2 ^ mpl_order mp \<le> 2 ^ 31" and "0 < unat (mpl_size mp)"
  shows "inj_on (caddr (page_to_virt hhdm (pg n)) (unat (mpl_size mp))) {..<chunk_count mp}"
proof (rule inj_onI)
  fix i j assume i: "i \<in> {..<chunk_count mp}" and j: "j \<in> {..<chunk_count mp}"
    and e: "caddr (page_to_virt hhdm (pg n)) (unat (mpl_size mp)) i = caddr (page_to_virt hhdm (pg n)) (unat (mpl_size mp)) j"
  have "unat (mpl_size mp) * i < 2 ^ 64" "unat (mpl_size mp) * j < 2 ^ 64"
    using chunk_bounds(3)[OF assms(1,2)] i j by fastforce+
  then have "unat (mpl_size mp) * i = unat (mpl_size mp) * j"
    using e unfolding caddr_def by (subst (asm) offset_eq_iff)
  then show "i = j" using assms(3) by simp
qed

lemma chunk_page:
  assumes "mpl_order mp < 16" and "n + 2 ^ mpl_order mp \<le> 2 ^ 31" and "2 ^ mpl_order mp dvd n" and "j < chunk_count mp"
  shows "base_page (hhdm_to_page hhdm (caddr (page_to_virt hhdm (pg n)) (unat (mpl_size mp)) j)) (mpl_order mp) = pg n"
proof -
  let ?x = "n + unat (mpl_size mp) * j div 4096"
  note b = chunk_bounds(1)[OF assms(1,2,4)]
  have "?x \<in> blk n (mpl_order mp)" using b by (auto simp: blk_def)
  then show ?thesis
    using hhdm_to_page_block[OF assms(2) b] base_page_block[OF assms(3) _ assms(2)] by (simp add: caddr_def)
qed

lemma mempool_refill:
  fixes s :: mp_state
  defines "k \<equiv> mpl_order (mp_pool s)"
  assumes "pool (mp_buddy s) pr L" and "kmem_lock (mp_buddy s) = 0" and k: "k < 16"
    and "\<exists>j. k \<le> j \<and> j < 16 \<and> L j \<noteq> []" and "frames_mapped (mp_hhdm s) (phys_mem (mp_buddy s)) (free_set L)"
    and "hhdm_ok (mp_hhdm s)" and sz: "0 < unat (mpl_size (mp_pool s))" "unat (mpl_size (mp_pool s)) \<le> 4096"
    and cnt: "mpl_count (mp_pool s) = 0" and lock: "mpl_lock (mp_pool s) = 0"
  shows "\<exists>n pr' L' s'. serving 0 n (chunk_list (mp_hhdm s) n (mp_pool s)) s' \<and> (\<forall>fuel. mempool_alloc (Suc (Suc fuel)) s = mempool_alloc (Suc (Suc fuel)) s')
     \<and> pool (mp_buddy s') pr' L' \<and> 2 ^ k dvd n \<and> n + 2 ^ k \<le> 2 ^ 31 \<and> blk n k \<subseteq> free_set L \<and> free_set L' = free_set L - blk n k"
proof -
  let ?mp = "mp_pool s" let ?sz = "mpl_size ?mp" let ?h = "mp_hhdm s"
  obtain n b pr' L' where r: "alloc_pages ?h (mp_buddy s) k BUDDY_ZERO = Ok (pg n, b)" "pool b pr' L'"
    "2 ^ k dvd n" "n + 2 ^ k \<le> 2 ^ 31" "blk n k \<subseteq> free_set L" "free_set L' = free_set L - blk n k"
    "dom (blist b) = dom (blist (mp_buddy s))"
    using alloc_pages_zero_some[OF assms(2-6)] by blast
  have n31: "n < 2 ^ 31" using r(4) by (simp add: less_le_trans[of n "n + 2 ^ k"])
  have "pg y \<in> dom (blist b)" if "y \<in> blk n k" for y
  proof -
    have "y \<in> free_set L" using that r(5) by blast
    then have "pg y \<in> dom (blist (mp_buddy s))" using free_set_mapped[of "mp_buddy s" L y] assms(2) by (simp add: pool_def)
    then show ?thesis using r(7) by simp
  qed
  then have own: "\<forall>y \<in> {n..<n + 2 ^ k}. pg y \<in> dom (blist b)" by (simp add: blk_def)
  obtain b1 where b1: "own_pages (2 ^ k) (pg n) (mp_self s) b = Ok b1" "node_only b b1 {n..<n + 2 ^ k}"
    using own_pages_node[OF r(4) own] by blast
  obtain w where w: "chunks_per_block ?mp = Ok w" "unat w = chunk_count ?mp"
    using chunks_per_block_count[of ?mp] k sz(1) by (auto simp: k_def unat_gt_0)
  have "pg n \<in> dom (blist b1)" using bspec[OF own, of n] node_only_dom[OF b1(2)] by simp
  then have "blist b1 (pg n) \<noteq> None" by auto
  then obtain b2 where b2: "set_n_free b1 (pg n) w = Ok b2" "node_only b1 b2 {n}"
    using set_n_free_node[of n b1 w] n31 by auto
  have node: "node_only b b2 {n..<n + 2 ^ k}"
    by (rule node_only_trans[OF b1(2) node_only_mono[OF b2(2)]]) simp
  have le: "unat ?sz * chunk_count ?mp \<le> 4096 * 2 ^ k"
    by (simp add: chunk_count_def k_def)
  have cp: "0 < chunk_count ?mp"
  proof -
    have "unat ?sz \<le> 4096 * 2 ^ k" using sz(2) by (rule order_trans) simp
    then show ?thesis using sz(1) by (simp add: chunk_count_def k_def div_greater_zero_iff)
  qed
  have "\<exists>h' p'. carve ?sz (page_to_virt ?h (pg n)) 0 (chunk_count ?mp) (mp_chunks s) NULL = Ok (h', p')
      \<and> nlist h' p' (List.map (caddr (page_to_virt ?h (pg n)) (unat ?sz)) (rev [0..<0 + chunk_count ?mp]))"
  proof (rule carve_list)
    show "unat ?sz * (0 + chunk_count ?mp) < 2 ^ 32" using le pow_order[OF k] by simp
    show "inj_on (caddr (page_to_virt ?h (pg n)) (unat ?sz)) {..<0 + chunk_count ?mp}"
      using chunk_inj[of ?mp n] k r(4) sz(1) by (simp add: k_def)
    fix j assume "j < 0 + chunk_count ?mp"
    then have "n * 4096 + unat ?sz * j < 2 ^ 43" using chunk_bounds(3)[of ?mp n j] k r(4) by (simp add: k_def)
    then show "caddr (page_to_virt ?h (pg n)) (unat ?sz) j \<noteq> NULL"
      using direct_map_not_NULL[OF assms(7)] n31 by (simp add: caddr_pg del: of_nat_add of_nat_mult)
  qed simp
  then obtain h' p' where c: "carve ?sz (page_to_virt ?h (pg n)) 0 (unat w) (mp_chunks s) NULL = Ok (h', p')"
    "nlist h' p' (chunk_list ?h n ?mp)" using w(2) by (auto simp: chunk_list_def)
  let ?s1 = "s\<lparr>mp_pool := ?mp\<lparr>mpl_lock := 1\<rparr>\<rparr>"
  define s2 where "s2 = ?s1\<lparr>mp_pool := (mp_pool ?s1)\<lparr>mpl_count := w, mpl_freelist := p'\<rparr>, mp_chunks := h', mp_buddy := b2\<rparr>"
  have "w \<noteq> 0" using cp w(2) by (metis less_irrefl unat_0)
  then have pos: "mpl_count (mp_pool s2) > 0" by (simp add: s2_def word_gt_0)
  have pop: "mempool_alloc_nolock (Suc f) s2 = mempool_pop s2" for f
    using pos by (simp add: mempool_alloc_nolock.simps(2))
  have "mempool_alloc_nolock (Suc (Suc f)) ?s1 = mempool_alloc_nolock (Suc f) s2" for f
    using cnt w(1) r(1) b1(1) b2(1) c(1) pg_not_NULL[of n] n31
    by (subst mempool_alloc_nolock.simps(2)) (simp add: k_def[symmetric] s2_def)
  then have step: "mempool_alloc_nolock (Suc (Suc f)) ?s1 = mempool_alloc_nolock (Suc (Suc f)) s2" for f
    by (simp only: pop)
  define s' where "s' = s2\<lparr>mp_pool := (mp_pool s2)\<lparr>mpl_lock := 0\<rparr>\<rparr>"
  have "mpl_lock (mp_pool s2) = 1" by (simp add: s2_def)
  then have s2_eq: "s'\<lparr>mp_pool := (mp_pool s')\<lparr>mpl_lock := 1\<rparr>\<rparr> = s2" by (simp add: s'_def)
  have "mempool_alloc (Suc (Suc f)) s = mempool_alloc (Suc (Suc f)) s'" for f
    using step[of f] lock s2_eq by (simp add: mempool_alloc_def) (simp add: s'_def)
  moreover have "pg n \<in> dom (blist b2)" using own node_only_dom[OF node] by auto
  then have "serving 0 n (chunk_list ?h n ?mp) s'"
    using c(2) pos n31 chunk_page[of ?mp n] k r(3,4)
    by (auto simp: serving_def s'_def s2_def chunk_list_def k_def)
  moreover have "pool (mp_buddy s') pr' L'"
    using node_only_pool[OF r(2) node] r(4,6) by (fastforce simp: s'_def s2_def blk_def)
  ultimately show ?thesis using r by blast
qed

section \<open>The last free of a block\<close>

definition no_merge :: "buddy_state \<Rightarrow> nat \<Rightarrow> nat \<Rightarrow> bool" where
  "no_merge b n k \<longleftrightarrow> \<not> valid_buddy_pfn b (of_nat (bud n k))
     \<or> (\<exists>q. pages b (pg (bud n k)) = Some q \<and> \<not> page_free q)"

lemma free_pages_no_merge:
  assumes "no_merge b n k" and "k < 16" and "2 ^ k dvd n" and "n + 2 ^ k \<le> 2 ^ 31"
  shows "free_pages_nolock b (pg n) k = direct_free b (pg n) k"
proof -
  have k31: "k < 31" using assms(2) by simp
  note addr = buddy_addresses(1)[OF assms(3,4) k31]
  have "(0::nat) < 2 ^ k" by simp
  then have "bud n k < 2 ^ 31" using bud_bound[OF assms(3,4)] k31 by linarith
  then have "pg (bud n k) \<noteq> NULL" by (intro pg_not_NULL) simp
  then show ?thesis using assms(1) k31 unfolding no_merge_def page_free_def
    by (subst free_pages_nolock.simps) (auto simp: Let_def addr pg_def[symmetric])
qed

lemma low_half:
  fixes v w :: u32
  shows "(ucast v AND NOT 0xffffffff) OR ucast w = (ucast w :: u64)"
proof -
  have m: "(0xffffffff :: u64) = mask 32" by (simp add: mask_eq_exp_minus_1)
  have "(ucast v :: u64) AND NOT (mask 32) = 0"
  proof (rule bit_eqI)
    fix i
    have "bit v i \<Longrightarrow> i < 32" using bit_imp_le_length[of v i] by simp
    then show "bit ((ucast v :: u64) AND NOT (mask 32)) i = bit (0 :: u64) i"
      by (auto simp: bit_and_iff bit_not_iff bit_mask_iff bit_unsigned_iff)
  qed
  then show ?thesis by (simp only: m) simp
qed

lemma remove_head_bad_prev:
  assumes "pool b pr (L(k := n # L k))" and "k < 16" and "n < 2 ^ 31"
    and "pr k \<noteq> NULL" and "blist b (pr k) = None"
  shows "remove_from_freelist b (pg n) = Fault Wild_Access"
proof -
  have n: "n < 2 ^ 32" using assms(3) by simp
  obtain q where q: "pages b (pg n) = Some q" "pg_order q = k"
    using assms(1,2) unfolding pool_def marks_ok_def by fastforce
  have "llist (blist b) (pr k) (fl_head (buddy_lists b ! k)) (List.map pg (n # L k))"
    using lists_okD(1)[of b pr "L(k := n # L k)" k] assms(1,2) by (simp add: pool_def)
  then obtain nx where h: "fl_head (buddy_lists b ! k) = pg n" "blist b (pg n) = Some \<lparr>lh_next = nx, lh_prev = pr k\<rparr>"
    "llist (blist b) (pg n) nx (List.map pg (L k))" by auto
  have ne: "pr k \<noteq> pg n" using h(2) assms(5) by auto
  have "list_remove_node (blist b) (pg n) (pg n) = Fault Wild_Access"
  proof (cases "L k")
    case Nil
    then show ?thesis using h assms(4,5) n by (simp add: list_remove_node_def set_next_def fetch_def)
  next
    case (Cons m ms)
    then obtain w where w: "nx = pg m" "nx \<noteq> NULL" "blist b nx = Some w" using h(3) by auto
    have "m < 2 ^ 31"
      using pool_bound[of "L(k := n # L k)" k m] assms(1,2) Cons by (simp add: pool_def)
    moreover have "distinct (n # L k)" using assms(1,2) unfolding pool_def blocks_ok_def by (metis fun_upd_same)
    ultimately have "nx \<noteq> pg n" using w(1) Cons pg_inj[of m n] n by auto
    moreover have "nx \<noteq> pr k" using w(3) assms(5) by auto
    ultimately show ?thesis using h(2) w(2,3) assms(4,5) n ne
      by (simp add: list_remove_node_def set_next_def set_prev_def fetch_def)
  qed
  then show ?thesis using q h(1) n assms(2) by (simp add: remove_from_freelist_def list_at_def N_ORDERS_def)
qed

section \<open>Properties of mempool.c\<close>

text \<open>
  A pool serves exactly one block. From an empty pool, on a page allocator with a free block of the
  pool's order and mapped frames, the first allocation takes one block, whose frames were free; as many
  allocations as chunks fit into the block succeed and return the different chunks of it, each inside
  the block; and the next allocation faults on NULL, since \<open>count\<close> is never decremented and a second
  block is never allocated.
\<close>

theorem mempool_serves_one_block:
  assumes "pool (mp_buddy s) pr L" and "kmem_lock (mp_buddy s) = 0" and "mpl_order (mp_pool s) < 16"
    and "\<exists>j. mpl_order (mp_pool s) \<le> j \<and> j < 16 \<and> L j \<noteq> []"
    and "frames_mapped (mp_hhdm s) (phys_mem (mp_buddy s)) (free_set L)" and "hhdm_ok (mp_hhdm s)"
    and "0 < unat (mpl_size (mp_pool s))" and "unat (mpl_size (mp_pool s)) \<le> 4096"
    and "mpl_count (mp_pool s) = 0" and "mpl_lock (mp_pool s) = 0"
  shows "\<exists>n. blk n (mpl_order (mp_pool s)) \<subseteq> free_set L
     \<and> distinct (chunk_list (mp_hhdm s) n (mp_pool s))
     \<and> (\<forall>j < chunk_count (mp_pool s). unat (mpl_size (mp_pool s)) * j + unat (mpl_size (mp_pool s)) \<le> 4096 * 2 ^ mpl_order (mp_pool s))
     \<and> (\<forall>m. 0 < m \<and> m \<le> chunk_count (mp_pool s) \<longrightarrow>
          (\<exists>s' pr' L'. mempool_run 2 m s = Ok (take m (chunk_list (mp_hhdm s) n (mp_pool s)), s')
             \<and> pool (mp_buddy s') pr' L' \<and> free_set L' = free_set L - blk n (mpl_order (mp_pool s))))
     \<and> mempool_run 2 (Suc (chunk_count (mp_pool s))) s = Fault Null_Deref"
proof -
  let ?mp = "mp_pool s" let ?k = "mpl_order ?mp"
  obtain n pr' L' s1 where r: "serving 0 n (chunk_list (mp_hhdm s) n ?mp) s1"
    "\<forall>fuel. mempool_alloc (Suc (Suc fuel)) s = mempool_alloc (Suc (Suc fuel)) s1"
    "pool (mp_buddy s1) pr' L'" "2 ^ ?k dvd n" "n + 2 ^ ?k \<le> 2 ^ 31" "blk n ?k \<subseteq> free_set L" "free_set L' = free_set L - blk n ?k"
    using mempool_refill[OF assms] by blast
  let ?cs = "chunk_list (mp_hhdm s) n ?mp"
  have len: "length ?cs = chunk_count ?mp" by (simp add: chunk_list_def)
  have "mempool_alloc 2 s = mempool_alloc 2 s1" using r(2)[rule_format, of 0] by (simp add: numeral_2_eq_2)
  then have run: "mempool_run 2 (Suc m) s = mempool_run 2 (Suc m) s1" for m by simp
  have dis: "distinct ?cs"
    using chunk_inj[OF assms(3) r(5) assms(7)] by (simp add: chunk_list_def distinct_map lessThan_atLeast0)
  have "\<exists>s' pr' L'. mempool_run 2 m s = Ok (take m ?cs, s') \<and> pool (mp_buddy s') pr' L' \<and> free_set L' = free_set L - blk n ?k"
    if m: "0 < m \<and> m \<le> chunk_count ?mp" for m
  proof -
    obtain m' where m': "m = Suc m'" using m by (cases m) auto
    obtain s' where s': "mempool_run 2 m s1 = Ok (take m ?cs, s')" "node_only (mp_buddy s1) (mp_buddy s') {n}"
      using mempool_run_serving[OF r(1), of 2 m] m len by auto
    have "{n} \<inter> free_set L' = {}" "{n} \<subseteq> {..<2 ^ 32}" using r(5,7) by (auto simp: blk_def)
    then have "pool (mp_buddy s') pr' L'" using node_only_pool[OF r(3) s'(2)] by blast
    then show ?thesis using s'(1) run[of m'] m' r(7) by auto
  qed
  moreover have "mempool_run 2 (Suc (chunk_count ?mp)) s = Fault Null_Deref"
    using mempool_run_exhausted[OF r(1), of 2] run[of "chunk_count ?mp"] len by simp
  ultimately show ?thesis using r(6) dis chunk_bounds(2)[OF assms(3) r(5)] by blast
qed

definition small_pool :: mp_state where
  "small_pool = \<lparr>mp_pool = \<lparr>mpl_freelist = NULL, mpl_count = 0, mpl_size = 2048, mpl_order = 0, mpl_lock = 0\<rparr>,
     mp_self = 64, mp_chunks = Map.empty, mp_buddy = two_frames\<lparr>phys_mem := (\<lambda>_. Some 0)\<rparr>, mp_hhdm = 0x1000\<rparr>"

theorem mempool_serves_one_block_witness:
  "\<exists>n \<in> {1}. mempool_run 2 3 small_pool = Fault Null_Deref
     \<and> (\<exists>s'. mempool_run 2 2 small_pool = Ok (chunk_list 0x1000 n (mp_pool small_pool), s'))"
proof -
  have b: "blk n 0 = {n}" for n by (auto simp: blk_def)
  have p: "pool two_frames (\<lambda>_. NULL) two_blocks" using two_frames_clean by (simp add: clean_pool_def)
  have l: "\<exists>j. 0 \<le> j \<and> j < 16 \<and> two_blocks j \<noteq> []" by (intro exI[of _ 0]) (simp add: two_blocks_def)
  have cnt: "chunk_count (mp_pool small_pool) = 2" by (simp add: chunk_count_def small_pool_def)
  have f: "mpl_order (mp_pool small_pool) = 0" "mp_hhdm small_pool = 0x1000" "unat (mpl_size (mp_pool small_pool)) = 2048"
    by (simp_all add: small_pool_def)
  have "pool (mp_buddy small_pool) (\<lambda>_. NULL) two_blocks" using p by (simp add: small_pool_def)
  moreover have "kmem_lock (mp_buddy small_pool) = 0" "mpl_count (mp_pool small_pool) = 0" "mpl_lock (mp_pool small_pool) = 0"
    by (simp_all add: small_pool_def two_frames_def)
  moreover have "frames_mapped 0x1000 (phys_mem (mp_buddy small_pool)) (free_set two_blocks)" "hhdm_ok 0x1000"
    by (simp_all add: small_pool_def frames_mapped_def mapped_def hhdm_ok_def)
  ultimately obtain n where n: "blk n 0 \<subseteq> free_set two_blocks"
    "\<forall>m. 0 < m \<and> m \<le> 2 \<longrightarrow> (\<exists>s' pr' L'. mempool_run 2 m small_pool = Ok (take m (chunk_list 0x1000 n (mp_pool small_pool)), s')
             \<and> pool (mp_buddy s') pr' L' \<and> free_set L' = free_set two_blocks - blk n 0)"
    "mempool_run 2 (Suc 2) small_pool = Fault Null_Deref"
    using mempool_serves_one_block[of small_pool "\<lambda>_. NULL" two_blocks] l cnt f by auto
  moreover have "take 2 (chunk_list 0x1000 n (mp_pool small_pool)) = chunk_list 0x1000 n (mp_pool small_pool)"
    using cnt by (simp add: chunk_list_def)
  ultimately show ?thesis using n(2)[rule_format, of 2] by (auto simp: b two_free_set numeral_3_eq_3 numeral_2_eq_2)
qed

text \<open>
  C26: Freeing the last chunk of a block corrupts the page allocator. When \<open>mempool_free\<close> brings \<open>n_free\<close>
  to the number of chunks it gives the block back, and then the freed chunks are still on the pool's
  freelist, so the next allocation returns memory of a free frame; and \<open>n_free\<close>, which overlays the
  \<open>prev\<close> pointer of the page's list node, is left there, so taking the page out of the freelist when
  its buddy is freed writes through the chunk count as an address and faults.
\<close>

theorem mempool_free_dangles:
  assumes pl: "pool (mp_buddy s) pr L" and lk: "kmem_lock (mp_buddy s) = 0" "mpl_lock (mp_pool s) = 0"
    and k: "k = mpl_order (mp_pool s)" "k < 16" and n: "2 ^ k dvd n" "n + 2 ^ k \<le> 2 ^ 31" "blk n k \<inter> free_set L = {}"
    and mp: "\<forall>x \<in> blk n k. pg x \<in> dom (pages (mp_buddy s)) \<and> pg x \<in> dom (blist (mp_buddy s))"
    and nm: "no_merge (mp_buddy s) n k"
    and ch: "nlist (mp_chunks s) (mpl_freelist (mp_pool s)) xs" "c \<notin> set xs" "c \<noteq> NULL" "c \<in> dom (mp_chunks s)"
      "base_page (hhdm_to_page (mp_hhdm s) c) k = pg n" "mpl_count (mp_pool s) > 0"
    and mx: "chunks_per_block (mp_pool s) = Ok mc" "mc \<noteq> 0" "blist (mp_buddy s) (ucast mc) = None"
    and nf: "blist (mp_buddy s) (pg n) = Some l" "lh_prev l = ucast (mc - 1)"
  shows "\<exists>s' s''. mempool_free s c = Ok s' \<and> pool (mp_buddy s') (pr(k := ucast mc)) (L(k := n # L k))
     \<and> mempool_alloc 1 s' = Ok (c, s'') \<and> remove_from_freelist (mp_buddy s') (pg n) = Fault Wild_Access"
proof -
  let ?b = "mp_buddy s"
  have "(0 :: nat) < 2 ^ k" by simp
  then have n31: "n < 2 ^ 31" using n(2) by linarith
  then have n32: "n < 2 ^ 32" by simp
  note nn = pg_not_NULL[OF n32]
  obtain h cn where c: "list_push_front (mp_chunks s) (mpl_freelist (mp_pool s)) c = Ok (h, c)" "nlist h c (c # xs)"
    "mp_chunks s c = Some cn"
    using nlist_push[OF ch(1-3)] ch(4) by blast
  define b1 where "b1 = ?b\<lparr>blist := (blist ?b)(pg n \<mapsto> l\<lparr>lh_prev := ucast mc\<rparr>)\<rparr>"
  have gn: "get_n_free ?b (pg n) = Ok (mc - 1)" using nf nn by (simp add: get_n_free_def ucast_up_ucast_id is_up)
  have low: "lh_prev l AND NOT 0xffffffff OR ucast mc = ucast mc" by (simp only: nf(2) low_half)
  have sn: "set_n_free ?b (pg n) (mc - 1 + 1) = Ok b1"
    using nf nn low by (simp add: set_n_free_def set_prev_def b1_def)
  have no: "node_only ?b b1 {n}" using nf by (auto simp: node_only_def b1_def)
  have "n \<notin> free_set L" using n(3) blk_first[of n k] by blast
  then have p1: "pool b1 pr L" using node_only_pool[OF pl no] n32 by simp
  have no_lock: "b1\<lparr>kmem_lock := 1\<rparr> = ?b\<lparr>kmem_lock := 1, blist := blist b1\<rparr>" by (simp add: b1_def)
  have "no_merge (b1\<lparr>kmem_lock := 1\<rparr>) n k" using nm by (simp add: no_merge_def b1_def valid_buddy_pfn_def)
  then have "free_pages_nolock (b1\<lparr>kmem_lock := 1\<rparr>) (pg n) k = direct_free (b1\<lparr>kmem_lock := 1\<rparr>) (pg n) k"
    by (rule free_pages_no_merge[OF _ k(2) n(1,2)])
  moreover obtain q where q: "pages ?b (pg n) = Some q" using mp by fastforce
  moreover have "\<exists>b2. direct_free (b1\<lparr>kmem_lock := 1\<rparr>) (pg n) k = Ok b2
     \<and> pool b2 (pr(k := lh_prev (l\<lparr>lh_prev := ucast mc\<rparr>))) (L(k := n # L k))
     \<and> same_frame (b1\<lparr>kmem_lock := 1\<rparr>) b2"
    using direct_free_pool[of "b1\<lparr>kmem_lock := 1\<rparr>" pr L k n q "l\<lparr>lh_prev := ucast mc\<rparr>"] p1 k(2) n mp q
    by (auto simp: b1_def)
  ultimately obtain b2 where b2: "free_pages_nolock (b1\<lparr>kmem_lock := 1\<rparr>) (pg n) k = Ok b2"
    "pool b2 (pr(k := ucast mc)) (L(k := n # L k))" "same_frame (b1\<lparr>kmem_lock := 1\<rparr>) b2" by auto
  define b3 where "b3 = b2\<lparr>kmem_lock := 0\<rparr>"
  have p3: "pool b3 (pr(k := ucast mc)) (L(k := n # L k))" using b2(2) by (simp add: b3_def)
  have fr: "free_pages b1 (pg n) k = Ok b3" using lk(1) b2(1) by (simp add: free_pages_def b1_def b3_def)
  define s' where "s' = s\<lparr>mp_chunks := h, mp_pool := (mp_pool s)\<lparr>mpl_lock := 0, mpl_freelist := c\<rparr>, mp_buddy := b3\<rparr>"
  have "chunks_per_block ((mp_pool s)\<lparr>mpl_lock := 1\<rparr>) = Ok mc" using mx(1) by simp
  then have free: "mempool_free s c = Ok s'"
    using lk(2) c(1) gn sn fr ch(5) k(1)
    by (simp add: mempool_free_def mempool_free_nolock_def Let_def s'_def)
  have db: "dom (blist b3) = dom (blist ?b)" using b2(3) node_only_dom[OF no] by (simp add: b3_def same_frame_def)
  have "\<exists>s''. mempool_alloc 1 s' = Ok (c, s'')"
  proof -
    have "pg n \<in> dom (blist b3)" using db nf(1) by auto
    then obtain m where m: "blist b3 (pg n) = Some m" by auto
    then show ?thesis using c(2) ch(5,6) k(1) nn
      by (auto simp: mempool_alloc_def mempool_alloc_nolock.simps(2) s'_def mempool_pop_def list_pop_front_def Let_def
          get_n_free_def set_n_free_def set_prev_def)
  qed
  moreover have "blist b3 (ucast mc) = None" using db mx(3) by (metis domIff)
  moreover have "(ucast mc :: u64) \<noteq> NULL"
  proof
    assume "(ucast mc :: u64) = NULL"
    then have "(ucast (ucast mc :: u64) :: u32) = 0" by simp
    then show False using mx(2) by (simp add: ucast_up_ucast_id is_up)
  qed
  ultimately show ?thesis
    using free p3 remove_head_bad_prev[OF p3 k(2) n31] by (auto simp: s'_def)
qed

text \<open>A pool of two chunks on frame 0, of which the one at the start of the frame is in use.\<close>

definition half_used :: mp_state where
  "half_used = \<lparr>mp_pool = \<lparr>mpl_freelist = 0x1800, mpl_count = 2, mpl_size = 2048, mpl_order = 0, mpl_lock = 0\<rparr>,
     mp_self = 64, mp_chunks = [0x1000 \<mapsto> \<lparr>lh_next = 0x1800, lh_prev = 0\<rparr>, 0x1800 \<mapsto> \<lparr>lh_next = 0, lh_prev = 0x1000\<rparr>],
     mp_buddy = two_frames\<lparr>pages := [pg 0 \<mapsto> \<lparr>pg_flags = 0, pg_order = 0\<rparr>, pg 1 \<mapsto> \<lparr>pg_flags = 0, pg_order = 0\<rparr>],
       blist := [pg 0 \<mapsto> \<lparr>lh_next = 64, lh_prev = 1\<rparr>, pg 1 \<mapsto> \<lparr>lh_next = 0, lh_prev = 0\<rparr>],
       buddy_lists := replicate 16 \<lparr>fl_head = NULL, fl_count = 0\<rparr>\<rparr>, mp_hhdm = 0x1000\<rparr>"

theorem mempool_free_dangles_witness:
  "\<exists>s' s''. mempool_free half_used 0x1000 = Ok s' \<and> mempool_alloc 1 s' = Ok (0x1000, s'')
     \<and> remove_from_freelist (mp_buddy s') (pg 0) = Fault Wild_Access"
proof -
  have ne: "pg 0 \<noteq> pg 1" using pg_inj[of 0 1] by simp
  have b: "blk 0 0 = {0}" by (auto simp: blk_def)
  have 1: "pool (mp_buddy half_used) (\<lambda>_. NULL) (\<lambda>_. [])"
    by (simp add: pool_def blocks_ok_def lists_ok_def marks_ok_def half_used_def)
  have 2: "kmem_lock (mp_buddy half_used) = 0" "mpl_lock (mp_pool half_used) = 0" "0 = mpl_order (mp_pool half_used)"
    "mpl_count (mp_pool half_used) > 0"
    by (simp_all add: half_used_def two_frames_def)
  have 3: "\<forall>x \<in> blk 0 0. pg x \<in> dom (pages (mp_buddy half_used)) \<and> pg x \<in> dom (blist (mp_buddy half_used))"
    by (simp add: b half_used_def)
  have 4: "no_merge (mp_buddy half_used) 0 0" using ne by (simp add: no_merge_def bud_def half_used_def page_free_def)
  have 5: "nlist (mp_chunks half_used) (mpl_freelist (mp_pool half_used)) [0x1800]" "0x1000 \<in> dom (mp_chunks half_used)"
    by (simp_all add: half_used_def)
  have 6: "chunks_per_block (mp_pool half_used) = Ok 2" by (simp add: chunks_per_block_def half_used_def)
  have "pg 0 \<noteq> 2" "pg 1 \<noteq> 2" by (simp_all add: pg_def pfn_to_page_def sparsemap_array_def)
  then have 7: "blist (mp_buddy half_used) (ucast (2 :: u32)) = None" by (simp add: half_used_def)
  have 8: "blist (mp_buddy half_used) (pg 0) = Some \<lparr>lh_next = 64, lh_prev = 1\<rparr>" using ne by (simp add: half_used_def)
  have 9: "base_page (hhdm_to_page (mp_hhdm half_used) 0x1000) 0 = pg 0"
    by (simp add: half_used_def base_page_def hhdm_to_page_def base_pfn_def page_to_pfn_def pfn_to_page_def pg_def)
  show ?thesis
    using mempool_free_dangles[of half_used "\<lambda>_. NULL" "\<lambda>_. []" 0 0 "[0x1800]" "0x1000" 2,
        OF 1 2(1,2,3) _ _ _ _ 3 4 5(1) _ _ 5(2) 9 2(4) 6 _ 7 8]
    by (auto simp: free_set_def)
qed

end
