(* ===== verification/Slab.thy ===== *)
theory Slab
  imports Mempool
begin

section \<open>mm/slab.c and slab.h: the object allocator\<close>

text \<open>
  A cache is an element of \<open>kmalloc_caches\<close>, and a pointer to it its index. \<open>struct slab\<close>s are chunks of
  \<open>slab_mempool\<close>; their fields are in \<open>ss_slabs\<close>, their embedded list nodes in \<open>ss_links\<close>, both at the
  chunk's address. A free object holds the pointer to the next one (\<open>ss_objs\<close>). The slab of a page is the
  owner word of its \<open>struct page\<close>, which is \<open>buddy_list.next\<close> of the page allocator. The name of a cache is
  only written, and the messages printed are not modelled.
\<close>

record kmem_cache =
  kc_size :: u64
  kc_order :: nat
  kc_lock :: u64
  kc_full :: addr
  kc_partial :: addr
  kc_empty :: addr
  kc_n_full :: int
  kc_n_partial :: int
  kc_n_empty :: int

record slab =
  sl_cache :: nat
  sl_freelist :: addr
  sl_free :: int

record slab_state =
  ss_caches :: "kmem_cache list"
  ss_slabs :: "addr \<rightharpoonup> slab"
  ss_links :: lheap
  ss_objs :: sheap
  ss_mp :: mp_state

definition SLAB_COUNT :: nat where "SLAB_COUNT = 12"

definition kmalloc_sizes :: "u64 list" where
  "kmalloc_sizes = [8, 16, 32, 64, 128, 192, 256, 512, 1024, 2048, 4096, 8192]"

definition kmalloc_orders :: "nat list" where
  "kmalloc_orders = [0, 0, 0, 0, 0, 1, 1, 1, 1, 2, 2, 3]"

definition kmalloc_idx :: "u64 \<Rightarrow> u64" where
  "kmalloc_idx sz =
     (if sz \<le> 8 then 0 else if sz \<le> 16 then 1 else if sz \<le> 32 then 2 else if sz \<le> 64 then 3
      else if sz \<le> 128 then 4 else if sz \<le> 192 then 5 else if sz \<le> 256 then 6 else if sz \<le> 512 then 7
      else if sz \<le> 1024 then 8 else if sz \<le> 2048 then 9 else if sz \<le> 4096 then 10
      else if sz \<le> 8192 then 11 else sz)"

definition N_OBJECTS :: "kmem_cache \<Rightarrow> u64 result" where
  "N_OBJECTS c =
     (if 19 \<le> kc_order c then Fault Overflow
      else if kc_size c = 0 then Fault Div_By_Zero
      else Ok (push_bit (kc_order c) 4096 div kc_size c))"

definition cache_at :: "slab_state \<Rightarrow> nat \<Rightarrow> kmem_cache result" where
  "cache_at s i = (if i < length (ss_caches s) then Ok (ss_caches s ! i) else Fault Out_Of_Bounds)"

abbreviation set_cache :: "nat \<Rightarrow> kmem_cache \<Rightarrow> slab_state \<Rightarrow> slab_state" where
  "set_cache i c s \<equiv> s\<lparr>ss_caches := (ss_caches s)[i := c]\<rparr>"

text \<open>\<open>fill_page_freelist\<close>: chain the objects of a page, the last one first.\<close>

fun fill_page_loop :: "u64 \<Rightarrow> addr \<Rightarrow> nat \<Rightarrow> nat \<Rightarrow> sheap \<Rightarrow> addr \<Rightarrow> sheap \<times> addr" where
  "fill_page_loop sz page i 0 h nxt = (h, nxt)"
| "fill_page_loop sz page i (Suc n) h nxt =
     (let a = page + of_nat i * sz in fill_page_loop sz page (i + 1) n (h(a \<mapsto> nxt)) a)"

definition fill_page_freelist :: "kmem_cache \<Rightarrow> addr \<Rightarrow> sheap \<Rightarrow> (sheap \<times> addr) result" where
  "fill_page_freelist c page h = bnd (N_OBJECTS c) (\<lambda>n. Ok (fill_page_loop (kc_size c) page 0 (unat n) h NULL))"

definition kmem_insert_slab :: "slab_state \<Rightarrow> addr \<Rightarrow> slab_state result" where
  "kmem_insert_slab s p =
     bnd (fetch (ss_slabs s) p) (\<lambda>sl.
     let i = sl_cache sl in
     bnd (cache_at s i) (\<lambda>c.
     bnd (N_OBJECTS c) (\<lambda>n.
     if n = of_int (sl_free sl)
     then bnd (list_push_front (ss_links s) (kc_empty c) p) (\<lambda>(h, hd).
          Ok (set_cache i (c\<lparr>kc_n_empty := kc_n_empty c + 1, kc_empty := hd\<rparr>) (s\<lparr>ss_links := h\<rparr>)))
     else if sl_free sl = 0
     then bnd (list_push_front (ss_links s) (kc_full c) p) (\<lambda>(h, hd).
          Ok (set_cache i (c\<lparr>kc_n_full := kc_n_full c + 1, kc_full := hd\<rparr>) (s\<lparr>ss_links := h\<rparr>)))
     else bnd (list_push_front (ss_links s) (kc_partial c) p) (\<lambda>(h, hd).
          Ok (set_cache i (c\<lparr>kc_n_partial := kc_n_partial c + 1, kc_partial := hd\<rparr>) (s\<lparr>ss_links := h\<rparr>))))))"

definition kmem_get_chunk_from_slab :: "slab_state \<Rightarrow> addr \<Rightarrow> (addr \<times> slab_state) result" where
  "kmem_get_chunk_from_slab s p =
     bnd (fetch (ss_slabs s) p) (\<lambda>sl.
     bnd (slist_pop_front (ss_objs s) (sl_freelist sl)) (\<lambda>(x, hd).
     Ok (x, s\<lparr>ss_slabs := (ss_slabs s)(p \<mapsto> sl\<lparr>sl_free := sl_free sl - 1, sl_freelist := hd\<rparr>)\<rparr>)))"

definition kmem_cache_alloc_partial :: "slab_state \<Rightarrow> nat \<Rightarrow> (addr \<times> slab_state) result" where
  "kmem_cache_alloc_partial s i =
     bnd (cache_at s i) (\<lambda>c.
     bnd (list_pop_front (ss_links s) (kc_partial c)) (\<lambda>(p, hd).
     let s = set_cache i (c\<lparr>kc_partial := hd, kc_n_partial := kc_n_partial c - 1\<rparr>) s in
     bnd (kmem_get_chunk_from_slab s p) (\<lambda>(x, s).
     bnd (kmem_insert_slab s p) (\<lambda>s. Ok (x, s)))))"

definition kmem_cache_alloc_empty :: "slab_state \<Rightarrow> nat \<Rightarrow> (addr \<times> slab_state) result" where
  "kmem_cache_alloc_empty s i =
     bnd (cache_at s i) (\<lambda>c.
     bnd (list_pop_front (ss_links s) (kc_empty c)) (\<lambda>(p, hd).
     let s = set_cache i (c\<lparr>kc_empty := hd, kc_n_empty := kc_n_empty c - 1\<rparr>) s in
     bnd (kmem_get_chunk_from_slab s p) (\<lambda>(x, s).
     bnd (kmem_insert_slab s p) (\<lambda>s. Ok (x, s)))))"

text \<open>The freelist of a new slab; what an object held before is overwritten, not read.\<close>

fun fill_objs :: "u64 \<Rightarrow> addr \<Rightarrow> nat \<Rightarrow> nat \<Rightarrow> sheap \<Rightarrow> addr \<Rightarrow> (sheap \<times> addr) result" where
  "fill_objs sz page i 0 h head = Ok (h, head)"
| "fill_objs sz page i (Suc n) h head =
     (let cur = page + sz * of_nat i in
      bnd (slist_push_front (h(cur \<mapsto> 0)) head cur) (\<lambda>(h, head). fill_objs sz page (i + 1) n h head))"

text \<open>
  The error path releases both allocations, NULL or not, and then runs off the end of the function,
  whose result the caller uses.
\<close>

definition kmem_cache_new_empty :: "slab_state \<Rightarrow> nat \<Rightarrow> slab_state result" where
  "kmem_cache_new_empty s i =
     bnd (cache_at s i) (\<lambda>c.
     let mp = ss_mp s in
     bnd (alloc_pages (mp_hhdm mp) (mp_buddy mp) (kc_order c) 0) (\<lambda>(new_page, b).
     bnd (mempool_zalloc 2 (mp\<lparr>mp_buddy := b\<rparr>)) (\<lambda>(new_slab, mp).
     if new_page = NULL \<or> new_slab = NULL
     then bnd (free_pages (mp_buddy mp) new_page (kc_order c)) (\<lambda>b.
          bnd (mempool_free (mp\<lparr>mp_buddy := b\<rparr>) new_slab) (\<lambda>mp. Fault No_Return))
     else
     bnd (own_pages (2 ^ kc_order c) new_page new_slab (mp_buddy mp)) (\<lambda>b.
     bnd (N_OBJECTS c) (\<lambda>n.
     bnd (fill_objs (kc_size c) (page_to_virt (mp_hhdm mp) new_page) 0 (unat n) (ss_objs s) NULL) (\<lambda>(h, head).
     kmem_insert_slab (s\<lparr>ss_mp := mp\<lparr>mp_buddy := b\<rparr>, ss_objs := h,
        ss_slabs := (ss_slabs s)(new_slab \<mapsto> \<lparr>sl_cache = i, sl_freelist = head, sl_free = int (unat n)\<rparr>),
        ss_links := (ss_links s)(new_slab \<mapsto> \<lparr>lh_next = NULL, lh_prev = NULL\<rparr>)\<rparr>) new_slab))))))"

definition kmem_cache_alloc_nolock :: "slab_state \<Rightarrow> nat \<Rightarrow> (addr \<times> slab_state) result" where
  "kmem_cache_alloc_nolock s i =
     bnd (cache_at s i) (\<lambda>c.
     if kc_n_partial c \<noteq> 0 then kmem_cache_alloc_partial s i
     else if kc_n_empty c \<noteq> 0 then kmem_cache_alloc_empty s i
     else bnd (kmem_cache_new_empty s i) (\<lambda>s. kmem_cache_alloc_empty s i))"

definition lock_cache :: "slab_state \<Rightarrow> nat \<Rightarrow> slab_state result" where
  "lock_cache s i =
     bnd (cache_at s i) (\<lambda>c. bnd (lock_word (kc_lock c)) (\<lambda>l. Ok (set_cache i (c\<lparr>kc_lock := l\<rparr>) s)))"

definition unlock_cache :: "slab_state \<Rightarrow> nat \<Rightarrow> slab_state result" where
  "unlock_cache s i = bnd (cache_at s i) (\<lambda>c. Ok (set_cache i (c\<lparr>kc_lock := unlock_word (kc_lock c)\<rparr>) s))"

definition kmem_cache_alloc :: "slab_state \<Rightarrow> nat \<Rightarrow> (addr \<times> slab_state) result" where
  "kmem_cache_alloc s i =
     bnd (lock_cache s i) (\<lambda>s.
     bnd (kmem_cache_alloc_nolock s i) (\<lambda>(x, s).
     bnd (unlock_cache s i) (\<lambda>s. Ok (x, s))))"

definition page_slab :: "slab_state \<Rightarrow> addr \<Rightarrow> addr result" where
  "page_slab s chunk =
     bnd (fetch (blist (mp_buddy (ss_mp s))) (hhdm_to_page (mp_hhdm (ss_mp s)) chunk)) (\<lambda>n. Ok (lh_next n))"

definition kmem_cache_free_nolock :: "slab_state \<Rightarrow> nat \<Rightarrow> addr \<Rightarrow> slab_state result" where
  "kmem_cache_free_nolock s i chunk =
     bnd (page_slab s chunk) (\<lambda>p.
     bnd (fetch (ss_slabs s) p) (\<lambda>sl.
     bnd (cache_at s i) (\<lambda>c.
     bnd (if sl_free sl = 0
          then bnd (list_remove_node (ss_links s) (kc_full c) p) (\<lambda>(h, hd).
               Ok (set_cache i (c\<lparr>kc_full := hd, kc_n_full := kc_n_full c - 1\<rparr>) (s\<lparr>ss_links := h\<rparr>)))
          else if sl_free sl > 0
          then bnd (list_remove_node (ss_links s) (kc_partial c) p) (\<lambda>(h, hd).
               Ok (set_cache i (c\<lparr>kc_partial := hd, kc_n_partial := kc_n_partial c - 1\<rparr>) (s\<lparr>ss_links := h\<rparr>)))
          else Ok s) (\<lambda>s.
     bnd (slist_push_front (ss_objs s) (sl_freelist sl) chunk) (\<lambda>(h, hd).
     kmem_insert_slab (s\<lparr>ss_objs := h,
       ss_slabs := (ss_slabs s)(p \<mapsto> sl\<lparr>sl_freelist := hd, sl_free := sl_free sl + 1\<rparr>)\<rparr>) p)))))"

definition kmem_cache_free :: "slab_state \<Rightarrow> nat \<Rightarrow> addr \<Rightarrow> slab_state result" where
  "kmem_cache_free s i chunk =
     bnd (lock_cache s i) (\<lambda>s. bnd (kmem_cache_free_nolock s i chunk) (\<lambda>s. unlock_cache s i))"

definition kmalloc :: "slab_state \<Rightarrow> u64 \<Rightarrow> (addr \<times> slab_state) result" where
  "kmalloc s sz =
     (if sz > kmalloc_sizes ! (SLAB_COUNT - 1) then Ok (NULL, s)
      else kmem_cache_alloc s (unat (kmalloc_idx sz)))"

definition kfree :: "slab_state \<Rightarrow> addr \<Rightarrow> slab_state result" where
  "kfree s chunk =
     bnd (page_slab s chunk) (\<lambda>p.
     bnd (fetch (ss_slabs s) p) (\<lambda>sl.
     bnd (cache_at s (sl_cache sl)) (\<lambda>_.
     kmem_cache_free s (sl_cache sl) chunk)))"

text \<open>
  \<open>slab_init\<close>: \<open>sizeof(struct slab)\<close> is 40. The rest of the caches' fields stay as they were, zero at boot.
  The function ends with allocations and frees of sixteen samples.
\<close>

fun kmalloc_times :: "nat \<Rightarrow> u64 \<Rightarrow> slab_state \<Rightarrow> (addr list \<times> slab_state) result" where
  "kmalloc_times 0 sz s = Ok ([], s)"
| "kmalloc_times (Suc n) sz s =
     bnd (kmalloc s sz) (\<lambda>(x, s). bnd (kmalloc_times n sz s) (\<lambda>(xs, s). Ok (x # xs, s)))"

fun kfree_all :: "addr list \<Rightarrow> slab_state \<Rightarrow> slab_state result" where
  "kfree_all [] s = Ok s"
| "kfree_all (x # xs) s = bnd (kfree s x) (kfree_all xs)"

definition slab_init :: "slab_state \<Rightarrow> slab_state result" where
  "slab_init s =
     bnd (mempool_init (mp_pool (ss_mp s)) 40 1) (\<lambda>mp.
     let s = s\<lparr>ss_mp := (ss_mp s)\<lparr>mp_pool := mp\<rparr>,
               ss_caches := map2 (\<lambda>c (sz, k). c\<lparr>kc_size := sz, kc_order := k\<rparr>) (ss_caches s) (zip kmalloc_sizes kmalloc_orders)\<rparr> in
     bnd (kmalloc_times 16 8192 s) (\<lambda>(samples, s).
     bnd (kfree_all samples s) (\<lambda>s.
     bnd (kmalloc_times 16 8192 s) (\<lambda>(_, s). Ok s))))"

section \<open>Size classes\<close>

text \<open>Both sides walk through the classes in the same order.\<close>

lemma kmalloc_idx_count:
  assumes "sz \<le> 8192"
  shows "unat (kmalloc_idx sz) = length (takeWhile (\<lambda>c. \<not> sz \<le> c) kmalloc_sizes)"
proof -
  have u: "unat (if b then x else y) = (if b then unat x else unat y)" for b and x y :: u64 by simp
  have l: "length (if \<not> b then x # xs else []) = (if b then 0 else Suc (length xs))" for b and x :: u64 and xs by simp
  have d: "Suc (if b then x else y) = (if b then Suc x else Suc y)" for b x y by simp
  show ?thesis using assms unfolding kmalloc_idx_def kmalloc_sizes_def takeWhile.simps
    by (simp split del: if_split add: u l d cong: if_cong) (simp only: eval_nat_numeral One_nat_def BitM.simps)
qed

lemma takeWhile_class:
  assumes "\<exists>c \<in> set cs. sz \<le> c"
  shows "length (takeWhile (\<lambda>c. \<not> sz \<le> c) cs) < length cs
     \<and> sz \<le> cs ! length (takeWhile (\<lambda>c. \<not> sz \<le> c) cs)
     \<and> (\<forall>j < length (takeWhile (\<lambda>c. \<not> sz \<le> c) cs). \<not> sz \<le> cs ! j)"
  using assms
proof (induction cs)
  case (Cons c cs)
  show ?case
  proof (cases "sz \<le> c")
    case False
    then have ih: "length (takeWhile (\<lambda>c. \<not> sz \<le> c) cs) < length cs
     \<and> sz \<le> cs ! length (takeWhile (\<lambda>c. \<not> sz \<le> c) cs)
     \<and> (\<forall>j < length (takeWhile (\<lambda>c. \<not> sz \<le> c) cs). \<not> sz \<le> cs ! j)" using Cons by simp
    then show ?thesis using False by (auto simp: nth_Cons split: nat.splits)
  qed simp
qed simp

text \<open>
  \<open>kmalloc_idx\<close> picks the smallest size class that fits. For every size up to 8192 the index is in
  range, the class is large enough, and every class before it is too small.
\<close>

theorem kmalloc_idx_best_fit:
  assumes "sz \<le> 8192"
  shows "unat (kmalloc_idx sz) < SLAB_COUNT \<and> sz \<le> kmalloc_sizes ! unat (kmalloc_idx sz)
     \<and> (\<forall>j < unat (kmalloc_idx sz). kmalloc_sizes ! j < sz)"
proof -
  have "\<exists>c \<in> set kmalloc_sizes. sz \<le> c" using assms by (simp add: kmalloc_sizes_def)
  from takeWhile_class[OF this] show ?thesis
    unfolding kmalloc_idx_count[OF assms] by (simp add: SLAB_COUNT_def kmalloc_sizes_def not_le)
qed

theorem kmalloc_idx_best_fit_witness:
  "(100 :: u64) \<le> kmalloc_sizes ! unat (kmalloc_idx 100) \<and> kmalloc_sizes ! unat (kmalloc_idx 100) = 128"
  using kmalloc_idx_best_fit[of 100] by (simp add: kmalloc_idx_def kmalloc_sizes_def)

section \<open>Well-formed caches\<close>

text \<open>
  \<open>oseg h p xs\<close>: the free objects \<open>xs\<close> are chained from \<open>p\<close>. \<open>cache_inv s i F P E obs\<close>: cache \<open>i\<close> has the
  full slabs \<open>F\<close>, partial slabs \<open>P\<close> and empty slabs \<open>E\<close>, each in its list, with exact counts, and
  \<open>obs p\<close> are the free objects of slab \<open>p\<close>. The \<open>prev\<close> pointers of the slab lists are left open,
  because the code does not maintain them.
\<close>

fun oseg :: "sheap \<Rightarrow> addr \<Rightarrow> addr list \<Rightarrow> bool" where
  "oseg h p [] \<longleftrightarrow> p = NULL"
| "oseg h p (a # xs) \<longleftrightarrow> p = a \<and> a \<noteq> NULL \<and> (\<exists>nx. h a = Some nx \<and> oseg h nx xs)"

lemma oseg_upd [simp]: "a \<notin> set xs \<Longrightarrow> oseg (h(a := y)) p xs = oseg h p xs"
  by (induction xs arbitrary: p) auto

definition slab_ok :: "slab_state \<Rightarrow> nat \<Rightarrow> (addr \<Rightarrow> addr list) \<Rightarrow> addr \<Rightarrow> bool" where
  "slab_ok s i obs p \<longleftrightarrow> p \<noteq> NULL \<and> p \<in> dom (ss_links s) \<and>
     (\<exists>sl. ss_slabs s p = Some sl \<and> sl_cache sl = i \<and> sl_free sl = int (length (obs p))
         \<and> oseg (ss_objs s) (sl_freelist sl) (obs p))"

definition slab_lists :: "slab_state \<Rightarrow> nat \<Rightarrow> addr list \<Rightarrow> addr list \<Rightarrow> addr list \<Rightarrow> bool" where
  "slab_lists s i F P E \<longleftrightarrow> i < length (ss_caches s) \<and> distinct (F @ P @ E)
     \<and> (let c = ss_caches s ! i in
        nlist (ss_links s) (kc_full c) F \<and> nlist (ss_links s) (kc_partial c) P \<and> nlist (ss_links s) (kc_empty c) E
        \<and> kc_n_full c = int (length F) \<and> kc_n_partial c = int (length P) \<and> kc_n_empty c = int (length E))"

definition objs_apart :: "(addr \<Rightarrow> addr list) \<Rightarrow> addr set \<Rightarrow> bool" where
  "objs_apart obs S \<longleftrightarrow> (\<forall>p \<in> S. distinct (obs p))
     \<and> (\<forall>p \<in> S. \<forall>q \<in> S. p \<noteq> q \<longrightarrow> set (obs p) \<inter> set (obs q) = {})"

definition cache_inv :: "slab_state \<Rightarrow> nat \<Rightarrow> nat \<Rightarrow> addr list \<Rightarrow> addr list \<Rightarrow> addr list \<Rightarrow> (addr \<Rightarrow> addr list) \<Rightarrow> bool" where
  "cache_inv s i n F P E obs \<longleftrightarrow> slab_lists s i F P E
     \<and> (\<exists>w. N_OBJECTS (ss_caches s ! i) = Ok w \<and> unat w = n) \<and> 0 < n \<and> n < 2 ^ 31
     \<and> (\<forall>p \<in> set (F @ P @ E). slab_ok s i obs p)
     \<and> (\<forall>p \<in> set F. obs p = []) \<and> (\<forall>p \<in> set P. 0 < length (obs p) \<and> length (obs p) < n)
     \<and> (\<forall>p \<in> set E. length (obs p) = n) \<and> objs_apart obs (set (F @ P @ E))"

lemma N_OBJECTS_cong: "kc_size c' = kc_size c \<Longrightarrow> kc_order c' = kc_order c \<Longrightarrow> N_OBJECTS c' = N_OBJECTS c"
  by (simp add: N_OBJECTS_def)

lemma N_OBJECTS_upd [simp]:
  "N_OBJECTS (c\<lparr>kc_lock := l\<rparr>) = N_OBJECTS c"
  "N_OBJECTS (c\<lparr>kc_partial := a, kc_n_partial := m\<rparr>) = N_OBJECTS c"
  "N_OBJECTS (c\<lparr>kc_empty := a, kc_n_empty := m\<rparr>) = N_OBJECTS c"
  by (simp_all add: N_OBJECTS_def)

text \<open>Which list a slab goes to.\<close>

lemma objects_compare:
  assumes "N_OBJECTS c = Ok w" and "unat w < 2 ^ 31" and "m < 2 ^ 31"
  shows "w = of_int (int m) \<longleftrightarrow> unat w = m"
proof -
  have "unat (of_nat m :: u64) = m" by (rule unat_offset) (use assms(3) in simp)
  then show ?thesis by (metis of_int_of_nat_eq of_nat_unat ucast_id)
qed

lemma insert_slab_frame:
  assumes l: "slab_lists s i F P E" and p: "p \<notin> set (F @ P @ E)" "slab_ok s i obs p"
    and w: "N_OBJECTS (ss_caches s ! i) = Ok w" "unat w < 2 ^ 31" "length (obs p) < 2 ^ 31" "unat w \<noteq> 0"
  shows "\<exists>s' F' P' E'. kmem_insert_slab s p = Ok s' \<and> slab_lists s' i F' P' E'
     \<and> (F', P', E') = (if length (obs p) = unat w then (F, P, p # E) else if obs p = [] then (p # F, P, E) else (F, p # P, E))
     \<and> ss_slabs s' = ss_slabs s \<and> ss_objs s' = ss_objs s \<and> ss_mp s' = ss_mp s \<and> dom (ss_links s') = dom (ss_links s)
     \<and> length (ss_caches s') = length (ss_caches s) \<and> (\<forall>j. j \<noteq> i \<longrightarrow> ss_caches s' ! j = ss_caches s ! j)
     \<and> kc_lock (ss_caches s' ! i) = kc_lock (ss_caches s ! i)
     \<and> kc_size (ss_caches s' ! i) = kc_size (ss_caches s ! i) \<and> kc_order (ss_caches s' ! i) = kc_order (ss_caches s ! i)"
proof -
  let ?c = "ss_caches s ! i"
  obtain sl where sl: "ss_slabs s p = Some sl" "sl_cache sl = i" "sl_free sl = int (length (obs p))"
    and pn: "p \<noteq> NULL" "p \<in> dom (ss_links s)"
    using p(2) by (auto simp: slab_ok_def)
  obtain lp where lp: "ss_links s p = Some lp" using pn(2) by auto
  have i: "i < length (ss_caches s)" and d: "distinct (F @ P @ E)"
    and nl: "nlist (ss_links s) (kc_full ?c) F" "nlist (ss_links s) (kc_partial ?c) P" "nlist (ss_links s) (kc_empty ?c) E"
    and cn: "kc_n_full ?c = int (length F)" "kc_n_partial ?c = int (length P)" "kc_n_empty ?c = int (length E)"
    using l by (auto simp: slab_lists_def Let_def)
  have cmp: "w = of_int (sl_free sl) \<longleftrightarrow> unat w = length (obs p)"
    using objects_compare[OF w(1,2,3)] sl(3) by simp
  have dm: "dom h' = dom (ss_links s)" if "same_next {p} (ss_links s) h'" "nlist h' p (p # xs)" for h' xs
  proof (rule set_eqI)
    fix b show "b \<in> dom h' \<longleftrightarrow> b \<in> dom (ss_links s)"
      using same_next_dom[OF that(1), of b] that(2) pn(2) by (cases "b = p") auto
  qed
  consider "unat w = length (obs p)" | "unat w \<noteq> length (obs p)" "obs p = []" | "unat w \<noteq> length (obs p)" "obs p \<noteq> []" by blast
  then show ?thesis
  proof cases
    case 1
    obtain h' where h: "list_push_front (ss_links s) (kc_empty ?c) p = Ok (h', p)" "nlist h' p (p # E)" "same_next {p} (ss_links s) h'"
      using nlist_push_frame[OF nl(3) _ pn(1) lp] p(1) by auto
    then show ?thesis using 1 cmp sl i d p(1) pn(1) w(1) cn dm[OF h(3,2)] nlist_same_next[OF nl(1) h(3)] nlist_same_next[OF nl(2) h(3)]
      by (simp add: kmem_insert_slab_def Let_def cache_at_def slab_lists_def)
  next
    case 2
    obtain h' where h: "list_push_front (ss_links s) (kc_full ?c) p = Ok (h', p)" "nlist h' p (p # F)" "same_next {p} (ss_links s) h'"
      using nlist_push_frame[OF nl(1) _ pn(1) lp] p(1) by auto
    then show ?thesis using 2 cmp sl i d p(1) pn(1) w(1) cn dm[OF h(3,2)] nlist_same_next[OF nl(3) h(3)] nlist_same_next[OF nl(2) h(3)]
      by (simp add: kmem_insert_slab_def Let_def cache_at_def slab_lists_def)
  next
    case 3
    obtain h' where h: "list_push_front (ss_links s) (kc_partial ?c) p = Ok (h', p)" "nlist h' p (p # P)" "same_next {p} (ss_links s) h'"
      using nlist_push_frame[OF nl(2) _ pn(1) lp] p(1) by auto
    then show ?thesis using 3 cmp sl i d p(1) pn(1) w(1) cn dm[OF h(3,2)] nlist_same_next[OF nl(1) h(3)] nlist_same_next[OF nl(3) h(3)]
      by (simp add: kmem_insert_slab_def Let_def cache_at_def slab_lists_def)
  qed
qed

text \<open>Taking an object from a slab that is in no list, and putting the slab back.\<close>

lemma take_and_insert:
  assumes l: "slab_lists s i F P E" and p: "p \<notin> set (F @ P @ E)" "slab_ok s i obs p" "obs p = x # xs"
    and w: "N_OBJECTS (ss_caches s ! i) = Ok w" "unat w < 2 ^ 31" "length (obs p) \<le> unat w"
  shows "\<exists>s' F' P'. bnd (kmem_get_chunk_from_slab s p) (\<lambda>(x, s). bnd (kmem_insert_slab s p) (\<lambda>s. Ok (x, s))) = Ok (x, s')
     \<and> slab_lists s' i F' P' E \<and> (F', P') = (if xs = [] then (p # F, P) else (F, p # P))
     \<and> ss_slabs s' = (ss_slabs s)(p \<mapsto> (the (ss_slabs s p))\<lparr>sl_free := int (length xs), sl_freelist := (case xs of [] \<Rightarrow> NULL | a # _ \<Rightarrow> a)\<rparr>)
     \<and> ss_objs s' = ss_objs s \<and> ss_mp s' = ss_mp s \<and> dom (ss_links s') = dom (ss_links s)
     \<and> N_OBJECTS (ss_caches s' ! i) = Ok w \<and> length (ss_caches s') = length (ss_caches s)
     \<and> (\<forall>j. j \<noteq> i \<longrightarrow> ss_caches s' ! j = ss_caches s ! j)"
proof -
  obtain sl where sl: "ss_slabs s p = Some sl" "sl_cache sl = i" "sl_free sl = int (Suc (length xs))"
    "oseg (ss_objs s) (sl_freelist sl) (x # xs)" and pn: "p \<noteq> NULL" "p \<in> dom (ss_links s)"
    using p(2,3) by (auto simp: slab_ok_def)
  obtain nx where nx: "sl_freelist sl = x" "x \<noteq> NULL" "ss_objs s x = Some nx" "oseg (ss_objs s) nx xs"
    using sl(4) by auto
  have nxh: "nx = (case xs of [] \<Rightarrow> NULL | a # _ \<Rightarrow> a)" using nx(4) by (cases xs) auto
  let ?s = "s\<lparr>ss_slabs := (ss_slabs s)(p \<mapsto> sl\<lparr>sl_free := int (length xs), sl_freelist := nx\<rparr>)\<rparr>"
  have g: "kmem_get_chunk_from_slab s p = Ok (x, ?s)"
    using sl pn nx by (simp add: kmem_get_chunk_from_slab_def slist_pop_front_def)
  have l': "slab_lists ?s i F P E" using l by (simp add: slab_lists_def)
  have ok: "slab_ok ?s i (obs(p := xs)) p" using sl pn nx by (simp add: slab_ok_def)
  have lw: "length xs < unat w" using w(3) p(3) by simp
  have "\<exists>s' F' P' E'. kmem_insert_slab ?s p = Ok s' \<and> slab_lists s' i F' P' E'
     \<and> (F', P', E') = (if length ((obs(p := xs)) p) = unat w then (F, P, p # E) else if (obs(p := xs)) p = [] then (p # F, P, E) else (F, p # P, E))
     \<and> ss_slabs s' = ss_slabs ?s \<and> ss_objs s' = ss_objs ?s \<and> ss_mp s' = ss_mp ?s \<and> dom (ss_links s') = dom (ss_links ?s)
     \<and> length (ss_caches s') = length (ss_caches ?s) \<and> (\<forall>j. j \<noteq> i \<longrightarrow> ss_caches s' ! j = ss_caches ?s ! j)
     \<and> kc_lock (ss_caches s' ! i) = kc_lock (ss_caches ?s ! i)
     \<and> kc_size (ss_caches s' ! i) = kc_size (ss_caches ?s ! i) \<and> kc_order (ss_caches s' ! i) = kc_order (ss_caches ?s ! i)"
    by (rule insert_slab_frame[OF l' p(1) ok]) (use w lw in simp_all)
  then obtain s' F' P' E' where r: "kmem_insert_slab ?s p = Ok s'" "slab_lists s' i F' P' E'"
     "(F', P', E') = (if length xs = unat w then (F, P, p # E) else if xs = [] then (p # F, P, E) else (F, p # P, E))"
     "ss_slabs s' = ss_slabs ?s" "ss_objs s' = ss_objs s" "ss_mp s' = ss_mp s" "dom (ss_links s') = dom (ss_links s)"
     "length (ss_caches s') = length (ss_caches s)" "\<forall>j. j \<noteq> i \<longrightarrow> ss_caches s' ! j = ss_caches s ! j"
     "kc_size (ss_caches s' ! i) = kc_size (ss_caches s ! i)" "kc_order (ss_caches s' ! i) = kc_order (ss_caches s ! i)"
    by auto
  have "E' = E" "(F', P') = (if xs = [] then (p # F, P) else (F, p # P))" using r(3) lw by (auto split: if_splits)
  moreover have "N_OBJECTS (ss_caches s' ! i) = Ok w" using w(1) N_OBJECTS_cong[OF r(10,11)] by simp
  ultimately show ?thesis using g r sl(1) nxh by (intro exI[of _ s'] exI[of _ F'] exI[of _ P']) simp
qed

lemma cache_lists: "slab_lists s i F P E \<Longrightarrow> i < length (ss_caches s)"
  by (simp add: slab_lists_def)

text \<open>The steps of \<open>kmem_cache_alloc\<close> around the slab operations.\<close>

lemma lock_cache_free:
  assumes "i < length (ss_caches s)" and "kc_lock (ss_caches s ! i) = 0"
  shows "lock_cache s i = Ok (set_cache i ((ss_caches s ! i)\<lparr>kc_lock := 1\<rparr>) s)"
  using assms by (simp add: lock_cache_def cache_at_def)

lemma slab_lists_lock [simp]:
  "i < length (ss_caches s) \<Longrightarrow> slab_lists (set_cache i ((ss_caches s ! i)\<lparr>kc_lock := l\<rparr>) s) i F P E = slab_lists s i F P E"
  by (simp add: slab_lists_def Let_def)

lemma alloc_partial_step:
  assumes l: "slab_lists s i F (p # P) E" and p: "slab_ok s i obs p" "obs p = x # xs"
    and w: "N_OBJECTS (ss_caches s ! i) = Ok w" "unat w < 2 ^ 31" "length (obs p) \<le> unat w"
  shows "\<exists>s' F' P'. kmem_cache_alloc_partial s i = Ok (x, s')
     \<and> slab_lists s' i F' P' E \<and> (F', P') = (if xs = [] then (p # F, P) else (F, p # P))
     \<and> ss_slabs s' = (ss_slabs s)(p \<mapsto> (the (ss_slabs s p))\<lparr>sl_free := int (length xs), sl_freelist := (case xs of [] \<Rightarrow> NULL | a # _ \<Rightarrow> a)\<rparr>)
     \<and> ss_objs s' = ss_objs s \<and> ss_mp s' = ss_mp s \<and> dom (ss_links s') = dom (ss_links s)
     \<and> N_OBJECTS (ss_caches s' ! i) = Ok w \<and> length (ss_caches s') = length (ss_caches s)
     \<and> (\<forall>j. j \<noteq> i \<longrightarrow> ss_caches s' ! j = ss_caches s ! j)"
proof -
  let ?c = "ss_caches s ! i"
  obtain n where n: "ss_links s p = Some n" "kc_partial ?c = p" "p \<noteq> NULL" "nlist (ss_links s) (lh_next n) P"
    using l by (auto simp: slab_lists_def Let_def)
  let ?t = "set_cache i (?c\<lparr>kc_partial := lh_next n, kc_n_partial := kc_n_partial ?c - 1\<rparr>) s"
  have i: "i < length (ss_caches s)" by (rule cache_lists[OF l])
  have lt: "slab_lists ?t i F P E" using l n by (auto simp: slab_lists_def Let_def)
  have pt: "p \<notin> set (F @ P @ E)" "slab_ok ?t i obs p" "N_OBJECTS (ss_caches ?t ! i) = Ok w"
    using l p(1) w(1) i by (auto simp: slab_lists_def slab_ok_def)
  have "kmem_cache_alloc_partial s i
      = bnd (kmem_get_chunk_from_slab ?t p) (\<lambda>(x, s). bnd (kmem_insert_slab s p) (\<lambda>s. Ok (x, s)))"
    using n i by (simp add: kmem_cache_alloc_partial_def cache_at_def list_pop_front_def Let_def)
  then show ?thesis using take_and_insert[OF lt pt(1,2) p(2) pt(3) w(2,3)] by simp
qed

lemma alloc_empty_step:
  assumes l: "slab_lists s i F P (p # E)" and p: "slab_ok s i obs p" "obs p = x # xs"
    and w: "N_OBJECTS (ss_caches s ! i) = Ok w" "unat w < 2 ^ 31" "length (obs p) \<le> unat w"
  shows "\<exists>s' F' P'. kmem_cache_alloc_empty s i = Ok (x, s')
     \<and> slab_lists s' i F' P' E \<and> (F', P') = (if xs = [] then (p # F, P) else (F, p # P))
     \<and> ss_slabs s' = (ss_slabs s)(p \<mapsto> (the (ss_slabs s p))\<lparr>sl_free := int (length xs), sl_freelist := (case xs of [] \<Rightarrow> NULL | a # _ \<Rightarrow> a)\<rparr>)
     \<and> ss_objs s' = ss_objs s \<and> ss_mp s' = ss_mp s \<and> dom (ss_links s') = dom (ss_links s)
     \<and> N_OBJECTS (ss_caches s' ! i) = Ok w \<and> length (ss_caches s') = length (ss_caches s)
     \<and> (\<forall>j. j \<noteq> i \<longrightarrow> ss_caches s' ! j = ss_caches s ! j)"
proof -
  let ?c = "ss_caches s ! i"
  obtain n where n: "ss_links s p = Some n" "kc_empty ?c = p" "p \<noteq> NULL" "nlist (ss_links s) (lh_next n) E"
    using l by (auto simp: slab_lists_def Let_def)
  let ?t = "set_cache i (?c\<lparr>kc_empty := lh_next n, kc_n_empty := kc_n_empty ?c - 1\<rparr>) s"
  have i: "i < length (ss_caches s)" by (rule cache_lists[OF l])
  have lt: "slab_lists ?t i F P E" using l n by (auto simp: slab_lists_def Let_def)
  have pt: "p \<notin> set (F @ P @ E)" "slab_ok ?t i obs p" "N_OBJECTS (ss_caches ?t ! i) = Ok w"
    using l p(1) w(1) i by (auto simp: slab_lists_def slab_ok_def)
  have "kmem_cache_alloc_empty s i
      = bnd (kmem_get_chunk_from_slab ?t p) (\<lambda>(x, s). bnd (kmem_insert_slab s p) (\<lambda>s. Ok (x, s)))"
    using n i by (simp add: kmem_cache_alloc_empty_def cache_at_def list_pop_front_def Let_def)
  then show ?thesis using take_and_insert[OF lt pt(1,2) p(2) pt(3) w(2,3)] by simp
qed

definition free_objs :: "(addr \<Rightarrow> addr list) \<Rightarrow> addr set \<Rightarrow> addr set" where
  "free_objs obs S = (\<Union>p \<in> S. set (obs p))"

lemma objs_apart_tl:
  assumes "objs_apart obs S" and "p \<in> S" and "obs p = x # xs"
  shows "objs_apart (obs(p := xs)) S" and "free_objs (obs(p := xs)) S = free_objs obs S - {x}" and "x \<in> free_objs obs S"
proof -
  have d: "\<And>p. p \<in> S \<Longrightarrow> distinct (obs p)" and a: "\<And>p q. p \<in> S \<Longrightarrow> q \<in> S \<Longrightarrow> p \<noteq> q \<Longrightarrow> set (obs p) \<inter> set (obs q) = {}"
    using assms(1) by (auto simp: objs_apart_def)
  have x: "x \<notin> set (obs q)" if "q \<in> S" "q \<noteq> p" for q using a[OF that(1) assms(2) that(2)] assms(3) by auto
  have sub: "set ((obs(p := xs)) q) \<subseteq> set (obs q)" for q using assms(3) by auto
  have "distinct ((obs(p := xs)) q)" if "q \<in> S" for q using d[OF that] d[OF assms(2)] assms(3) by simp
  moreover have "set ((obs(p := xs)) q) \<inter> set ((obs(p := xs)) r) = {}" if "q \<in> S" "r \<in> S" "q \<noteq> r" for q r
    using a[OF that] sub[of q] sub[of r] by blast
  ultimately show "objs_apart (obs(p := xs)) S" unfolding objs_apart_def by blast
  have "x \<notin> set xs" using d[OF assms(2)] assms(3) by simp
  moreover have "free_objs obs S = insert x (set xs \<union> (\<Union>q \<in> S - {p}. set (obs q)))"
    "free_objs (obs(p := xs)) S = set xs \<union> (\<Union>q \<in> S - {p}. set (obs q))"
    using assms(2,3) by (auto simp: free_objs_def split: if_splits)
  ultimately show "free_objs (obs(p := xs)) S = free_objs obs S - {x}" using x by auto
  show "x \<in> free_objs obs S" unfolding free_objs_def by (rule UN_I[OF assms(2)]) (simp add: assms(3))
qed

lemma slab_ok_after_take:
  assumes "slab_ok s i obs q" and "p \<in> S" and "q \<in> S" and "objs_apart obs S" and "slab_ok s i obs p" and "obs p = x # xs"
    and "ss_slabs s' = (ss_slabs s)(p \<mapsto> (the (ss_slabs s p))\<lparr>sl_free := int (length xs), sl_freelist := (case xs of [] \<Rightarrow> NULL | a # _ \<Rightarrow> a)\<rparr>)"
    and "ss_objs s' = ss_objs s" and "dom (ss_links s') = dom (ss_links s)"
  shows "slab_ok s' i (obs(p := xs)) q"
proof (cases "q = p")
  case False
  then show ?thesis using assms(1,7,8,9) by (simp add: slab_ok_def)
next
  case True
  obtain sl where sl: "ss_slabs s p = Some sl" "sl_cache sl = i" "oseg (ss_objs s) (sl_freelist sl) (x # xs)"
    "p \<noteq> NULL" "p \<in> dom (ss_links s)"
    using assms(5,6) by (auto simp: slab_ok_def)
  have "oseg (ss_objs s) (case xs of [] \<Rightarrow> NULL | a # _ \<Rightarrow> a) xs"
    using sl(3) by (cases xs) auto
  then show ?thesis using True sl assms(7,8,9) by (simp add: slab_ok_def)
qed

lemma kmem_cache_alloc_step:
  assumes inv: "cache_inv s i n F P E obs" and lock: "kc_lock (ss_caches s ! i) = 0" and ne: "P @ E \<noteq> []"
  shows "\<exists>x xs s' F' P' E'. obs (hd (P @ E)) = x # xs \<and> kmem_cache_alloc s i = Ok (x, s')
     \<and> cache_inv s' i n F' P' E' (obs(hd (P @ E) := xs)) \<and> set (F' @ P' @ E') = set (F @ P @ E)
     \<and> kc_lock (ss_caches s' ! i) = 0 \<and> ss_mp s' = ss_mp s \<and> (\<forall>j. j \<noteq> i \<longrightarrow> ss_caches s' ! j = ss_caches s ! j)"
proof -
  define p where "p = hd (P @ E)"
  define Q where "Q = tl P"
  define D where "D = (if P = [] then tl E else E)"
  have sl: "slab_lists s i F P E" and ok: "\<And>q. q \<in> set (F @ P @ E) \<Longrightarrow> slab_ok s i obs q"
    and lens: "\<And>q. q \<in> set F \<Longrightarrow> obs q = []" "\<And>q. q \<in> set P \<Longrightarrow> 0 < length (obs q) \<and> length (obs q) < n"
      "\<And>q. q \<in> set E \<Longrightarrow> length (obs q) = n"
    and n: "0 < n" "n < 2 ^ 31" and ap: "objs_apart obs (set (F @ P @ E))"
    using inv unfolding cache_inv_def by auto
  obtain w where w: "N_OBJECTS (ss_caches s ! i) = Ok w" "unat w = n" using inv by (auto simp: cache_inv_def)
  have i: "i < length (ss_caches s)" by (rule cache_lists[OF sl])
  have pS: "p \<in> set (F @ P @ E)" using ne by (cases P; cases E) (auto simp: p_def)
  have lp: "length (obs p) \<le> n" "obs p \<noteq> []"
  proof -
    have "p \<in> set P \<or> p \<in> set E" using ne by (cases P; cases E) (auto simp: p_def)
    then show "length (obs p) \<le> n" "obs p \<noteq> []" using lens(2)[of p] lens(3)[of p] n(1) by auto
  qed
  then obtain x xs where x: "obs p = x # xs" by (cases "obs p") auto
  let ?s = "set_cache i ((ss_caches s ! i)\<lparr>kc_lock := 1\<rparr>) s"
  have sl1: "slab_lists ?s i F P E" using sl i by simp
  have okp: "slab_ok ?s i obs p" using ok[OF pS] by (simp add: slab_ok_def)
  have w1: "N_OBJECTS (ss_caches ?s ! i) = Ok w" "unat w < 2 ^ 31" "length (obs p) \<le> unat w" using w i n lp by simp_all
  have "\<exists>s' F' P'. kmem_cache_alloc_nolock ?s i = Ok (x, s')
     \<and> slab_lists s' i F' P' D \<and> (F', P') = (if xs = [] then (p # F, Q) else (F, p # Q))
     \<and> ss_slabs s' = (ss_slabs ?s)(p \<mapsto> (the (ss_slabs ?s p))\<lparr>sl_free := int (length xs), sl_freelist := (case xs of [] \<Rightarrow> NULL | a # _ \<Rightarrow> a)\<rparr>)
     \<and> ss_objs s' = ss_objs ?s \<and> ss_mp s' = ss_mp ?s \<and> dom (ss_links s') = dom (ss_links ?s)
     \<and> N_OBJECTS (ss_caches s' ! i) = Ok w \<and> length (ss_caches s') = length (ss_caches ?s)
     \<and> (\<forall>j. j \<noteq> i \<longrightarrow> ss_caches s' ! j = ss_caches ?s ! j)"
  proof (cases P)
    case (Cons q R)
    then have "p = q" "R = Q" "D = E" by (simp_all add: p_def Q_def D_def)
    moreover have "kc_n_partial (ss_caches ?s ! i) \<noteq> 0" using sl1 Cons i by (simp add: slab_lists_def Let_def)
    then have "kmem_cache_alloc_nolock ?s i = kmem_cache_alloc_partial ?s i"
      using i by (simp add: kmem_cache_alloc_nolock_def cache_at_def)
    ultimately show ?thesis using alloc_partial_step[of ?s i F q R E obs x xs w] sl1 Cons okp x w1 by (simp only: bnd.simps)
  next
    case Nil
    then obtain R where R: "E = p # R" using ne by (cases E) (auto simp: p_def)
    then have "Q = P" "D = R" using Nil by (simp_all add: Q_def D_def)
    moreover have "kc_n_partial (ss_caches ?s ! i) = 0" "kc_n_empty (ss_caches ?s ! i) \<noteq> 0"
      using sl1 Nil R i by (simp_all add: slab_lists_def Let_def)
    then have "kmem_cache_alloc_nolock ?s i = kmem_cache_alloc_empty ?s i"
      using i by (simp add: kmem_cache_alloc_nolock_def cache_at_def)
    ultimately show ?thesis using alloc_empty_step[of ?s i F P p R obs x xs w] sl1 R okp x w1 by (simp only: bnd.simps)
  qed
  then obtain s' F' P' where r: "kmem_cache_alloc_nolock ?s i = Ok (x, s')" "slab_lists s' i F' P' D"
     "(F', P') = (if xs = [] then (p # F, Q) else (F, p # Q))"
     "ss_slabs s' = (ss_slabs s)(p \<mapsto> (the (ss_slabs s p))\<lparr>sl_free := int (length xs), sl_freelist := (case xs of [] \<Rightarrow> NULL | a # _ \<Rightarrow> a)\<rparr>)"
     "ss_objs s' = ss_objs s" "ss_mp s' = ss_mp s" "dom (ss_links s') = dom (ss_links s)"
     "N_OBJECTS (ss_caches s' ! i) = Ok w" "length (ss_caches s') = length (ss_caches s)"
     "\<forall>j. j \<noteq> i \<longrightarrow> ss_caches s' ! j = ss_caches s ! j" by auto
  define t where "t = set_cache i ((ss_caches s' ! i)\<lparr>kc_lock := 0\<rparr>) s'"
  have i': "i < length (ss_caches s')" using i r(9) by simp
  have run: "kmem_cache_alloc s i = Ok (x, t)"
    using lock_cache_free[OF i lock] r(1) i' by (simp add: kmem_cache_alloc_def unlock_cache_def cache_at_def t_def)
  have lt: "slab_lists t i F' P' D" using r(2) i' by (simp add: t_def)
  have S: "set (F' @ P' @ D) = set (F @ P @ E)"
    using r(3) ne by (cases P; cases E) (auto simp: p_def Q_def D_def split: if_splits)
  have okt: "slab_ok t i (obs(p := xs)) q" if "q \<in> set (F @ P @ E)" for q
    using slab_ok_after_take[OF ok[OF that] pS that ap ok[OF pS] x r(4,5,7)] by (simp add: t_def slab_ok_def)
  have dis: "distinct (F' @ P' @ D)" using lt by (simp add: slab_lists_def)
  have len: "\<And>q. q \<in> set F' \<Longrightarrow> (obs(p := xs)) q = []"
    "\<And>q. q \<in> set P' \<Longrightarrow> 0 < length ((obs(p := xs)) q) \<and> length ((obs(p := xs)) q) < n"
    "\<And>q. q \<in> set D \<Longrightarrow> length ((obs(p := xs)) q) = n"
  proof -
    have Qn: "0 < length (obs q) \<and> length (obs q) < n" if "q \<in> set Q" for q
      using that lens(2)[of q] by (cases P) (simp_all add: Q_def)
    have Dn: "length (obs q) = n" if "q \<in> set D" for q
      using that lens(3)[of q] by (cases E) (simp_all add: D_def split: if_splits)
    have pD: "p \<notin> set D" using dis r(3) by (auto split: if_splits)
    have pQ: "p \<notin> set Q" using dis r(3) by (auto split: if_splits)
    show "(obs(p := xs)) q = []" if "q \<in> set F'" for q using that r(3) lens(1)[of q] x by (auto split: if_splits)
    show "0 < length ((obs(p := xs)) q) \<and> length ((obs(p := xs)) q) < n" if "q \<in> set P'" for q
      using that r(3) Qn[of q] lp(1) x pQ by (auto split: if_splits)
    show "length ((obs(p := xs)) q) = n" if "q \<in> set D" for q using Dn[OF that] pD that by auto
  qed
  have "N_OBJECTS (ss_caches t ! i) = Ok w" using r(8) i' by (simp add: t_def)
  then have "cache_inv t i n F' P' D (obs(p := xs))"
    unfolding cache_inv_def using lt w(2) n okt S len objs_apart_tl(1)[OF ap pS x] by (metis (no_types, lifting))
  moreover have "kc_lock (ss_caches t ! i) = 0" "ss_mp t = ss_mp s" "\<forall>j. j \<noteq> i \<longrightarrow> ss_caches t ! j = ss_caches s ! j"
    using i' r(6,10) by (simp_all add: t_def)
  ultimately show ?thesis using run S x by (fold p_def) blast
qed

section \<open>Properties of slab.c\<close>

fun cache_alloc_run :: "nat \<Rightarrow> nat \<Rightarrow> slab_state \<Rightarrow> (addr list \<times> slab_state) result" where
  "cache_alloc_run 0 i s = Ok ([], s)"
| "cache_alloc_run (Suc m) i s =
     bnd (kmem_cache_alloc s i) (\<lambda>(x, s). bnd (cache_alloc_run m i s) (\<lambda>(xs, s). Ok (x # xs, s)))"

lemma free_objs_empty:
  assumes "cache_inv s i n F P E obs" and "P @ E = []"
  shows "free_objs obs (set (F @ P @ E)) = {}"
  using assms by (auto simp: cache_inv_def free_objs_def)

text \<open>A cache as an allocator of objects, one for each request.\<close>

definition cache_of :: "nat \<Rightarrow> nat \<Rightarrow> addr set \<Rightarrow> slab_state \<Rightarrow> addr list \<times> addr list \<times> addr list \<times> (addr \<Rightarrow> addr list) \<Rightarrow> bool" where
  "cache_of i n S s = (\<lambda>(F, P, E, obs). cache_inv s i n F P E obs \<and> kc_lock (ss_caches s ! i) = 0 \<and> set (F @ P @ E) = S)"

definition cache_free :: "addr list \<times> addr list \<times> addr list \<times> (addr \<Rightarrow> addr list) \<Rightarrow> addr set" where
  "cache_free = (\<lambda>(F, P, E, obs). free_objs obs (set (F @ P @ E)))"

interpretation sa: allocator "\<lambda>_ s. kmem_cache_alloc s i" "cache_of i n S" cache_free "\<lambda>_ x X. X = {x}" "\<lambda>qs c. length qs \<le> card (cache_free c)"
  for i n S
proof unfold_locales
  fix s c q and qs :: "'a list"
  assume a: "cache_of i n S s c" "length (q # qs) \<le> card (cache_free c)"
  obtain F P E obs where c: "c = (F, P, E, obs)" by (cases c) auto
  have inv: "cache_inv s i n F P E obs" "kc_lock (ss_caches s ! i) = 0" "set (F @ P @ E) = S" using a(1) c by (simp_all add: cache_of_def)
  have m: "length (q # qs) \<le> card (free_objs obs S)" using a(2) c inv(3) by (simp add: cache_free_def)
  have ne: "P @ E \<noteq> []" using free_objs_empty[OF inv(1)] m inv(3) by auto
  obtain x ys s1 F1 P1 E1 where r: "obs (hd (P @ E)) = x # ys" "kmem_cache_alloc s i = Ok (x, s1)"
    "cache_inv s1 i n F1 P1 E1 (obs(hd (P @ E) := ys))" "set (F1 @ P1 @ E1) = set (F @ P @ E)" "kc_lock (ss_caches s1 ! i) = 0"
    using kmem_cache_alloc_step[OF inv(1,2) ne] by blast
  have p: "hd (P @ E) \<in> S" using hd_in_set[OF ne] inv(3) by auto
  have ap: "objs_apart obs S" using inv(1,3) by (simp add: cache_inv_def)
  note fr = objs_apart_tl[OF ap p r(1)]
  have "finite (free_objs obs S)" using inv(3) by (auto simp: free_objs_def)
  then have "length qs \<le> card (free_objs (obs(hd (P @ E) := ys)) S)" using m fr(2,3) by (simp add: card_Diff_singleton)
  then show "\<exists>b X s' c'. kmem_cache_alloc s i = Ok (b, s') \<and> cache_of i n S s' c' \<and> length qs \<le> card (cache_free c') \<and> X = {b}
     \<and> X \<subseteq> cache_free c \<and> cache_free c' = cache_free c - X"
    using r fr inv(3) unfolding c cache_of_def cache_free_def
    by (intro exI[of _ x] exI[of _ "{x}"] exI[of _ s1] exI[of _ "(F1, P1, E1, obs(hd (P @ E) := ys))"]) auto
qed

lemma cache_alloc_run_serve: "cache_alloc_run m i s = serve (\<lambda>_ s. kmem_cache_alloc s i) (replicate m ()) s"
  by (induction m arbitrary: s) simp_all

lemma served_objects:
  "served (\<lambda>_ x X. X = {x}) F qs xs R \<Longrightarrow> distinct xs \<and> set xs \<subseteq> F \<and> R = F - set xs"
proof (induction qs arbitrary: F xs)
  case Nil
  then show ?case by (cases xs) auto
next
  case (Cons q qs)
  then obtain x ys where xs: "xs = x # ys" "x \<in> F" "served (\<lambda>_ x X. X = {x}) (F - {x}) qs ys R" by (cases xs) auto
  then show ?case using Cons.IH[OF xs(3)] by auto
qed

text \<open>
  C22: Objects are handed out once. From a well-formed cache any number of allocations up to the number of
  free objects succeeds without a new slab; they return different free objects, exactly these leave the
  free objects, every slab stays in exactly one list, the one its free count says, the counts of the
  lists stay exact, and the lock is free.
\<close>

theorem kmem_cache_alloc_distinct:
  assumes "cache_inv s i n F P E obs" and "kc_lock (ss_caches s ! i) = 0"
    and "m \<le> card (free_objs obs (set (F @ P @ E)))"
  shows "\<exists>xs s' F' P' E' obs'. cache_alloc_run m i s = Ok (xs, s') \<and> length xs = m \<and> distinct xs
     \<and> set xs \<subseteq> free_objs obs (set (F @ P @ E)) \<and> cache_inv s' i n F' P' E' obs' \<and> kc_lock (ss_caches s' ! i) = 0
     \<and> set (F' @ P' @ E') = set (F @ P @ E)
     \<and> free_objs obs' (set (F' @ P' @ E')) = free_objs obs (set (F @ P @ E)) - set xs"
proof -
  let ?S = "set (F @ P @ E)"
  obtain xs s' c R where r: "serve (\<lambda>_ s. kmem_cache_alloc s i) (replicate m ()) s = Ok (xs, s')"
    "cache_of i n ?S s' c" "served (\<lambda>_ x X. X = {x}) (free_objs obs ?S) (replicate m ()) xs (cache_free c)"
    using sa.serve_served[of i n ?S s "(F, P, E, obs)" "replicate m ()"] assms by (auto simp: cache_of_def cache_free_def)
  obtain F' P' E' obs' where c: "c = (F', P', E', obs')" by (cases c) auto
  have "length xs = m" using served_length[OF r(3)] by simp
  then show ?thesis
    using r(1,2) served_objects[OF r(3)] unfolding c cache_of_def cache_free_def
    by (intro exI[of _ xs] exI[of _ s'] exI[of _ F'] exI[of _ P'] exI[of _ E'] exI[of _ obs']) (simp add: cache_alloc_run_serve)
qed

text \<open>One cache of size 2048 and order 0, with one empty slab: two free objects.\<close>

definition one_slab :: slab_state where
  "one_slab = \<lparr>ss_caches = [\<lparr>kc_size = 2048, kc_order = 0, kc_lock = 0, kc_full = 0, kc_partial = 0, kc_empty = 8,
       kc_n_full = 0, kc_n_partial = 0, kc_n_empty = 1\<rparr>],
     ss_slabs = [8 \<mapsto> \<lparr>sl_cache = 0, sl_freelist = 0x1800, sl_free = 2\<rparr>],
     ss_links = [8 \<mapsto> \<lparr>lh_next = 0, lh_prev = 0\<rparr>], ss_objs = [0x1800 \<mapsto> 0x1000, 0x1000 \<mapsto> 0], ss_mp = small_pool\<rparr>"

theorem kmem_cache_alloc_distinct_witness:
  "\<exists>xs s'. cache_alloc_run 2 0 one_slab = Ok (xs, s') \<and> distinct xs \<and> set xs \<subseteq> {0x1000, 0x1800}"
proof -
  let ?obs = "\<lambda>_ :: addr. [0x1800, 0x1000] :: addr list"
  have i: "cache_inv one_slab 0 2 [] [] [8] ?obs"
    by (simp add: cache_inv_def slab_lists_def slab_ok_def objs_apart_def one_slab_def N_OBJECTS_def)
  have f: "free_objs ?obs (set ([] @ [] @ [8])) = {0x1000, 0x1800}" by (auto simp: free_objs_def)
  have l: "kc_lock (ss_caches one_slab ! 0) = 0" by (simp add: one_slab_def)
  have "2 \<le> card (free_objs ?obs (set ([] @ [] @ [8])))" unfolding f by simp
  from kmem_cache_alloc_distinct[OF i l this] show ?thesis unfolding f by blast
qed

text \<open>There is no out-of-memory result: an allocation that needs a new slab and gets no block never returns.\<close>

lemma kmem_cache_alloc_starved:
  assumes "i < length (ss_caches s)" and "kc_n_partial (ss_caches s ! i) = 0" and "kc_n_empty (ss_caches s ! i) = 0"
    and "\<And>p b. alloc_pages (mp_hhdm (ss_mp s)) (mp_buddy (ss_mp s)) (kc_order (ss_caches s ! i)) 0 = Ok (p, b) \<Longrightarrow> p = NULL"
  shows "\<not> is_Ok (kmem_cache_alloc s i)"
proof (cases "kc_lock (ss_caches s ! i) = 0")
  case False
  then show ?thesis using assms(1)
    by (simp add: kmem_cache_alloc_def lock_cache_def cache_at_def lock_word_def)
next
  case True
  let ?c = "ss_caches s ! i"
  have "\<not> is_Ok (kmem_cache_new_empty (set_cache i (?c\<lparr>kc_lock := 1\<rparr>) s) i)"
    using assms(1,4) by (auto simp: kmem_cache_new_empty_def cache_at_def Let_def is_Ok_bnd split: if_splits)
  then have "\<not> is_Ok (kmem_cache_alloc_nolock (set_cache i (?c\<lparr>kc_lock := 1\<rparr>) s) i)"
    using assms(1-3) by (simp add: kmem_cache_alloc_nolock_def cache_at_def is_Ok_bnd is_Ok_iff result_simps)
  then show ?thesis using lock_cache_free[OF assms(1) True] by (simp add: kmem_cache_alloc_def is_Ok_bnd is_Ok_iff result_simps)
qed

text \<open>
  When a cache has no free object and the page allocator no block of its order, \<open>kmem_cache_alloc\<close> returns
  neither NULL nor an object: it faults on the NULL page it tries to release, in the slab pool, or at the end
  of \<open>kmem_cache_new_empty\<close>, which has no return statement on its error path.
\<close>

theorem kmem_cache_alloc_no_memory:
  assumes "i < length (ss_caches s)" and "kc_n_partial (ss_caches s ! i) = 0" and "kc_n_empty (ss_caches s ! i) = 0"
    and "pool (mp_buddy (ss_mp s)) pr L" and "kmem_lock (mp_buddy (ss_mp s)) = 0" and "kc_order (ss_caches s ! i) < 16"
    and "\<forall>j. kc_order (ss_caches s ! i) \<le> j \<and> j < 16 \<longrightarrow> L j = []"
  shows "\<not> is_Ok (kmem_cache_alloc s i)"
proof -
  have "alloc_pages (mp_hhdm (ss_mp s)) (mp_buddy (ss_mp s)) (kc_order (ss_caches s ! i)) 0 = Ok (NULL, mp_buddy (ss_mp s))"
    by (rule alloc_pages_none[OF assms(4-6)]) (use assms(7) in blast)
  then show ?thesis using kmem_cache_alloc_starved[OF assms(1-3)] by simp
qed

theorem kmem_cache_alloc_no_memory_witness:
  "\<not> is_Ok (kmem_cache_alloc (one_slab\<lparr>ss_caches := [\<lparr>kc_size = 2048, kc_order = 1, kc_lock = 0, kc_full = 0, kc_partial = 0,
       kc_empty = 0, kc_n_full = 0, kc_n_partial = 0, kc_n_empty = 0\<rparr>]\<rparr>) 0)"
proof (rule kmem_cache_alloc_no_memory)
  show "pool (mp_buddy (ss_mp (one_slab\<lparr>ss_caches := [\<lparr>kc_size = 2048, kc_order = 1, kc_lock = 0, kc_full = 0, kc_partial = 0,
       kc_empty = 0, kc_n_full = 0, kc_n_partial = 0, kc_n_empty = 0\<rparr>]\<rparr>))) (\<lambda>_. NULL) two_blocks"
    using two_frames_clean by (simp add: one_slab_def small_pool_def clean_pool_def)
qed (auto simp: one_slab_def small_pool_def two_frames_def two_blocks_def)

section \<open>Frees after allocations\<close>









section \<open>The two ways to build a freelist\<close>



end
