(* ===== verification/Mm.thy ===== *)
theory Mm
  imports Sparse Slab
begin

section \<open>mm/init.c: the memory manager starts\<close>

text \<open>
  The composition of the memory map, the boot allocator, the page tables, the sparse array of page structs,
  the page allocator and the object allocator, in the order of \<open>mm_init\<close>. The state holds the parts the
  functions share: the regions and the count of boot pages taken, the page tables (\<open>ptm\<close>, whose supply of
  pages is filled from the boot allocator), the top-level table of \<open>kernel_virtual_pt\<close>, and the caches with the
  page allocator inside (\<open>slab_state\<close>).
\<close>

record mm_state =
  mm_regions :: "region list"
  mm_bump_allocated :: u32
  mm_pt :: ptm
  mm_top :: addr
  mm_slab :: slab_state

text \<open>
  The pages \<open>bump_page\<close> returns for the counts from \<open>b\<close> on, until it returns NULL: the supply of
  \<open>mapper_alloc_zpage\<close> while it is \<open>bump_zpage\<close>. There are at most as many as the map has pages.
\<close>

fun bump_supply :: "u64 \<Rightarrow> region list \<Rightarrow> u32 \<Rightarrow> nat \<Rightarrow> addr list" where
  "bump_supply hhdm rs b 0 = []"
| "bump_supply hhdm rs b (Suc n) =
     (case bump_scan hhdm rs b of None \<Rightarrow> [] | Some a \<Rightarrow> a # bump_supply hhdm rs (b + 1) n)"

definition map_pages_count :: "region list \<Rightarrow> nat" where
  "map_pages_count rs = (\<Sum>r \<leftarrow> rs. unat (drop_bit 12 (r_size r)))"

text \<open>
  The page structs that can be reached through a table: those on a mapped page. Every page mapped into the
  sparse array comes from \<open>bump_zpage\<close>, so a struct reads as zero.
\<close>

definition mapped_structs :: "ptm \<Rightarrow> u64 \<Rightarrow> addr \<Rightarrow> 'a \<Rightarrow> addr \<rightharpoonup> 'a" where
  "mapped_structs pt hhdm root z = (\<lambda>a. if is_present (translate (pmem pt) hhdm a 3 root) then Some z else None)"

text \<open>\<open>mm_init\<close> up to \<open>buddy_init\<close>. The processor runs on the boot loader's table, \<open>readcr3\<close>, throughout.\<close>

definition mm_prepare :: "nat \<Rightarrow> u64 \<Rightarrow> u64 \<Rightarrow> u64 \<Rightarrow> memmap_entry list \<Rightarrow> mm_state \<Rightarrow> mm_state result" where
  "mm_prepare fuel hhdm readcr3 usable entries s =
     bnd (setup_memmap_regions usable entries (mm_regions s)) (\<lambda>rs.
     let supply = bump_supply hhdm rs (mm_bump_allocated s) (map_pages_count rs) in
     bnd (kernel_top_pgt_init hhdm readcr3 ((mm_pt s)\<lparr>zpages := supply\<rparr>)) (\<lambda>(top, pt).
     bnd (sparse_init fuel hhdm top rs pt) (\<lambda>pt.
     let b = mm_bump_allocated s + of_nat (length supply - length (zpages pt));
         mp = ss_mp (mm_slab s);
         bs = (mp_buddy mp)\<lparr>pages := mapped_structs pt hhdm (readcr3 + hhdm) \<lparr>pg_flags = 0, pg_order = 0\<rparr>,
                            blist := mapped_structs pt hhdm (readcr3 + hhdm) \<lparr>lh_next = NULL, lh_prev = NULL\<rparr>\<rparr> in
     bnd (buddy_init rs b bs) (\<lambda>bs.
     Ok \<lparr>mm_regions = rs, mm_bump_allocated = b, mm_pt = pt, mm_top = top,
         mm_slab = (mm_slab s)\<lparr>ss_mp := mp\<lparr>mp_hhdm := hhdm, mp_buddy := bs\<rparr>\<rparr>\<rparr>))))"

definition mm_init :: "nat \<Rightarrow> u64 \<Rightarrow> u64 \<Rightarrow> u64 \<Rightarrow> memmap_entry list \<Rightarrow> mm_state \<Rightarrow> mm_state result" where
  "mm_init fuel hhdm readcr3 usable entries s =
     bnd (mm_prepare fuel hhdm readcr3 usable entries s) (\<lambda>s.
     bnd (slab_init (mm_slab s)) (\<lambda>sl. Ok (s\<lparr>mm_slab := sl\<rparr>)))"

section \<open>The supply of boot pages\<close>








section \<open>What buddy_init leaves\<close>

text \<open>
  Whatever the page tables map: as long as no two frames of a pair \<open>2 * m\<close>, \<open>2 * m + 1\<close> are both freed, a free
  of one frame merges nothing and only the list of order 0 changes.
\<close>

definition singles :: "buddy_state \<Rightarrow> nat set \<Rightarrow> bool" where
  "singles s X \<longleftrightarrow> (\<forall>n < 2 ^ 31. \<forall>p. pages s (pg n) = Some p \<longrightarrow> page_free p \<longrightarrow> n \<in> X)"

definition only_order0 :: "buddy_state \<Rightarrow> buddy_state \<Rightarrow> bool" where
  "only_order0 s s' \<longleftrightarrow> (\<forall>k > 0. buddy_lists s' ! k = buddy_lists s ! k)"

lemma only_order0_trans: "only_order0 s t \<Longrightarrow> only_order0 t u \<Longrightarrow> only_order0 s u"
  by (simp add: only_order0_def)

lemma free_page_single:
  assumes "free_pages s (pg n) 0 = Ok s'" and n: "n < 2 ^ 31" and "singles s X" and "bud n 0 \<notin> X"
  shows "singles s' (insert n X) \<and> only_order0 s s'"
proof -
  let ?s = "s\<lparr>kmem_lock := 1\<rparr>"
  have bd: "n + 2 ^ 0 \<le> 2 ^ 31" using n by simp
  have b: "bud n 0 < 2 ^ 31" using bud_bound[of 0 n] n by simp
  note a = buddy_addresses(1)[of 0 n, OF _ bd, simplified power_0 one_dvd simp_thms]
  obtain t where t: "free_pages_nolock ?s (pg n) 0 = Ok t" "s' = t\<lparr>kmem_lock := 0\<rparr>"
    using assms(1) by (auto simp: free_pages_def result_simps lock_word_def split: if_splits)
  have f: "\<not> page_free p" if "pages s (pg (bud n 0)) = Some p" for p
    using that assms(3,4) b by (auto simp: singles_def)
  have "direct_free ?s (pg n) 0 = Ok t"
    using t(1) f by (subst (asm) free_pages_nolock.simps)
      (auto simp: Let_def a pg_def[symmetric] result_simps page_free_def split: if_splits)
  then obtain q where q: "pages t = (pages s)(pg n \<mapsto> q)" "only_order0 s t"
    by (auto simp: direct_free_def result_simps list_at_def only_order0_def split: if_splits)
  have "singles t (insert n X)" using assms(3) q(1) pg_inj[of _ n] n by (auto simp: singles_def split: if_splits)
  then show ?thesis using q(2) t(2) by (simp add: singles_def only_order0_def)
qed

lemma bud_pair: "bud n 0 div 2 = n div 2" "even (bud n 0) \<longleftrightarrow> odd n"
  by (auto simp: bud_def elim!: oddE)

lemma init_zone_singles:
  assumes "init_zone bump z i idx s = Ok (idx', s')" and "unat (z_base z) + unat (z_size z) \<le> 2 ^ 31"
    and "singles s (X \<union> C)" and "C \<subseteq> zone_frames z" and "\<forall>x \<in> C. even (x + (unat (z_base z) + i))"
    and "C \<noteq> {} \<longrightarrow> \<not> idx < unat bump" and "\<forall>x \<in> X. \<forall>y \<in> zone_frames z. x div 2 \<noteq> y div 2"
  shows "\<exists>C'. singles s' (X \<union> C') \<and> C' \<subseteq> zone_frames z \<and> only_order0 s s'"
  using assms
proof (induction bump z i idx s arbitrary: C rule: init_zone.induct)
  case (1 bump z i idx s)
  let ?n = "unat (z_base z) + i"
  show ?case
  proof (cases "i < unat (z_size z)")
    case False
    then have "s' = s" using 1(3) by (subst (asm) init_zone.simps) (simp split: if_splits)
    then show ?thesis using 1(5,6) by (intro exI[of _ C]) (simp add: only_order0_def)
  next
    case True
    have r: "\<not> (2 ^ 31 \<le> i \<or> 2 ^ 31 \<le> idx)" using 1(3) by (subst (asm) init_zone.simps) (auto split: if_splits)
    show ?thesis
    proof (cases "idx < unat bump")
      case skip: True
      have "C = {}" using 1(8) skip by blast
      moreover have "init_zone bump z (i + 1) (idx + 1) s = Ok (idx', s')"
        using 1(3) r True skip by (subst (asm) init_zone.simps) simp
      ultimately show ?thesis using 1(1)[OF r True skip, of C] 1(4,5,9) by simp
    next
      case free: False
      have n: "?n \<in> zone_frames z" "?n < 2 ^ 31" using True 1(4) by (auto simp: zone_frames_def)
      have p: "pfn_to_page (z_base z + of_nat i) = pg ?n" by (simp add: pg_def)
      obtain t where t: "free_pages s (pg ?n) 0 = Ok t" "init_zone bump z (i + 2) (idx + 1) t = Ok (idx', s')"
        using 1(3) r True free by (subst (asm) init_zone.simps) (auto simp: Let_def p result_simps)
      have "bud ?n 0 \<notin> X" using 1(9) n(1) bud_pair(1)[of ?n] by metis
      moreover have "bud ?n 0 \<notin> C" using 1(7) bud_pair(2)[of ?n] by (auto simp: even_add)
      ultimately have f: "singles t (X \<union> insert ?n C)" "only_order0 s t"
        using free_page_single[OF t(1) n(2) 1(5)] by auto
      have "init_zone bump z (i + 2 ^ init_order (unat (z_size z) - i) 0 + 1) (idx + 2 ^ init_order (unat (z_size z) - i) 0) t
          = Ok (idx', s')" using t(2) True by simp
      moreover have "insert ?n C \<subseteq> zone_frames z" "\<forall>x \<in> insert ?n C. even (x + (unat (z_base z) + (i + 2)))"
        using 1(6,7) n(1) by (auto simp: even_add)
      ultimately obtain C' where "singles s' (X \<union> C')" "C' \<subseteq> zone_frames z" "only_order0 t s'"
        using 1(2)[OF r True free refl refl, of t "insert ?n C"] f(1) 1(4,9) free True p t(1) by auto
      then show ?thesis using only_order0_trans[OF f(2)] by blast
    qed
  qed
qed

fun zones_unpaired :: "buddy_zone list \<Rightarrow> bool" where
  "zones_unpaired [] = True"
| "zones_unpaired (z # zs) \<longleftrightarrow>
     (\<forall>y \<in> set zs. \<forall>m \<in> zone_frames z. \<forall>n \<in> zone_frames y. m div 2 \<noteq> n div 2) \<and> zones_unpaired zs"

lemma init_zones_singles:
  assumes "init_zones bump zs idx s = Ok (idx', s')" and "\<forall>z \<in> set zs. unat (z_base z) + unat (z_size z) \<le> 2 ^ 31"
    and "singles s X" and "zones_unpaired zs" and "\<forall>z \<in> set zs. \<forall>x \<in> X. \<forall>y \<in> zone_frames z. x div 2 \<noteq> y div 2"
  shows "only_order0 s s'"
  using assms
proof (induction zs arbitrary: idx s X)
  case Nil
  then show ?case by (simp add: only_order0_def)
next
  case (Cons z zs)
  obtain idx1 t where t: "init_zone bump z 0 idx s = Ok (idx1, t)" "init_zones bump zs idx1 t = Ok (idx', s')"
    using Cons.prems(1) by (auto simp: result_simps)
  obtain C where c: "singles t (X \<union> C)" "C \<subseteq> zone_frames z" "only_order0 s t"
    using init_zone_singles[OF t(1), of X "{}"] Cons.prems(2,3,5) by auto
  have "\<forall>y \<in> set zs. \<forall>x \<in> X \<union> C. \<forall>n \<in> zone_frames y. x div 2 \<noteq> n div 2"
    using Cons.prems(4,5) c(2) by (fastforce)
  then have "only_order0 t s'" using Cons.IH[OF t(2) _ c(1)] Cons.prems(2,4) by simp
  then show ?case using c(3) only_order0_trans by blast
qed

lemma alloc_nolock_starved:
  "k < 16 \<Longrightarrow> \<forall>j. k \<le> j \<and> j < 16 \<longrightarrow> fl_count (buddy_lists s ! j) = 0 \<Longrightarrow> alloc_pages_nolock s k = Ok (NULL, s)"
proof (induction s k rule: alloc_pages_nolock.induct)
  case (1 s k)
  have z: "\<not> k > MAX_ORDER" "\<not> fl_count (buddy_lists s ! k) > 0" using 1(2,3) by (auto simp: MAX_ORDER_def)
  show ?case
  proof (cases "k = MAX_ORDER")
    case True
    then show ?thesis using z by (subst alloc_pages_nolock.simps) (simp add: Let_def)
  next
    case False
    then have "alloc_pages_nolock s (k + 1) = Ok (NULL, s)" using 1(1)[OF z(1) refl z(2) False] 1(2,3) by (simp add: MAX_ORDER_def)
    then show ?thesis using z False by (subst alloc_pages_nolock.simps) (simp add: Let_def)
  qed
qed

lemma alloc_pages_starved:
  assumes "alloc_pages hhdm s k 0 = Ok (p, s')" and "k < 16" and "\<forall>j. k \<le> j \<and> j < 16 \<longrightarrow> fl_count (buddy_lists s ! j) = 0"
  shows "p = NULL"
  using assms(1) alloc_nolock_starved[OF assms(2), of "s\<lparr>kmem_lock := 1\<rparr>"] assms(3)
  by (auto simp: alloc_pages_def lock_word_def split: if_splits)

text \<open>The first sample of \<open>slab_init\<close> is an object of 8192 bytes, which needs a block of order 3.\<close>

lemma slab_init_starved:
  assumes "length (ss_caches s) = SLAB_COUNT" and "kc_n_partial (ss_caches s ! 11) = 0" and "kc_n_empty (ss_caches s ! 11) = 0"
    and "\<And>p b. alloc_pages (mp_hhdm (ss_mp s)) (mp_buddy (ss_mp s)) 3 0 = Ok (p, b) \<Longrightarrow> p = NULL"
  shows "\<not> is_Ok (slab_init s)"
proof -
  let ?cs = "map2 (\<lambda>c (sz, k). c\<lparr>kc_size := sz, kc_order := k\<rparr>) (ss_caches s) (zip kmalloc_sizes kmalloc_orders)"
  have l: "length ?cs = 12" using assms(1) by (simp add: SLAB_COUNT_def kmalloc_sizes_def kmalloc_orders_def)
  have c: "?cs ! 11 = (ss_caches s ! 11)\<lparr>kc_size := 8192, kc_order := 3\<rparr>"
    using assms(1) by (simp add: SLAB_COUNT_def kmalloc_sizes_def kmalloc_orders_def)
  obtain mp where mp: "mempool_init (mp_pool (ss_mp s)) 40 1 = Ok mp" by (simp add: mempool_init_def)
  let ?s = "s\<lparr>ss_mp := (ss_mp s)\<lparr>mp_pool := mp\<rparr>, ss_caches := ?cs\<rparr>"
  have "\<not> is_Ok (kmem_cache_alloc ?s 11)"
    by (rule kmem_cache_alloc_starved) (use l c assms in auto)
  moreover have "kmalloc ?s 8192 = kmem_cache_alloc ?s 11"
    by (simp add: kmalloc_def kmalloc_idx_def kmalloc_sizes_def SLAB_COUNT_def)
  moreover have "kmalloc_times 16 8192 ?s = bnd (kmalloc ?s 8192) (\<lambda>(x, s). bnd (kmalloc_times 15 8192 s) (\<lambda>(xs, s). Ok (x # xs, s)))"
    using kmalloc_times.simps(2)[of 15 8192 ?s] by (simp del: kmalloc_times.simps)
  ultimately have "\<not> is_Ok (kmalloc_times 16 8192 ?s)" by (simp add: is_Ok_bnd is_Ok_iff result_simps del: kmalloc_times.simps)
  then show ?thesis using mp by (auto simp: slab_init_def Let_def is_Ok_iff result_simps simp del: kmalloc_times.simps)
qed

section \<open>From the memory map to the first object\<close>

text \<open>The static data of the kernel before \<open>mm_init\<close>, and the regions of a memory map.\<close>

definition zero_cache :: kmem_cache where
  "zero_cache = \<lparr>kc_size = 0, kc_order = 0, kc_lock = 0, kc_full = NULL, kc_partial = NULL, kc_empty = NULL,
     kc_n_full = 0, kc_n_partial = 0, kc_n_empty = 0\<rparr>"

definition at_boot :: "mm_state \<Rightarrow> bool" where
  "at_boot s \<longleftrightarrow> mm_regions s = [] \<and> mm_bump_allocated s = 0 \<and> pt_lock (mm_pt s) = 0
     \<and> ss_caches (mm_slab s) = replicate SLAB_COUNT zero_cache
     \<and> buddy_lists (mp_buddy (ss_mp (mm_slab s))) = replicate N_ORDERS \<lparr>fl_head = NULL, fl_count = 0\<rparr>
     \<and> buddy_zones (mp_buddy (ss_mp (mm_slab s))) = replicate MAX_BUDDY_ZONES \<lparr>z_base = 0, z_size = 0\<rparr>
     \<and> kmem_lock (mp_buddy (ss_mp (mm_slab s))) = 0"

definition usable_regions :: "u64 \<Rightarrow> memmap_entry list \<Rightarrow> region list" where
  "usable_regions usable entries =
     List.map (\<lambda>e. \<lparr>r_base = me_base e, r_size = me_length e\<rparr>) (filter (\<lambda>e. me_type e = usable) entries)"

lemma setup_memmap_usable:
  "setup_memmap_regions usable entries rs = Ok rs' \<Longrightarrow> rs' = rs @ usable_regions usable entries"
proof (induction entries arbitrary: rs)
  case (Cons e entries)
  then show ?case using Cons.IH[of rs] Cons.IH[of "rs @ [\<lparr>r_base = me_base e, r_size = me_length e\<rparr>]"]
    by (simp add: usable_regions_def split: if_splits)
qed (simp add: usable_regions_def)


lemma zones_unpaired_pad:
  "zones_unpaired zs \<Longrightarrow> zones_unpaired (zs @ replicate n \<lparr>z_base = 0, z_size = 0\<rparr>)"
proof (induction zs)
  case Nil
  show ?case by (induction n) (auto simp: zone_frames_def)
qed (auto simp: zone_frames_def)

lemma mapped_singles: "singles (s\<lparr>pages := mapped_structs pt hhdm root \<lparr>pg_flags = 0, pg_order = 0\<rparr>, blist := b, buddy_zones := z\<rparr>) {}"
  by (simp add: singles_def mapped_structs_def page_free_def)

lemma mm_prepare_order0:
  assumes "at_boot s" and "mm_prepare fuel hhdm readcr3 usable entries s = Ok s'"
    and "\<forall>z \<in> set (List.map zone_of_region (usable_regions usable entries)). unat (z_base z) + unat (z_size z) \<le> 2 ^ 31"
    and "zones_unpaired (List.map zone_of_region (usable_regions usable entries))"
  shows "ss_caches (mm_slab s') = replicate SLAB_COUNT zero_cache
     \<and> (\<forall>k > 0. k < 16 \<longrightarrow> fl_count (buddy_lists (mp_buddy (ss_mp (mm_slab s'))) ! k) = 0)"
proof -
  let ?rs = "usable_regions usable entries"
  obtain rs top pt0 pt b bs where rs: "setup_memmap_regions usable entries (mm_regions s) = Ok rs"
    and r: "buddy_init rs b ((mp_buddy (ss_mp (mm_slab s)))\<lparr>pages := mapped_structs pt hhdm (readcr3 + hhdm) \<lparr>pg_flags = 0, pg_order = 0\<rparr>,
       blist := mapped_structs pt hhdm (readcr3 + hhdm) \<lparr>lh_next = NULL, lh_prev = NULL\<rparr>\<rparr>) = Ok bs"
    "mp_buddy (ss_mp (mm_slab s')) = bs" "ss_caches (mm_slab s') = ss_caches (mm_slab s)"
    using assms(2) by (clarsimp simp: mm_prepare_def Let_def result_simps)
  have "rs = ?rs" using setup_memmap_usable[OF rs] assms(1) by (simp add: at_boot_def)
  note r = r[unfolded this]
  let ?zs = "List.map zone_of_region ?rs @ replicate (MAX_BUDDY_ZONES - length ?rs) \<lparr>z_base = 0, z_size = 0\<rparr>"
  let ?t = "(mp_buddy (ss_mp (mm_slab s)))\<lparr>pages := mapped_structs pt hhdm (readcr3 + hhdm) \<lparr>pg_flags = 0, pg_order = 0\<rparr>,
       blist := mapped_structs pt hhdm (readcr3 + hhdm) \<lparr>lh_next = NULL, lh_prev = NULL\<rparr>, buddy_zones := ?zs\<rparr>"
  obtain idx u where u: "init_zones b ?zs 0 ?t = Ok (idx, u)" "buddy_lists bs = buddy_lists u"
    using r(1) assms(1) by (auto simp: buddy_init_def Let_def result_simps at_boot_def split: if_splits)
  have "only_order0 ?t u"
    by (rule init_zones_singles[OF u(1) _ mapped_singles zones_unpaired_pad[OF assms(4)]]) (use assms(3) in auto)
  then show ?thesis using r(2,3) u(2) assms(1) by (simp add: only_order0_def at_boot_def N_ORDERS_def)
qed










text \<open>A machine with 512 usable frames from 1 MiB on, behind a reserved range, and an empty top-level table.\<close>

definition boot_mm :: mm_state where
  "boot_mm = \<lparr>mm_regions = [], mm_bump_allocated = 0,
     mm_pt = \<lparr>pmem = zero_page Map.empty 0xffff800000001000, zpages = [], pt_lock = 0\<rparr>, mm_top = NULL,
     mm_slab = \<lparr>ss_caches = replicate SLAB_COUNT zero_cache, ss_slabs = Map.empty, ss_links = Map.empty, ss_objs = Map.empty,
       ss_mp = \<lparr>mp_pool = \<lparr>mpl_freelist = NULL, mpl_count = 0, mpl_size = 0, mpl_order = 0, mpl_lock = 0\<rparr>,
         mp_self = 0x2000, mp_chunks = Map.empty, mp_buddy = four_frames, mp_hhdm = 0\<rparr>\<rparr>\<rparr>"

definition boot_entries :: "memmap_entry list" where
  "boot_entries = [\<lparr>me_base = 0, me_length = 0x100000, me_type = 1\<rparr>, \<lparr>me_base = 0x100000, me_length = 0x200000, me_type = 0\<rparr>]"

lemma boot_mm_ready:
  "at_boot boot_mm" "usable_regions 0 boot_entries = [\<lparr>r_base = 0x100000, r_size = 0x200000\<rparr>]"
  "zone_of_region \<lparr>r_base = 0x100000, r_size = 0x200000\<rparr> = \<lparr>z_base = 256, z_size = 512\<rparr>"
  by (simp_all add: at_boot_def boot_mm_def four_frames_def N_ORDERS_def MAX_BUDDY_ZONES_def usable_regions_def
      boot_entries_def zone_of_region_def drop_bit_eq_div)


text \<open>
  \<open>mm_init\<close> never returns, so \<open>kmain\<close> never gets past it. For every memory map whose usable regions lie
  below frame \<open>2^31\<close> and of which no two share a pair of frames, and whatever the page tables of the boot loader are, the start
  of the memory manager ends in a fault: where it gets as far as \<open>slab_init\<close>, the page allocator holds single
  frames only, and the first sample, 8192 bytes, needs a block of eight, which \<open>kmem_cache_new_empty\<close> does not survive.
\<close>

theorem mm_init_never_returns:
  assumes "at_boot s"
    and "\<forall>z \<in> set (List.map zone_of_region (usable_regions usable entries)). unat (z_base z) + unat (z_size z) \<le> 2 ^ 31"
    and "zones_unpaired (List.map zone_of_region (usable_regions usable entries))"
  shows "\<not> is_Ok (mm_init fuel hhdm readcr3 usable entries s)"
proof -
  have "\<not> is_Ok (slab_init (mm_slab s'))" if P: "mm_prepare fuel hhdm readcr3 usable entries s = Ok s'" for s'
    using mm_prepare_order0[OF assms(1) P assms(2,3)]
    by (intro slab_init_starved) (auto simp: SLAB_COUNT_def zero_cache_def dest: alloc_pages_starved)
  then show ?thesis by (auto simp: mm_init_def is_Ok_bnd)
qed

theorem mm_init_never_returns_witness:
  "\<not> is_Ok (mm_init 8 0xffff800000000000 0x1000 0 boot_entries boot_mm)"
  by (rule mm_init_never_returns[OF boot_mm_ready(1)]) (simp_all add: boot_mm_ready)

end
