(* ===== verification/Descriptor.thy ===== *)
theory Descriptor
  imports Prelude
begin

section \<open>Descriptor tables and processors\<close>

text \<open>
  gdt.c, idt.c and the task state segments of init.c in arch/x86-64, with the part of boot_limine.c that
  fills the table of processors. The tables are arrays; a task state segment lies at the address \<open>kzalloc\<close>
  returned for it, and the supplies \<open>segments\<close> and \<open>stacks\<close> are what the calls of \<open>kzalloc\<close> and \<open>vmalloc\<close>
  return, in order. The instructions that load the registers of the processor are not modelled.
\<close>

definition MAX_CPUS :: nat where "MAX_CPUS = 16"
definition GDT_OFFSET_KERNEL_CODE :: u16 where "GDT_OFFSET_KERNEL_CODE = 0x08"
definition GDT_OFFSET_KERNEL_DATA :: u16 where "GDT_OFFSET_KERNEL_DATA = 0x10"
definition GDT_OFFSET_USER_CODE :: u16 where "GDT_OFFSET_USER_CODE = 0x18"
definition GDT_OFFSET_USER_DATA :: u16 where "GDT_OFFSET_USER_DATA = 0x20"
definition INTERRUPT_STACK_SIZE :: addr where "INTERRUPT_STACK_SIZE = 0x8000"
definition IDT_MAX_DESCRIPTORS :: nat where "IDT_MAX_DESCRIPTORS = 256"

record table_register =
  tr_limit :: u16
  tr_base :: addr

record idt_entry =
  isr_low :: u16
  ie_kernel_cs :: u16
  ie_ist :: u8
  ie_attributes :: u8
  isr_mid :: u16
  isr_high :: u32
  ie_reserved :: u32

record tss_desc =
  limit_low :: u16
  base_low :: u16
  base_mid1 :: u8
  td_type :: "4 word"
  td_zero :: "1 word"
  td_dpl :: "2 word"
  td_p :: "1 word"
  limit_high :: "4 word"
  td_avl :: "1 word"
  td_zero2 :: "2 word"
  td_g :: "1 word"
  base_mid2 :: u8
  base_high :: u32
  td_reserved :: u32

record tss =
  reserved0 :: u32
  rsp0_low :: u32
  rsp0_high :: u32
  rsp1_low :: u32
  rsp1_high :: u32
  rsp2_low :: u32
  rsp2_high :: u32
  reserved1 :: u32
  reserved2 :: u32
  ist1_low :: u32
  ist1_high :: u32
  ist2_low :: u32
  ist2_high :: u32
  ist3_low :: u32
  ist3_high :: u32
  ist4_low :: u32
  ist4_high :: u32
  ist5_low :: u32
  ist5_high :: u32
  ist6_low :: u32
  ist6_high :: u32
  ist7_low :: u32
  ist7_high :: u32
  reserved3 :: u32
  reserved4 :: u32
  iomap_base :: u16
  reserved5 :: u16

record cpu =
  lapic_id :: u64
  cli_count :: u64
  preempt_count :: u64
  cpu_hz :: u64
  current_task :: addr
  cpu_tss :: addr

record cpu_state =
  gdt_table :: "u64 list"
  cpu_cores :: "cpu list"
  tss_heap :: "addr \<rightharpoonup> tss"

subsection \<open>gdt.c and idt.c\<close>

text \<open>The table has 255 entries of eight bytes, the one of interrupts 256 of sixteen.\<close>

definition init_gdt :: "addr \<Rightarrow> cpu_state \<Rightarrow> table_register \<times> cpu_state" where
  "init_gdt table s =
     (let g = (gdt_table s)[0 := 0x0000000000000000, 1 := 0x00AF9A000000FFFF, 2 := 0x00CF92000000FFFF,
                3 := 0x00AFFA000000FFFF, 4 := 0x00CFF2000000FFFF] in
      (\<lparr>tr_limit = of_nat (255 * 8 - 1), tr_base = table\<rparr>, s\<lparr>gdt_table := g\<rparr>))"

definition idt_set_entry :: "idt_entry list \<Rightarrow> u8 \<Rightarrow> u64 \<Rightarrow> u8 \<Rightarrow> u8 \<Rightarrow> idt_entry list" where
  "idt_set_entry t idx handler flags ist = t[unat idx :=
     \<lparr>isr_low = ucast (handler AND 0xffff), ie_kernel_cs = GDT_OFFSET_KERNEL_CODE, ie_ist = ist, ie_attributes = flags,
      isr_mid = ucast (drop_bit 16 handler AND 0xffff), isr_high = ucast (drop_bit 32 handler AND 0xffffffff), ie_reserved = 0\<rparr>]"

fun idt_loop :: "u64 \<Rightarrow> u8 \<Rightarrow> nat \<Rightarrow> nat \<Rightarrow> idt_entry list \<Rightarrow> idt_entry list" where
  "idt_loop handlers ist i 0 t = t"
| "idt_loop handlers ist i (Suc k) t = idt_loop handlers ist (Suc i) k (idt_set_entry t (of_nat i) (handlers + of_nat (i * 16)) 0x8e ist)"

definition init_idt :: "addr \<Rightarrow> u64 \<Rightarrow> idt_entry list \<Rightarrow> table_register \<times> idt_entry list" where
  "init_idt table handlers t =
     (\<lparr>tr_limit = of_nat (IDT_MAX_DESCRIPTORS * 16 - 1), tr_base = table\<rparr>,
      idt_loop handlers 0 0x20 (256 - 0x20) (idt_loop handlers 0 0 0x20 t))"

definition init_idt_with_stack_table :: "u64 \<Rightarrow> idt_entry list \<Rightarrow> idt_entry list" where
  "init_idt_with_stack_table handlers t = idt_loop handlers 2 0x20 (256 - 0x20) (idt_loop handlers 1 0 0x20 t)"

subsection \<open>Task state segments\<close>

text \<open>A descriptor is packed into two entries of the table, its first field in the lowest bits.\<close>

definition set_tss_desc :: "addr \<Rightarrow> tss_desc" where
  "set_tss_desc task_seg =
     (let base = task_seg; limit = 104 - 1 :: u32 in
      \<lparr>limit_low = ucast (limit AND 0xffff), base_low = ucast (base AND 0xffff), base_mid1 = ucast (drop_bit 16 base AND 0xff),
       td_type = 0x9, td_zero = 0, td_dpl = 0, td_p = 1, limit_high = ucast (drop_bit 16 limit AND 0xf), td_avl = 0,
       td_zero2 = 0, td_g = 0, base_mid2 = ucast (drop_bit 24 base AND 0xff), base_high = ucast (drop_bit 32 base), td_reserved = 0\<rparr>)"

definition desc_words :: "tss_desc \<Rightarrow> u64 \<times> u64" where
  "desc_words d =
     (ucast (limit_low d) OR push_bit 16 (ucast (base_low d)) OR push_bit 32 (ucast (base_mid1 d)) OR push_bit 40 (ucast (td_type d))
        OR push_bit 44 (ucast (td_zero d)) OR push_bit 45 (ucast (td_dpl d)) OR push_bit 47 (ucast (td_p d))
        OR push_bit 48 (ucast (limit_high d)) OR push_bit 52 (ucast (td_avl d)) OR push_bit 53 (ucast (td_zero2 d))
        OR push_bit 55 (ucast (td_g d)) OR push_bit 56 (ucast (base_mid2 d)),
      ucast (base_high d) OR push_bit 32 (ucast (td_reserved d)))"

definition stack_top :: "addr \<Rightarrow> addr" where
  "stack_top stack = stack + INTERRUPT_STACK_SIZE - 0x10"

text \<open>The memory \<open>kzalloc\<close> returns is zero.\<close>

definition zero_tss :: tss where
  "zero_tss =
     \<lparr>reserved0 = 0, rsp0_low = 0, rsp0_high = 0, rsp1_low = 0, rsp1_high = 0, rsp2_low = 0, rsp2_high =
      0, reserved1 = 0, reserved2 = 0, ist1_low = 0, ist1_high = 0, ist2_low = 0, ist2_high = 0, ist3_low
      = 0, ist3_high = 0, ist4_low = 0, ist4_high = 0, ist5_low = 0, ist5_high = 0, ist6_low = 0,
      ist6_high = 0, ist7_low = 0, ist7_high = 0, reserved3 = 0, reserved4 = 0, iomap_base = 0, reserved5
      = 0\<rparr>"

definition new_tss :: "addr \<Rightarrow> addr \<Rightarrow> tss" where
  "new_tss exception_stack interrupt_stack =
     zero_tss\<lparr>ist1_high := ucast (drop_bit 32 exception_stack), ist1_low := ucast (exception_stack AND 0xffffffff),
       ist2_high := ucast (drop_bit 32 interrupt_stack), ist2_low := ucast (interrupt_stack AND 0xffffffff)\<rparr>"

fun tss_loop :: "nat \<Rightarrow> nat \<Rightarrow> nat \<Rightarrow> addr list \<Rightarrow> addr list \<Rightarrow> cpu_state \<Rightarrow> cpu_state result" where
  "tss_loop 0 i gdt_idx segments stacks s = Ok s"
| "tss_loop (Suc k) i gdt_idx (seg # segments) (st1 # st2 # stacks) s =
     (if seg = NULL then Fault Null_Deref else
      if i \<ge> length (cpu_cores s) \<or> gdt_idx + 1 \<ge> length (gdt_table s) then Fault Out_Of_Bounds else
      let (lo, hi) = desc_words (set_tss_desc seg) in
      tss_loop k (i + 1) (gdt_idx + 2) segments stacks
        (s\<lparr>tss_heap := (tss_heap s)(seg \<mapsto> new_tss (stack_top st1) (stack_top st2)),
           cpu_cores := (cpu_cores s)[i := (cpu_cores s ! i)\<lparr>cpu_tss := seg\<rparr>],
           gdt_table := (gdt_table s)[gdt_idx := lo, gdt_idx + 1 := hi]\<rparr>))"
| "tss_loop (Suc k) i gdt_idx segments stacks s = Fault Null_Deref"

definition tss_init :: "int \<Rightarrow> addr list \<Rightarrow> addr list \<Rightarrow> cpu_state \<Rightarrow> cpu_state result" where
  "tss_init n_cpus segments stacks s = tss_loop (nat n_cpus) 0 5 segments stacks s"

definition tss_selector :: "u64 \<Rightarrow> u16" where
  "tss_selector cpuid = ucast ((5 + cpuid * 2) * 8)"

text \<open>The processors the boot loader found, by the numbers of their interrupt controllers.\<close>

fun cpus_loop :: "u32 list \<Rightarrow> nat \<Rightarrow> cpu_state \<Rightarrow> cpu_state result" where
  "cpus_loop [] i s = Ok s"
| "cpus_loop (x # xs) i s =
     (if i \<ge> length (cpu_cores s) then Fault Out_Of_Bounds else
      cpus_loop xs (i + 1) (s\<lparr>cpu_cores := (cpu_cores s)[i := (cpu_cores s ! i)\<lparr>lapic_id := ucast x, cli_count := 1\<rparr>]\<rparr>))"

section \<open>What the processor reads\<close>

text \<open>
  The fields of a gate and of a descriptor as the processor decodes them: the address of the handler, and
  the base, the limit in bytes, the type, the privilege level and the present bit of a segment.
\<close>

definition gate_handler :: "idt_entry \<Rightarrow> u64" where
  "gate_handler e = ucast (isr_low e) OR push_bit 16 (ucast (isr_mid e)) OR push_bit 32 (ucast (isr_high e))"

definition seg_base :: "u64 \<Rightarrow> u64 \<Rightarrow> u64" where
  "seg_base lo hi = take_bit 24 (drop_bit 16 lo) OR push_bit 24 (take_bit 8 (drop_bit 56 lo)) OR push_bit 32 (take_bit 32 hi)"

definition seg_limit :: "u64 \<Rightarrow> u64" where
  "seg_limit lo = take_bit 16 lo OR push_bit 16 (take_bit 4 (drop_bit 48 lo))"

definition seg_type :: "u64 \<Rightarrow> u64" where "seg_type lo = take_bit 5 (drop_bit 40 lo)"
definition seg_dpl :: "u64 \<Rightarrow> u64" where "seg_dpl lo = take_bit 2 (drop_bit 45 lo)"
definition seg_present :: "u64 \<Rightarrow> bool" where "seg_present lo = bit lo 47"

lemma gate_handler_set:
  "gate_handler \<lparr>isr_low = ucast (h AND 0xffff), ie_kernel_cs = cs, ie_ist = ist, ie_attributes = fl,
      isr_mid = ucast (drop_bit 16 h AND 0xffff), isr_high = ucast (drop_bit 32 h AND 0xffffffff), ie_reserved = r\<rparr> = h"
proof -
  have m: "(0xffff :: u64) = mask 16" "(0xffffffff :: u64) = mask 32" by (simp_all add: mask_eq_exp_minus_1)
  show ?thesis unfolding gate_handler_def m
  proof (rule bit_word_eqI)
    fix n assume "n < LENGTH(64)"
    then consider "n < 16" | "16 \<le> n" "n < 32" | "32 \<le> n" "n < 64" by fastforce
    then show "bit (ucast (isr_low \<lparr>isr_low = ucast (h AND mask 16), ie_kernel_cs = cs, ie_ist = ist, ie_attributes = fl,
      isr_mid = ucast (drop_bit 16 h AND mask 16), isr_high = ucast (drop_bit 32 h AND mask 32), ie_reserved = r\<rparr>) OR
      push_bit 16 (ucast (isr_mid \<lparr>isr_low = ucast (h AND mask 16), ie_kernel_cs = cs, ie_ist = ist, ie_attributes = fl,
      isr_mid = ucast (drop_bit 16 h AND mask 16), isr_high = ucast (drop_bit 32 h AND mask 32), ie_reserved = r\<rparr>)) OR
      push_bit 32 (ucast (isr_high \<lparr>isr_low = ucast (h AND mask 16), ie_kernel_cs = cs, ie_ist = ist, ie_attributes = fl,
      isr_mid = ucast (drop_bit 16 h AND mask 16), isr_high = ucast (drop_bit 32 h AND mask 32), ie_reserved = r\<rparr>)) :: u64) n = bit h n"
      by cases (auto simp: bit_simps)
  qed
qed

lemma length_idt_loop [simp]: "length (idt_loop handlers ist i k t) = length t"
  by (induction k arbitrary: i t) (simp_all add: idt_set_entry_def)

lemma idt_loop_nth:
  assumes "i + k \<le> 256" and "length t = 256" and "v < 256"
  shows "idt_loop handlers ist i k t ! v = (if i \<le> v \<and> v < i + k
     then \<lparr>isr_low = ucast ((handlers + of_nat (v * 16)) AND 0xffff), ie_kernel_cs = GDT_OFFSET_KERNEL_CODE, ie_ist = ist, ie_attributes = 0x8e,
      isr_mid = ucast (drop_bit 16 (handlers + of_nat (v * 16)) AND 0xffff),
      isr_high = ucast (drop_bit 32 (handlers + of_nat (v * 16)) AND 0xffffffff), ie_reserved = 0\<rparr> else t ! v)"
  using assms(1,2)
proof (induction k arbitrary: i t)
  case (Suc k)
  have u: "unat (of_nat i :: u8) = i" using Suc.prems(1) by (simp add: unat_of_nat)
  show ?case
    using Suc.IH[of "Suc i" "idt_set_entry t (of_nat i) (handlers + of_nat (i * 16)) 0x8e ist"] Suc.prems u assms(3)
    by (cases "v = i") (auto simp: idt_set_entry_def)
qed auto

lemma byte_masks: "(0xff :: u64) = mask 8" "(0xffff :: u64) = mask 16" "(0xffffffff :: u64) = mask 32"
  by (simp_all add: mask_eq_exp_minus_1)

lemma desc_base: "seg_base (fst (desc_words (set_tss_desc a))) (snd (desc_words (set_tss_desc a))) = a"
proof (rule bit_word_eqI)
  fix n assume "n < LENGTH(64)"
  then consider "n < 16" | "16 \<le> n" "n < 24" | "24 \<le> n" "n < 32" | "32 \<le> n" "n < 64" by fastforce
  then show "bit (seg_base (fst (desc_words (set_tss_desc a))) (snd (desc_words (set_tss_desc a)))) n = bit a n"
    by cases (auto simp: seg_base_def desc_words_def set_tss_desc_def Let_def byte_masks bit_simps)
qed

lemma high_bit: "LENGTH('a) \<le> n \<Longrightarrow> \<not> bit (w :: 'a::len word) n"
  using bit_imp_le_length[of w n] by auto

lemma desc_limit: "seg_limit (fst (desc_words d)) = ucast (limit_low d) OR push_bit 16 (ucast (limit_high d))"
proof (rule bit_word_eqI)
  fix n assume "n < LENGTH(64)"
  then consider "n < 16" | "16 \<le> n" "n < 20" | "20 \<le> n" "n < 64" by fastforce
  then show "bit (seg_limit (fst (desc_words d))) n = bit (ucast (limit_low d) OR push_bit 16 (ucast (limit_high d)) :: u64) n"
    by cases (simp_all add: high_bit seg_limit_def desc_words_def bit_simps, auto)
qed

lemma desc_kind:
  "seg_type (fst (desc_words d)) = ucast (td_type d) OR push_bit 4 (ucast (td_zero d))"
  "seg_dpl (fst (desc_words d)) = ucast (td_dpl d)" "seg_present (fst (desc_words d)) = bit (td_p d) 0"
proof -
  show "seg_type (fst (desc_words d)) = ucast (td_type d) OR push_bit 4 (ucast (td_zero d))"
  proof (rule bit_word_eqI)
    fix n assume "n < LENGTH(64)"
    then consider "n < 4" | "n = 4" | "5 \<le> n" "n < 64" by fastforce
    then show "bit (seg_type (fst (desc_words d))) n = bit (ucast (td_type d) OR push_bit 4 (ucast (td_zero d)) :: u64) n"
      by cases (simp_all add: high_bit seg_type_def desc_words_def bit_simps)
  qed
  show "seg_dpl (fst (desc_words d)) = ucast (td_dpl d)"
  proof (rule bit_word_eqI)
    fix n assume "n < LENGTH(64)"
    then consider "n = 0" | "n = 1" | "2 \<le> n" "n < 64" by fastforce
    then show "bit (seg_dpl (fst (desc_words d))) n = bit (ucast (td_dpl d) :: u64) n"
      by cases (simp_all add: high_bit seg_dpl_def desc_words_def bit_simps)
  qed
  show "seg_present (fst (desc_words d)) = bit (td_p d) 0"
    by (simp_all add: high_bit seg_present_def desc_words_def bit_simps)
qed

lemma tss_desc_kind:
  "seg_limit (fst (desc_words (set_tss_desc a))) = 103" "seg_type (fst (desc_words (set_tss_desc a))) = 9"
  "seg_dpl (fst (desc_words (set_tss_desc a))) = 0" "seg_present (fst (desc_words (set_tss_desc a)))"
  by (simp_all add: desc_limit desc_kind set_tss_desc_def Let_def)

section \<open>Properties of the tables\<close>

text \<open>
  Interrupts reach their handlers. Whichever of the two set-up functions ran, gate \<open>v\<close> decodes to
  the address of the \<open>v\<close>-th stub, sixteen bytes each, in the kernel code segment as a present interrupt
  gate; the first set-up uses no stack of the task state segment, the second the first stack for
  exceptions and the second for interrupts.
\<close>

theorem idt_gates_decode:
  assumes "length t = 256" and "v < 256"
  shows "let e = snd (init_idt table handlers t) ! v; e' = init_idt_with_stack_table handlers t ! v in
     gate_handler e = handlers + of_nat (16 * v) \<and> gate_handler e' = handlers + of_nat (16 * v)
     \<and> ie_kernel_cs e = 0x08 \<and> ie_kernel_cs e' = 0x08 \<and> ie_attributes e = 0x8e \<and> ie_attributes e' = 0x8e
     \<and> ie_ist e = 0 \<and> ie_ist e' = (if v < 0x20 then 1 else 2)"
  using assms
  by (simp add: Let_def init_idt_def init_idt_with_stack_table_def idt_loop_nth gate_handler_set GDT_OFFSET_KERNEL_CODE_def mult.commute)

theorem idt_gates_decode_witness:
  "gate_handler (snd (init_idt 0 0xffffffff80001000 (replicate 256 \<lparr>isr_low = 0, ie_kernel_cs = 0, ie_ist = 0, ie_attributes = 0, isr_mid = 0,
     isr_high = 0, ie_reserved = 0\<rparr>)) ! 0x20) = 0xffffffff80001200"
  using idt_gates_decode[of "replicate 256 \<lparr>isr_low = 0, ie_kernel_cs = 0, ie_ist = 0, ie_attributes = 0, isr_mid = 0,
     isr_high = 0, ie_reserved = 0\<rparr>" "0x20" 0 "0xffffffff80001000"] by (simp add: Let_def)

text \<open>What the loop of \<open>tss_init\<close> leaves for each processor.\<close>

lemma tss_loop_spec:
  assumes "length segments = k" and "length stacks = 2 * k" and "distinct segments" and "NULL \<notin> set segments"
    and "i + k \<le> length (cpu_cores s)" and "g + 2 * k \<le> length (gdt_table s)"
  shows "\<exists>s'. tss_loop k i g segments stacks s = Ok s' \<and> length (gdt_table s') = length (gdt_table s) \<and> length (cpu_cores s') = length (cpu_cores s)
     \<and> (\<forall>j<k. (gdt_table s' ! (g + 2 * j), gdt_table s' ! (g + 2 * j + 1)) = desc_words (set_tss_desc (segments ! j))
          \<and> cpu_tss (cpu_cores s' ! (i + j)) = segments ! j
          \<and> tss_heap s' (segments ! j) = Some (new_tss (stack_top (stacks ! (2 * j))) (stack_top (stacks ! (2 * j + 1)))))
     \<and> (\<forall>x<g. gdt_table s' ! x = gdt_table s ! x) \<and> (\<forall>x<i. cpu_cores s' ! x = cpu_cores s ! x)
     \<and> (\<forall>a. a \<notin> set segments \<longrightarrow> tss_heap s' a = tss_heap s a)"
  using assms
proof (induction k arbitrary: i g segments stacks s)
  case (Suc k)
  obtain seg segs where sg: "segments = seg # segs" using Suc.prems(1) by (cases segments) auto
  obtain st1 st2 sts where st: "stacks = st1 # st2 # sts" using Suc.prems(2) by (cases stacks; cases "tl stacks") auto
  obtain lo hi where d: "desc_words (set_tss_desc seg) = (lo, hi)" by fastforce
  let ?s = "s\<lparr>tss_heap := (tss_heap s)(seg \<mapsto> new_tss (stack_top st1) (stack_top st2)),
           cpu_cores := (cpu_cores s)[i := (cpu_cores s ! i)\<lparr>cpu_tss := seg\<rparr>],
           gdt_table := (gdt_table s)[g := lo, g + 1 := hi]\<rparr>"
  obtain s' where s': "tss_loop k (i + 1) (g + 2) segs sts ?s = Ok s'" "length (gdt_table s') = length (gdt_table s)" "length (cpu_cores s') = length (cpu_cores s)"
    "\<forall>j<k. (gdt_table s' ! (g + 2 + 2 * j), gdt_table s' ! (g + 2 + 2 * j + 1)) = desc_words (set_tss_desc (segs ! j))
          \<and> cpu_tss (cpu_cores s' ! (i + 1 + j)) = segs ! j
          \<and> tss_heap s' (segs ! j) = Some (new_tss (stack_top (sts ! (2 * j))) (stack_top (sts ! (2 * j + 1))))"
    "\<forall>x<g + 2. gdt_table s' ! x = gdt_table ?s ! x" "\<forall>x<i + 1. cpu_cores s' ! x = cpu_cores ?s ! x"
    "\<forall>a. a \<notin> set segs \<longrightarrow> tss_heap s' a = tss_heap ?s a"
    using Suc.IH[of segs sts "i + 1" ?s "g + 2"] Suc.prems sg st by auto
  have step: "tss_loop (Suc k) i g segments stacks s = Ok s'"
    using s'(1) d Suc.prems sg st by simp
  have "(gdt_table s' ! (g + 2 * j), gdt_table s' ! (g + 2 * j + 1)) = desc_words (set_tss_desc (segments ! j))
          \<and> cpu_tss (cpu_cores s' ! (i + j)) = segments ! j
          \<and> tss_heap s' (segments ! j) = Some (new_tss (stack_top (stacks ! (2 * j))) (stack_top (stacks ! (2 * j + 1))))" if j: "j < Suc k" for j
  proof (cases j)
    case 0
    have "seg \<notin> set segs" using Suc.prems(3) sg by simp
    then have "tss_heap s' seg = Some (new_tss (stack_top st1) (stack_top st2))" using s'(7) by simp
    moreover have "gdt_table s' ! g = lo" "gdt_table s' ! (g + 1) = hi" using s'(5) Suc.prems(6) by simp_all
    moreover have "cpu_tss (cpu_cores s' ! i) = seg" using s'(6) Suc.prems(5) by simp
    ultimately show ?thesis using 0 sg st d by simp
  next
    case (Suc m)
    then have "m < k" using j by simp
    from s'(4)[rule_format, OF this] show ?thesis using Suc sg st by simp
  qed
  moreover have "\<forall>x<g. gdt_table s' ! x = gdt_table s ! x" "\<forall>x<i. cpu_cores s' ! x = cpu_cores s ! x" using s'(5,6) by simp_all
  moreover have "\<forall>a. a \<notin> set segments \<longrightarrow> tss_heap s' a = tss_heap s a" using s'(7) sg by simp
  ultimately show ?case using step s'(2,3) by blast
qed simp

lemma five_entries: "5 \<le> length xs \<Longrightarrow> \<exists>a b c d e r. xs = a # b # c # d # e # r"
  by (auto simp: numeral_eq_Suc Suc_le_length_iff)

lemma u16_of_nat: "(ucast (of_nat n :: u64) :: u16) = of_nat n"
  by (simp add: unsigned_of_nat word_of_nat_eq_iff)

text \<open>The address in the two halves of a stack field.\<close>

lemma halves: "(push_bit 32 (ucast (ucast (drop_bit 32 a) :: u32)) OR ucast (ucast (a AND 0xffffffff) :: u32) :: u64) = a"
proof (rule bit_word_eqI)
  fix n assume "n < LENGTH(64)"
  then consider "n < 32" | "32 \<le> n" "n < 64" by fastforce
  then show "bit (push_bit 32 (ucast (ucast (drop_bit 32 a) :: u32)) OR ucast (ucast (a AND 0xffffffff) :: u32) :: u64) n = bit a n"
    by cases (auto simp: byte_masks bit_simps)
qed

text \<open>
  C20: Each processor has its own task state. For up to sixteen processors, after \<open>tss_init\<close> the
  descriptor that the selector of \<open>tss_percpu_init\<close> names for processor \<open>i\<close> decodes to a present system segment
  of 104 bytes at the address of the \<open>i\<close>-th segment allocated, whose first two interrupt stacks are the tops of
  two stacks of its own, and the five segments of the kernel and the user are as \<open>init_gdt\<close> left them.
\<close>

theorem tss_init_descriptors:
  assumes "0 \<le> n" and "n \<le> 16" and "length (cpu_cores s) = MAX_CPUS" and "length (gdt_table s) = 255"
    and "length segments = nat n" and "length stacks = 2 * nat n" and "distinct segments" and "NULL \<notin> set segments"
  shows "\<exists>s'. tss_init n segments stacks (snd (init_gdt table s)) = Ok s'
     \<and> (\<forall>i<nat n. \<exists>k T. tss_selector (of_nat i) = of_nat (8 * k) \<and> 5 \<le> k \<and> k + 1 < 255
          \<and> seg_base (gdt_table s' ! k) (gdt_table s' ! (k + 1)) = segments ! i \<and> seg_limit (gdt_table s' ! k) = 103
          \<and> seg_type (gdt_table s' ! k) = 9 \<and> seg_present (gdt_table s' ! k) \<and> tss_heap s' (segments ! i) = Some T
          \<and> push_bit 32 (ucast (ist1_high T)) OR ucast (ist1_low T) = stacks ! (2 * i) + 0x7ff0
          \<and> push_bit 32 (ucast (ist2_high T)) OR ucast (ist2_low T) = stacks ! (2 * i + 1) + 0x7ff0)
     \<and> take 5 (gdt_table s') = [0, 0x00AF9A000000FFFF, 0x00CF92000000FFFF, 0x00AFFA000000FFFF, 0x00CFF2000000FFFF]"
proof -
  let ?s = "snd (init_gdt table s)"
  have l: "length (cpu_cores ?s) = 16" "length (gdt_table ?s) = 255" using assms(3,4) by (simp_all add: init_gdt_def Let_def MAX_CPUS_def)
  have b: "0 + nat n \<le> length (cpu_cores ?s)" "5 + 2 * nat n \<le> length (gdt_table ?s)" using l assms(1,2) by linarith+
  obtain s' where s': "tss_loop (nat n) 0 5 segments stacks ?s = Ok s'" "length (gdt_table s') = length (gdt_table ?s)"
    "\<forall>j<nat n. (gdt_table s' ! (5 + 2 * j), gdt_table s' ! (5 + 2 * j + 1)) = desc_words (set_tss_desc (segments ! j))
          \<and> cpu_tss (cpu_cores s' ! (0 + j)) = segments ! j
          \<and> tss_heap s' (segments ! j) = Some (new_tss (stack_top (stacks ! (2 * j))) (stack_top (stacks ! (2 * j + 1))))"
    "\<forall>x<5. gdt_table s' ! x = gdt_table ?s ! x"
    using tss_loop_spec[OF assms(5-8) b] by blast
  have each: "\<exists>k T. tss_selector (of_nat i) = of_nat (8 * k) \<and> 5 \<le> k \<and> k + 1 < 255
          \<and> seg_base (gdt_table s' ! k) (gdt_table s' ! (k + 1)) = segments ! i \<and> seg_limit (gdt_table s' ! k) = 103
          \<and> seg_type (gdt_table s' ! k) = 9 \<and> seg_present (gdt_table s' ! k) \<and> tss_heap s' (segments ! i) = Some T
          \<and> push_bit 32 (ucast (ist1_high T)) OR ucast (ist1_low T) = stacks ! (2 * i) + 0x7ff0
          \<and> push_bit 32 (ucast (ist2_high T)) OR ucast (ist2_low T) = stacks ! (2 * i + 1) + 0x7ff0" if i: "i < nat n" for i
  proof (intro exI conjI)
    have "gdt_table s' ! (5 + 2 * i) = fst (desc_words (set_tss_desc (segments ! i)))"
      "gdt_table s' ! (5 + 2 * i + 1) = snd (desc_words (set_tss_desc (segments ! i)))" using s'(3) i by (metis fst_conv, metis snd_conv)
    then show "seg_base (gdt_table s' ! (5 + 2 * i)) (gdt_table s' ! (5 + 2 * i + 1)) = segments ! i"
      "seg_limit (gdt_table s' ! (5 + 2 * i)) = 103" "seg_type (gdt_table s' ! (5 + 2 * i)) = 9" "seg_present (gdt_table s' ! (5 + 2 * i))"
      using desc_base tss_desc_kind by simp_all
    show "tss_selector (of_nat i) = of_nat (8 * (5 + 2 * i))"
    proof -
      have "(5 + of_nat i * 2) * 8 = (of_nat (8 * (5 + 2 * i)) :: u64)" by (simp add: algebra_simps)
      then show ?thesis using u16_of_nat[of "8 * (5 + 2 * i)"] by (simp only: tss_selector_def)
    qed
    show "tss_heap s' (segments ! i) = Some (new_tss (stack_top (stacks ! (2 * i))) (stack_top (stacks ! (2 * i + 1))))"
      using s'(3) i by blast
    have st: "stack_top a = a + 0x7ff0" for a by (simp add: stack_top_def INTERRUPT_STACK_SIZE_def)
    show "push_bit 32 (ucast (ist1_high (new_tss (stack_top (stacks ! (2 * i))) (stack_top (stacks ! (2 * i + 1))))))
        OR ucast (ist1_low (new_tss (stack_top (stacks ! (2 * i))) (stack_top (stacks ! (2 * i + 1))))) = stacks ! (2 * i) + 0x7ff0"
      "push_bit 32 (ucast (ist2_high (new_tss (stack_top (stacks ! (2 * i))) (stack_top (stacks ! (2 * i + 1))))))
        OR ucast (ist2_low (new_tss (stack_top (stacks ! (2 * i))) (stack_top (stacks ! (2 * i + 1))))) = stacks ! (2 * i + 1) + 0x7ff0"
      unfolding st by (simp_all add: new_tss_def halves)
  qed (use i assms(2) in linarith)+
  have "take 5 (gdt_table s') = take 5 (gdt_table ?s)" using s'(2,4) l by (intro nth_equalityI) auto
  moreover have "take 5 (gdt_table ?s) = [0, 0x00AF9A000000FFFF, 0x00CF92000000FFFF, 0x00AFFA000000FFFF, 0x00CFF2000000FFFF]"
  proof -
    obtain a b c d e r where "gdt_table s = a # b # c # d # e # r" using five_entries[of "gdt_table s"] assms(4) by auto
    then show ?thesis by (simp add: init_gdt_def Let_def numeral_eq_Suc)
  qed
  ultimately show ?thesis using s'(1) each by (auto simp: tss_init_def)
qed

definition blank_cpus :: cpu_state where
  "blank_cpus = \<lparr>gdt_table = replicate 255 0, cpu_cores = replicate 16 \<lparr>lapic_id = 0, cli_count = 0, preempt_count = 0, cpu_hz = 0, current_task = 0, cpu_tss = 0\<rparr>, tss_heap = Map.empty\<rparr>"

theorem tss_init_descriptors_witness:
  "\<exists>s'. tss_init 2 [0x1000, 0x1100] [0x10000, 0x20000, 0x30000, 0x40000] (snd (init_gdt 0x500 blank_cpus)) = Ok s'
     \<and> (\<exists>k T. tss_selector 1 = of_nat (8 * k) \<and> seg_base (gdt_table s' ! k) (gdt_table s' ! (k + 1)) = 0x1100
          \<and> tss_heap s' 0x1100 = Some T \<and> push_bit 32 (ucast (ist2_high T)) OR ucast (ist2_low T) = (0x47ff0 :: u64))"
proof -
  obtain s' where s': "tss_init 2 [0x1000, 0x1100] [0x10000, 0x20000, 0x30000, 0x40000] (snd (init_gdt 0x500 blank_cpus)) = Ok s'"
    "\<forall>i<nat 2. \<exists>k T. tss_selector (of_nat i) = of_nat (8 * k) \<and> 5 \<le> k \<and> k + 1 < 255
          \<and> seg_base (gdt_table s' ! k) (gdt_table s' ! (k + 1)) = [0x1000, 0x1100] ! i \<and> seg_limit (gdt_table s' ! k) = 103
          \<and> seg_type (gdt_table s' ! k) = 9 \<and> seg_present (gdt_table s' ! k) \<and> tss_heap s' ([0x1000, 0x1100] ! i) = Some T
          \<and> push_bit 32 (ucast (ist1_high T)) OR ucast (ist1_low T) = [0x10000, 0x20000, 0x30000, 0x40000 :: u64] ! (2 * i) + 0x7ff0
          \<and> push_bit 32 (ucast (ist2_high T)) OR ucast (ist2_low T) = [0x10000, 0x20000, 0x30000, 0x40000 :: u64] ! (2 * i + 1) + 0x7ff0"
    using tss_init_descriptors[of 2 blank_cpus "[0x1000, 0x1100]" "[0x10000, 0x20000, 0x30000, 0x40000]" "0x500"]
    by (auto simp: blank_cpus_def MAX_CPUS_def)
  then show ?thesis using s'(2)[rule_format, of 1] by (auto simp: numeral_eq_Suc)
qed

end
