(* ===== verification/Boot.thy ===== *)
theory Boot
  imports Descriptor
begin

section \<open>boot/boot_limine.c and the start of the other processors\<close>

text \<open>
  What the boot loader answers to the requests of boot_limine.c, \<open>None\<close> where the pointer to a response is
  NULL: the frame buffers, the offset of the direct map, the numbers of the interrupt controllers of the
  processors, and the addresses of the other responses, which \<open>limine_init\<close> only stores. \<open>smp_init\<close> of
  arch/x86-64/init.c gives the other processors the address they start at.
\<close>

record requests =
  rq_base_revision :: bool
  rq_framebuffers :: "addr list option"
  rq_memmap :: addr
  rq_hhdm :: "u64 option"
  rq_mp :: "u32 list option"
  rq_rsdp :: addr
  rq_modules :: addr
  rq_cmdline :: addr

record boot_state =
  no_framebuffer :: bool
  bs_framebuffer :: addr
  bs_memmap :: addr
  bs_rsdp :: addr
  bs_modules :: addr
  bs_cmdline :: addr
  bs_hhdm_offset :: u64
  n_cpus :: int
  bs_cpus :: cpu_state

text \<open>\<open>hcf\<close> stops the machine.\<close>

definition hcf :: "'a result" where "hcf = Fault Halted"

definition limine_init :: "requests \<Rightarrow> boot_state \<Rightarrow> boot_state result" where
  "limine_init rq s =
     (if \<not> rq_base_revision rq then hcf else
      let s = (if rq_framebuffers rq = None \<or> rq_framebuffers rq = Some [] then s\<lparr>no_framebuffer := True\<rparr> else s) in
      if rq_memmap rq = NULL then hcf else
      case rq_hhdm rq of None \<Rightarrow> hcf | Some offset \<Rightarrow>
      case rq_mp rq of None \<Rightarrow> hcf | Some cpus \<Rightarrow>
      if rq_rsdp rq = NULL then hcf else
      bnd (if no_framebuffer s then Ok s
           else case rq_framebuffers rq of Some (fb # fbs) \<Rightarrow> Ok (s\<lparr>bs_framebuffer := fb\<rparr>) | _ \<Rightarrow> Fault Null_Deref) (\<lambda>s.
      let s = s\<lparr>bs_memmap := rq_memmap rq, bs_rsdp := rq_rsdp rq, bs_modules := rq_modules rq, bs_cmdline := rq_cmdline rq,
               bs_hhdm_offset := offset, n_cpus := sint (of_nat (length cpus) :: u32)\<rparr> in
      bnd (cpus_loop (take (nat (n_cpus s)) cpus) 0 (bs_cpus s)) (\<lambda>c. Ok (s\<lparr>bs_cpus := c\<rparr>))))"

text \<open>The start addresses of the processors are the fields \<open>goto_address\<close> of the response.\<close>

fun smp_loop :: "nat \<Rightarrow> nat \<Rightarrow> addr \<Rightarrow> addr list \<Rightarrow> addr list result" where
  "smp_loop 0 i wakeup cpus = Ok cpus"
| "smp_loop (Suc k) i wakeup cpus =
     (if i < length cpus then smp_loop k (i + 1) wakeup (cpus[i := wakeup]) else Fault Out_Of_Bounds)"

definition smp_init :: "int \<Rightarrow> u64 \<Rightarrow> addr \<Rightarrow> addr list \<Rightarrow> (u64 \<times> addr list) result" where
  "smp_init n cr3 wakeup cpus = bnd (smp_loop (nat (n - 1)) 1 wakeup cpus) (\<lambda>cpus. Ok (cr3, cpus))"

lemma cpus_loop_spec:
  assumes "i + length xs \<le> length (cpu_cores s)"
  shows "\<exists>s'. cpus_loop xs i s = Ok s' \<and> length (cpu_cores s') = length (cpu_cores s) \<and> gdt_table s' = gdt_table s \<and> tss_heap s' = tss_heap s
     \<and> (\<forall>j<length (cpu_cores s). cpu_cores s' ! j =
          (if i \<le> j \<and> j < i + length xs then (cpu_cores s ! j)\<lparr>lapic_id := ucast (xs ! (j - i)), cli_count := 1\<rparr> else cpu_cores s ! j))"
  using assms
proof (induction xs arbitrary: i s)
  case (Cons x xs)
  let ?s = "s\<lparr>cpu_cores := (cpu_cores s)[i := (cpu_cores s ! i)\<lparr>lapic_id := ucast x, cli_count := 1\<rparr>]\<rparr>"
  have "i + 1 + length xs \<le> length (cpu_cores ?s)" using Cons.prems by simp
  from Cons.IH[OF this] obtain s' where s': "cpus_loop xs (i + 1) ?s = Ok s'" "length (cpu_cores s') = length (cpu_cores s)"
    "gdt_table s' = gdt_table s" "tss_heap s' = tss_heap s"
    "\<forall>j<length (cpu_cores s). cpu_cores s' ! j = (if i + 1 \<le> j \<and> j < i + 1 + length xs
       then (cpu_cores ?s ! j)\<lparr>lapic_id := ucast (xs ! (j - (i + 1))), cli_count := 1\<rparr> else cpu_cores ?s ! j)" by auto
  have "cpu_cores s' ! j = (if i \<le> j \<and> j < i + length (x # xs)
       then (cpu_cores s ! j)\<lparr>lapic_id := ucast ((x # xs) ! (j - i)), cli_count := 1\<rparr> else cpu_cores s ! j)"
    if j: "j < length (cpu_cores s)" for j
  proof (cases "j = i")
    case True
    then show ?thesis using s'(5) j by simp
  next
    case False
    then have "i + 1 \<le> j \<longleftrightarrow> i \<le> j" "i \<le> j \<Longrightarrow> (x # xs) ! (j - i) = xs ! (j - (i + 1))" by (auto simp: nth_Cons')
    then show ?thesis using s'(5) j False by simp
  qed
  then show ?case using s' Cons.prems by auto
qed auto

lemma cpus_loop_overrun:
  assumes "length (cpu_cores s) < i + length xs" and "i \<le> length (cpu_cores s)"
  shows "cpus_loop xs i s = Fault Out_Of_Bounds"
  using assms by (induction xs arbitrary: i s) auto

section \<open>Properties of the boot\<close>

text \<open>
  What the kernel insists on. Of the answers of the boot loader, \<open>limine_init\<close> needs the base revision,
  the memory map, the offset of the direct map, the processors and the root of the firmware tables, and stops
  the machine where one of them is missing; without a frame buffer it goes on. Then the table of processors has the
  number of each and every processor starts with interrupts counted as off once; with more than the sixteen
  processors it has room for, it writes past the table.
\<close>

theorem limine_init_checks:
  assumes "length (cpu_cores (bs_cpus s)) = MAX_CPUS" and "\<not> no_framebuffer s"
    and "\<forall>cpus. rq_mp rq = Some cpus \<longrightarrow> length cpus < 2 ^ 31"
  shows "case limine_init rq s of
      Fault e \<Rightarrow> (if rq_base_revision rq \<and> rq_memmap rq \<noteq> NULL \<and> rq_hhdm rq \<noteq> None \<and> rq_mp rq \<noteq> None \<and> rq_rsdp rq \<noteq> NULL
         then e = Out_Of_Bounds \<and> 16 < length (the (rq_mp rq)) else e = Halted)
    | Ok s' \<Rightarrow> rq_base_revision rq \<and> rq_memmap rq \<noteq> NULL \<and> rq_rsdp rq \<noteq> NULL
         \<and> rq_hhdm rq = Some (bs_hhdm_offset s') \<and> (\<exists>cs. rq_mp rq = Some cs \<and> length cs \<le> 16 \<and> n_cpus s' = int (length cs)
            \<and> (\<forall>i<length cs. lapic_id (cpu_cores (bs_cpus s') ! i) = ucast (cs ! i) \<and> cli_count (cpu_cores (bs_cpus s') ! i) = 1)
            \<and> (\<forall>i. length cs \<le> i \<and> i < 16 \<longrightarrow> cpu_cores (bs_cpus s') ! i = cpu_cores (bs_cpus s) ! i))
         \<and> (no_framebuffer s' \<longleftrightarrow> rq_framebuffers rq = None \<or> rq_framebuffers rq = Some [])
         \<and> (\<forall>fb fbs. rq_framebuffers rq = Some (fb # fbs) \<longrightarrow> bs_framebuffer s' = fb)"
proof (cases "rq_base_revision rq \<and> rq_memmap rq \<noteq> NULL \<and> rq_hhdm rq \<noteq> None \<and> rq_mp rq \<noteq> None \<and> rq_rsdp rq \<noteq> NULL")
  case False
  then have "limine_init rq s = Fault Halted" by (auto simp: limine_init_def hcf_def Let_def split: option.splits)
  then show ?thesis using False by (simp only: result.case if_False)
next
  case True
  then obtain off cs where rq: "rq_hhdm rq = Some off" "rq_mp rq = Some cs" by auto
  have n: "sint (of_nat (length cs) :: u32) = int (length cs)"
    using assms(3) rq(2) by (simp add: signed_of_nat signed_take_bit_int_eq_self)
  let ?fb = "case rq_framebuffers rq of Some (fb # fbs) \<Rightarrow> Some fb | _ \<Rightarrow> None"
  define S where "S = s\<lparr>no_framebuffer := (?fb = None), bs_framebuffer := (case ?fb of None \<Rightarrow> bs_framebuffer s | Some fb \<Rightarrow> fb),
     bs_memmap := rq_memmap rq, bs_rsdp := rq_rsdp rq, bs_modules := rq_modules rq, bs_cmdline := rq_cmdline rq,
     bs_hhdm_offset := off, n_cpus := int (length cs)\<rparr>"
  have S: "limine_init rq s = bnd (cpus_loop cs 0 (bs_cpus s)) (\<lambda>c. Ok (S\<lparr>bs_cpus := c\<rparr>))"
    using True rq assms(2) n by (cases s) (auto simp: limine_init_def S_def Let_def split: option.splits list.splits)
  show ?thesis
  proof (cases "length cs \<le> 16")
    case True': True
    then obtain c where c: "cpus_loop cs 0 (bs_cpus s) = Ok c" "\<forall>j<16. cpu_cores c ! j =
        (if j < length cs then (cpu_cores (bs_cpus s) ! j)\<lparr>lapic_id := ucast (cs ! j), cli_count := 1\<rparr> else cpu_cores (bs_cpus s) ! j)"
      using cpus_loop_spec[of 0 cs "bs_cpus s"] assms(1) by (auto simp: MAX_CPUS_def)
    have "limine_init rq s = Ok (S\<lparr>bs_cpus := c\<rparr>)" using S c(1) by simp
    then show ?thesis using True True' rq c(2) by (auto simp: S_def split: option.splits list.splits)
  next
    case False
    then have "limine_init rq s = Fault Out_Of_Bounds"
      using S cpus_loop_overrun[of "bs_cpus s" 0 cs] assms(1) by (simp add: MAX_CPUS_def)
    then show ?thesis using True rq False by simp
  qed
qed

definition blank_boot :: boot_state where
  "blank_boot = \<lparr>no_framebuffer = False, bs_framebuffer = 0, bs_memmap = 0, bs_rsdp = 0, bs_modules = 0, bs_cmdline = 0, bs_hhdm_offset = 0,
     n_cpus = 0, bs_cpus = blank_cpus\<rparr>"

definition demo_requests :: "u32 list \<Rightarrow> requests" where
  "demo_requests cpus = \<lparr>rq_base_revision = True, rq_framebuffers = None, rq_memmap = 0x1000, rq_hhdm = Some 0xffff800000000000, rq_mp = Some cpus,
     rq_rsdp = 0x2000, rq_modules = 0, rq_cmdline = 0\<rparr>"

theorem limine_init_checks_witness:
  "(case limine_init (demo_requests [0, 2]) blank_boot of Ok s \<Rightarrow> n_cpus s = 2 \<and> lapic_id (cpu_cores (bs_cpus s) ! 1) = 2 | Fault e \<Rightarrow> False)
   \<and> (case limine_init (demo_requests (replicate 17 0)) blank_boot of Ok s \<Rightarrow> False | Fault e \<Rightarrow> e = Out_Of_Bounds)"
proof -
  have b: "length (cpu_cores (bs_cpus blank_boot)) = MAX_CPUS" "\<not> no_framebuffer blank_boot"
    by (simp_all add: blank_boot_def blank_cpus_def MAX_CPUS_def)
  note v = limine_init_checks[OF b, of "demo_requests [0, 2]"] limine_init_checks[OF b, of "demo_requests (replicate 17 0)"]
  show ?thesis using v by (auto simp: demo_requests_def split: result.splits)
qed

end
