(* ===== verification/Device.thy ===== *)
theory Device
  imports Prelude
begin

section \<open>Ports, model-specific registers and device memory\<close>

text \<open>
  What the drivers do to the hardware is the trace of their accesses, and what the hardware answers is a
  stream of values, one for each read: a driver that polls a register for ever takes all of them. This
  covers io.c, pic.c, apic.c and hpet.c of arch/x86-64, and drivers/serial.c.
\<close>

datatype event =
    Outb u16 u8 | Inb u16 | Wrmsr u32 u64 | Rdmsr u32 | Mmio_Write addr u64 | Mmio_Read addr | Software_Int u8

record machine =
  mc_trace :: "event list"
  mc_inputs :: "u64 list"

definition emit :: "event \<Rightarrow> machine \<Rightarrow> machine" where
  "emit e s = s\<lparr>mc_trace := mc_trace s @ [e]\<rparr>"

definition device_read :: "event \<Rightarrow> machine \<Rightarrow> (u64 \<times> machine) result" where
  "device_read e s = (case mc_inputs s of [] \<Rightarrow> Fault Diverges | v # vs \<Rightarrow> Ok (v, (emit e s)\<lparr>mc_inputs := vs\<rparr>))"

definition outb :: "u16 \<Rightarrow> u8 \<Rightarrow> machine \<Rightarrow> machine" where
  "outb port val s = emit (Outb port val) s"

definition inb :: "u16 \<Rightarrow> machine \<Rightarrow> (u8 \<times> machine) result" where
  "inb port s = bnd (device_read (Inb port) s) (\<lambda>(v, s). Ok (ucast v, s))"

definition io_wait :: "machine \<Rightarrow> machine" where
  "io_wait s = outb 0x80 0 s"

definition wrmsr :: "u32 \<Rightarrow> u64 \<Rightarrow> machine \<Rightarrow> machine" where
  "wrmsr msr val s = emit (Wrmsr msr val) s"

definition rdmsr :: "u32 \<Rightarrow> machine \<Rightarrow> (u64 \<times> machine) result" where
  "rdmsr msr s = device_read (Rdmsr msr) s"

subsection \<open>The interrupt controllers and the interval timer\<close>

definition PIC1 :: u16 where "PIC1 = 0x20"
definition PIC2 :: u16 where "PIC2 = 0xa0"
definition PIC1_DATA :: u16 where "PIC1_DATA = PIC1 + 1"
definition PIC2_DATA :: u16 where "PIC2_DATA = PIC2 + 1"

definition pic_disable :: "machine \<Rightarrow> machine" where
  "pic_disable s = outb PIC2_DATA 0xff (outb PIC1_DATA 0xff s)"

definition X2APIC_MSR_BASE :: u32 where "X2APIC_MSR_BASE = 0x800"
definition X2APIC_DISABLE :: u64 where "X2APIC_DISABLE = 0x10000"
definition X2APIC_SVR_ENABLE :: u64 where "X2APIC_SVR_ENABLE = 0x100"
definition X2APIC_EOI :: u32 where "X2APIC_EOI = 0xb"
definition X2APIC_TIMER_DIV :: u32 where "X2APIC_TIMER_DIV = 0x3e"
definition X2APIC_SVR :: u32 where "X2APIC_SVR = 0xf"
definition X2APIC_LVT_TMR :: u32 where "X2APIC_LVT_TMR = 0x32"
definition X2APIC_TIMER_INITCNT :: u32 where "X2APIC_TIMER_INITCNT = 0x38"
definition X2APIC_TIMER_CURCNT :: u32 where "X2APIC_TIMER_CURCNT = 0x39"
definition APICTMR_PERIODIC :: u64 where "APICTMR_PERIODIC = 0x20000"

definition x2apic_write :: "u32 \<Rightarrow> u64 \<Rightarrow> machine \<Rightarrow> machine" where
  "x2apic_write reg val s = wrmsr (X2APIC_MSR_BASE + reg) val s"

definition x2apic_read :: "u32 \<Rightarrow> machine \<Rightarrow> (u64 \<times> machine) result" where
  "x2apic_read reg s = rdmsr (X2APIC_MSR_BASE + reg) s"

definition x2apic_eoi :: "machine \<Rightarrow> machine" where
  "x2apic_eoi s = x2apic_write X2APIC_EOI 0 s"

definition detect_x2apic :: "machine \<Rightarrow> machine result" where
  "detect_x2apic s = bnd (rdmsr 0x802 s) (\<lambda>(val, s). Ok s)"

definition ioapic_write :: "addr \<Rightarrow> u8 \<Rightarrow> u32 \<Rightarrow> machine \<Rightarrow> machine" where
  "ioapic_write base reg val s = emit (Mmio_Write (base + 0x10) (ucast val)) (emit (Mmio_Write base (ucast reg)) s)"

definition ioapic_read :: "addr \<Rightarrow> u8 \<Rightarrow> machine \<Rightarrow> (u32 \<times> machine) result" where
  "ioapic_read base reg s =
     bnd (device_read (Mmio_Read (base + 0x10)) (emit (Mmio_Write base (ucast reg)) s)) (\<lambda>(v, s). Ok (ucast v, s))"

definition pit_program_mode2 :: "u16 \<Rightarrow> machine \<Rightarrow> machine" where
  "pit_program_mode2 d s = outb 0x40 (ucast (drop_bit 8 d)) (outb 0x40 (ucast (d AND 0xff)) (outb 0x43 0x34 s))"

definition pit_read_counter :: "machine \<Rightarrow> (u16 \<times> machine) result" where
  "pit_read_counter s =
     bnd (inb 0x40 (outb 0x43 0 s)) (\<lambda>(lo, s).
     bnd (inb 0x40 s) (\<lambda>(hi, s). Ok (push_bit 8 (ucast hi) OR ucast lo, s)))"

subsection \<open>The high precision event timer\<close>

definition HPET_MAIN_COUNTER :: u32 where "HPET_MAIN_COUNTER = 0xf0"
definition HPET_GENERAL_CAPABILITIES :: u32 where "HPET_GENERAL_CAPABILITIES = 0"
definition HPET_GENERAL_CONFIGURATION :: u32 where "HPET_GENERAL_CONFIGURATION = 0x10"
definition FEMTOSECONDS_PER_US :: u64 where "FEMTOSECONDS_PER_US = 1000000000"

record hpet =
  hp_base :: addr
  hp_period :: u64
  hp_initialized :: bool

text \<open>No read is modelled through the NULL base the timer has until its table is found; each function reads before it writes.\<close>

definition hpet_read :: "hpet \<Rightarrow> u32 \<Rightarrow> machine \<Rightarrow> (u64 \<times> machine) result" where
  "hpet_read hp reg s = (if hp_base hp = NULL then Fault Null_Deref else device_read (Mmio_Read (hp_base hp + ucast reg)) s)"

definition hpet_write :: "hpet \<Rightarrow> u32 \<Rightarrow> u64 \<Rightarrow> machine \<Rightarrow> machine" where
  "hpet_write hp reg val s = emit (Mmio_Write (hp_base hp + ucast reg) val) s"

definition hpet_counter :: "hpet \<Rightarrow> machine \<Rightarrow> (u64 \<times> machine) result" where
  "hpet_counter hp s = hpet_read hp HPET_MAIN_COUNTER s"

definition udiv :: "u64 \<Rightarrow> u64 \<Rightarrow> u64 result" where
  "udiv a b = (if b = 0 then Fault Div_By_Zero else Ok (a div b))"

definition hpet_us_since_boot :: "hpet \<Rightarrow> machine \<Rightarrow> (u64 \<times> machine) result" where
  "hpet_us_since_boot hp s =
     (if hp_initialized hp then bnd (hpet_read hp HPET_MAIN_COUNTER s) (\<lambda>(c, s). Ok (c * hp_period hp div 1000000000, s))
      else Ok (0, s))"

text \<open>The loop of the wait reads the counter until it is there: as many rounds as there are reads left.\<close>

fun hpet_loop :: "addr \<Rightarrow> u64 \<Rightarrow> event list \<Rightarrow> u64 list \<Rightarrow> machine result" where
  "hpet_loop base target trace [] = Fault Diverges"
| "hpet_loop base target trace (v # vs) =
     (let trace = trace @ [Mmio_Read base] in
      if v < target then hpet_loop base target trace vs else Ok \<lparr>mc_trace = trace, mc_inputs = vs\<rparr>)"

definition hpet_wait_us :: "hpet \<Rightarrow> u64 \<Rightarrow> machine \<Rightarrow> machine result" where
  "hpet_wait_us hp us s =
     bnd (hpet_counter hp s) (\<lambda>(cur, s).
     bnd (udiv (us * FEMTOSECONDS_PER_US) (hp_period hp)) (\<lambda>d.
     hpet_loop (hp_base hp + ucast HPET_MAIN_COUNTER) (cur + d) (mc_trace s) (mc_inputs s)))"

text \<open>The other wait raises the interrupt of the timer in each round, so that other tasks run in between.\<close>

fun hpet_yield_loop :: "addr \<Rightarrow> u64 \<Rightarrow> event list \<Rightarrow> u64 list \<Rightarrow> machine result" where
  "hpet_yield_loop base target trace [] = Fault Diverges"
| "hpet_yield_loop base target trace (v # vs) =
     (let trace = trace @ [Mmio_Read base] in
      if v < target then hpet_yield_loop base target (trace @ [Software_Int 32]) vs
      else Ok \<lparr>mc_trace = trace, mc_inputs = vs\<rparr>)"

definition hpet_wait_us_yield :: "hpet \<Rightarrow> u64 \<Rightarrow> machine \<Rightarrow> machine result" where
  "hpet_wait_us_yield hp us s =
     bnd (hpet_counter hp s) (\<lambda>(cur, s).
     bnd (udiv (us * FEMTOSECONDS_PER_US) (hp_period hp)) (\<lambda>d.
     hpet_yield_loop (hp_base hp + ucast HPET_MAIN_COUNTER) (cur + d) (mc_trace s) (mc_inputs s)))"

definition hpet_init :: "hpet \<Rightarrow> machine \<Rightarrow> (hpet \<times> machine) result" where
  "hpet_init hp s =
     bnd (hpet_read hp HPET_GENERAL_CAPABILITIES s) (\<lambda>(v, s).
     let hp = hp\<lparr>hp_period := drop_bit 32 v\<rparr>;
         s = hpet_write hp HPET_GENERAL_CONFIGURATION 0 s;
         s = hpet_write hp HPET_MAIN_COUNTER 0 s;
         s = hpet_write hp HPET_GENERAL_CONFIGURATION 1 s in
     Ok (hp\<lparr>hp_initialized := True\<rparr>, s))"

definition x2apic_calibrate_timer :: "hpet \<Rightarrow> machine \<Rightarrow> (u64 \<times> machine) result" where
  "x2apic_calibrate_timer hp s =
     (let s = x2apic_write X2APIC_TIMER_DIV 3 s;
          s = x2apic_write X2APIC_TIMER_INITCNT 0xffffffff s in
      bnd (hpet_wait_us hp 10000 s) (\<lambda>s.
      let s = x2apic_write X2APIC_LVT_TMR X2APIC_DISABLE s in
      bnd (x2apic_read X2APIC_TIMER_CURCNT s) (\<lambda>(v, s). Ok (0xffffffff - v, s))))"

definition x2apic_init_timer :: "u64 \<Rightarrow> machine \<Rightarrow> machine" where
  "x2apic_init_timer ticks_in_10ms s =
     (let s = x2apic_write X2APIC_SVR (0xff OR X2APIC_SVR_ENABLE) s;
          s = x2apic_write X2APIC_LVT_TMR (0x20 OR APICTMR_PERIODIC) s;
          s = x2apic_write X2APIC_TIMER_DIV 3 s in
      x2apic_write X2APIC_TIMER_INITCNT ticks_in_10ms s)"

subsection \<open>The serial port\<close>

definition SERIAL_BAUD :: u32 where "SERIAL_BAUD = 9600"

definition serial_init :: "machine \<Rightarrow> machine" where
  "serial_init s =
     (let s = outb (0x3f8 + 3) 0 s; s = outb (0x3f8 + 1) 0 s; s = outb (0x3f8 + 3) 0x80 s;
          divisor = ucast (115200 div SERIAL_BAUD) :: u16;
          s = outb (0x3f8 + 0) (ucast (divisor AND 0xff)) s;
          s = outb (0x3f8 + 1) (ucast (drop_bit 8 divisor AND 0xff)) s;
          s = outb (0x3f8 + 1) 0 s; s = outb (0x3f8 + 3) 3 s; s = outb (0x3f8 + 2) 0xc7 s in
      outb (0x3f8 + 4) 0x0b s)"

fun serial_poll :: "event list \<Rightarrow> u64 list \<Rightarrow> machine result" where
  "serial_poll trace [] = Fault Diverges"
| "serial_poll trace (v # vs) =
     (let trace = trace @ [Inb (0x3f8 + 5)] in
      if (ucast v :: u8) AND 0x20 = 0 then serial_poll trace vs else Ok \<lparr>mc_trace = trace, mc_inputs = vs\<rparr>)"

definition serial_write :: "u8 \<Rightarrow> machine \<Rightarrow> machine result" where
  "serial_write c s = bnd (serial_poll (mc_trace s) (mc_inputs s)) (\<lambda>s. Ok (outb 0x3f8 c s))"

section \<open>Waiting\<close>

text \<open>
  The loops of the model take the state apart; one round is the read of the register the source makes.
\<close>

lemma hpet_loop_step:
  "hp_base hp \<noteq> NULL \<Longrightarrow> hpet_loop (hp_base hp + ucast HPET_MAIN_COUNTER) target (mc_trace s) (mc_inputs s)
     = bnd (hpet_counter hp s) (\<lambda>(v, s'). if v < target then hpet_loop (hp_base hp + ucast HPET_MAIN_COUNTER) target (mc_trace s') (mc_inputs s') else Ok s')"
  by (cases s; cases "mc_inputs s") (simp_all add: hpet_counter_def hpet_read_def device_read_def emit_def)

lemma serial_poll_step:
  "serial_poll (mc_trace s) (mc_inputs s)
     = bnd (inb (0x3f8 + 5) s) (\<lambda>(v, s'). if v AND 0x20 = 0 then serial_poll (mc_trace s') (mc_inputs s') else Ok s')"
  by (cases s; cases "mc_inputs s") (simp_all add: inb_def device_read_def emit_def)

lemma hpet_loop_reads:
  assumes "\<forall>v \<in> set vs. v < target" and "\<not> v < target"
  shows "hpet_loop base target trace (vs @ v # rest)
     = Ok \<lparr>mc_trace = trace @ replicate (length vs + 1) (Mmio_Read base), mc_inputs = rest\<rparr>"
  using assms(1)
proof (induction vs arbitrary: trace)
  case Nil
  then show ?case using assms(2) by simp
next
  case (Cons x vs)
  then show ?case using Cons.IH[of "trace @ [Mmio_Read base]"] by simp
qed

lemma first_at_least:
  assumes "\<exists>v \<in> set vs. \<not> v < (t :: u64)"
  shows "\<exists>xs v ys. vs = xs @ v # ys \<and> (\<forall>x \<in> set xs. x < t) \<and> \<not> v < t"
  using split_list_first_prop[OF assms] by blast

lemma hpet_wait_us_run:
  assumes "mc_inputs s = c # xs @ v # rest" and "hp_period hp \<noteq> 0" and "hp_base hp \<noteq> NULL"
    and "unat us * 10 ^ 9 < 2 ^ 64" and "unat c + unat us * 10 ^ 9 div unat (hp_period hp) < 2 ^ 64"
    and "\<forall>x \<in> set xs. unat x < unat c + unat us * 10 ^ 9 div unat (hp_period hp)"
    and "unat c + unat us * 10 ^ 9 div unat (hp_period hp) \<le> unat v"
  shows "hpet_wait_us hp us s
     = Ok \<lparr>mc_trace = mc_trace s @ replicate (length xs + 2) (Mmio_Read (hp_base hp + 0xf0)), mc_inputs = rest\<rparr>"
proof -
  let ?d = "us * FEMTOSECONDS_PER_US div hp_period hp"
  have m: "unat (us * FEMTOSECONDS_PER_US) = unat us * 10 ^ 9"
    using assms(4) by (simp add: FEMTOSECONDS_PER_US_def unat_word_ariths)
  then have d: "unat ?d = unat us * 10 ^ 9 div unat (hp_period hp)" by (simp add: unat_div)
  have t: "unat (c + ?d) = unat c + unat ?d" using assms(5) d by (simp add: unat_word_ariths)
  have r: "\<forall>x \<in> set xs. x < c + ?d" "\<not> v < c + ?d" using assms(6,7) t d by (simp_all add: word_less_nat_alt)
  show ?thesis using assms(1-3) hpet_loop_reads[OF r]
    by (simp add: hpet_wait_us_def hpet_counter_def hpet_read_def device_read_def emit_def udiv_def HPET_MAIN_COUNTER_def)
qed

text \<open>A counter that moves on with every read reaches any value below its limit.\<close>

lemma strictly_up:
  assumes "sorted_wrt (<) (c # vs)" and "i < length vs"
  shows "unat (c :: u64) + Suc i \<le> unat (vs ! i)"
  using assms
proof (induction vs arbitrary: c i)
  case (Cons v vs)
  have cv: "unat c < unat v" using Cons.prems(1) by (simp add: word_less_nat_alt)
  show ?case
  proof (cases i)
    case 0
    then show ?thesis using cv by simp
  next
    case (Suc k)
    have "unat v + Suc k \<le> unat (vs ! k)" by (rule Cons.IH) (use Cons.prems Suc in auto)
    then show ?thesis using cv Suc by simp
  qed
qed simp

lemma mod_plus_le: "N \<le> n \<Longrightarrow> n mod N + N \<le> (n :: nat)"
proof -
  assume "N \<le> n"
  then have "n mod N = (n - N) mod N" by (rule le_mod_geq)
  also have "\<dots> \<le> n - N" by (rule mod_less_eq_dividend)
  finally show ?thesis using \<open>N \<le> n\<close> by simp
qed

section \<open>Properties of the devices\<close>

text \<open>
  C25: Waiting ends, and not too early. If the counter moves on between two reads and is read often enough,
  \<open>hpet_wait_us\<close> with a period that is not zero ends, having done nothing but read the counter, and the
  last value it read is at least the ticks of the time asked for after the first one, as long as neither
  the femtoseconds nor the sum overflow 64 bits.
\<close>

theorem hpet_wait_us_ends:
  assumes "mc_inputs s = c # vs" and "sorted_wrt (<) (c # vs)" and "hp_period hp \<noteq> 0"
    and "unat us * 10 ^ 9 < 2 ^ 64" and "unat c + unat us * 10 ^ 9 div unat (hp_period hp) < 2 ^ 64"
    and "unat us * 10 ^ 9 div unat (hp_period hp) \<le> length vs" and "vs \<noteq> []" and "hp_base hp \<noteq> NULL"
  shows "\<exists>xs v rest. vs = xs @ v # rest
     \<and> hpet_wait_us hp us s = Ok \<lparr>mc_trace = mc_trace s @ replicate (length xs + 2) (Mmio_Read (hp_base hp + 0xf0)), mc_inputs = rest\<rparr>
     \<and> unat c + unat us * 10 ^ 9 div unat (hp_period hp) \<le> unat v
     \<and> (\<forall>x \<in> set xs. unat x < unat c + unat us * 10 ^ 9 div unat (hp_period hp))"
proof -
  let ?d = "us * FEMTOSECONDS_PER_US div hp_period hp"
  have m: "unat (us * FEMTOSECONDS_PER_US) = unat us * 10 ^ 9"
    using assms(4) by (simp add: FEMTOSECONDS_PER_US_def unat_word_ariths)
  then have d: "unat ?d = unat us * 10 ^ 9 div unat (hp_period hp)" by (simp add: unat_div)
  have t: "unat (c + ?d) = unat c + unat ?d" using assms(5) d by (simp add: unat_word_ariths)
  have "\<exists>v \<in> set vs. \<not> v < c + ?d"
  proof (cases "unat ?d = 0")
    case True
    obtain v where v: "v \<in> set vs" using assms(7) by (cases vs) auto
    then have "c < v" using assms(2) by auto
    then have "\<not> v < c + ?d" using t True by (simp add: word_less_nat_alt)
    then show ?thesis using v by blast
  next
    case False
    then have i: "unat ?d - 1 < length vs" using assms(6) d by simp
    from strictly_up[OF assms(2) i] have "unat c + unat ?d \<le> unat (vs ! (unat ?d - 1))" using False by simp
    then have "\<not> vs ! (unat ?d - 1) < c + ?d" using t by (simp add: word_less_nat_alt)
    then show ?thesis using i nth_mem by blast
  qed
  then obtain xs v rest where v: "vs = xs @ v # rest" "\<forall>x \<in> set xs. x < c + ?d" "\<not> v < c + ?d" using first_at_least by blast
  have b: "unat c + unat us * 10 ^ 9 div unat (hp_period hp) \<le> unat v"
    "\<forall>x \<in> set xs. unat x < unat c + unat us * 10 ^ 9 div unat (hp_period hp)"
    using v(2,3) t d by (simp_all add: word_less_nat_alt)
  have "hpet_wait_us hp us s = Ok \<lparr>mc_trace = mc_trace s @ replicate (length xs + 2) (Mmio_Read (hp_base hp + 0xf0)), mc_inputs = rest\<rparr>"
    by (rule hpet_wait_us_run) (use assms(1,3-5,8) v(1) b in auto)
  then show ?thesis using v(1) b by blast
qed

theorem hpet_wait_us_ends_witness:
  "\<exists>xs v rest. [5, 9, 12, 13] = xs @ v # rest
     \<and> hpet_wait_us \<lparr>hp_base = 0x1000, hp_period = 500000000, hp_initialized = True\<rparr> 2 \<lparr>mc_trace = [], mc_inputs = [4, 5, 9, 12, 13]\<rparr>
       = Ok \<lparr>mc_trace = replicate (length xs + 2) (Mmio_Read 0x10f0), mc_inputs = rest\<rparr> \<and> 8 \<le> unat v"
  using hpet_wait_us_ends[of "\<lparr>mc_trace = [], mc_inputs = [4, 5, 9, 12, 13]\<rparr>" 4 "[5, 9, 12, 13]"
    "\<lparr>hp_base = 0x1000, hp_period = 500000000, hp_initialized = True\<rparr>" 2]
  by simp blast

text \<open>
  The clock wraps. \<open>hpet_us_since_boot\<close> multiplies ticks and femtoseconds per tick in 64 bits, so its
  result is the microseconds exactly as long as fewer than 2^64 femtoseconds have passed, a little over
  five hours, and it never returns more than 18446744073 microseconds.
\<close>

theorem hpet_clock_wraps:
  assumes "mc_inputs s = c # vs" and "hp_initialized hp" and "hp_base hp \<noteq> NULL"
  shows "\<exists>us s'. hpet_us_since_boot hp s = Ok (us, s') \<and> unat us = unat c * unat (hp_period hp) mod 2 ^ 64 div 10 ^ 9
     \<and> unat us \<le> 18446744073 \<and> (unat us = unat c * unat (hp_period hp) div 10 ^ 9 \<longleftrightarrow> unat c * unat (hp_period hp) < 2 ^ 64)"
proof -
  let ?us = "c * hp_period hp div 1000000000" and ?n = "unat c * unat (hp_period hp)"
  have u: "unat ?us = ?n mod 2 ^ 64 div 10 ^ 9" by (simp add: unat_div unat_word_ariths)
  have "?n mod 2 ^ 64 < 2 ^ 64" by simp
  then have b: "?n mod 2 ^ 64 div 10 ^ 9 \<le> 18446744073" by simp
  have "?n mod 2 ^ 64 div 10 ^ 9 = ?n div 10 ^ 9 \<longleftrightarrow> ?n < 2 ^ 64"
  proof
    assume eq: "?n mod 2 ^ 64 div 10 ^ 9 = ?n div 10 ^ 9"
    show "?n < 2 ^ 64"
    proof (rule ccontr)
      assume "\<not> ?n < 2 ^ 64"
      then have "?n mod 2 ^ 64 + 2 ^ 64 \<le> ?n" using mod_plus_le[of "2 ^ 64" ?n] by simp
      then have "(?n mod 2 ^ 64 + 10 ^ 9) div 10 ^ 9 \<le> ?n div 10 ^ 9" by (intro div_le_mono) simp
      then show False using eq by simp
    qed
  qed simp
  then show ?thesis using assms u b by (simp add: hpet_us_since_boot_def hpet_read_def device_read_def)
qed

theorem hpet_clock_wraps_witness:
  "\<exists>s'. hpet_us_since_boot \<lparr>hp_base = 0x1000, hp_period = 0x8000000000000000, hp_initialized = True\<rparr> \<lparr>mc_trace = [], mc_inputs = [2]\<rparr> = Ok (0, s')"
proof -
  have "\<exists>us s'. hpet_us_since_boot \<lparr>hp_base = 0x1000, hp_period = 0x8000000000000000, hp_initialized = True\<rparr> \<lparr>mc_trace = [], mc_inputs = [2]\<rparr> = Ok (us, s')
     \<and> unat us = 0"
    using hpet_clock_wraps[of "\<lparr>mc_trace = [], mc_inputs = [2]\<rparr>" 2 "[]" "\<lparr>hp_base = 0x1000, hp_period = 0x8000000000000000, hp_initialized = True\<rparr>"] by auto
  then show ?thesis by (auto simp: unat_eq_0)
qed

end
