(* ===== verification/Vmalloc.thy ===== *)
theory Vmalloc
  imports Mapper
begin

section \<open>mm/vmalloc.c: the kernel's virtual ranges\<close>

text \<open>
  The ranges are a singly linked list of \<open>vmalloc_struct\<close>s in a heap; the address \<open>kzalloc\<close> returns for
  a new one is the argument \<open>new\<close>. Frames come from the page allocator of \<open>Buddy\<close>, and are mapped by
  \<open>map_page\<close> of \<open>Mapper\<close> into the kernel page table. The list loops carry fuel, the number of
  nodes they may visit; a list that is longer, or circular, diverges.
\<close>

definition VMALLOC_START :: addr where "VMALLOC_START = 0xffffd00000000000"
definition VMALLOC_END :: addr where "VMALLOC_END = 0xffffe00000000000"
definition VM_INUSE :: u64 where "VM_INUSE = 1"
definition PAGE_SIZE :: u64 where "PAGE_SIZE = 4096"

record vmalloc_struct =
  vm_flags :: u64
  vm_size :: u64
  vm_addr :: addr
  vm_next :: addr

type_synonym vheap = "addr \<rightharpoonup> vmalloc_struct"

definition in_use :: "vmalloc_struct \<Rightarrow> bool" where
  "in_use n \<longleftrightarrow> vm_flags n AND VM_INUSE \<noteq> 0"

fun map_range_loop :: "nat \<Rightarrow> addr \<Rightarrow> vheap \<Rightarrow> addr \<Rightarrow> u64 \<Rightarrow> (addr \<times> vheap) result" where
  "map_range_loop fuel new h p size_req =
     (if p = NULL then Ok (NULL, h) else
      case fuel of 0 \<Rightarrow> Fault Diverges | Suc fuel \<Rightarrow>
      bnd (fetch h p) (\<lambda>n.
      if in_use n then map_range_loop fuel new h (vm_next n) size_req
      else if vm_size n = size_req
      then Ok (vm_addr n, h(p \<mapsto> n\<lparr>vm_flags := vm_flags n OR VM_INUSE\<rparr>))
      else if vm_size n > size_req
      then if new = NULL then Fault Null_Deref else
        let a = vm_addr n + vm_size n - size_req;
            h = h(new \<mapsto> \<lparr>vm_flags = 0 OR VM_INUSE, vm_size = size_req, vm_addr = a, vm_next = vm_next n\<rparr>);
            h = h(p \<mapsto> n\<lparr>vm_next := new, vm_size := vm_size n - size_req\<rparr>)
        in Ok (a, h)
      else map_range_loop fuel new h (vm_next n) size_req))"

definition vmalloc_map_range :: "nat \<Rightarrow> addr \<Rightarrow> vheap \<Rightarrow> addr \<Rightarrow> u64 \<Rightarrow> (addr \<times> vheap) result" where
  "vmalloc_map_range fuel new h root size_req =
     (if size_req = 0 \<or> size_req mod PAGE_SIZE \<noteq> 0 then Ok (NULL, h)
      else map_range_loop fuel new h root size_req)"

fun vmalloc_unmap_range :: "nat \<Rightarrow> vheap \<Rightarrow> addr \<Rightarrow> addr \<Rightarrow> vheap result" where
  "vmalloc_unmap_range fuel h p rng =
     (if p = NULL then Ok h else
      case fuel of 0 \<Rightarrow> Fault Diverges | Suc fuel \<Rightarrow>
      bnd (fetch h p) (\<lambda>n.
      let h = (if vm_addr n = rng then h(p \<mapsto> n\<lparr>vm_flags := vm_flags n AND NOT VM_INUSE\<rparr>) else h)
      in vmalloc_unmap_range fuel h (vm_next n) rng))"

text \<open>
  The allocator's state: the list, its lock, the page allocator, the kernel page table and its root,
  the value of the control register \<open>virt_to_pfn\<close> reads, and the offset of the direct map.
\<close>

record vm_state =
  vm_heap :: vheap
  vm_root :: addr
  vm_lock :: u64
  vm_buddy :: buddy_state
  vm_pt :: ptm
  vm_cr3 :: addr
  vm_readcr3 :: u64
  vm_hhdm :: u64

text \<open>\<open>i * PAGE_SIZE\<close> is an \<open>int\<close> product, as is \<open>PAGE_SIZE * i\<close> below: it overflows from \<open>2^19\<close> on.\<close>

fun vrelease_pages :: "nat \<Rightarrow> nat \<Rightarrow> addr \<Rightarrow> vm_state \<Rightarrow> vm_state result" where
  "vrelease_pages i 0 virt s = Ok s"
| "vrelease_pages i (Suc n) virt s =
     (if 2 ^ 19 \<le> i then Fault Overflow else
      let curr_virt = virt + of_nat i * PAGE_SIZE in
      bnd (virt_to_pfn (vm_hhdm s) (vm_readcr3 s) curr_virt (pmem (vm_pt s))) (\<lambda>pfn.
      let curr_phys = push_bit 12 (scast pfn :: u64) in
      bnd (pgfree (vm_hhdm s) (vm_buddy s) (curr_phys + vm_hhdm s)) (\<lambda>b.
      let s = s\<lparr>vm_buddy := b\<rparr> in
      bnd (unmap_page (vm_hhdm s) (vm_cr3 s) curr_virt (vm_pt s)) (\<lambda>pt.
      vrelease_pages (i + 1) n virt (s\<lparr>vm_pt := pt\<rparr>)))))"

fun vfree_loop :: "nat \<Rightarrow> addr \<Rightarrow> addr \<Rightarrow> vm_state \<Rightarrow> vm_state result" where
  "vfree_loop fuel p rng s =
     (if p = NULL then Ok s else
      case fuel of 0 \<Rightarrow> Fault Diverges | Suc fuel \<Rightarrow>
      bnd (fetch (vm_heap s) p) (\<lambda>n.
      if vm_addr n = rng
      then vrelease_pages 0 (unat (vm_size n div PAGE_SIZE)) (vm_addr n)
             (s\<lparr>vm_heap := (vm_heap s)(p \<mapsto> n\<lparr>vm_flags := vm_flags n AND NOT VM_INUSE\<rparr>)\<rparr>)
      else vfree_loop fuel (vm_next n) rng s))"

definition vfree :: "nat \<Rightarrow> addr \<Rightarrow> vm_state \<Rightarrow> vm_state result" where
  "vfree fuel rng s =
     bnd (lock_word (vm_lock s)) (\<lambda>l.
     bnd (vfree_loop fuel (vm_root s) rng (s\<lparr>vm_lock := l\<rparr>)) (\<lambda>s.
     Ok (s\<lparr>vm_lock := unlock_word (vm_lock s)\<rparr>)))"

fun map_pages_loop :: "nat \<Rightarrow> nat \<Rightarrow> addr \<Rightarrow> u64 \<Rightarrow> vm_state \<Rightarrow> vm_state result" where
  "map_pages_loop i 0 a flags s = Ok s"
| "map_pages_loop i (Suc n) a flags s =
     bnd (pgalloc (vm_hhdm s) (vm_buddy s)) (\<lambda>(v, b).
     let phys = v - vm_hhdm s; s = s\<lparr>vm_buddy := b\<rparr> in
     if 2 ^ 19 \<le> i then Fault Overflow else
     bnd (map_page (vm_hhdm s) (vm_cr3 s) phys (a + PAGE_SIZE * of_nat i) flags (vm_pt s)) (\<lambda>pt.
     map_pages_loop (i + 1) n a flags (s\<lparr>vm_pt := pt\<rparr>)))"

text \<open>\<open>_vmalloc\<close>: a NULL range is not checked, and the pages are then mapped from address 0 on.\<close>

definition vmalloc_nolock :: "nat \<Rightarrow> addr \<Rightarrow> u64 \<Rightarrow> u64 \<Rightarrow> vm_state \<Rightarrow> (addr \<times> vm_state) result" where
  "vmalloc_nolock fuel new size_req flags s =
     (let aligned_size = (size_req + (PAGE_SIZE - 1)) div PAGE_SIZE * PAGE_SIZE in
      bnd (vmalloc_map_range fuel new (vm_heap s) (vm_root s) aligned_size) (\<lambda>(a, h).
      bnd (map_pages_loop 0 (unat (aligned_size div PAGE_SIZE)) a flags (s\<lparr>vm_heap := h\<rparr>)) (\<lambda>s.
      Ok (a, s))))"

definition vmalloc_flags :: "nat \<Rightarrow> addr \<Rightarrow> u64 \<Rightarrow> u64 \<Rightarrow> vm_state \<Rightarrow> (addr \<times> vm_state) result" where
  "vmalloc_flags fuel new size_req flags s =
     bnd (lock_word (vm_lock s)) (\<lambda>l.
     bnd (vmalloc_nolock fuel new size_req flags (s\<lparr>vm_lock := l\<rparr>)) (\<lambda>(a, s).
     Ok (a, s\<lparr>vm_lock := unlock_word (vm_lock s)\<rparr>)))"

definition vmalloc :: "nat \<Rightarrow> addr \<Rightarrow> u64 \<Rightarrow> vm_state \<Rightarrow> (addr \<times> vm_state) result" where
  "vmalloc fuel new size_req s =
     bnd (lock_word (vm_lock s)) (\<lambda>l.
     bnd (vmalloc_nolock fuel new size_req (PG_WRITE OR PG_NX) (s\<lparr>vm_lock := l\<rparr>)) (\<lambda>(a, s).
     Ok (a, s\<lparr>vm_lock := unlock_word (vm_lock s)\<rparr>)))"

text \<open>\<open>vzalloc\<close> clears the range through its virtual addresses, here the byte memory \<open>m\<close>.\<close>

definition vzalloc :: "nat \<Rightarrow> addr \<Rightarrow> u64 \<Rightarrow> mem \<Rightarrow> vm_state \<Rightarrow> (addr \<times> mem \<times> vm_state) result" where
  "vzalloc fuel new size_req m s =
     bnd (vmalloc fuel new size_req s) (\<lambda>(rng, s).
     bnd (memset m rng 0 size_req) (\<lambda>(_, m). Ok (rng, m, s)))"

definition vmalloc_init :: "addr \<Rightarrow> vm_state \<Rightarrow> vm_state result" where
  "vmalloc_init new s =
     (if new = NULL then Fault Null_Deref else
      Ok (s\<lparr>vm_root := new, vm_heap := (vm_heap s)(new \<mapsto> \<lparr>vm_flags = 0, vm_size = VMALLOC_END - VMALLOC_START,
            vm_addr = VMALLOC_START, vm_next = NULL\<rparr>)\<rparr>))"

fun vmap_loop :: "nat \<Rightarrow> nat \<Rightarrow> u64 \<Rightarrow> addr \<Rightarrow> vm_state \<Rightarrow> vm_state result" where
  "vmap_loop i 0 aligned rng s = Ok s"
| "vmap_loop i (Suc n) aligned rng s =
     (if 2 ^ 19 \<le> i then Fault Overflow else
      bnd (map_page (vm_hhdm s) (vm_cr3 s) (aligned + of_nat i * PAGE_SIZE) (rng + of_nat i * PAGE_SIZE)
             (PG_WRITE OR PG_NX) (vm_pt s)) (\<lambda>pt.
      vmap_loop (i + 1) n aligned rng (s\<lparr>vm_pt := pt\<rparr>)))"

text \<open>
  The test for a page boundary shifts left by 12, and the range comes from \<open>_vmalloc\<close>, which also
  allocates a frame for every page of it before the loop maps the pages again.
\<close>

definition vmap_contiguous :: "nat \<Rightarrow> addr \<Rightarrow> u64 \<Rightarrow> u64 \<Rightarrow> vm_state \<Rightarrow> (addr \<times> vm_state) result" where
  "vmap_contiguous fuel new phys_addr size_req s =
     (let aligned_addr = phys_addr AND NOT 0xfff;
          page_count = (size_req + PAGE_SIZE - 1) div PAGE_SIZE;
          page_count = (if push_bit 12 phys_addr < push_bit 12 (phys_addr + size_req)
                        then page_count + 1 else page_count)
      in
      bnd (lock_word (vm_lock s)) (\<lambda>l.
      bnd (vmalloc_nolock fuel new (page_count * PAGE_SIZE) (PG_WRITE OR PG_NX) (s\<lparr>vm_lock := l\<rparr>)) (\<lambda>(rng, s).
      bnd (vmap_loop 0 (unat page_count) aligned_addr rng s) (\<lambda>s.
      Ok (rng + (phys_addr AND 0xfff), s\<lparr>vm_lock := unlock_word (vm_lock s)\<rparr>)))))"

text \<open>\<open>vunmap_contiguous\<close> returns from inside its loop without releasing the lock.\<close>

fun vunmap_loop :: "nat \<Rightarrow> vheap \<Rightarrow> addr \<Rightarrow> addr \<Rightarrow> vheap option result" where
  "vunmap_loop fuel h p rng =
     (if p = NULL then Ok None else
      case fuel of 0 \<Rightarrow> Fault Diverges | Suc fuel \<Rightarrow>
      bnd (fetch h p) (\<lambda>n.
      if vm_addr n = rng then Ok (Some (h(p \<mapsto> n\<lparr>vm_flags := vm_flags n AND NOT VM_INUSE\<rparr>)))
      else vunmap_loop fuel h (vm_next n) rng))"

definition vunmap_contiguous :: "nat \<Rightarrow> addr \<Rightarrow> vm_state \<Rightarrow> vm_state result" where
  "vunmap_contiguous fuel rng s =
     bnd (lock_word (vm_lock s)) (\<lambda>l.
     let s = s\<lparr>vm_lock := l\<rparr> in
     bnd (vunmap_loop fuel (vm_heap s) (vm_root s) rng) (\<lambda>r.
     Ok (case r of Some h \<Rightarrow> s\<lparr>vm_heap := h\<rparr>
         | None \<Rightarrow> s\<lparr>vm_lock := unlock_word (vm_lock s)\<rparr>)))"

declare map_range_loop.simps [simp del] vmalloc_unmap_range.simps [simp del]
  vfree_loop.simps [simp del] vunmap_loop.simps [simp del]

section \<open>The list of ranges\<close>

text \<open>
  \<open>vseg h p xs\<close>: the nodes from \<open>p\<close> on are those of \<open>xs\<close>, each with its address. \<open>tiling a xs e\<close>: they
  cover the addresses from \<open>a\<close> to \<open>e\<close> one after the other without gaps.
\<close>

fun vseg :: "vheap \<Rightarrow> addr \<Rightarrow> (addr \<times> vmalloc_struct) list \<Rightarrow> bool" where
  "vseg h p [] \<longleftrightarrow> p = NULL"
| "vseg h p ((q, n) # xs) \<longleftrightarrow> p = q \<and> q \<noteq> NULL \<and> h q = Some n \<and> q \<notin> fst ` set xs \<and> vseg h (vm_next n) xs"

fun tiling :: "nat \<Rightarrow> (addr \<times> vmalloc_struct) list \<Rightarrow> nat \<Rightarrow> bool" where
  "tiling a [] e \<longleftrightarrow> a = e"
| "tiling a ((q, n) # xs) e \<longleftrightarrow> unat (vm_addr n) = a \<and> 0 < unat (vm_size n) \<and> tiling (a + unat (vm_size n)) xs e"

text \<open>What the search does to the list: first fit, an exact fit is taken, a larger range is split at its end.\<close>

fun first_fit :: "addr \<Rightarrow> u64 \<Rightarrow> (addr \<times> vmalloc_struct) list \<Rightarrow> (addr \<times> (addr \<times> vmalloc_struct) list) option" where
  "first_fit new sz [] = None"
| "first_fit new sz ((q, n) # xs) =
     (if \<not> in_use n \<and> vm_size n = sz then Some (vm_addr n, (q, n\<lparr>vm_flags := vm_flags n OR VM_INUSE\<rparr>) # xs)
      else if \<not> in_use n \<and> vm_size n > sz then
        Some (vm_addr n + vm_size n - sz,
          (q, n\<lparr>vm_next := new, vm_size := vm_size n - sz\<rparr>)
          # (new, \<lparr>vm_flags = VM_INUSE, vm_size = sz, vm_addr = vm_addr n + vm_size n - sz, vm_next = vm_next n\<rparr>) # xs)
      else map_option (\<lambda>(a, ys). (a, (q, n) # ys)) (first_fit new sz xs))"

text \<open>The ranges in use, as intervals of addresses.\<close>

definition used :: "(addr \<times> vmalloc_struct) list \<Rightarrow> (nat \<times> nat) set" where
  "used xs = {(unat (vm_addr n), unat (vm_size n)) | q n. (q, n) \<in> set xs \<and> in_use n}"

lemma vseg_cong: "vseg h p xs \<Longrightarrow> (\<And>q. q \<in> fst ` set xs \<Longrightarrow> h' q = h q) \<Longrightarrow> vseg h' p xs"
  by (induction h p xs rule: vseg.induct) auto

lemma vseg_upd:
  assumes "vseg h p xs" and "q \<notin> fst ` set xs"
  shows "vseg (h(q := y)) p xs"
  by (rule vseg_cong[OF assms(1)]) (use assms(2) in auto)

lemma map_range_loop_first_fit:
  assumes "vseg h p xs" and "new \<noteq> NULL" and "new \<notin> fst ` set xs" and "length xs \<le> fuel"
  shows "case first_fit new sz xs of
      None \<Rightarrow> map_range_loop fuel new h p sz = Ok (NULL, h)
    | Some (a, ys) \<Rightarrow> \<exists>h'. map_range_loop fuel new h p sz = Ok (a, h') \<and> vseg h' p ys
        \<and> (\<forall>q. q \<notin> insert new (fst ` set xs) \<longrightarrow> h' q = h q) \<and> fst ` set ys \<subseteq> insert new (fst ` set xs)"
  using assms
proof (induction xs arbitrary: p fuel)
  case Nil
  then show ?case by (subst map_range_loop.simps) simp
next
  case (Cons x xs)
  obtain q n where x: "x = (q, n)" by (cases x)
  obtain fuel' where f: "fuel = Suc fuel'" "length xs \<le> fuel'" using Cons.prems(4) by (cases fuel) auto
  have q: "p = q" "q \<noteq> NULL" "h q = Some n" "q \<notin> fst ` set xs" "vseg h (vm_next n) xs" "new \<noteq> q" "new \<notin> fst ` set xs"
    using Cons.prems x by auto
  note step = map_range_loop.simps[of fuel new h p sz]
  consider "\<not> in_use n" "vm_size n = sz" | "\<not> in_use n" "vm_size n > sz" "vm_size n \<noteq> sz"
    | "in_use n \<or> \<not> vm_size n \<ge> sz" by fastforce
  then show ?case
  proof cases
    case 1
    let ?m = "n\<lparr>vm_flags := vm_flags n OR VM_INUSE\<rparr>"
    have "map_range_loop fuel new h p sz = Ok (vm_addr n, h(q \<mapsto> ?m))"
      using 1 q f by (subst step) simp
    then show ?thesis using 1 q vseg_upd[OF q(5,4), of "Some ?m"] by (auto simp: x)
  next
    case 2
    let ?a = "vm_addr n + vm_size n - sz" and ?m = "n\<lparr>vm_next := new, vm_size := vm_size n - sz\<rparr>"
    let ?w = "\<lparr>vm_flags = VM_INUSE, vm_size = sz, vm_addr = ?a, vm_next = vm_next n\<rparr>"
    let ?h = "h(new \<mapsto> ?w, q \<mapsto> ?m)"
    have run: "map_range_loop fuel new h p sz = Ok (?a, ?h)"
      using 2 q f Cons.prems(2) by (subst step) (simp add: Let_def)
    have "vseg ?h (vm_next n) xs" by (rule vseg_upd[OF vseg_upd[OF q(5) q(7)] q(4)])
    then have "vseg ?h p ((q, ?m) # (new, ?w) # xs)" using q Cons.prems(2) by simp
    moreover have ff: "first_fit new sz (x # xs) = Some (?a, (q, ?m) # (new, ?w) # xs)" using 2 by (simp add: x)
    ultimately show ?thesis using run by (simp add: x) blast
  next
    case 3
    then have run: "map_range_loop fuel new h p sz = map_range_loop fuel' new h (vm_next n) sz"
      using q f by (subst step) auto
    have ff: "first_fit new sz (x # xs) = map_option (\<lambda>(a, ys). (a, (q, n) # ys)) (first_fit new sz xs)"
      using 3 by (auto simp: x)
    note ih = Cons.IH[OF q(5) Cons.prems(2) q(7) f(2)]
    show ?thesis
    proof (cases "first_fit new sz xs")
      case None
      then show ?thesis using ih ff run by simp
    next
      case (Some r)
      obtain a ys where r: "r = (a, ys)" by (cases r)
      obtain h' where h': "map_range_loop fuel' new h (vm_next n) sz = Ok (a, h')" "vseg h' (vm_next n) ys"
        "\<forall>q. q \<notin> insert new (fst ` set xs) \<longrightarrow> h' q = h q" "fst ` set ys \<subseteq> insert new (fst ` set xs)"
        using ih Some r by auto
      have "h' q = Some n" "q \<notin> fst ` set ys" using h'(3,4) q by auto
      then have "vseg h' p ((q, n) # ys)" using q h'(2) by simp
      then show ?thesis using h' ff Some r run by (simp add: x) blast
    qed
  qed
qed

lemma in_use_set [simp]: "in_use (n\<lparr>vm_flags := f OR VM_INUSE\<rparr>)"
  "in_use \<lparr>vm_flags = VM_INUSE, vm_size = z, vm_addr = a, vm_next = x\<rparr>"
proof -
  have "bit ((f OR VM_INUSE) AND VM_INUSE) 0" by (simp add: bit_simps VM_INUSE_def)
  then have "(f OR VM_INUSE) AND VM_INUSE \<noteq> 0" by (intro notI) (simp only: bit_0_eq bot_apply bot_bool_def)
  then show "in_use (n\<lparr>vm_flags := f OR VM_INUSE\<rparr>)" by (simp add: in_use_def)
  show "in_use \<lparr>vm_flags = VM_INUSE, vm_size = z, vm_addr = a, vm_next = x\<rparr>"
    by (simp add: in_use_def VM_INUSE_def)
qed

lemma tiling_bounds: "tiling a xs e \<Longrightarrow> a \<le> e \<and> (\<forall>(q, n) \<in> set xs. a \<le> unat (vm_addr n) \<and> unat (vm_addr n) + unat (vm_size n) \<le> e)"
  by (induction a xs e rule: tiling.induct) fastforce+

text \<open>First fit keeps the tiling and adds exactly one range in use, of the size asked for.\<close>

lemma first_fit_tiling:
  assumes "tiling a xs e" and "first_fit new sz xs = Some (r, ys)" and "e < 2 ^ 64" and "0 < sz"
  shows "tiling a ys e \<and> used ys = insert (unat r, unat sz) (used xs)
    \<and> (\<forall>(b, z) \<in> used xs. unat r + unat sz \<le> b \<or> b + z \<le> unat r) \<and> a \<le> unat r \<and> unat r + unat sz \<le> e"
  using assms(1,2,3)
proof (induction a xs e arbitrary: ys rule: tiling.induct)
  case (2 a q n xs e)
  have e64: "e < 2 ^ 64" using 2(4) .
  have a: "unat (vm_addr n) = a" "0 < unat (vm_size n)" "tiling (a + unat (vm_size n)) xs e"
    using 2(2) by auto
  note tb = tiling_bounds[OF a(3)]
  have later: "\<forall>(b, z) \<in> used xs. a + unat (vm_size n) \<le> b" using tb by (fastforce simp: used_def)
  have ucons: "used ((q, m) # zs) = (if in_use m then insert (unat (vm_addr m), unat (vm_size m)) (used zs) else used zs)"
    for q m zs by (auto simp: used_def)
  consider "\<not> in_use n" "vm_size n = sz" | "\<not> in_use n" "vm_size n > sz" "vm_size n \<noteq> sz"
    | "in_use n \<or> \<not> vm_size n \<ge> sz" by fastforce
  then show ?case
  proof cases
    case 1
    then have ys: "r = vm_addr n" "ys = (q, n\<lparr>vm_flags := vm_flags n OR VM_INUSE\<rparr>) # xs" using 2(3) by auto
    show ?thesis using 1 a later tb by (auto simp: ys ucons)
  next
    case 2
    then have r: "r = vm_addr n + vm_size n - sz" and ys: "ys = (q, n\<lparr>vm_next := new, vm_size := vm_size n - sz\<rparr>)
          # (new, \<lparr>vm_flags = VM_INUSE, vm_size = sz, vm_addr = r, vm_next = vm_next n\<rparr>) # xs"
      using \<open>first_fit new sz ((q, n) # xs) = Some (r, ys)\<close> by auto
    have le: "unat sz < unat (vm_size n)" using 2(2) by (simp add: word_less_nat_alt)
    have sub: "unat (vm_size n - sz) = unat (vm_size n) - unat sz" using le by (simp add: unat_sub_if_size)
    have add: "unat (vm_addr n + vm_size n) = a + unat (vm_size n)"
    proof -
      have "a + unat (vm_size n) < 2 ^ 64" by (rule order_le_less_trans[OF conjunct1[OF tb] e64])
      then show ?thesis using a(1) by (simp add: unat_word_ariths)
    qed
    have ur: "unat r = a + unat (vm_size n) - unat sz"
      unfolding r using le add by (simp add: unat_sub_if_size)
    have nu: "\<not> in_use (n\<lparr>vm_next := new, vm_size := vm_size n - sz\<rparr>)" using 2(1) by (simp add: in_use_def)
    have "0 < unat sz" using assms(4) by (simp add: unat_gt_0)
    then show ?thesis using 2 a later tb le sub ur nu by (auto simp: ys ucons)
  next
    case 3
    then obtain zs where zs: "first_fit new sz xs = Some (r, zs)" "ys = (q, n) # zs"
      using 2(3) by (auto split: if_splits)
    from 2(1)[OF a(3) zs(1) e64] show ?thesis using a by (auto simp: zs(2) ucons)
  qed
qed simp

section \<open>Mapping a range onto fresh frames\<close>




lemma same_path_sym: "same_path l v w \<Longrightarrow> same_path l w v"
  by (simp add: same_path_def)

lemma same_path_trans: "same_path l u v \<Longrightarrow> same_path l v w \<Longrightarrow> same_path l u w"
  by (simp add: same_path_def)

lemma finite_free_set [simp]: "finite (free_set L)"
  by (simp add: free_set_def blk_def)





lemma vseg_root: "vseg h p xs \<Longrightarrow> p = (case xs of [] \<Rightarrow> NULL | x # _ \<Rightarrow> fst x)"
  by (cases xs) auto

lemma first_fit_None: "first_fit new sz xs = None \<longleftrightarrow> (\<forall>(q, n) \<in> set xs. in_use n \<or> vm_size n < sz)"
  by (induction new sz xs rule: first_fit.induct) (auto split: option.splits)


section \<open>Properties of the range allocator\<close>

text \<open>
  C16: Virtual ranges never overlap. On a list of ranges that tiles the managed addresses,
  \<open>vmalloc_map_range\<close> of a nonzero multiple of the page size returns NULL and changes nothing if no
  free range is large enough; otherwise it returns a range of exactly that size which becomes the one
  new range in use, disjoint from all ranges in use before, and the list still tiles the addresses.
\<close>

theorem vmalloc_ranges_disjoint:
  assumes "vseg h root xs" and "tiling a xs e" and "e < 2 ^ 64" and "sz \<noteq> 0" and "sz mod PAGE_SIZE = 0"
    and "new \<noteq> NULL" and "new \<notin> fst ` set xs" and "length xs \<le> fuel"
  shows "if \<forall>(q, n) \<in> set xs. in_use n \<or> vm_size n < sz
    then vmalloc_map_range fuel new h root sz = Ok (NULL, h)
    else \<exists>r h' ys. vmalloc_map_range fuel new h root sz = Ok (r, h') \<and> vseg h' root ys \<and> tiling a ys e
      \<and> used ys = insert (unat r, unat sz) (used xs)
      \<and> (\<forall>(b, z) \<in> used xs. unat r + unat sz \<le> b \<or> b + z \<le> unat r) \<and> a \<le> unat r \<and> unat r + unat sz \<le> e"
proof (cases "\<forall>(q, n) \<in> set xs. in_use n \<or> vm_size n < sz")
  case True
  then have "first_fit new sz xs = None" unfolding first_fit_None .
  then show ?thesis using map_range_loop_first_fit[OF assms(1,6,7,8), of sz] True assms(4,5)
    by (simp add: vmalloc_map_range_def)
next
  case False
  then have "first_fit new sz xs \<noteq> None" unfolding first_fit_None .
  then obtain r ys where ff: "first_fit new sz xs = Some (r, ys)" by auto
  have "0 < sz" using assms(4) by (simp add: word_gt_0)
  note t = first_fit_tiling[OF assms(2) ff assms(3) this]
  obtain h' where h': "map_range_loop fuel new h root sz = Ok (r, h')" "vseg h' root ys"
    using map_range_loop_first_fit[OF assms(1,6,7,8), of sz] ff by auto
  then have "vmalloc_map_range fuel new h root sz = Ok (r, h')" using assms(4,5) by (simp add: vmalloc_map_range_def)
  then show ?thesis unfolding if_not_P[OF False] using h'(2) t by blast
qed

theorem vmalloc_ranges_disjoint_witness:
  "\<exists>r h' ys. vmalloc_map_range 1 16 [8 \<mapsto> \<lparr>vm_flags = 0, vm_size = 0x3000, vm_addr = 0x1000, vm_next = 0\<rparr>] 8 0x1000 = Ok (r, h')
     \<and> tiling 0x1000 ys 0x4000 \<and> used ys = {(unat r, 0x1000)}"
proof -
  let ?n = "\<lparr>vm_flags = 0, vm_size = 0x3000, vm_addr = 0x1000, vm_next = 0\<rparr>"
  have v: "vseg [8 \<mapsto> ?n] 8 [(8, ?n)]" "tiling 0x1000 [(8, ?n)] 0x4000" by simp_all
  have n: "\<not> (\<forall>(q, n) \<in> set [(8 :: addr, ?n)]. in_use n \<or> vm_size n < 0x1000)" "used [(8, ?n)] = {}"
    by (simp_all add: in_use_def used_def)
  show ?thesis
    using vmalloc_ranges_disjoint[OF v, of "0x1000" 16 1] unfolding if_not_P[OF n(1)] n(2)
    by (auto simp: PAGE_SIZE_def)
qed


definition one_range :: vm_state where
  "one_range = \<lparr>vm_heap = [8 \<mapsto> \<lparr>vm_flags = 0, vm_size = 0x3000, vm_addr = 0xffffd00000000000, vm_next = 0\<rparr>],
     vm_root = 8, vm_lock = 0, vm_buddy = two_frames, vm_pt = zero_root [0x2000, 0x3000, 0x4000],
     vm_cr3 = 0x1000, vm_readcr3 = 0x1000, vm_hhdm = 0\<rparr>"


lemma vunmap_loop_found:
  "vseg h p xs \<Longrightarrow> length xs \<le> fuel \<Longrightarrow> \<exists>(q, n) \<in> set xs. vm_addr n = rng \<Longrightarrow>
   \<exists>h'. vunmap_loop fuel h p rng = Ok (Some h')"
proof (induction xs arbitrary: p fuel)
  case (Cons x xs)
  obtain q n where x: "x = (q, n)" by (cases x)
  obtain fuel' where f: "fuel = Suc fuel'" "length xs \<le> fuel'" using Cons.prems(2) by (cases fuel) auto
  show ?case
  proof (cases "vm_addr n = rng")
    case True
    then show ?thesis using Cons.prems x f by (subst vunmap_loop.simps) simp
  next
    case False
    then have "\<exists>(q, n) \<in> set xs. vm_addr n = rng" using Cons.prems(3) x by simp
    then have "\<exists>h'. vunmap_loop fuel' h (vm_next n) rng = Ok (Some h')"
      using Cons.IH[of "vm_next n" fuel'] Cons.prems(1) x f(2) by simp
    then show ?thesis using Cons.prems(1) x f False by (subst vunmap_loop.simps) simp
  qed
qed simp

text \<open>
  \<open>vunmap_contiguous\<close> of a mapped range ends the use of \<open>vmalloc\<close>. It returns from inside its search
  without releasing \<open>vmalloc_lock\<close>: if any range starts at the given address, every later \<open>vmalloc\<close>,
  \<open>vfree\<close>, \<open>vmap_contiguous\<close> or \<open>vunmap_contiguous\<close> spins for ever.
\<close>

theorem vunmap_keeps_lock:
  assumes "vseg (vm_heap s) (vm_root s) xs" and "length xs \<le> fuel" and "vm_lock s = 0"
    and "\<exists>(q, n) \<in> set xs. vm_addr n = rng"
  shows "\<exists>s'. vunmap_contiguous fuel rng s = Ok s' \<and> vm_lock s' = 1
     \<and> (\<forall>f new z. vmalloc f new z s' = Fault Deadlock) \<and> (\<forall>f r. vfree f r s' = Fault Deadlock)
     \<and> (\<forall>f new p z. vmap_contiguous f new p z s' = Fault Deadlock)
     \<and> (\<forall>f r. vunmap_contiguous f r s' = Fault Deadlock)"
proof -
  obtain h' where "vunmap_loop fuel (vm_heap s) (vm_root s) rng = Ok (Some h')"
    using vunmap_loop_found[OF assms(1,2,4)] by blast
  then have "vunmap_contiguous fuel rng s = Ok (s\<lparr>vm_lock := 1, vm_heap := h'\<rparr>)"
    using assms(3) by (simp add: vunmap_contiguous_def Let_def)
  then show ?thesis
    by (intro exI[of _ "s\<lparr>vm_lock := 1, vm_heap := h'\<rparr>"])
      (simp add: vmalloc_def vfree_def vmap_contiguous_def vunmap_contiguous_def Let_def)
qed

theorem vunmap_keeps_lock_witness:
  "\<exists>s'. vunmap_contiguous 1 0xffffd00000000000 one_range = Ok s' \<and> vmalloc 1 16 100 s' = Fault Deadlock"
proof -
  let ?n = "\<lparr>vm_flags = 0, vm_size = 0x3000, vm_addr = 0xffffd00000000000, vm_next = 0\<rparr>"
  have "vseg (vm_heap one_range) (vm_root one_range) [(8, ?n)]" by (simp add: one_range_def)
  from vunmap_keeps_lock[OF this, of 1 "0xffffd00000000000"] show ?thesis by (auto simp: one_range_def)
qed

end
