(* ===== verification/Acpi.thy ===== *)
theory Acpi
  imports Vmalloc CString
begin

section \<open>arch/x86-64/acpi.c: tables of the firmware\<close>

text \<open>
  The tables are bytes in memory. Their structures come from the headers of uACPI, so the offsets of the
  fields the code reads, and the number of the entry it looks for, are an argument. What the functions of
  uACPI find is an argument of \<open>acpi_init\<close>. The state is the array of I/O interrupt controllers, the base
  of the timer, and the virtual ranges with the addresses \<open>kzalloc\<close> returns for new ones.
\<close>

definition MAX_IOAPICS :: nat where "MAX_IOAPICS = 8"

record acpi_layout =
  ly_length :: addr
  ly_entries :: addr
  ly_entry_type :: addr
  ly_entry_length :: addr
  ly_ioapic_id :: addr
  ly_ioapic_address :: addr
  ly_hpet_address :: addr
  ly_type_ioapic :: u8

record acpi_state =
  ac_ioapics :: "addr list"
  ac_hpet_base :: addr
  ac_new :: "addr list"
  ac_vm :: vm_state

definition new_node :: "acpi_state \<Rightarrow> addr" where
  "new_node s = (case ac_new s of [] \<Rightarrow> NULL | a # as \<Rightarrow> a)"

subsection \<open>What uACPI calls\<close>

definition uacpi_kernel_map :: "nat \<Rightarrow> u64 \<Rightarrow> u64 \<Rightarrow> acpi_state \<Rightarrow> (addr \<times> acpi_state) result" where
  "uacpi_kernel_map fuel phys len s =
     bnd (vmap_contiguous fuel (new_node s) phys len (ac_vm s)) (\<lambda>(p, vm). Ok (p, s\<lparr>ac_new := tl (ac_new s), ac_vm := vm\<rparr>))"

definition uacpi_kernel_unmap :: "nat \<Rightarrow> addr \<Rightarrow> acpi_state \<Rightarrow> acpi_state result" where
  "uacpi_kernel_unmap fuel p s = bnd (vunmap_contiguous fuel p (ac_vm s)) (\<lambda>vm. Ok (s\<lparr>ac_vm := vm\<rparr>))"

definition uacpi_kernel_alloc :: "nat \<Rightarrow> u64 \<Rightarrow> acpi_state \<Rightarrow> (addr \<times> acpi_state) result" where
  "uacpi_kernel_alloc fuel n s =
     bnd (vmalloc fuel (new_node s) n (ac_vm s)) (\<lambda>(p, vm). Ok (p, s\<lparr>ac_new := tl (ac_new s), ac_vm := vm\<rparr>))"

definition uacpi_kernel_free :: "nat \<Rightarrow> addr \<Rightarrow> acpi_state \<Rightarrow> acpi_state result" where
  "uacpi_kernel_free fuel p s = bnd (vfree fuel p (ac_vm s)) (\<lambda>vm. Ok (s\<lparr>ac_vm := vm\<rparr>))"

subsection \<open>The two tables\<close>

definition acpi_next :: "acpi_layout \<Rightarrow> mem \<Rightarrow> addr \<Rightarrow> addr result" where
  "acpi_next ly m hdr = bnd (load m (hdr + ly_entry_length ly)) (\<lambda>n. Ok (hdr + ucast n))"

definition register_ioapic :: "nat \<Rightarrow> u8 \<Rightarrow> u64 \<Rightarrow> acpi_state \<Rightarrow> acpi_state result" where
  "register_ioapic fuel num phys s =
     bnd (vmap_contiguous fuel (new_node s) phys 0x1000 (ac_vm s)) (\<lambda>(p, vm).
     if unat num < length (ac_ioapics s)
     then Ok (s\<lparr>ac_new := tl (ac_new s), ac_vm := vm, ac_ioapics := (ac_ioapics s)[unat num := p]\<rparr>)
     else Fault Out_Of_Bounds)"

definition madt_entry :: "nat \<Rightarrow> acpi_layout \<Rightarrow> mem \<Rightarrow> addr \<Rightarrow> acpi_state \<Rightarrow> acpi_state result" where
  "madt_entry fuel ly m ent s =
     bnd (load m (ent + ly_entry_type ly)) (\<lambda>type.
     if type = ly_type_ioapic ly then
       bnd (load m (ent + ly_ioapic_id ly)) (\<lambda>num.
       bnd (load_le m (ent + ly_ioapic_address ly) 4) (\<lambda>phys. register_ioapic fuel num phys s))
     else Ok s)"

text \<open>The rounds of the loop are fuel; an entry of length 0 is its own successor.\<close>

fun madt_loop :: "nat \<Rightarrow> nat \<Rightarrow> acpi_layout \<Rightarrow> mem \<Rightarrow> addr \<Rightarrow> addr \<Rightarrow> acpi_state \<Rightarrow> acpi_state result" where
  "madt_loop rounds fuel ly m end_addr ent s =
     (if \<not> ent < end_addr then Ok s else
      case rounds of 0 \<Rightarrow> Fault Diverges | Suc rounds \<Rightarrow>
      bnd (madt_entry fuel ly m ent s) (\<lambda>s.
      bnd (acpi_next ly m ent) (\<lambda>ent. madt_loop rounds fuel ly m end_addr ent s)))"

declare madt_loop.simps [simp del]

definition parse_madt :: "nat \<Rightarrow> nat \<Rightarrow> acpi_layout \<Rightarrow> mem \<Rightarrow> addr \<Rightarrow> acpi_state \<Rightarrow> acpi_state result" where
  "parse_madt rounds fuel ly m madt s =
     (let ent = madt + ly_entries ly in
      bnd (load_le m (madt + ly_length ly) 4) (\<lambda>n. madt_loop rounds fuel ly m (ent + n) ent s))"

definition parse_hpet :: "nat \<Rightarrow> acpi_layout \<Rightarrow> mem \<Rightarrow> addr \<Rightarrow> acpi_state \<Rightarrow> acpi_state result" where
  "parse_hpet fuel ly m hpet s =
     bnd (load_le m (hpet + ly_hpet_address ly) 8) (\<lambda>phys.
     bnd (vmap_contiguous fuel (new_node s) phys 0x1000 (ac_vm s)) (\<lambda>(p, vm).
     Ok (s\<lparr>ac_new := tl (ac_new s), ac_vm := vm, ac_hpet_base := p\<rparr>)))"

text \<open>
  Whether the early set-up of uACPI works, and the tables it finds for the two signatures, \<open>None\<close> for an error.
\<close>

definition acpi_init :: "nat \<Rightarrow> nat \<Rightarrow> acpi_layout \<Rightarrow> mem \<Rightarrow> bool \<Rightarrow> addr option \<Rightarrow> addr option \<Rightarrow> acpi_state \<Rightarrow> acpi_state result" where
  "acpi_init rounds fuel ly m early_tables madt hpet s =
     (if \<not> early_tables then Ok s else
      case madt of None \<Rightarrow> Ok s | Some madt \<Rightarrow>
      bnd (parse_madt rounds fuel ly m madt s) (\<lambda>s.
      case hpet of None \<Rightarrow> Ok s | Some hpet \<Rightarrow> parse_hpet fuel ly m hpet s))"

section \<open>What a table says\<close>

text \<open>
  The offsets of the ACPI specification, and the table of interrupt controllers as a list of entries: an
  I/O controller with its number and the four bytes of its address, or another entry with its data.
\<close>

definition acpi_standard :: acpi_layout where
  "acpi_standard = \<lparr>ly_length = 4, ly_entries = 44, ly_entry_type = 0, ly_entry_length = 1, ly_ioapic_id = 2,
     ly_ioapic_address = 4, ly_hpet_address = 44, ly_type_ioapic = 1\<rparr>"

datatype controller = Io_Controller u8 "u8 list" | Other_Entry u8 "u8 list"

fun controller_bytes :: "controller \<Rightarrow> u8 list" where
  "controller_bytes (Io_Controller num base) = [1, 12, num, 0] @ base @ replicate 4 0"
| "controller_bytes (Other_Entry t d) = [t, of_nat (length d + 2)] @ d"

fun controller_ok :: "controller \<Rightarrow> bool" where
  "controller_ok (Io_Controller num base) \<longleftrightarrow> length base = 4"
| "controller_ok (Other_Entry t d) \<longleftrightarrow> t \<noteq> 1 \<and> length d < 254"

fun register_all :: "nat \<Rightarrow> controller list \<Rightarrow> acpi_state \<Rightarrow> acpi_state result" where
  "register_all fuel [] s = Ok s"
| "register_all fuel (Io_Controller num base # cs) s =
     bnd (register_ioapic fuel num (le_word base) s) (\<lambda>s. register_all fuel cs s)"
| "register_all fuel (Other_Entry t d # cs) s = register_all fuel cs s"

abbreviation table_bytes :: "controller list \<Rightarrow> u8 list" where
  "table_bytes cs \<equiv> concat (List.map controller_bytes cs)"

lemma unat_ucast_u8: "unat (ucast (b :: u8) :: addr) = unat b"
proof -
  have "unat b < 2 ^ LENGTH(8)" by (rule unsigned_less)
  then show ?thesis by (simp add: unsigned_ucast_eq take_bit_nat_eq_self)
qed

lemma controller_step:
  assumes "bytes_at m a (controller_bytes c)" and "controller_ok c"
  shows "bnd (madt_entry fuel acpi_standard m a s) f = bnd (register_all fuel [c] s) f"
    "acpi_next acpi_standard m a = Ok (a + of_nat (length (controller_bytes c)))"
proof -
  show "bnd (madt_entry fuel acpi_standard m a s) f = bnd (register_all fuel [c] s) f"
  proof (cases c)
    case (Io_Controller num base)
    have b: "bytes_at m a ([1, 12, num, 0] @ base)" using assms Io_Controller bytes_at_append[of m a "[1, 12, num, 0] @ base"] by simp
    then have l: "load_le m (a + 4) 4 = Ok (le_word base)"
      using load_le_part[OF b, of 4 4] assms(2) Io_Controller by simp
    have "m a = Some 1" "m (a + 2) = Some num" using b by (simp_all add: add.assoc)
    then show ?thesis using l Io_Controller by (simp add: madt_entry_def acpi_standard_def load_def bnd_assoc)
  next
    case (Other_Entry t d)
    then show ?thesis using assms by (simp add: madt_entry_def acpi_standard_def load_def)
  qed
  show "acpi_next acpi_standard m a = Ok (a + of_nat (length (controller_bytes c)))"
  proof (cases c)
    case (Io_Controller num base)
    then show ?thesis using assms by (simp add: acpi_next_def acpi_standard_def load_def)
  next
    case (Other_Entry t d)
    have "m (a + 1) = Some (of_nat (length d + 2))" using assms(1) Other_Entry by simp
    moreover have "ucast (of_nat (length d + 2) :: u8) = (of_nat (length d + 2) :: addr)"
    proof -
      have "unat (of_nat (length d + 2) :: u8) = length d + 2"
        using assms(2) Other_Entry by (simp only: unat_of_nat controller_ok.simps) simp
      moreover have "unat (of_nat (length d + 2) :: addr) = length d + 2"
        using assms(2) Other_Entry by (simp only: unat_of_nat controller_ok.simps) simp
      ultimately show ?thesis by (simp only: word_unat_eq_iff unat_ucast_u8)
    qed
    ultimately show ?thesis using Other_Entry by (simp add: acpi_next_def acpi_standard_def load_def)
  qed
qed

lemma madt_loop_table:
  assumes "bytes_at m a (table_bytes cs)" and "list_all controller_ok cs" and "unat a + length (table_bytes cs) \<le> unat e" and "length cs \<le> rounds"
  shows "madt_loop rounds fuel acpi_standard m e a s
     = bnd (register_all fuel cs s) (madt_loop (rounds - length cs) fuel acpi_standard m e (a + of_nat (length (table_bytes cs))))"
  using assms
proof (induction cs arbitrary: a s rounds)
  case (Cons c cs)
  let ?n = "length (controller_bytes c)"
  obtain k where k: "rounds = Suc k" "length cs \<le> k" using Cons.prems(4) by (cases rounds) auto
  have b: "bytes_at m a (controller_bytes c)" "bytes_at m (a + of_nat ?n) (table_bytes cs)"
    using Cons.prems(1) by (simp_all add: bytes_at_append)
  have ok: "controller_ok c" "list_all controller_ok cs" using Cons.prems(2) by simp_all
  have n: "0 < ?n" by (cases c) simp_all
  have "unat a + (?n + length (table_bytes cs)) \<le> unat e" using Cons.prems(3) by simp
  then have "unat a < unat e" using n by linarith
  then have lt: "a < e" by (simp add: word_less_nat_alt)
  have "unat e < 2 ^ LENGTH(64)" by (rule unsigned_less)
  then have "unat a + ?n < 2 ^ 64" using Cons.prems(3) by simp
  then have u: "unat (a + of_nat ?n) = unat a + ?n" by (simp add: unat_word_ariths unat_of_nat)
  have IH: "madt_loop k fuel acpi_standard m e (a + of_nat ?n) s1
     = bnd (register_all fuel cs s1) (madt_loop (k - length cs) fuel acpi_standard m e (a + of_nat ?n + of_nat (length (table_bytes cs))))" for s1
    by (rule Cons.IH[OF b(2) ok(2) _ k(2)]) (use Cons.prems(3) u in simp)
  have "madt_loop rounds fuel acpi_standard m e a s = bnd (register_all fuel [c] s) (\<lambda>s. madt_loop k fuel acpi_standard m e (a + of_nat ?n) s)"
    unfolding k(1) using lt controller_step[OF b(1) ok(1)] by (simp add: madt_loop.simps[of "Suc k"])
  also have "\<dots> = bnd (register_all fuel (c # cs) s) (madt_loop (k - length cs) fuel acpi_standard m e (a + of_nat ?n + of_nat (length (table_bytes cs))))"
    unfolding IH by (cases c) (simp_all add: bnd_assoc)
  finally show ?case unfolding k(1) by (simp add: add.assoc)
qed (simp add: bnd_def)

lemma madt_loop_stuck:
  assumes "a < e" and "m a = Some t" and "t \<noteq> 1" and "m (a + 1) = Some 0"
  shows "madt_loop rounds fuel acpi_standard m e a s = Fault Diverges"
proof (induction rounds)
  case 0
  then show ?case using assms(1) by (simp add: madt_loop.simps[of 0])
next
  case (Suc rounds)
  then show ?case using assms by (simp add: madt_loop.simps[of "Suc rounds"] madt_entry_def acpi_next_def acpi_standard_def load_def)
qed

section \<open>Properties of arch/x86-64/acpi.c\<close>

text \<open>
  C29: The table of interrupt controllers is read past its end. \<open>parse_madt\<close> registers the I/O controllers of
  a table in order, each at the mapping of its address, but then goes on with the bytes behind it, since its
  end counts the header twice: where they look like an entry of length 0, as zeros do, the loop never ends
  whatever its rounds; where they look like an entry of at least 44 bytes, it ends with the controllers of
  the table.
\<close>

theorem parse_madt_overruns:
  assumes "load_le m (t + 4) 4 = Ok n" and "unat n = 44 + length (table_bytes cs)"
    and "bytes_at m (t + 44) (table_bytes cs @ [ty, len])" and "list_all controller_ok cs" and "ty \<noteq> 1"
    and "len = 0 \<or> 44 \<le> len" and "unat t + 512 + length (table_bytes cs) < 2 ^ 64" and "length cs < rounds"
  shows "parse_madt rounds fuel acpi_standard m t s
     = (if len = 0 then bnd (register_all fuel cs s) (\<lambda>s. Fault Diverges) else register_all fuel cs s)"
proof -
  let ?L = "length (table_bytes cs)" and ?a = "t + 44" and ?e = "t + 44 + n"
  let ?b = "?a + of_nat ?L"
  have n: "n = of_nat (44 + ?L)" proof -
    have "of_nat (unat n) = n" by simp
    then show ?thesis using assms(2) by metis
  qed
  have u: "unat ?a = unat t + 44" "unat ?e = unat t + 88 + ?L" "unat ?b = unat t + 44 + ?L" "unat (?b + ucast len) = unat t + 44 + ?L + unat len"
  proof -
    have "unat len < 2 ^ LENGTH(8)" by (rule unsigned_less)
    then show "unat ?a = unat t + 44" "unat ?e = unat t + 88 + ?L" "unat ?b = unat t + 44 + ?L" "unat (?b + ucast len) = unat t + 44 + ?L + unat len"
      using assms(2,7) by (simp_all add: unat_word_ariths unat_of_nat unat_ucast_u8)
  qed
  have b: "bytes_at m ?a (table_bytes cs)" "m ?b = Some ty" "m (?b + 1) = Some len"
    using assms(3) by (simp_all add: bytes_at_append)
  have lt: "?b < ?e" using u by (simp add: word_less_nat_alt)
  have p: "parse_madt rounds fuel acpi_standard m t s
     = bnd (register_all fuel cs s) (madt_loop (rounds - length cs) fuel acpi_standard m ?e ?b)"
    using assms(1) madt_loop_table[OF b(1) assms(4), of ?e rounds fuel s] u assms(8)
    by (simp add: parse_madt_def acpi_standard_def Let_def)
  show ?thesis
  proof (cases "len = 0")
    case True
    then have "madt_loop (rounds - length cs) fuel acpi_standard m ?e ?b s1 = Fault Diverges" for s1
      by (intro madt_loop_stuck[where t = ty]) (use lt b(2,3) assms(5) in simp_all)
    then have "madt_loop (rounds - length cs) fuel acpi_standard m ?e ?b = (\<lambda>s. Fault Diverges)" by (intro ext)
    then show ?thesis using p True by simp
  next
    case False
    then have l: "44 \<le> unat len" using assms(6) by (simp add: word_le_nat_alt)
    obtain k where k: "rounds - length cs = Suc k" using assms(8) by (cases "rounds - length cs") auto
    have "\<not> ?b + ucast len < ?e" using u l by (simp add: word_less_nat_alt)
    then have "madt_loop (Suc k) fuel acpi_standard m ?e ?b s1 = Ok s1" for s1
      using lt b(2,3) assms(5)
      by (simp add: madt_loop.simps[of "Suc k"] madt_loop.simps[of k] madt_entry_def acpi_next_def acpi_standard_def load_def)
    then have "madt_loop (Suc k) fuel acpi_standard m ?e ?b = Ok" by (intro ext)
    then show ?thesis using p k False by simp
  qed
qed

text \<open>A table with one processor and one I/O controller, in a page of zeros.\<close>

definition demo_controllers :: "controller list" where
  "demo_controllers = [Other_Entry 0 [0, 0, 1, 0, 0, 0], Io_Controller 0 [0, 0, 0xc0, 0xfe]]"

definition demo_madt :: mem where
  "demo_madt = (\<lambda>a. if unat (a - 0x1000) < 4096 then Some (if a = 0x1004 then 64 else
     if 0x102c \<le> a \<and> unat (a - 0x102c) < 20 then table_bytes demo_controllers ! unat (a - 0x102c) else 0) else None)"

theorem parse_madt_overruns_witness:
  "\<forall>s. parse_madt 1000 16 acpi_standard demo_madt 0x1000 s = bnd (register_ioapic 16 0 0xfec00000 s) (\<lambda>s. Fault Diverges)"
proof (rule allI)
  fix s
  have l: "load_le demo_madt (0x1000 + 4) 4 = Ok 64" by code_simp
  have b: "bytes_at demo_madt (0x1000 + 44) (table_bytes demo_controllers @ [0, 0])" by code_simp
  have w: "le_word [0, 0, 0xc0, 0xfe] = 0xfec00000" by code_simp
  show "parse_madt 1000 16 acpi_standard demo_madt 0x1000 s = bnd (register_ioapic 16 0 0xfec00000 s) (\<lambda>s. Fault Diverges)"
    using parse_madt_overruns[OF l _ b, of 1000 16 s] w by (simp add: demo_controllers_def bnd_assoc)
qed

end
