(* ===== verification/Sched.thy ===== *)
theory Sched
  imports Mapper
begin

section \<open>smp/sched.c, smp/ktimer.c and the interrupt handlers\<close>

text \<open>
  Tasks, register frames and page tables are objects at addresses; \<open>sc_idle\<close> is the address of
  \<open>idle_task\<close>. \<open>return_to_ctx\<close> is assembly: what it loads, the frame and the value of \<open>cr3\<close>, is the
  outcome of the handler. \<open>me\<close> is what \<open>current_cpuid\<close> returns. The end-of-interrupt write and the
  messages are not modelled.
\<close>

record registers =
  rbp :: u64
  rax :: u64
  rbx :: u64
  rcx :: u64
  rdx :: u64
  rdi :: u64
  rsi :: u64
  r8 :: u64
  r9 :: u64
  r10 :: u64
  r11 :: u64
  r12 :: u64
  r13 :: u64
  r14 :: u64
  r15 :: u64
  vector_number :: u64
  error_code :: u64
  rip :: u64
  cs :: u64
  rflags :: u64
  rsp :: u64
  ss :: u64

record task =
  t_pt :: addr
  t_regs :: addr
  t_next :: addr
  t_prev :: addr

record sched_state =
  sc_tasks :: "addr \<rightharpoonup> task"
  sc_regs :: "addr \<rightharpoonup> registers"
  sc_pts :: "addr \<rightharpoonup> page_table"
  sc_head :: addr
  sc_tail :: addr
  sc_lock :: u64
  sc_idle :: addr
  sc_cores :: cores
  sc_hhdm :: u64

datatype outcome = Returned | Switched registers u64

definition set_current :: "sched_state \<Rightarrow> nat \<Rightarrow> addr \<Rightarrow> sched_state result" where
  "set_current s me t =
     bnd (cpu_at (sc_cores s) me) (\<lambda>c. Ok (s\<lparr>sc_cores := set_cpu (sc_cores s) me (c\<lparr>current_task := t\<rparr>)\<rparr>))"

definition go_to_task :: "sched_state \<Rightarrow> nat \<Rightarrow> addr \<Rightarrow> (outcome \<times> sched_state) result" where
  "go_to_task s me t =
     bnd (set_current s me t) (\<lambda>s.
     bnd (fetch (sc_tasks s) t) (\<lambda>n.
     bnd (fetch (sc_pts s) (t_pt n)) (\<lambda>pt.
     bnd (fetch (sc_regs s) (t_regs n)) (\<lambda>r.
     Ok (Switched r (cr3_of pt - sc_hhdm s), s)))))"

definition sched_task_nolock :: "sched_state \<Rightarrow> addr \<Rightarrow> sched_state result" where
  "sched_task_nolock s task =
     (if task = sc_idle s \<or> task = NULL then Ok s else
      bnd (fetch (sc_tasks s) task) (\<lambda>n.
      let nxt = sc_head s;
          s = s\<lparr>sc_tasks := (sc_tasks s)(task \<mapsto> n\<lparr>t_next := nxt, t_prev := NULL\<rparr>), sc_head := task\<rparr> in
      if nxt \<noteq> NULL
      then bnd (fetch (sc_tasks s) nxt) (\<lambda>m. Ok (s\<lparr>sc_tasks := (sc_tasks s)(nxt \<mapsto> m\<lparr>t_prev := task\<rparr>)\<rparr>))
      else Ok (s\<lparr>sc_tail := task\<rparr>)))"

definition sched_task :: "sched_state \<Rightarrow> addr \<Rightarrow> sched_state result" where
  "sched_task s task =
     bnd (lock_word (sc_lock s)) (\<lambda>l.
     bnd (sched_task_nolock (s\<lparr>sc_lock := l\<rparr>) task) (\<lambda>s. Ok (s\<lparr>sc_lock := unlock_word (sc_lock s)\<rparr>)))"

definition pop_task :: "sched_state \<Rightarrow> (addr \<times> sched_state) result" where
  "pop_task s =
     (let ret = sc_tail s in
      if ret = NULL then Ok (sc_idle s, s) else
      bnd (fetch (sc_tasks s) ret) (\<lambda>n.
      let s = s\<lparr>sc_tail := t_prev n\<rparr> in
      bnd (if sc_tail s \<noteq> NULL
           then bnd (fetch (sc_tasks s) (sc_tail s)) (\<lambda>m. Ok (s\<lparr>sc_tasks := (sc_tasks s)(sc_tail s \<mapsto> m\<lparr>t_next := NULL\<rparr>)\<rparr>))
           else Ok s) (\<lambda>s.
      bnd (fetch (sc_tasks s) ret) (\<lambda>n.
      Ok (ret, s\<lparr>sc_tasks := (sc_tasks s)(ret \<mapsto> n\<lparr>t_prev := NULL, t_next := NULL\<rparr>)\<rparr>)))))"

definition save_task :: "sched_state \<Rightarrow> nat \<Rightarrow> registers \<Rightarrow> sched_state result" where
  "save_task s me regs =
     bnd (cpu_at (sc_cores s) me) (\<lambda>c.
     if current_task c = NULL then Ok s else
     bnd (fetch (sc_tasks s) (current_task c)) (\<lambda>n.
     bnd (fetch (sc_regs s) (t_regs n)) (\<lambda>_.
     Ok (s\<lparr>sc_regs := (sc_regs s)(t_regs n \<mapsto> regs)\<rparr>))))"

definition schedule :: "sched_state \<Rightarrow> nat \<Rightarrow> registers \<Rightarrow> (outcome \<times> sched_state) result" where
  "schedule s me regs =
     bnd (lock_word (sc_lock s)) (\<lambda>l.
     bnd (save_task (s\<lparr>sc_lock := l\<rparr>) me regs) (\<lambda>s.
     bnd (cpu_at (sc_cores s) me) (\<lambda>c.
     bnd (sched_task_nolock s (current_task c)) (\<lambda>s.
     bnd (pop_task s) (\<lambda>(target, s).
     go_to_task (s\<lparr>sc_lock := unlock_word (sc_lock s)\<rparr>) me target)))))"

definition timer_handler :: "sched_state \<Rightarrow> nat \<Rightarrow> registers \<Rightarrow> (outcome \<times> sched_state) result" where
  "timer_handler s me ctx =
     bnd (cpu_at (sc_cores s) me) (\<lambda>c.
     if preempt_count c = 0 then schedule s me ctx else Ok (Returned, s))"

definition isr_generic_handler :: "sched_state \<Rightarrow> nat \<Rightarrow> registers \<Rightarrow> (outcome \<times> sched_state) result" where
  "isr_generic_handler s me ctx =
     (if vector_number ctx = 3 then Ok (Returned, s)
      else if vector_number ctx = 0x20 then timer_handler s me ctx
      else Fault Halted)"

definition KERNEL_CS :: u64 where "KERNEL_CS = 0x8"
definition KERNEL_STACK_SIZE :: u64 where "KERNEL_STACK_SIZE = 0x10000"

definition zero_registers :: registers where
  "zero_registers = \<lparr>rbp = 0, rax = 0, rbx = 0, rcx = 0, rdx = 0, rdi = 0, rsi = 0, r8 = 0, r9 = 0, r10 = 0, r11 = 0,
     r12 = 0, r13 = 0, r14 = 0, r15 = 0, vector_number = 0, error_code = 0, rip = 0, cs = 0, rflags = 0, rsp = 0, ss = 0\<rparr>"

text \<open>
  \<open>new_regs\<close> and \<open>new_task\<close> are the zeroed objects of \<open>kzalloc\<close>, \<open>new_pt\<close> the result of
  \<open>new_page_table\<close>, \<open>stack\<close> that of \<open>vmalloc\<close>; \<open>do_ktimer\<close> and \<open>sched_idle\<close> are the addresses of
  these functions.
\<close>

definition sched_init :: "addr \<Rightarrow> addr \<Rightarrow> u64 \<Rightarrow> sched_state \<Rightarrow> sched_state result" where
  "sched_init new_regs new_pt sched_idle s =
     (if new_regs = NULL then Fault Null_Deref else
      bnd (fetch (sc_tasks s) (sc_idle s)) (\<lambda>n.
      Ok (s\<lparr>sc_regs := (sc_regs s)(new_regs \<mapsto> zero_registers\<lparr>rip := sched_idle, cs := KERNEL_CS\<rparr>),
            sc_tasks := (sc_tasks s)(sc_idle s \<mapsto> n\<lparr>t_regs := new_regs, t_pt := new_pt\<rparr>)\<rparr>)))"

definition init_ktimer :: "addr \<Rightarrow> addr \<Rightarrow> addr \<Rightarrow> addr \<Rightarrow> u64 \<Rightarrow> addr \<Rightarrow> sched_state \<Rightarrow> (addr \<times> sched_state) result" where
  "init_ktimer new_task new_regs new_pt stack do_ktimer ktimer s =
     (if new_task = NULL \<or> new_regs = NULL then Fault Null_Deref else
      Ok (new_task, s\<lparr>sc_tasks := (sc_tasks s)(new_task \<mapsto> \<lparr>t_pt = new_pt, t_regs = new_regs, t_next = NULL, t_prev = NULL\<rparr>),
            sc_regs := (sc_regs s)(new_regs \<mapsto> zero_registers\<lparr>rip := do_ktimer, rdi := ktimer,
              rsp := stack + KERNEL_STACK_SIZE - 0x10, cs := KERNEL_CS\<rparr>)\<rparr>))"

section \<open>The queue of tasks\<close>

text \<open>
  \<open>task_links\<close> are the tasks' list pointers; \<open>sched_rep s xs\<close>: the queue holds \<open>xs\<close>, the last scheduled
  task first. \<open>runnable\<close>: the task can be switched to.
\<close>

definition task_links :: "sched_state \<Rightarrow> lheap" where
  "task_links s = (\<lambda>a. map_option (\<lambda>t. \<lparr>lh_next = t_next t, lh_prev = t_prev t\<rparr>) (sc_tasks s a))"

definition sched_rep :: "sched_state \<Rightarrow> addr list \<Rightarrow> bool" where
  "sched_rep s xs \<longleftrightarrow> lseg (task_links s) NULL (sc_head s) xs (sc_tail s) NULL \<and> distinct xs \<and> sc_idle s \<notin> set xs"

definition runnable :: "sched_state \<Rightarrow> addr \<Rightarrow> bool" where
  "runnable s a \<longleftrightarrow> a \<noteq> NULL \<and> (\<exists>t. sc_tasks s a = Some t \<and> t_regs t \<noteq> NULL \<and> t_regs t \<in> dom (sc_regs s)
     \<and> t_pt t \<noteq> NULL \<and> t_pt t \<in> dom (sc_pts s))"

text \<open>What a queue operation keeps: everything but the links, the head and the tail.\<close>

definition same_tasks :: "sched_state \<Rightarrow> sched_state \<Rightarrow> bool" where
  "same_tasks s s' \<longleftrightarrow> (\<forall>a. map_option (\<lambda>t. (t_regs t, t_pt t)) (sc_tasks s' a) = map_option (\<lambda>t. (t_regs t, t_pt t)) (sc_tasks s a))
     \<and> sc_regs s' = sc_regs s \<and> sc_pts s' = sc_pts s \<and> sc_idle s' = sc_idle s \<and> sc_cores s' = sc_cores s \<and> sc_hhdm s' = sc_hhdm s
     \<and> sc_lock s' = sc_lock s"

lemma same_tasks_refl [simp]: "same_tasks s s"
  by (simp add: same_tasks_def)

lemma same_tasks_trans: "same_tasks s t \<Longrightarrow> same_tasks t u \<Longrightarrow> same_tasks s u"
  by (simp add: same_tasks_def)

lemma same_tasks_get:
  assumes "same_tasks s s'" and "sc_tasks s a = Some t"
  shows "\<exists>t'. sc_tasks s' a = Some t' \<and> t_regs t' = t_regs t \<and> t_pt t' = t_pt t"
proof -
  have "map_option (\<lambda>t. (t_regs t, t_pt t)) (sc_tasks s' a) = Some (t_regs t, t_pt t)"
    using assms unfolding same_tasks_def by (metis option.simps(9))
  then show ?thesis by (cases "sc_tasks s' a") auto
qed

lemma same_tasks_runnable: "same_tasks s s' \<Longrightarrow> runnable s a \<Longrightarrow> runnable s' a"
  using same_tasks_get[of s s' a] by (auto simp: runnable_def same_tasks_def)

lemma task_links_upd: "task_links (s\<lparr>sc_tasks := (sc_tasks s)(a \<mapsto> t)\<rparr>) = (task_links s)(a \<mapsto> \<lparr>lh_next = t_next t, lh_prev = t_prev t\<rparr>)"
  by (auto simp: task_links_def)

lemma task_links_cong: "sc_tasks s' = sc_tasks s \<Longrightarrow> task_links s' = task_links s"
  by (simp add: task_links_def)

lemma task_of_link:
  "task_links s a = Some l \<Longrightarrow> \<exists>t. sc_tasks s a = Some t \<and> t_next t = lh_next l \<and> t_prev t = lh_prev l"
  by (auto simp: task_links_def)

lemma push_task_rep:
  assumes "sched_rep s xs" and "a \<notin> set xs" and "a \<noteq> NULL" and "a \<noteq> sc_idle s" and "sc_tasks s a \<noteq> None"
  shows "\<exists>s'. sched_task_nolock s a = Ok s' \<and> sched_rep s' (a # xs) \<and> same_tasks s s'"
proof -
  obtain n where n: "sc_tasks s a = Some n" using assms(5) by auto
  have l: "lseg (task_links s) NULL (sc_head s) xs (sc_tail s) NULL" and d: "distinct xs" "sc_idle s \<notin> set xs"
    using assms(1) by (auto simp: sched_rep_def)
  show ?thesis
  proof (cases xs)
    case Nil
    then show ?thesis using l n assms(3,4)
      by (auto simp: sched_task_nolock_def Let_def sched_rep_def task_links_def same_tasks_def)
  next
    case (Cons b ys)
    obtain nx where b: "sc_head s = b" "b \<noteq> NULL" "task_links s b = Some \<lparr>lh_next = nx, lh_prev = NULL\<rparr>"
      "lseg (task_links s) b nx ys (sc_tail s) NULL" using l Cons by auto
    obtain m where m: "sc_tasks s b = Some m" "t_next m = nx" using task_of_link[OF b(3)] by auto
    have ne: "b \<noteq> a" "a \<notin> set ys" "b \<notin> set ys" using assms(2) d(1) Cons by auto
    let ?s = "s\<lparr>sc_tasks := (sc_tasks s)(a \<mapsto> n\<lparr>t_next := b, t_prev := NULL\<rparr>, b \<mapsto> m\<lparr>t_prev := a\<rparr>), sc_head := a\<rparr>"
    have run: "sched_task_nolock s a = Ok ?s"
      using n b m ne assms(3,4) by (simp add: sched_task_nolock_def Let_def)
    have "task_links ?s = (task_links s)(a \<mapsto> \<lparr>lh_next = b, lh_prev = NULL\<rparr>, b \<mapsto> \<lparr>lh_next = nx, lh_prev = a\<rparr>)"
      using m(2) by (auto simp: task_links_def)
    then have "sched_rep ?s (a # xs)" using b ne assms(2-4) d Cons by (simp add: sched_rep_def)
    moreover have "same_tasks s ?s" using n m by (simp add: same_tasks_def)
    ultimately show ?thesis using run by blast
  qed
qed

lemma pop_task_rep:
  assumes "sched_rep s (xs @ [a])" and "xs \<noteq> []"
  shows "\<exists>s'. pop_task s = Ok (a, s') \<and> sched_rep s' xs \<and> same_tasks s s'"
proof -
  obtain ys b where ys: "xs = ys @ [b]" using assms(2) by (metis rev_exhaust)
  have "lseg (task_links s) NULL (sc_head s) (ys @ [b, a]) (sc_tail s) NULL" and d: "distinct (ys @ [b, a])" "sc_idle s \<notin> set (ys @ [b, a])"
    using assms(1) ys by (auto simp: sched_rep_def)
  then obtain u where l: "lseg (task_links s) NULL (sc_head s) ys u b" "b \<noteq> NULL"
    "task_links s b = Some \<lparr>lh_next = a, lh_prev = u\<rparr>" "a \<noteq> NULL" "task_links s a = Some \<lparr>lh_next = NULL, lh_prev = b\<rparr>"
    "sc_tail s = a" by (auto simp: lseg_append)
  obtain n where n: "sc_tasks s a = Some n" "t_next n = NULL" "t_prev n = b" using task_of_link[OF l(5)] by auto
  obtain m where m: "sc_tasks s b = Some m" "t_prev m = u" using task_of_link[OF l(3)] by auto
  have ne: "a \<noteq> b" "a \<notin> set ys" "b \<notin> set ys" using d(1) by auto
  let ?s = "s\<lparr>sc_tasks := (sc_tasks s)(b \<mapsto> m\<lparr>t_next := NULL\<rparr>, a \<mapsto> n\<lparr>t_prev := NULL, t_next := NULL\<rparr>), sc_tail := b\<rparr>"
  have run: "pop_task s = Ok (a, ?s)" using n m ne l by (simp add: pop_task_def Let_def)
  have "task_links ?s = (task_links s)(b \<mapsto> \<lparr>lh_next = NULL, lh_prev = u\<rparr>, a \<mapsto> \<lparr>lh_next = NULL, lh_prev = NULL\<rparr>)"
    using m(2) by (auto simp: task_links_def)
  then have "sched_rep ?s xs" using l ne d ys by (auto simp: sched_rep_def lseg_append)
  moreover have "same_tasks s ?s" using n m by (simp add: same_tasks_def)
  ultimately show ?thesis using run by blast
qed

text \<open>Taking the only task clears the tail but not the head.\<close>

lemma pop_last_task:
  assumes "sched_rep s [a]"
  shows "\<exists>s'. pop_task s = Ok (a, s') \<and> sc_tail s' = NULL \<and> sc_head s' = a \<and> same_tasks s s'"
proof -
  have l: "sc_head s = a" "sc_tail s = a" "a \<noteq> NULL" "task_links s a = Some \<lparr>lh_next = NULL, lh_prev = NULL\<rparr>"
    using assms by (auto simp: sched_rep_def)
  obtain n where "sc_tasks s a = Some n" "t_prev n = NULL" using task_of_link[OF l(4)] by auto
  then show ?thesis using l by (auto simp: pop_task_def Let_def same_tasks_def)
qed

section \<open>Timer ticks\<close>

definition current :: "sched_state \<Rightarrow> nat \<Rightarrow> addr" where
  "current s me = current_task (cpu_cores (sc_cores s) ! me)"

definition regs_of :: "sched_state \<Rightarrow> addr \<Rightarrow> addr" where
  "regs_of s a = t_regs (the (sc_tasks s a))"

definition cr3_val :: "sched_state \<Rightarrow> addr \<Rightarrow> u64" where
  "cr3_val s a = cr3_of (the (sc_pts s (t_pt (the (sc_tasks s a))))) - sc_hhdm s"

text \<open>CPU \<open>me\<close> runs the first task of \<open>L\<close>, the queue holds the others, there are at least two tasks.\<close>

definition running :: "sched_state \<Rightarrow> nat \<Rightarrow> addr list \<Rightarrow> bool" where
  "running s me L \<longleftrightarrow> me < length (cpu_cores (sc_cores s)) \<and> preempt_count (cpu_cores (sc_cores s) ! me) = 0
     \<and> sc_lock s = 0 \<and> 2 \<le> length L \<and> current s me = hd L \<and> sched_rep s (tl L) \<and> distinct L
     \<and> sc_idle s \<notin> set L \<and> (\<forall>a \<in> set L. runnable s a)"

definition rotate_back :: "'a list \<Rightarrow> 'a list" where
  "rotate_back L = last L # butlast L"

lemma go_to_task_runnable:
  assumes "runnable s a" and "me < length (cpu_cores (sc_cores s))"
  shows "go_to_task s me a = Ok (Switched (the (sc_regs s (regs_of s a))) (cr3_val s a),
      s\<lparr>sc_cores := set_cpu (sc_cores s) me ((cpu_cores (sc_cores s) ! me)\<lparr>current_task := a\<rparr>)\<rparr>)"
  using assms
  by (auto simp: go_to_task_def set_current_def cpu_at_def runnable_def regs_of_def cr3_val_def)

lemma same_tasks_of:
  assumes "same_tasks s s'" and "runnable s a"
  shows "regs_of s' a = regs_of s a" and "cr3_val s' a = cr3_val s a"
proof -
  obtain t where t: "sc_tasks s a = Some t" using assms(2) by (auto simp: runnable_def)
  obtain t' where "sc_tasks s' a = Some t'" "t_regs t' = t_regs t" "t_pt t' = t_pt t"
    using same_tasks_get[OF assms(1) t] by blast
  then show "regs_of s' a = regs_of s a" "cr3_val s' a = cr3_val s a"
    using t assms(1) by (simp_all add: regs_of_def cr3_val_def same_tasks_def)
qed

text \<open>
  One tick of a running CPU: the frame is saved to the current task, the tasks rotate, and the next
  task's frame and page table are loaded.
\<close>

lemma tick_running:
  assumes r: "running s me L"
  shows "\<exists>s'. timer_handler s me ctx = Ok (Switched (the (sc_regs s' (regs_of s' (last L)))) (cr3_val s' (last L)), s')
     \<and> running s' me (rotate_back L) \<and> sc_regs s' = (sc_regs s)(regs_of s (hd L) \<mapsto> ctx)
     \<and> (\<forall>a \<in> set L. regs_of s' a = regs_of s a \<and> cr3_val s' a = cr3_val s a)"
proof -
  obtain c xs where L: "L = c # xs" "xs \<noteq> []" using r by (cases L; cases "tl L") (auto simp: running_def)
  define a where "a = last xs"
  define ys where "ys = butlast xs"
  have xs: "xs = ys @ [a]" using L(2) by (simp add: a_def ys_def)
  have me: "me < length (cpu_cores (sc_cores s))" and pc: "preempt_count (cpu_cores (sc_cores s) ! me) = 0" and lk: "sc_lock s = 0"
    and cur: "current_task (cpu_cores (sc_cores s) ! me) = c" and rep: "sched_rep s xs" and d: "distinct L"
    and idle: "sc_idle s \<notin> set L" and run: "\<And>a. a \<in> set L \<Longrightarrow> runnable s a"
    using r L by (auto simp: running_def current_def)
  obtain t where t: "c \<noteq> NULL" "sc_tasks s c = Some t" "t_regs t \<noteq> NULL" "t_regs t \<in> dom (sc_regs s)"
    using run[of c] L by (auto simp: runnable_def)
  define s1 where "s1 = s\<lparr>sc_lock := 1, sc_regs := (sc_regs s)(t_regs t \<mapsto> ctx)\<rparr>"
  have sv: "save_task (s\<lparr>sc_lock := 1\<rparr>) me ctx = Ok s1" using me cur t by (auto simp: save_task_def cpu_at_def s1_def)
  have rep1: "sched_rep s1 xs" using rep by (simp add: sched_rep_def s1_def task_links_def)
  have run1: "runnable s1 b" if "b \<in> set L" for b using run[OF that] t(4) by (auto simp: runnable_def s1_def)
  obtain s2 where s2: "sched_task_nolock s1 c = Ok s2" "sched_rep s2 (c # xs)" "same_tasks s1 s2"
    using push_task_rep[OF rep1, of c] d L t idle by (auto simp: s1_def)
  have rep2: "sched_rep s2 ((c # ys) @ [a])" using s2(2) xs by simp
  obtain s3 where s3: "pop_task s2 = Ok (a, s3)" "sched_rep s3 (c # ys)" "same_tasks s2 s3"
    using pop_task_rep[OF rep2] by auto
  have st: "same_tasks s1 s3" by (rule same_tasks_trans[OF s2(3) s3(3)])
  define s4 where "s4 = s3\<lparr>sc_lock := 0\<rparr>"
  define s5 where "s5 = s4\<lparr>sc_cores := set_cpu (sc_cores s4) me ((cpu_cores (sc_cores s4) ! me)\<lparr>current_task := a\<rparr>)\<rparr>"
  have co: "sc_cores s4 = sc_cores s" "sc_regs s4 = (sc_regs s)(t_regs t \<mapsto> ctx)" "sc_idle s4 = sc_idle s"
    using st by (auto simp: same_tasks_def s1_def s4_def)
  have run4: "runnable s4 b" if "b \<in> set L" for b
    using same_tasks_runnable[OF st run1[OF that]] by (simp add: runnable_def s4_def)
  have aL: "a \<in> set L" using L xs by simp
  have of4: "regs_of s4 b = regs_of s b" "cr3_val s4 b = cr3_val s b" if "b \<in> set L" for b
    using same_tasks_of[OF st run1[OF that]] by (simp_all add: regs_of_def cr3_val_def s4_def s1_def)
  have "timer_handler s me ctx = go_to_task s4 me a"
    using me pc lk sv s2(1) s3(1) cur by (simp add: timer_handler_def cpu_at_def schedule_def s1_def s4_def)
  also have "\<dots> = Ok (Switched (the (sc_regs s4 (regs_of s4 a))) (cr3_val s4 a), s5)"
    using go_to_task_runnable[OF run4[OF aL]] me co(1) by (simp add: s5_def)
  finally have tick: "timer_handler s me ctx = Ok (Switched (the (sc_regs s4 (regs_of s4 a))) (cr3_val s4 a), s5)" .
  have fields: "sc_regs s5 = sc_regs s4" "sc_tasks s5 = sc_tasks s4" "sc_pts s5 = sc_pts s4" "sc_hhdm s5 = sc_hhdm s4"
    by (simp_all add: s5_def)
  have "running s5 me (a # c # ys)"
    unfolding running_def
  proof (intro conjI ballI)
    show "sched_rep s5 (tl (a # c # ys))" using s3(2) by (simp add: sched_rep_def s5_def s4_def task_links_def)
    show "distinct (a # c # ys)" "sc_idle s5 \<notin> set (a # c # ys)" using d idle L xs co(3) by (auto simp: s5_def)
    fix b assume "b \<in> set (a # c # ys)"
    then have "b \<in> set L" using L xs by auto
    then show "runnable s5 b" using run4 by (simp add: runnable_def fields)
  qed (use me pc co(1) in \<open>simp_all add: s5_def s4_def set_cpu_def current_def\<close>)
  moreover have "rotate_back L = a # c # ys" using L xs by (simp add: rotate_back_def butlast_append)
  moreover have "regs_of s (hd L) = t_regs t" using L t by (simp add: regs_of_def)
  moreover have "last L = a" using L xs by simp
  moreover have "regs_of s5 b = regs_of s b \<and> cr3_val s5 b = cr3_val s b" if "b \<in> set L" for b
    using of4[OF that] by (simp add: regs_of_def cr3_val_def fields)
  ultimately show ?thesis using tick co(2) fields by (intro exI[of _ s5]) (simp add: regs_of_def cr3_val_def)
qed

fun run_ticks :: "sched_state \<Rightarrow> nat \<Rightarrow> registers list \<Rightarrow> (outcome list \<times> sched_state) result" where
  "run_ticks s me [] = Ok ([], s)"
| "run_ticks s me (ctx # ctxs) =
     bnd (timer_handler s me ctx) (\<lambda>(out, s). bnd (run_ticks s me ctxs) (\<lambda>(outs, s). Ok (out # outs, s)))"

lemma rotate_back_pow:
  "k \<le> length L \<Longrightarrow> (rotate_back ^^ k) L = drop (length L - k) L @ take (length L - k) L"
proof (induction k)
  case (Suc k)
  define m where "m = length L - Suc k"
  have m: "length L - k = Suc m" "m < length L" using Suc.prems by (simp_all add: m_def)
  have "(rotate_back ^^ Suc k) L = rotate_back (drop (Suc m) L @ take (Suc m) L)" using Suc m(1) by simp
  also have "take (Suc m) L = take m L @ [L ! m]" using m(2) by (rule take_Suc_conv_app_nth)
  also have "rotate_back (drop (Suc m) L @ take m L @ [L ! m]) = L ! m # drop (Suc m) L @ take m L"
    by (simp add: rotate_back_def butlast_append)
  also have "\<dots> = drop m L @ take m L" using m(2) by (simp add: Cons_nth_drop_Suc)
  finally show ?case by (simp add: m_def)
qed simp

lemma run_ticks_running:
  "running s me L \<Longrightarrow> \<exists>outs s'. run_ticks s me ctxs = Ok (outs, s') \<and> running s' me ((rotate_back ^^ length ctxs) L)"
proof (induction ctxs arbitrary: s L)
  case (Cons ctx ctxs)
  obtain out s1 where s1: "timer_handler s me ctx = Ok (out, s1)" "running s1 me (rotate_back L)"
    using tick_running[OF Cons.prems] by blast
  obtain outs s2 where "run_ticks s1 me ctxs = Ok (outs, s2)" "running s2 me ((rotate_back ^^ length ctxs) (rotate_back L))"
    using Cons.IH[OF s1(2)] by blast
  then show ?case using s1(1) by (simp add: funpow_swap1)
qed simp

lemma rotate_back_set: "L \<noteq> [] \<Longrightarrow> set (rotate_back L) = set L"
  by (metis append_butlast_last_id rotate_back_def set_simps(2) set_append Un_commute Un_insert_right empty_set sup_bot.right_neutral list.simps(15) insert_is_Un)

lemma run_ticks_saved:
  assumes "running s me L" and "inj_on (regs_of s) (set L)" and "0 < j" and "j < length L"
    and "sc_regs s (regs_of s (L ! j)) = Some v" and "length ctxs = length L - j"
  shows "\<exists>outs s'. run_ticks s me ctxs = Ok (outs, s') \<and> outs \<noteq> [] \<and> last outs = Switched v (cr3_val s (L ! j))"
  using assms
proof (induction ctxs arbitrary: s L j)
  case Nil
  then show ?case by simp
next
  case (Cons ctx ctxs)
  let ?c = "L ! j"
  have d: "distinct L" and ne: "L \<noteq> []" using Cons.prems(1) by (auto simp: running_def)
  have c: "?c \<in> set L" "hd L \<in> set L" "?c \<noteq> hd L"
    using Cons.prems(3,4) d ne by (auto simp: hd_conv_nth nth_eq_iff_index_eq)
  obtain s1 where s1: "timer_handler s me ctx = Ok (Switched (the (sc_regs s1 (regs_of s1 (last L)))) (cr3_val s1 (last L)), s1)"
    "running s1 me (rotate_back L)" "sc_regs s1 = (sc_regs s)(regs_of s (hd L) \<mapsto> ctx)"
    "\<forall>a \<in> set L. regs_of s1 a = regs_of s a \<and> cr3_val s1 a = cr3_val s a"
    using tick_running[OF Cons.prems(1)] by blast
  have "regs_of s ?c \<noteq> regs_of s (hd L)" using inj_onD[OF Cons.prems(2)] c by blast
  then have v: "sc_regs s1 (regs_of s1 ?c) = Some v" using s1(3,4) c(1) Cons.prems(5) by simp
  show ?case
  proof (cases "Suc j = length L")
    case True
    then have "last L = ?c" using ne by (metis diff_Suc_1 last_conv_nth)
    moreover have "Suc (length ctxs) = Suc 0" using True Cons.prems(6) by (metis Suc_diff_le diff_self_eq_0 length_Cons order_refl)
    then have "ctxs = []" by simp
    ultimately show ?thesis using s1(1,4) v c(1) by simp
  next
    case False
    have nth: "rotate_back L ! Suc j = ?c" using False Cons.prems(4) by (simp add: rotate_back_def nth_butlast)
    have len: "length (rotate_back L) = length L" using ne by (simp add: rotate_back_def)
    have st: "set (rotate_back L) = set L" by (rule rotate_back_set[OF ne])
    have "inj_on (regs_of s1) (set L)"
    proof (rule inj_onI)
      fix x y assume "x \<in> set L" "y \<in> set L" "regs_of s1 x = regs_of s1 y"
      then show "x = y" using s1(4) inj_onD[OF Cons.prems(2), of x y] by simp
    qed
    then have "\<exists>outs s'. run_ticks s1 me ctxs = Ok (outs, s') \<and> outs \<noteq> [] \<and> last outs = Switched v (cr3_val s1 (rotate_back L ! Suc j))"
      using Cons.prems(4,6) False v by (intro Cons.IH[OF s1(2)]) (simp_all add: st nth len)
    then show ?thesis using s1(1,4) c(1) nth by auto
  qed
qed

section \<open>A queue that has drained\<close>

text \<open>Once the tail is NULL and the head is not, no operation sets the tail again.\<close>

definition stuck :: "sched_state \<Rightarrow> nat \<Rightarrow> bool" where
  "stuck s me \<longleftrightarrow> sc_tail s = NULL \<and> sc_head s \<noteq> NULL \<and> sc_tasks s (sc_head s) \<noteq> None \<and> sc_lock s = 0
     \<and> me < length (cpu_cores (sc_cores s)) \<and> preempt_count (cpu_cores (sc_cores s) ! me) = 0
     \<and> runnable s (sc_idle s) \<and> runnable s (current s me)"

lemma push_stuck:
  assumes "sc_tail s = NULL" and "sc_head s \<noteq> NULL" and "sc_tasks s (sc_head s) \<noteq> None" and "sc_tasks s a \<noteq> None"
  shows "\<exists>s'. sched_task_nolock s a = Ok s' \<and> sc_tail s' = NULL \<and> sc_head s' \<noteq> NULL \<and> sc_tasks s' (sc_head s') \<noteq> None \<and> same_tasks s s'"
proof (cases "a = sc_idle s \<or> a = NULL")
  case True
  then show ?thesis using assms by (simp add: sched_task_nolock_def)
next
  case False
  obtain n m where "sc_tasks s a = Some n" "sc_tasks s (sc_head s) = Some m" using assms(3,4) by auto
  then show ?thesis using False assms(1,2)
    by (cases "sc_head s = a") (auto simp: sched_task_nolock_def Let_def same_tasks_def)
qed

lemma tick_stuck:
  assumes st: "stuck s me"
  shows "\<exists>r s'. timer_handler s me ctx = Ok (Switched r (cr3_val s (sc_idle s)), s') \<and> stuck s' me
     \<and> current s' me = sc_idle s \<and> sc_idle s' = sc_idle s \<and> cr3_val s' (sc_idle s) = cr3_val s (sc_idle s)
     \<and> (\<forall>a. sc_tasks s a \<noteq> None \<longrightarrow> sc_tasks s' a \<noteq> None)"
proof -
  let ?c = "current s me" let ?i = "sc_idle s"
  have me: "me < length (cpu_cores (sc_cores s))" and pc: "preempt_count (cpu_cores (sc_cores s) ! me) = 0" and lk: "sc_lock s = 0"
    and h: "sc_tail s = NULL" "sc_head s \<noteq> NULL" "sc_tasks s (sc_head s) \<noteq> None" and ri: "runnable s ?i" and rc: "runnable s ?c"
    using st by (auto simp: stuck_def)
  obtain t where t: "?c \<noteq> NULL" "sc_tasks s ?c = Some t" "t_regs t \<noteq> NULL" "t_regs t \<in> dom (sc_regs s)"
    using rc by (auto simp: runnable_def)
  define s1 where "s1 = s\<lparr>sc_lock := 1, sc_regs := (sc_regs s)(t_regs t \<mapsto> ctx)\<rparr>"
  have sv: "save_task (s\<lparr>sc_lock := 1\<rparr>) me ctx = Ok s1"
    using me t by (auto simp: save_task_def cpu_at_def s1_def current_def)
  have ri1: "runnable s1 ?i" using ri t(4) by (auto simp: runnable_def s1_def)
  have h1: "sc_tail s1 = NULL" "sc_head s1 \<noteq> NULL" "sc_tasks s1 (sc_head s1) \<noteq> None" "sc_tasks s1 ?c \<noteq> None"
    using h t by (simp_all add: s1_def)
  obtain s2 where s2: "sched_task_nolock s1 ?c = Ok s2" "sc_tail s2 = NULL" "sc_head s2 \<noteq> NULL"
    "sc_tasks s2 (sc_head s2) \<noteq> None" "same_tasks s1 s2" using push_stuck[OF h1] by blast
  have id2: "sc_idle s2 = ?i" "sc_cores s2 = sc_cores s" using s2(5) by (simp_all add: same_tasks_def s1_def)
  have pop: "pop_task s2 = Ok (?i, s2)" using s2(2) id2 by (simp add: pop_task_def)
  define s4 where "s4 = s2\<lparr>sc_lock := 0\<rparr>"
  have ri4: "runnable s4 ?i" using same_tasks_runnable[OF s2(5) ri1] by (simp add: runnable_def s4_def)
  define s5 where "s5 = s4\<lparr>sc_cores := set_cpu (sc_cores s4) me ((cpu_cores (sc_cores s4) ! me)\<lparr>current_task := ?i\<rparr>)\<rparr>"
  have "timer_handler s me ctx = go_to_task s4 me ?i"
    using me pc lk sv s2(1) pop by (simp add: timer_handler_def cpu_at_def schedule_def s1_def s4_def current_def)
  also have "\<dots> = Ok (Switched (the (sc_regs s4 (regs_of s4 ?i))) (cr3_val s4 ?i), s5)"
    using go_to_task_runnable[OF ri4] me id2 by (simp add: s5_def s4_def)
  finally have tick: "timer_handler s me ctx = Ok (Switched (the (sc_regs s4 (regs_of s4 ?i))) (cr3_val s4 ?i), s5)" .
  have c4: "cr3_val s4 ?i = cr3_val s ?i" "cr3_val s5 ?i = cr3_val s ?i"
    using same_tasks_of(2)[OF s2(5) ri1] by (simp_all add: cr3_val_def s4_def s1_def s5_def)
  have ri5: "runnable s5 ?i" using ri4 by (simp add: runnable_def s5_def)
  have keep: "sc_tasks s5 a \<noteq> None" if "sc_tasks s a \<noteq> None" for a
    using same_tasks_get[OF s2(5), of a] that by (auto simp: s5_def s4_def s1_def)
  have "current s5 me = ?i" "sc_idle s5 = ?i" using me id2 by (simp_all add: s5_def s4_def current_def set_cpu_def)
  moreover have "stuck s5 me" using s2(2,3,4) me pc id2 ri5 calculation
    by (simp add: stuck_def) (simp add: s5_def s4_def set_cpu_def)
  ultimately show ?thesis using tick c4 keep by (simp add: exI[of _ s5])
qed

datatype sched_op = Add_Task addr | Tick registers

fun run_ops :: "sched_state \<Rightarrow> nat \<Rightarrow> sched_op list \<Rightarrow> (outcome list \<times> sched_state) result" where
  "run_ops s me [] = Ok ([], s)"
| "run_ops s me (Add_Task a # ops) = bnd (sched_task s a) (\<lambda>s. run_ops s me ops)"
| "run_ops s me (Tick ctx # ops) =
     bnd (timer_handler s me ctx) (\<lambda>(out, s). bnd (run_ops s me ops) (\<lambda>(outs, s). Ok (out # outs, s)))"

fun added :: "sched_op list \<Rightarrow> addr set" where
  "added [] = {}"
| "added (Add_Task a # ops) = insert a (added ops)"
| "added (Tick ctx # ops) = added ops"

lemma add_stuck:
  assumes "stuck s me" and "sc_tasks s a \<noteq> None"
  shows "\<exists>s'. sched_task s a = Ok s' \<and> stuck s' me \<and> sc_idle s' = sc_idle s \<and> cr3_val s' (sc_idle s) = cr3_val s (sc_idle s)
     \<and> (\<forall>a. sc_tasks s a \<noteq> None \<longrightarrow> sc_tasks s' a \<noteq> None)"
proof -
  let ?s = "s\<lparr>sc_lock := 1\<rparr>"
  have "sc_tail ?s = NULL" "sc_head ?s \<noteq> NULL" "sc_tasks ?s (sc_head ?s) \<noteq> None" "sc_tasks ?s a \<noteq> None"
    using assms by (auto simp: stuck_def)
  from push_stuck[OF this] obtain s1 where s1: "sched_task_nolock ?s a = Ok s1" "sc_tail s1 = NULL" "sc_head s1 \<noteq> NULL"
    "sc_tasks s1 (sc_head s1) \<noteq> None" "same_tasks ?s s1" by blast
  have r: "runnable ?s (sc_idle s)" "runnable ?s (current s me)" using assms(1) by (auto simp: stuck_def runnable_def)
  have "runnable s1 (sc_idle s)" "runnable s1 (current s me)" using same_tasks_runnable[OF s1(5)] r by auto
  moreover have "cr3_val s1 (sc_idle s) = cr3_val s (sc_idle s)"
    using same_tasks_of(2)[OF s1(5) r(1)] by (simp add: cr3_val_def)
  moreover have "sc_idle s1 = sc_idle s" "sc_cores s1 = sc_cores s" using s1(5) by (simp_all add: same_tasks_def)
  moreover have "sc_tasks s1 b \<noteq> None" if "sc_tasks s b \<noteq> None" for b
    using same_tasks_get[OF s1(5), of b] that by auto
  ultimately show ?thesis using s1 assms(1)
    by (intro exI[of _ "s1\<lparr>sc_lock := 0\<rparr>"]) (auto simp: sched_task_def stuck_def runnable_def current_def cr3_val_def)
qed

lemma run_ops_stuck:
  "stuck s me \<Longrightarrow> \<forall>a \<in> added ops. sc_tasks s a \<noteq> None \<Longrightarrow>
   \<exists>outs s'. run_ops s me ops = Ok (outs, s') \<and> (\<forall>out \<in> set outs. \<exists>r. out = Switched r (cr3_val s (sc_idle s)))"
proof (induction s me ops rule: run_ops.induct)
  case (2 s me a ops)
  obtain s1 where s1: "sched_task s a = Ok s1" "stuck s1 me" "sc_idle s1 = sc_idle s" "cr3_val s1 (sc_idle s) = cr3_val s (sc_idle s)"
    "\<forall>a. sc_tasks s a \<noteq> None \<longrightarrow> sc_tasks s1 a \<noteq> None" using add_stuck[OF 2(2), of a] 2(3) by auto
  then show ?case using 2(1)[OF s1(1,2)] 2(3) by auto
next
  case (3 s me ctx ops)
  obtain r s1 where s1: "timer_handler s me ctx = Ok (Switched r (cr3_val s (sc_idle s)), s1)" "stuck s1 me" "sc_idle s1 = sc_idle s"
    "cr3_val s1 (sc_idle s) = cr3_val s (sc_idle s)" "\<forall>a. sc_tasks s a \<noteq> None \<longrightarrow> sc_tasks s1 a \<noteq> None"
    using tick_stuck[OF 3(2), of ctx] by blast
  then show ?case using 3(1)[OF s1(1) refl s1(2)] 3(3) by auto
qed simp

section \<open>Properties of the scheduler\<close>

text \<open>
  C23: Round robin. With at least two runnable tasks, none of them the idle task, every sequence of timer
  ticks runs without a fault and keeps all tasks in rotation, and every task, wherever it waits in the
  queue, is running after at most as many ticks as there are tasks.
\<close>

theorem sched_round_robin:
  assumes "running s me L" and "t \<in> set L"
  shows "\<exists>k. 0 < k \<and> k \<le> length L \<and> (\<forall>ctxs. length ctxs = k \<longrightarrow>
     (\<exists>outs s'. run_ticks s me ctxs = Ok (outs, s') \<and> current s' me = t
        \<and> (\<exists>L'. running s' me L' \<and> set L' = set L)))"
proof -
  obtain j where j: "j < length L" "t = L ! j" using assms(2) by (metis in_set_conv_nth)
  let ?k = "length L - j"
  have k: "0 < ?k" "?k \<le> length L" using j(1) by simp_all
  have rot: "(rotate_back ^^ ?k) L = drop j L @ take j L" using rotate_back_pow[OF k(2)] j(1) by simp
  have hd: "hd (drop j L @ take j L) = t" using j by (simp add: hd_append hd_drop_conv_nth)
  have set: "set (drop j L @ take j L) = set L" by (metis append_take_drop_id set_append Un_commute)
  have "\<exists>outs s'. run_ticks s me ctxs = Ok (outs, s') \<and> current s' me = t \<and> (\<exists>L'. running s' me L' \<and> set L' = set L)"
    if len: "length ctxs = ?k" for ctxs
  proof -
    have "\<exists>outs s'. run_ticks s me ctxs = Ok (outs, s') \<and> running s' me ((rotate_back ^^ length ctxs) L)"
      using run_ticks_running[OF assms(1), of ctxs] by blast
    then obtain outs s' where r: "run_ticks s me ctxs = Ok (outs, s')" "running s' me (drop j L @ take j L)"
      unfolding len rot by blast
    have "current s' me = t" using r(2) hd by (simp add: running_def)
    then show ?thesis using r set by blast
  qed
  then show ?thesis using k by blast
qed

definition demo_core :: "addr \<Rightarrow> cores" where
  "demo_core t = \<lparr>cpu_cores = [\<lparr>lapic_id = 0, cli_count = 1, preempt_count = 0, hz = 0, current_task = t, tss_ptr = 0\<rparr>],
     irq_on = (\<lambda>_. False)\<rparr>"

definition demo_pt :: page_table where "demo_pt = \<lparr>cr3_of = 0x5000, lock_of = 0\<rparr>"

text \<open>The task at 16 runs, the one at 24 waits; the idle task is at 8.\<close>

definition two_tasks :: sched_state where
  "two_tasks = \<lparr>sc_tasks = [8 \<mapsto> \<lparr>t_pt = 64, t_regs = 80, t_next = 0, t_prev = 0\<rparr>, 16 \<mapsto> \<lparr>t_pt = 64, t_regs = 88, t_next = 0, t_prev = 0\<rparr>,
       24 \<mapsto> \<lparr>t_pt = 64, t_regs = 96, t_next = 0, t_prev = 0\<rparr>],
     sc_regs = [80 \<mapsto> zero_registers, 88 \<mapsto> zero_registers, 96 \<mapsto> zero_registers], sc_pts = [64 \<mapsto> demo_pt],
     sc_head = 24, sc_tail = 24, sc_lock = 0, sc_idle = 8, sc_cores = demo_core 16, sc_hhdm = 0\<rparr>"

lemma two_tasks_running: "running two_tasks 0 [16, 24]"
  by (simp add: running_def two_tasks_def demo_core_def current_def sched_rep_def task_links_def runnable_def)

theorem sched_round_robin_witness:
  "\<exists>k. 0 < k \<and> k \<le> 2 \<and> (\<forall>ctxs. length ctxs = k \<longrightarrow>
     (\<exists>outs s'. run_ticks two_tasks 0 ctxs = Ok (outs, s') \<and> current s' 0 = 24))"
proof -
  have len: "length [16, 24::addr] = 2" and mem: "24 \<in> set [16, 24::addr]" by simp_all
  show ?thesis using sched_round_robin[OF two_tasks_running mem] unfolding len by blast
qed

text \<open>
  C24: A preempted task gets its context back. With tasks that do not share register frames, the frame a
  tick saves for the running task is exactly what the scheduler loads, together with the task's own page
  table, when its turn comes again one round later, whatever the other tasks saved in between.
\<close>

theorem sched_restores_context:
  assumes "running s me L" and "inj_on (regs_of s) (set L)" and "length ctxs + 1 = length L"
  shows "\<exists>outs s'. run_ticks s me (ctx # ctxs) = Ok (outs, s') \<and> last outs = Switched ctx (cr3_val s (hd L))"
proof -
  have ne: "L \<noteq> []" "1 < length L" using assms(1) by (auto simp: running_def)
  obtain s1 where s1: "timer_handler s me ctx = Ok (Switched (the (sc_regs s1 (regs_of s1 (last L)))) (cr3_val s1 (last L)), s1)"
    "running s1 me (rotate_back L)" "sc_regs s1 = (sc_regs s)(regs_of s (hd L) \<mapsto> ctx)"
    "\<forall>a \<in> set L. regs_of s1 a = regs_of s a \<and> cr3_val s1 a = cr3_val s a"
    using tick_running[OF assms(1)] by blast
  have h: "hd L \<in> set L" using ne(1) by simp
  have nth: "rotate_back L ! 1 = hd L" using ne by (cases L) (auto simp: rotate_back_def)
  have st: "set (rotate_back L) = set L" by (rule rotate_back_set[OF ne(1)])
  have "inj_on (regs_of s1) (set L)"
  proof (rule inj_onI)
    fix x y assume "x \<in> set L" "y \<in> set L" "regs_of s1 x = regs_of s1 y"
    then show "x = y" using s1(4) inj_onD[OF assms(2), of x y] by simp
  qed
  moreover have "length (rotate_back L) = length L" using ne by (simp add: rotate_back_def)
  ultimately have "\<exists>outs s'. run_ticks s1 me ctxs = Ok (outs, s') \<and> outs \<noteq> [] \<and> last outs = Switched ctx (cr3_val s1 (rotate_back L ! 1))"
    using ne assms(3) s1(3,4) h nth by (intro run_ticks_saved[OF s1(2)]) (simp_all add: st)
  then show ?thesis using s1(1,4) h nth by auto
qed

theorem sched_restores_context_witness:
  "\<exists>outs s'. run_ticks two_tasks 0 [zero_registers\<lparr>rip := 7\<rparr>, zero_registers\<lparr>rip := 9\<rparr>] = Ok (outs, s')
     \<and> last outs = Switched (zero_registers\<lparr>rip := 7\<rparr>) 0x5000"
proof -
  have "inj_on (regs_of two_tasks) (set [16, 24])" by (simp add: inj_on_def regs_of_def two_tasks_def)
  from sched_restores_context[OF two_tasks_running this, of "[zero_registers\<lparr>rip := 9\<rparr>]"]
  have "\<exists>outs s'. run_ticks two_tasks 0 [zero_registers\<lparr>rip := 7\<rparr>, zero_registers\<lparr>rip := 9\<rparr>] = Ok (outs, s')
     \<and> last outs = Switched (zero_registers\<lparr>rip := 7\<rparr>) (cr3_val two_tasks (hd [16, 24]))" by simp
  then show ?thesis by (simp add: cr3_val_def two_tasks_def demo_pt_def)
qed

text \<open>
  A single task runs once. With one task in the queue and the idle task running, the first tick
  switches to the task, and after it every tick switches to the idle task, for ever and whatever further
  tasks are scheduled: \<open>pop_task\<close> leaves the head of the drained queue dangling, and then nothing sets
  the tail again.
\<close>

theorem sched_drained_queue_starves:
  assumes "sched_rep s [t]" and "sc_lock s = 0" and "me < length (cpu_cores (sc_cores s))"
    and "preempt_count (cpu_cores (sc_cores s) ! me) = 0" and "current s me = sc_idle s"
    and "runnable s t" and "runnable s (sc_idle s)" and "\<forall>a \<in> added ops. sc_tasks s a \<noteq> None"
  shows "\<exists>r outs s'. run_ops s me (Tick ctx # ops) = Ok (Switched r (cr3_val s t) # outs, s')
     \<and> (\<forall>out \<in> set outs. \<exists>r. out = Switched r (cr3_val s (sc_idle s)))"
proof -
  let ?i = "sc_idle s"
  obtain n where n: "?i \<noteq> NULL" "sc_tasks s ?i = Some n" "t_regs n \<noteq> NULL" "t_regs n \<in> dom (sc_regs s)"
    using assms(7) by (auto simp: runnable_def)
  define s1 where "s1 = s\<lparr>sc_lock := 1, sc_regs := (sc_regs s)(t_regs n \<mapsto> ctx)\<rparr>"
  have sv: "save_task (s\<lparr>sc_lock := 1\<rparr>) me ctx = Ok s1"
    using assms(3,5) n by (auto simp: save_task_def cpu_at_def s1_def current_def)
  have push: "sched_task_nolock s1 ?i = Ok s1" by (simp add: sched_task_nolock_def s1_def)
  have "sched_rep s1 [t]" using assms(1) by (simp add: sched_rep_def s1_def task_links_def)
  then obtain s2 where s2: "pop_task s1 = Ok (t, s2)" "sc_tail s2 = NULL" "sc_head s2 = t" "same_tasks s1 s2"
    using pop_last_task by blast
  have r1: "runnable s1 t" "runnable s1 ?i" using assms(6,7) n(4) by (auto simp: runnable_def s1_def)
  have r2: "runnable s2 t" "runnable s2 ?i" using same_tasks_runnable[OF s2(4)] r1 by auto
  have id2: "sc_idle s2 = ?i" "sc_cores s2 = sc_cores s" using s2(4) by (simp_all add: same_tasks_def s1_def)
  define s4 where "s4 = s2\<lparr>sc_lock := 0\<rparr>"
  define s5 where "s5 = s4\<lparr>sc_cores := set_cpu (sc_cores s4) me ((cpu_cores (sc_cores s4) ! me)\<lparr>current_task := t\<rparr>)\<rparr>"
  have r4: "runnable s4 t" using r2 by (simp add: runnable_def s4_def)
  have "timer_handler s me ctx = go_to_task s4 me t"
    using assms(2-5) sv push s2(1) by (simp add: timer_handler_def cpu_at_def schedule_def s1_def s4_def current_def)
  also have "\<dots> = Ok (Switched (the (sc_regs s4 (regs_of s4 t))) (cr3_val s4 t), s5)"
    using go_to_task_runnable[OF r4] assms(3) id2 by (simp add: s5_def s4_def)
  finally have tick: "timer_handler s me ctx = Ok (Switched (the (sc_regs s4 (regs_of s4 t))) (cr3_val s4 t), s5)" .
  have c: "cr3_val s4 t = cr3_val s t" "cr3_val s5 ?i = cr3_val s ?i"
    using same_tasks_of(2)[OF s2(4) r1(1)] same_tasks_of(2)[OF s2(4) r1(2)]
    by (simp_all add: cr3_val_def s4_def s1_def s5_def)
  have cur: "current s5 me = t" "sc_idle s5 = ?i"
    using assms(3) id2 by (simp_all add: s5_def s4_def current_def set_cpu_def)
  have r5: "runnable s5 t" "runnable s5 ?i" using r2 by (simp_all add: runnable_def s5_def s4_def)
  have st: "stuck s5 me"
    using s2(2,3) assms(3,4) id2 cur r5 r2(1) by (simp add: stuck_def) (auto simp: s5_def s4_def set_cpu_def runnable_def)
  have "\<forall>a \<in> added ops. sc_tasks s5 a \<noteq> None"
  proof
    fix a assume "a \<in> added ops"
    then obtain m where "sc_tasks s1 a = Some m" using assms(8) by (auto simp: s1_def)
    then show "sc_tasks s5 a \<noteq> None" using same_tasks_get[OF s2(4), of a m] by (auto simp: s5_def s4_def)
  qed
  from run_ops_stuck[OF st this] show ?thesis using tick c cur by auto
qed

theorem sched_drained_queue_starves_witness:
  "\<exists>r outs s'. run_ops (two_tasks\<lparr>sc_cores := demo_core 8\<rparr>) 0 [Tick zero_registers, Add_Task 16, Tick zero_registers, Tick zero_registers]
      = Ok (Switched r 0x5000 # outs, s') \<and> (\<forall>out \<in> set outs. \<exists>r. out = Switched r 0x5000)"
proof -
  let ?s = "two_tasks\<lparr>sc_cores := demo_core 8\<rparr>"
  have c: "cr3_val ?s 24 = 0x5000" "cr3_val ?s (sc_idle ?s) = 0x5000" by (simp_all add: cr3_val_def two_tasks_def demo_pt_def)
  have p: "sched_rep ?s [24]" "sc_lock ?s = 0" "0 < length (cpu_cores (sc_cores ?s))"
    "preempt_count (cpu_cores (sc_cores ?s) ! 0) = 0" "current ?s 0 = sc_idle ?s" "runnable ?s 24" "runnable ?s (sc_idle ?s)"
    "\<forall>a \<in> added [Add_Task 16, Tick zero_registers, Tick zero_registers]. sc_tasks ?s a \<noteq> None"
    by (simp_all add: two_tasks_def demo_core_def current_def sched_rep_def task_links_def runnable_def)
  show ?thesis using sched_drained_queue_starves[OF p, of zero_registers] unfolding c by blast
qed

end
