(* ===== verification/Start.thy ===== *)
theory Start
  imports Mm Boot Device Acpi Sched
begin

section \<open>main.c, arch/x86-64/init.c and cpu.c: the kernel starts\<close>

text \<open>
  The functions that call the components in order. \<open>kmain\<close> is the code the kernel runs today: it asks the boot
  loader, sets up the serial port and the descriptor tables, starts the memory manager, and loops. \<open>cpu_init\<close>,
  \<open>new_cpu_wait\<close>, \<open>schedule_bsp\<close> and the body of a kernel timer are compiled but not reached from it. Their
  states are the states of the components they call; the addresses of handlers, stacks, new objects and
  tables are arguments, as in those components.
\<close>

record kernel_state =
  kn_boot :: boot_state
  kn_machine :: machine
  kn_gdtr :: table_register
  kn_idtr :: table_register
  kn_idt :: "idt_entry list"
  kn_mm :: mm_state

text \<open>An \<open>Ok\<close> is the endless loop at the end of \<open>kmain\<close>.\<close>

definition kmain ::
  "nat \<Rightarrow> requests \<Rightarrow> u64 \<Rightarrow> memmap_entry list \<Rightarrow> u64 \<Rightarrow> addr \<Rightarrow> addr \<Rightarrow> u64 \<Rightarrow> kernel_state \<Rightarrow> kernel_state result" where
  "kmain fuel rq usable entries readcr3 gdt idt handlers k =
     bnd (limine_init rq (kn_boot k)) (\<lambda>b.
     let m = serial_init (kn_machine k);
         (gdtr, c) = init_gdt gdt (bs_cpus b);
         (idtr, t) = init_idt idt handlers (kn_idt k) in
     bnd (mm_init fuel (bs_hhdm_offset b) readcr3 usable entries (kn_mm k)) (\<lambda>mm.
     Ok \<lparr>kn_boot = b\<lparr>bs_cpus := c\<rparr>, kn_machine = m, kn_gdtr = gdtr, kn_idtr = idtr, kn_idt = t, kn_mm = mm\<rparr>))"

subsection \<open>The processors\<close>

record start_state =
  st_machine :: machine
  st_acpi :: acpi_state
  st_hpet :: hpet
  st_ticks :: u64
  st_cpus :: cpu_state
  st_task_register :: u16
  st_sched :: sched_state
  st_boot_cr3 :: u64
  st_goto :: "addr list"

text \<open>What the firmware has and what the allocators return.\<close>

record start_args =
  sa_layout :: acpi_layout
  sa_memory :: mem
  sa_early_tables :: bool
  sa_madt :: "addr option"
  sa_hpet :: "addr option"
  sa_rounds :: nat
  sa_fuel :: nat
  sa_n_cpus :: int
  sa_segments :: "addr list"
  sa_stacks :: "addr list"
  sa_new_regs :: addr
  sa_new_pt :: addr
  sa_sched_idle :: u64
  sa_cpu_wakeup :: addr

text \<open>\<open>tss_percpu_init\<close>: the task register is loaded with the selector of this processor.\<close>

definition tss_percpu_init :: "u64 \<Rightarrow> start_state \<Rightarrow> start_state" where
  "tss_percpu_init cpuid s = s\<lparr>st_task_register := tss_selector cpuid\<rparr>"

definition cpu_init :: "start_args \<Rightarrow> u64 \<Rightarrow> u64 \<Rightarrow> start_state \<Rightarrow> start_state result" where
  "cpu_init a cpuid readcr3 s =
     bnd (detect_x2apic (pic_disable (st_machine s))) (\<lambda>m.
     bnd (acpi_init (sa_rounds a) (sa_fuel a) (sa_layout a) (sa_memory a) (sa_early_tables a) (sa_madt a) (sa_hpet a) (st_acpi s)) (\<lambda>ac.
     bnd (hpet_init ((st_hpet s)\<lparr>hp_base := ac_hpet_base ac\<rparr>) m) (\<lambda>(hp, m).
     bnd (x2apic_calibrate_timer hp m) (\<lambda>(ticks, m).
     let m = x2apic_init_timer ticks m in
     bnd (tss_init (sa_n_cpus a) (sa_segments a) (sa_stacks a) (st_cpus s)) (\<lambda>c.
     let s = tss_percpu_init cpuid (s\<lparr>st_machine := m, st_acpi := ac, st_hpet := hp, st_ticks := ticks, st_cpus := c\<rparr>) in
     bnd (sched_init (sa_new_regs a) (sa_new_pt a) (sa_sched_idle a) (st_sched s)) (\<lambda>sc.
     bnd (smp_init (sa_n_cpus a) readcr3 (sa_cpu_wakeup a) (st_goto s)) (\<lambda>(cr3, gotos).
     Ok (s\<lparr>st_sched := sc, st_boot_cr3 := cr3, st_goto := gotos\<rparr>))))))))"


definition schedule_bsp :: "nat \<Rightarrow> start_state \<Rightarrow> (outcome \<times> start_state) result" where
  "schedule_bsp me s =
     bnd (cpu_at (sc_cores (st_sched s)) 0) (\<lambda>c.
     bnd (go_to_task ((st_sched s)\<lparr>sc_cores := set_cpu (sc_cores (st_sched s)) 0 (Spinlock.cpu.cli_count_update (\<lambda>_. 0) c)\<rparr>) me (sc_idle (st_sched s)))
       (\<lambda>(out, sc). Ok (out, s\<lparr>st_sched := sc\<rparr>)))"

subsection \<open>smp/ktimer.c and the register dump\<close>

record ktimer =
  us_delay :: u64
  kt_func :: addr
  kt_arg :: u64

text \<open>
  The loop of \<open>do_ktimer\<close> for \<open>n\<close> rounds; \<open>call\<close> is the call of the function, given its address and its argument.
  The function itself has no end: it faults where a wait or a call does.
\<close>

fun ktimer_rounds :: "(addr \<Rightarrow> u64 \<Rightarrow> machine \<Rightarrow> machine result) \<Rightarrow> hpet \<Rightarrow> ktimer \<Rightarrow> nat \<Rightarrow> machine \<Rightarrow> machine result" where
  "ktimer_rounds call hp t 0 m = Ok m"
| "ktimer_rounds call hp t (Suc n) m =
     bnd (hpet_wait_us_yield hp (us_delay t) m) (\<lambda>m.
     bnd (call (kt_func t) (kt_arg t) m) (\<lambda>m. ktimer_rounds call hp t n m))"

definition do_ktimer :: "nat \<Rightarrow> (addr \<Rightarrow> u64 \<Rightarrow> machine \<Rightarrow> machine result) \<Rightarrow> hpet \<Rightarrow> ktimer \<Rightarrow> machine \<Rightarrow> machine result" where
  "do_ktimer fuel call hp t m = bnd (ktimer_rounds call hp t fuel m) (\<lambda>_. Fault Diverges)"

text \<open>\<open>dump_regs\<close> prints the registers in this order; \<open>print\<close> is the call of \<open>printk\<close> with the name and the value.\<close>

definition dump_order :: "(string \<times> (registers \<Rightarrow> u64)) list" where
  "dump_order = [(''rax'', rax), (''rbx'', rbx), (''rcx'', rcx), (''rdx'', rdx), (''rdi'', rdi), (''rsi'', rsi), (''r8'', r8),
     (''r9'', r9), (''r10'', r10), (''r11'', r11), (''r12'', r12), (''r13'', r13), (''r14'', r14), (''r15'', r15),
     (''rsp'', rsp), (''rbp'', rbp), (''rip'', rip)]"

fun dump_loop :: "(string \<Rightarrow> u64 \<Rightarrow> 's \<Rightarrow> 's result) \<Rightarrow> registers \<Rightarrow> (string \<times> (registers \<Rightarrow> u64)) list \<Rightarrow> 's \<Rightarrow> 's result" where
  "dump_loop print ctx [] s = Ok s"
| "dump_loop print ctx ((n, f) # rs) s = bnd (print n (f ctx) s) (\<lambda>s. dump_loop print ctx rs s)"

definition dump_regs :: "(string \<Rightarrow> u64 \<Rightarrow> 's \<Rightarrow> 's result) \<Rightarrow> registers \<Rightarrow> 's \<Rightarrow> 's result" where
  "dump_regs print ctx s = dump_loop print ctx dump_order s"

section \<open>The start of the kernel\<close>

definition answered :: "requests \<Rightarrow> bool" where
  "answered rq \<longleftrightarrow> rq_base_revision rq \<and> rq_memmap rq \<noteq> NULL \<and> rq_hhdm rq \<noteq> None \<and> rq_mp rq \<noteq> None \<and> rq_rsdp rq \<noteq> NULL"

text \<open>
  C7: The kernel never gets to the end of its main function. Where the boot loader leaves a request
  open, \<open>kmain\<close> halts; with more than sixteen processors it runs past the table of processors; and otherwise, for every memory
  map whose usable regions lie below frame \<open>2^31\<close> and of which no two share a pair of frames, and for all page tables,
  it faults in \<open>mm_init\<close>, whose first object of 8192 bytes needs a block of eight pages, while \<open>buddy_init\<close> has freed only single
  ones.
\<close>

theorem kmain_never_idles:
  assumes "at_boot (kn_mm k)" and "length (cpu_cores (bs_cpus (kn_boot k))) = MAX_CPUS" and "\<not> no_framebuffer (kn_boot k)"
    and "\<forall>cpus. rq_mp rq = Some cpus \<longrightarrow> length cpus < 2 ^ 31"
    and "\<forall>z \<in> set (List.map zone_of_region (usable_regions usable entries)). unat (z_base z) + unat (z_size z) \<le> 2 ^ 31"
    and "zones_unpaired (List.map zone_of_region (usable_regions usable entries))"
  shows "\<exists>e. kmain fuel rq usable entries readcr3 gdt idt handlers k = Fault e
     \<and> (if \<not> answered rq then e = Halted
        else if 16 < length (the (rq_mp rq)) then e = Out_Of_Bounds
        else \<exists>b. limine_init rq (kn_boot k) = Ok b \<and> mm_init fuel (bs_hhdm_offset b) readcr3 usable entries (kn_mm k) = Fault e)"
proof -
  note l = limine_init_checks[OF assms(2-4)]
  show ?thesis
  proof (cases "limine_init rq (kn_boot k)")
    case (Fault e)
    then show ?thesis using l by (auto simp: kmain_def answered_def)
  next
    case (Ok b)
    then have a: "answered rq" "\<not> 16 < length (the (rq_mp rq))" using l by (auto simp: answered_def)
    have "\<not> is_Ok (mm_init fuel (bs_hhdm_offset b) readcr3 usable entries (kn_mm k))"
      by (rule mm_init_never_returns[OF assms(1,5,6)])
    then obtain e where "mm_init fuel (bs_hhdm_offset b) readcr3 usable entries (kn_mm k) = Fault e"
      by (cases "mm_init fuel (bs_hhdm_offset b) readcr3 usable entries (kn_mm k)") auto
    then show ?thesis using Ok a by (auto simp: kmain_def init_gdt_def init_idt_def Let_def)
  qed
qed

definition boot_kernel :: kernel_state where
  "boot_kernel = \<lparr>kn_boot = \<lparr>no_framebuffer = False, bs_framebuffer = NULL, bs_memmap = NULL, bs_rsdp = NULL, bs_modules = NULL,
       bs_cmdline = NULL, bs_hhdm_offset = 0, n_cpus = 0, bs_cpus = blank_cpus\<rparr>,
     kn_machine = \<lparr>mc_trace = [], mc_inputs = []\<rparr>, kn_gdtr = \<lparr>tr_limit = 0, tr_base = 0\<rparr>, kn_idtr = \<lparr>tr_limit = 0, tr_base = 0\<rparr>,
     kn_idt = [], kn_mm = boot_mm\<rparr>"

definition boot_requests :: requests where
  "boot_requests = \<lparr>rq_base_revision = True, rq_framebuffers = None, rq_memmap = 0x7000, rq_hhdm = Some 0xffff800000000000,
     rq_mp = Some [0, 1], rq_rsdp = 0x9000, rq_modules = NULL, rq_cmdline = NULL\<rparr>"

theorem kmain_never_idles_witness:
  "\<exists>e b. limine_init boot_requests (kn_boot boot_kernel) = Ok b
     \<and> kmain 8 boot_requests 0 boot_entries 0x1000 0x500 0x600 0x10000 boot_kernel = Fault e
     \<and> mm_init 8 (bs_hhdm_offset b) 0x1000 0 boot_entries boot_mm = Fault e"
proof -
  have p: "at_boot (kn_mm boot_kernel)" "length (cpu_cores (bs_cpus (kn_boot boot_kernel))) = MAX_CPUS"
    "\<not> no_framebuffer (kn_boot boot_kernel)" "\<forall>cpus. rq_mp boot_requests = Some cpus \<longrightarrow> length cpus < 2 ^ 31"
    by (simp_all add: boot_kernel_def boot_mm_ready blank_cpus_def MAX_CPUS_def boot_requests_def)
  have z: "\<forall>z \<in> set (List.map zone_of_region (usable_regions 0 boot_entries)). unat (z_base z) + unat (z_size z) \<le> 2 ^ 31"
    "zones_unpaired (List.map zone_of_region (usable_regions 0 boot_entries))" by (simp_all add: boot_mm_ready)
  have a: "answered boot_requests" "\<not> 16 < length (the (rq_mp boot_requests))" by (simp_all add: answered_def boot_requests_def)
  have k: "kn_mm boot_kernel = boot_mm" by (simp add: boot_kernel_def)
  show ?thesis using kmain_never_idles[OF p z, of 8 "0x1000" "0x500" "0x600" "0x10000"] a unfolding k by auto
qed

section \<open>The processors start\<close>



text \<open>The accesses of the part of \<open>cpu_init\<close> that talks to the hardware.\<close>

lemma hpet_init_run:
  assumes "mc_inputs m = caps # rest" and "hp_base hp \<noteq> NULL"
  shows "hpet_init hp m = Ok (hp\<lparr>hp_period := drop_bit 32 caps, hp_initialized := True\<rparr>,
    \<lparr>mc_trace = mc_trace m @ [Mmio_Read (hp_base hp), Mmio_Write (hp_base hp + 0x10) 0, Mmio_Write (hp_base hp + 0xf0) 0,
       Mmio_Write (hp_base hp + 0x10) 1], mc_inputs = rest\<rparr>)"
  using assms by (simp add: hpet_init_def hpet_read_def hpet_write_def device_read_def emit_def Let_def
      HPET_GENERAL_CAPABILITIES_def HPET_GENERAL_CONFIGURATION_def HPET_MAIN_COUNTER_def)



lemma detect_run:
  "mc_inputs m = x # rest \<Longrightarrow> detect_x2apic (pic_disable m)
     = Ok \<lparr>mc_trace = mc_trace m @ [Outb 0x21 0xff, Outb 0xa1 0xff, Rdmsr 0x802], mc_inputs = rest\<rparr>"
  by (simp add: detect_x2apic_def pic_disable_def outb_def emit_def rdmsr_def device_read_def
      PIC1_DATA_def PIC2_DATA_def PIC1_def PIC2_def)


lemma hpet_loop_stuck: "\<forall>v \<in> set vs. v < t \<Longrightarrow> hpet_loop base t tr vs = Fault Diverges"
  by (induction vs arbitrary: tr) simp_all

lemma calibrate_fails:
  assumes "mc_inputs m = c # vs" and "hp_base hp \<noteq> NULL"
  shows "hp_period hp = 0 \<Longrightarrow> x2apic_calibrate_timer hp m = Fault Div_By_Zero"
    and "hp_period hp \<noteq> 0 \<Longrightarrow> unat c + 10 ^ 13 div unat (hp_period hp) < 2 ^ 64 \<Longrightarrow>
      \<forall>v \<in> set vs. unat v < unat c + 10 ^ 13 div unat (hp_period hp) \<Longrightarrow> x2apic_calibrate_timer hp m = Fault Diverges"
proof -
  show "hp_period hp = 0 \<Longrightarrow> x2apic_calibrate_timer hp m = Fault Div_By_Zero"
    using assms by (simp add: x2apic_calibrate_timer_def Let_def x2apic_write_def wrmsr_def emit_def hpet_wait_us_def hpet_counter_def
        hpet_read_def device_read_def udiv_def)
  assume p: "hp_period hp \<noteq> 0" "unat c + 10 ^ 13 div unat (hp_period hp) < 2 ^ 64"
    "\<forall>v \<in> set vs. unat v < unat c + 10 ^ 13 div unat (hp_period hp)"
  let ?d = "10000 * FEMTOSECONDS_PER_US div hp_period hp"
  have "unat ?d = 10 ^ 13 div unat (hp_period hp)" by (simp add: unat_div FEMTOSECONDS_PER_US_def)
  then have "unat (c + ?d) = unat c + 10 ^ 13 div unat (hp_period hp)" using p(2) by (simp add: unat_word_ariths)
  then have "\<forall>v \<in> set vs. v < c + ?d" using p(3) by (simp add: word_less_nat_alt)
  then show "x2apic_calibrate_timer hp m = Fault Diverges"
    using assms p(1) hpet_loop_stuck
    by (simp add: x2apic_calibrate_timer_def Let_def x2apic_write_def wrmsr_def emit_def hpet_wait_us_def hpet_counter_def
        hpet_read_def device_read_def udiv_def)
qed

text \<open>
  C30: What stops \<open>cpu_init\<close>. The errors of \<open>acpi_init\<close> are printed and not returned: without early tables or
  without the table of interrupt controllers it leaves its state as it was, and where no timer has been found so far, \<open>hpet_init\<close> reads
  through NULL. A timer with period zero is a division by zero, and a counter that does not get ten milliseconds
  ahead in the reads there are makes the calibration wait for ever.
\<close>

theorem cpu_init_fails:
  assumes "acpi_init (sa_rounds a) (sa_fuel a) (sa_layout a) (sa_memory a) (sa_early_tables a) (sa_madt a) (sa_hpet a) (st_acpi s) = Ok ac"
    and "mc_inputs (st_machine s) = x # ins"
  shows "(\<not> sa_early_tables a \<or> sa_madt a = None \<longrightarrow> ac = st_acpi s)
     \<and> (ac_hpet_base ac = NULL \<longrightarrow> cpu_init a cpuid readcr3 s = Fault Null_Deref)
     \<and> (\<forall>caps c vs. ac_hpet_base ac \<noteq> NULL \<and> ins = caps # c # vs \<longrightarrow>
          (drop_bit 32 caps = 0 \<longrightarrow> cpu_init a cpuid readcr3 s = Fault Div_By_Zero)
          \<and> (drop_bit 32 caps \<noteq> 0 \<and> unat c + 10 ^ 13 div unat (drop_bit 32 caps) < 2 ^ 64
             \<and> (\<forall>v \<in> set vs. unat v < unat c + 10 ^ 13 div unat (drop_bit 32 caps)) \<longrightarrow> cpu_init a cpuid readcr3 s = Fault Diverges))"
proof -
  note d = detect_run[OF assms(2)]
  have "ac = st_acpi s" if "\<not> sa_early_tables a \<or> sa_madt a = None"
    using assms(1) that by (auto simp: acpi_init_def split: if_splits option.splits)
  moreover have "cpu_init a cpuid readcr3 s = Fault Null_Deref" if "ac_hpet_base ac = NULL"
    using assms(1) d that by (simp add: cpu_init_def hpet_init_def hpet_read_def)
  moreover have "(drop_bit 32 caps = 0 \<longrightarrow> cpu_init a cpuid readcr3 s = Fault Div_By_Zero)
     \<and> (drop_bit 32 caps \<noteq> 0 \<and> unat c + 10 ^ 13 div unat (drop_bit 32 caps) < 2 ^ 64
        \<and> (\<forall>v \<in> set vs. unat v < unat c + 10 ^ 13 div unat (drop_bit 32 caps)) \<longrightarrow> cpu_init a cpuid readcr3 s = Fault Diverges)"
    if b: "ac_hpet_base ac \<noteq> NULL" and i: "ins = caps # c # vs" for caps c vs
  proof -
    let ?hp = "(st_hpet s)\<lparr>hp_base := ac_hpet_base ac\<rparr>"
    let ?m = "\<lparr>mc_trace = mc_trace (st_machine s) @ [Outb 0x21 0xff, Outb 0xa1 0xff, Rdmsr 0x802], mc_inputs = ins\<rparr>"
    obtain m where m: "hpet_init ?hp ?m = Ok (?hp\<lparr>hp_period := drop_bit 32 caps, hp_initialized := True\<rparr>, m)" "mc_inputs m = c # vs"
      using hpet_init_run[of ?m caps "c # vs" ?hp] b i by simp
    then show ?thesis using calibrate_fails[of m c vs "?hp\<lparr>hp_period := drop_bit 32 caps, hp_initialized := True\<rparr>"] assms(1) d b
      by (simp add: cpu_init_def)
  qed
  ultimately show ?thesis by blast
qed

text \<open>One processor, a timer of 10 MHz at 0x1000, and a firmware without tables.\<close>

definition start_demo :: "addr \<Rightarrow> u64 list \<Rightarrow> start_state" where
  "start_demo timer inputs = \<lparr>st_machine = \<lparr>mc_trace = [], mc_inputs = inputs\<rparr>,
     st_acpi = \<lparr>ac_ioapics = replicate 8 NULL, ac_hpet_base = timer, ac_new = [],
       ac_vm = \<lparr>vm_heap = Map.empty, vm_root = NULL, vm_lock = 0, vm_buddy = four_frames, vm_pt = zero_root [], vm_cr3 = 0x1000,
         vm_readcr3 = 0x1000, vm_hhdm = 0\<rparr>\<rparr>,
     st_hpet = \<lparr>hp_base = NULL, hp_period = 0, hp_initialized = False\<rparr>, st_ticks = 0, st_cpus = snd (init_gdt 0x500 blank_cpus),
     st_task_register = 0,
     st_sched = \<lparr>sc_tasks = [0x100 \<mapsto> \<lparr>t_pt = NULL, t_regs = NULL, t_next = NULL, t_prev = NULL\<rparr>], sc_regs = Map.empty,
       sc_pts = [0x300 \<mapsto> \<lparr>cr3_of = 0x5000, lock_of = 0\<rparr>], sc_head = NULL, sc_tail = NULL, sc_lock = 0, sc_idle = 0x100,
       sc_cores = demo_core NULL, sc_hhdm = 0\<rparr>,
     st_boot_cr3 = 0, st_goto = [0]\<rparr>"

definition demo_args :: start_args where
  "demo_args = \<lparr>sa_layout = acpi_standard, sa_memory = Map.empty, sa_early_tables = False, sa_madt = None, sa_hpet = None, sa_rounds = 0,
     sa_fuel = 0, sa_n_cpus = 1, sa_segments = [0x1000], sa_stacks = [0x10000, 0x20000], sa_new_regs = 0x200, sa_new_pt = 0x300,
     sa_sched_idle = 0xffffffff80001000, sa_cpu_wakeup = 0xffffffff80002000\<rparr>"


theorem cpu_init_fails_witness:
  "cpu_init demo_args 0 0x1000 (start_demo NULL [0]) = Fault Null_Deref
   \<and> cpu_init demo_args 0 0x1000 (start_demo 0x1000 [0, 0xff, 5]) = Fault Div_By_Zero
   \<and> cpu_init demo_args 0 0x1000 (start_demo 0x1000 [0, 0x5f5e10000000000, 5, 6, 7]) = Fault Diverges"
proof -
  have ac: "acpi_init (sa_rounds demo_args) (sa_fuel demo_args) (sa_layout demo_args) (sa_memory demo_args) (sa_early_tables demo_args)
      (sa_madt demo_args) (sa_hpet demo_args) (st_acpi (start_demo t i)) = Ok (st_acpi (start_demo t i))" for t i
    by (simp add: acpi_init_def demo_args_def)
  have b: "ac_hpet_base (st_acpi (start_demo t i)) = t" "mc_inputs (st_machine (start_demo t i)) = i" for t i
    by (simp_all add: start_demo_def)
  have d: "drop_bit 32 0x5f5e10000000000 = (100000000 :: u64)" "drop_bit 32 0xff = (0 :: u64)" by (simp_all add: drop_bit_eq_div)
  note f = cpu_init_fails[OF ac b(2)]
  have "cpu_init demo_args 0 0x1000 (start_demo NULL [0]) = Fault Null_Deref" using f by (simp add: b)
  moreover have "cpu_init demo_args 0 0x1000 (start_demo 0x1000 [0, 0xff, 5]) = Fault Div_By_Zero" using f d by (simp add: b)
  moreover have "cpu_init demo_args 0 0x1000 (start_demo 0x1000 [0, 0x5f5e10000000000, 5, 6, 7]) = Fault Diverges" using f d by (simp add: b)
  ultimately show ?thesis by blast
qed

end
