(* ===== verification/Hashmap.thy ===== *)
theory Hashmap
  imports CString Klist
begin

section \<open>dsa/hashmap.c: the chained hash map\<close>

text \<open>
  The bucket array is a list of \<open>dlist\<close>s, one per slot, whose nodes hold pointers to
  \<open>hashmap_entry\<close> structures in a heap of their own; keys are byte strings in memory. The addresses
  \<open>kzalloc\<close> returns are arguments. Loops over a chain carry fuel, its length.
\<close>

record hashmap_entry =
  he_hash :: u64
  he_key :: addr
  he_key_size :: u64
  he_value :: addr

type_synonym hash_fn = "mem \<Rightarrow> addr \<Rightarrow> u64 \<Rightarrow> u64 result"

record hashmap =
  hm_size :: u64
  hm_count :: u64
  hm_buf :: "dlist list"
  hm_hash :: hash_fn

record hm_state =
  hs_map :: hashmap
  hs_nodes :: "addr dheap"
  hs_ents :: "addr \<rightharpoonup> hashmap_entry"
  hs_mem :: mem

definition FNV_PRIME :: u64 where "FNV_PRIME = 0x100000001b3"
definition FNV_OFFSET :: u64 where "FNV_OFFSET = 0xcbf29ce484222325"

text \<open>The bytes are \<open>char\<close>s, which sign-extend into the hash; the index is an \<open>int\<close>.\<close>

fun fnva_loop :: "mem \<Rightarrow> addr \<Rightarrow> nat \<Rightarrow> nat \<Rightarrow> u64 \<Rightarrow> u64 result" where
  "fnva_loop m p i 0 hash = Ok hash"
| "fnva_loop m p i (Suc n) hash =
     bnd (load m p) (\<lambda>c.
     if i + 1 = 2 ^ 31 then Fault Overflow else
     fnva_loop m (p + 1) (i + 1) n ((hash XOR scast c) * FNV_PRIME))"

definition fnva_hash :: hash_fn where
  "fnva_hash m data sz = fnva_loop m data 0 (unat sz) FNV_OFFSET"

definition empty_dlist :: dlist where
  "empty_dlist = \<lparr>dl_count = 0, dl_head = NULL, dl_tail = NULL\<rparr>"

text \<open>\<open>vzalloc\<close> of the array gives zeroed slots; 4096 bytes hold 170 of 24 bytes each.\<close>

definition hmap_init :: "hashmap" where
  "hmap_init = \<lparr>hm_size = 0x1000 div 24, hm_count = 0, hm_buf = replicate 170 empty_dlist, hm_hash = fnva_hash\<rparr>"

definition slot :: "dlist list \<Rightarrow> u64 \<Rightarrow> dlist result" where
  "slot buf i = (if unat i < length buf then Ok (buf ! unat i) else Fault Out_Of_Bounds)"

definition u64_mod :: "u64 \<Rightarrow> u64 \<Rightarrow> u64 result" where
  "u64_mod a b = (if b = 0 then Fault Div_By_Zero else Ok (a mod b))"

text \<open>
  \<open>hmap_resize\<close>: \<open>dlist_back_pop\<close> returns the entry, which the code then uses as if it were the node: the
  word it reads as \<open>head->value\<close> is the first one of the entry, its hash. \<open>news\<close> are the addresses
  of the new nodes.
\<close>

fun drain_slot :: "nat \<Rightarrow> addr list \<Rightarrow> dlist \<Rightarrow> dlist list \<Rightarrow> u64 \<Rightarrow> hm_state
    \<Rightarrow> (addr list \<times> dlist list \<times> hm_state) result" where
  "drain_slot fuel news cur new sz2 s =
     (if dl_count cur = 0 then Ok (news, new, s) else
      case fuel of 0 \<Rightarrow> Fault Diverges | Suc fuel \<Rightarrow>
      bnd (dlist_back_pop (hs_nodes s) cur) (\<lambda>(head, h, cur).
      bnd (fetch (hs_ents s) head) (\<lambda>e.
      let ent = he_hash e in
      bnd (fetch (hs_ents s) ent) (\<lambda>e2.
      bnd (u64_mod (he_hash e2) sz2) (\<lambda>i.
      bnd (slot new i) (\<lambda>d.
      case news of [] \<Rightarrow> Fault Null_Deref | n # news \<Rightarrow>
      bnd (dlist_back_push n h d ent) (\<lambda>(h, d).
      drain_slot fuel news cur (new[unat i := d]) sz2 (s\<lparr>hs_nodes := h\<rparr>))))))))"

fun resize_loop :: "nat \<Rightarrow> addr list \<Rightarrow> dlist list \<Rightarrow> dlist list \<Rightarrow> u64 \<Rightarrow> hm_state \<Rightarrow> (dlist list \<times> hm_state) result" where
  "resize_loop fuel news [] new sz2 s = Ok (new, s)"
| "resize_loop fuel news (cur # rest) new sz2 s =
     bnd (drain_slot fuel news cur new sz2 s) (\<lambda>(news, new, s). resize_loop fuel news rest new sz2 s)"

definition hmap_resize :: "nat \<Rightarrow> addr list \<Rightarrow> hm_state \<Rightarrow> hm_state result" where
  "hmap_resize fuel news s =
     (let m = hs_map s; sz2 = hm_size m * 2 in
      bnd (resize_loop fuel news (take (unat (hm_size m)) (hm_buf m)) (replicate (unat sz2) empty_dlist) sz2 s) (\<lambda>(new, s).
      Ok (s\<lparr>hs_map := m\<lparr>hm_size := sz2, hm_buf := new\<rparr>\<rparr>)))"

text \<open>\<open>count\<close> is compared but never incremented.\<close>

definition hmap_add :: "nat \<Rightarrow> addr list \<Rightarrow> addr \<Rightarrow> addr \<Rightarrow> addr \<Rightarrow> u64 \<Rightarrow> addr \<Rightarrow> hm_state \<Rightarrow> hm_state result" where
  "hmap_add fuel news new_ent new_node key key_size val s =
     bnd (if hm_count (hs_map s) \<ge> hm_size (hs_map s) then hmap_resize fuel news s else Ok s) (\<lambda>s.
     bnd (hm_hash (hs_map s) (hs_mem s) key key_size) (\<lambda>hash.
     bnd (u64_mod hash (hm_size (hs_map s))) (\<lambda>i.
     bnd (slot (hm_buf (hs_map s)) i) (\<lambda>cur.
     if new_ent = NULL then Fault Null_Deref else
     let s = s\<lparr>hs_ents := (hs_ents s)(new_ent \<mapsto>
               \<lparr>he_hash = hash, he_key = key, he_key_size = key_size, he_value = val\<rparr>)\<rparr> in
     bnd (dlist_back_push new_node (hs_nodes s) cur new_ent) (\<lambda>(h, cur).
     Ok (s\<lparr>hs_nodes := h, hs_map := (hs_map s)\<lparr>hm_buf := (hm_buf (hs_map s))[unat i := cur]\<rparr>\<rparr>))))))"

text \<open>\<open>memcmp\<close> takes its length as an \<open>int\<close>.\<close>

definition key_eq :: "mem \<Rightarrow> addr \<Rightarrow> addr \<Rightarrow> u64 \<Rightarrow> bool result" where
  "key_eq m k1 k2 sz = bnd (memcmp m k1 k2 (sint (ucast sz :: u32))) (\<lambda>r. Ok (r = 0))"

text \<open>The search both \<open>hmap_lookup\<close> and \<open>hmap_remove\<close> run: the first node whose entry has the key.\<close>

fun chain_find :: "nat \<Rightarrow> addr \<Rightarrow> addr \<Rightarrow> u64 \<Rightarrow> hm_state \<Rightarrow> (addr \<times> hashmap_entry) option result" where
  "chain_find fuel p key key_size s =
     (if p = NULL then Ok None else
      case fuel of 0 \<Rightarrow> Fault Diverges | Suc fuel \<Rightarrow>
      bnd (fetch (hs_nodes s) p) (\<lambda>n.
      bnd (fetch (hs_ents s) (dn_value n)) (\<lambda>e.
      if he_key_size e \<noteq> key_size then chain_find fuel (dn_next n) key key_size s
      else bnd (key_eq (hs_mem s) key (he_key e) key_size) (\<lambda>b.
        if b then Ok (Some (p, e)) else chain_find fuel (dn_next n) key key_size s))))"

definition hmap_lookup :: "nat \<Rightarrow> addr \<Rightarrow> u64 \<Rightarrow> hm_state \<Rightarrow> addr result" where
  "hmap_lookup fuel key key_size s =
     bnd (hm_hash (hs_map s) (hs_mem s) key key_size) (\<lambda>hash.
     bnd (u64_mod hash (hm_size (hs_map s))) (\<lambda>i.
     bnd (slot (hm_buf (hs_map s)) i) (\<lambda>ent.
     bnd (chain_find fuel (dl_head ent) key key_size s) (\<lambda>r.
     Ok (case r of None \<Rightarrow> NULL | Some (_, e) \<Rightarrow> he_value e)))))"

definition hmap_remove :: "nat \<Rightarrow> addr \<Rightarrow> u64 \<Rightarrow> hm_state \<Rightarrow> hm_state result" where
  "hmap_remove fuel key key_size s =
     bnd (hm_hash (hs_map s) (hs_mem s) key key_size) (\<lambda>hash.
     bnd (u64_mod hash (hm_size (hs_map s))) (\<lambda>i.
     bnd (slot (hm_buf (hs_map s)) i) (\<lambda>ent.
     bnd (chain_find fuel (dl_head ent) key key_size s) (\<lambda>r.
     case r of None \<Rightarrow> Ok s
     | Some (p, _) \<Rightarrow>
         bnd (dlist_remove_item (hs_nodes s) ent p) (\<lambda>(h, ent).
         Ok (s\<lparr>hs_nodes := h, hs_map := (hs_map s)\<lparr>hm_buf := (hm_buf (hs_map s))[unat i := ent]\<rparr>\<rparr>))))))"

declare drain_slot.simps [simp del] chain_find.simps [simp del]

section \<open>What the map represents\<close>

text \<open>
  A chain is a list of links: node, entry, the bytes of the key and the value. \<open>hm_rep s B\<close>: the state
  holds the chains \<open>B\<close>, one per slot. \<open>bindings B k\<close> are the values of key \<open>k\<close>, oldest first.
\<close>

record link =
  lk_node :: addr
  lk_ent :: addr
  lk_key :: "u8 list"
  lk_val :: addr

fun fnv_bytes :: "u8 list \<Rightarrow> u64 \<Rightarrow> u64" where
  "fnv_bytes [] hash = hash"
| "fnv_bytes (c # cs) hash = fnv_bytes cs ((hash XOR scast c) * FNV_PRIME)"

definition fnv :: "u8 list \<Rightarrow> u64" where "fnv k = fnv_bytes k FNV_OFFSET"

lemma fnva_loop_bytes:
  "bytes_at m p bs \<Longrightarrow> i + length bs < 2 ^ 31 \<Longrightarrow> fnva_loop m p i (length bs) hash = Ok (fnv_bytes bs hash)"
  by (induction bs arbitrary: p i hash) (auto simp: load_def)

definition key_at :: "hm_state \<Rightarrow> addr \<Rightarrow> u64 \<Rightarrow> u8 list \<Rightarrow> bool" where
  "key_at s p sz k \<longleftrightarrow> bytes_at (hs_mem s) p k \<and> length k < 2 ^ 31 \<and> sz = of_nat (length k)"

lemma key_size_unat: "length k < 2 ^ 31 \<Longrightarrow> unat (of_nat (length k) :: u64) = length k"
  by (simp add: unat_of_nat)

lemma fnva_hash_key: "key_at s p sz k \<Longrightarrow> fnva_hash (hs_mem s) p sz = Ok (fnv k)"
  using fnva_loop_bytes[of "hs_mem s" p k 0] by (simp add: key_at_def fnva_hash_def fnv_def key_size_unat)

definition links_of :: "link list \<Rightarrow> (addr \<times> addr) list" where
  "links_of c = List.map (\<lambda>l. (lk_node l, lk_ent l)) c"

definition home :: "link list list \<Rightarrow> u8 list \<Rightarrow> nat" where
  "home B k = unat (fnv k mod of_nat (length B))"

definition link_ok :: "hm_state \<Rightarrow> link \<Rightarrow> bool" where
  "link_ok s l \<longleftrightarrow> lk_ent l \<noteq> NULL \<and>
     (\<exists>e. hs_ents s (lk_ent l) = Some e \<and> he_value e = lk_val l \<and> key_at s (he_key e) (he_key_size e) (lk_key l))"

definition hm_rep :: "hm_state \<Rightarrow> link list list \<Rightarrow> bool" where
  "hm_rep s B \<longleftrightarrow> 0 < length B \<and> length B < 2 ^ 64 \<and> hm_size (hs_map s) = of_nat (length B) \<and> length (hm_buf (hs_map s)) = length B
     \<and> hm_count (hs_map s) = 0 \<and> hm_hash (hs_map s) = fnva_hash
     \<and> (\<forall>i < length B. dlist_rep (hs_nodes s) (hm_buf (hs_map s) ! i) (links_of (B ! i))
          \<and> (\<forall>l \<in> set (B ! i). link_ok s l))
     \<and> (\<forall>i < length B. \<forall>j < length B. i \<noteq> j \<longrightarrow> lk_node ` set (B ! i) \<inter> lk_node ` set (B ! j) = {})"

definition bindings :: "link list list \<Rightarrow> u8 list \<Rightarrow> addr list" where
  "bindings B k = List.map lk_val (filter (\<lambda>l. lk_key l = k) (B ! home B k))"

lemma links_nodes: "fst ` set (links_of c) = lk_node ` set c"
  by (force simp: links_of_def)

lemma home_less:
  assumes "0 < length B" and "length B < 2 ^ 64"
  shows "home B k < length B"
proof -
  have "unat (of_nat (length B) :: u64) = length B" using assms(2) by (simp add: unat_of_nat)
  then show ?thesis using assms(1) by (simp add: home_def unat_mod)
qed

lemma home_slot:
  assumes "hm_rep s B"
  shows "u64_mod (fnv k) (hm_size (hs_map s)) = Ok (fnv k mod of_nat (length B))"
    and "slot (hm_buf (hs_map s)) (fnv k mod of_nat (length B)) = Ok (hm_buf (hs_map s) ! home B k)"
    and "home B k < length B"
proof -
  have l: "0 < length B" "length B < 2 ^ 64" using assms by (auto simp: hm_rep_def)
  then show h: "home B k < length B" by (rule home_less)
  have "unat (of_nat (length B) :: u64) = length B" using l(2) by (simp add: unat_of_nat)
  then have "(of_nat (length B) :: u64) \<noteq> 0" using l(1) by (metis less_irrefl unsigned_0)
  then show "u64_mod (fnv k) (hm_size (hs_map s)) = Ok (fnv k mod of_nat (length B))"
    using assms by (simp add: u64_mod_def hm_rep_def)
  show "slot (hm_buf (hs_map s)) (fnv k mod of_nat (length B)) = Ok (hm_buf (hs_map s) ! home B k)"
    using h assms by (simp add: slot_def hm_rep_def home_def)
qed

lemma sint_small:
  fixes w :: u32
  assumes "unat w < 2 ^ 31"
  shows "sint w = int (unat w)"
proof -
  have "int (unat w) < int (2 ^ 31)" using assms by (simp only: of_nat_less_iff)
  then have b2: "int (unat w) < 2 ^ 31" by simp
  have b1: "- (2 ^ 31) \<le> int (unat w)" by (rule order_trans[of _ 0]) (simp, rule of_nat_0_le_iff)
  have "sint w = signed_take_bit 31 (uint w)" by (simp add: sint_uint)
  also have "uint w = int (unat w)" by simp
  also have "signed_take_bit 31 (int (unat w)) = int (unat w)" by (rule signed_take_bit_int_eq_self[OF b1 b2])
  finally show ?thesis .
qed

lemma key_eq_bytes:
  assumes "key_at s p sz k" and "key_at s q sz k'"
  shows "key_eq (hs_mem s) p q sz = Ok (k = k')"
proof -
  have l: "length k = length k'" using assms key_size_unat unfolding key_at_def by metis
  have "unat (ucast sz :: u32) = length k"
    using assms(1) by (simp add: key_at_def unsigned_ucast_eq unsigned_take_bit_eq key_size_unat take_bit_nat_eq_self)
  then have "sint (ucast sz :: u32) = int (length k)"
    using sint_small[of "ucast sz :: u32"] assms(1) by (simp add: key_at_def)
  moreover obtain r where "memcmp_loop (hs_mem s) p q (length k) = Ok r" "r = 0 \<longleftrightarrow> k = k'"
    using memcmp_loop_bytes[OF _ _ l, of "hs_mem s" p q] assms by (auto simp: key_at_def)
  ultimately show ?thesis by (simp add: key_eq_def memcmp_def)
qed

text \<open>The search finds the first link with the key.\<close>

lemma chain_find_first:
  assumes "dseg (hs_nodes s) pr p (links_of c) t NULL" and "\<forall>l \<in> set c. link_ok s l" and "length c \<le> fuel"
    and "key_at s key sz k"
  shows "case dropWhile (\<lambda>l. lk_key l \<noteq> k) c of
      [] \<Rightarrow> chain_find fuel p key sz s = Ok None
    | l # _ \<Rightarrow> \<exists>e. chain_find fuel p key sz s = Ok (Some (lk_node l, e)) \<and> he_value e = lk_val l"
  using assms(1-3)
proof (induction c arbitrary: pr p fuel)
  case Nil
  then show ?case by (subst chain_find.simps) (simp add: links_of_def)
next
  case (Cons l c)
  obtain fuel' where f: "fuel = Suc fuel'" "length c \<le> fuel'" using Cons.prems(3) by (cases fuel) auto
  obtain nx where n: "p = lk_node l" "p \<noteq> NULL" "hs_nodes s p = Some \<lparr>dn_value = lk_ent l, dn_next = nx, dn_prev = pr\<rparr>"
    "dseg (hs_nodes s) p nx (links_of c) t NULL"
    using Cons.prems(1) by (auto simp: links_of_def)
  obtain e where e: "lk_ent l \<noteq> NULL" "hs_ents s (lk_ent l) = Some e" "he_value e = lk_val l"
    "key_at s (he_key e) (he_key_size e) (lk_key l)"
    using Cons.prems(2) by (auto simp: link_ok_def)
  note ih = Cons.IH[OF n(4) _ f(2)]
  have step: "chain_find fuel p key sz s = (if he_key_size e \<noteq> sz then chain_find fuel' nx key sz s
      else bnd (key_eq (hs_mem s) key (he_key e) sz) (\<lambda>b. if b then Ok (Some (p, e)) else chain_find fuel' nx key sz s))"
    using n e f by (subst chain_find.simps) (simp cong: if_cong)
  show ?case
  proof (cases "lk_key l = k")
    case True
    then have "he_key_size e = sz" using e(4) assms(4) by (simp add: key_at_def)
    then show ?thesis using True step key_eq_bytes[OF assms(4), of "he_key e" "lk_key l"] e n(1) by simp
  next
    case False
    have "chain_find fuel p key sz s = chain_find fuel' nx key sz s"
    proof (cases "he_key_size e = sz")
      case True
      then show ?thesis using False step key_eq_bytes[OF assms(4), of "he_key e" "lk_key l"] e(4) by simp
    qed (simp add: step)
    then show ?thesis using ih False Cons.prems(2) by (simp split: list.splits del: dropWhile_eq_Nil_conv)
  qed
qed

lemma dropWhile_filter:
  "dropWhile (\<lambda>l. \<not> P l) c = [] \<longleftrightarrow> filter P c = []"
  "dropWhile (\<lambda>l. \<not> P l) c = l # r \<Longrightarrow> filter P c = l # filter P r"
  by (induction c) (auto split: if_splits)

lemma hm_rep_bucket:
  "hm_rep s B \<Longrightarrow> i < length B \<Longrightarrow> dlist_rep (hs_nodes s) (hm_buf (hs_map s) ! i) (links_of (B ! i)) \<and> (\<forall>l \<in> set (B ! i). link_ok s l)"
  by (simp add: hm_rep_def)

lemma hmap_lookup_bindings:
  assumes r: "hm_rep s B" and k: "key_at s key sz k" and f: "length (B ! home B k) \<le> fuel"
  shows "hmap_lookup fuel key sz s = Ok (case bindings B k of [] \<Rightarrow> NULL | v # _ \<Rightarrow> v)"
proof -
  let ?i = "home B k"
  note h = home_slot[OF r, of k]
  have b: "dseg (hs_nodes s) NULL (dl_head (hm_buf (hs_map s) ! ?i)) (links_of (B ! ?i)) (dl_tail (hm_buf (hs_map s) ! ?i)) NULL"
    "\<forall>l \<in> set (B ! ?i). link_ok s l"
    using hm_rep_bucket[OF r h(3)] by (auto simp: dlist_rep_def)
  have hash: "hm_hash (hs_map s) (hs_mem s) key sz = Ok (fnv k)" using r fnva_hash_key[OF k] by (simp add: hm_rep_def)
  note cf = chain_find_first[OF b f k]
  show ?thesis
  proof (cases "dropWhile (\<lambda>l. lk_key l \<noteq> k) (B ! ?i)")
    case Nil
    then have "bindings B k = []" using dropWhile_filter(1)[of "\<lambda>l. lk_key l = k"] by (simp add: bindings_def)
    then show ?thesis using cf Nil hash h by (simp add: hmap_lookup_def)
  next
    case (Cons l r)
    then have "bindings B k = lk_val l # List.map lk_val (filter (\<lambda>l. lk_key l = k) r)"
      using dropWhile_filter(2)[of "\<lambda>l. lk_key l = k", OF Cons] by (simp add: bindings_def)
    then show ?thesis using cf Cons hash h by (auto simp: hmap_lookup_def)
  qed
qed

text \<open>Changing one chain.\<close>

lemma hm_rep_update:
  assumes r: "hm_rep s B" and i: "i < length B"
    and d: "dlist_rep h d (links_of c)" and out: "same_outside S (hs_nodes s) h"
    and S: "\<And>j. j < length B \<Longrightarrow> j \<noteq> i \<Longrightarrow> S \<inter> lk_node ` set (B ! j) = {}"
    and nodes: "lk_node ` set c \<subseteq> S"
    and ents: "\<And>p e. hs_ents s p = Some e \<Longrightarrow> ents p = Some e"
    and ok: "\<And>l. l \<in> set c \<Longrightarrow> link_ok (s\<lparr>hs_ents := ents\<rparr>) l"
  shows "hm_rep (s\<lparr>hs_ents := ents, hs_nodes := h, hs_map := (hs_map s)\<lparr>hm_buf := (hm_buf (hs_map s))[i := d]\<rparr>\<rparr>)
           (B[i := c])"
proof -
  let ?s = "s\<lparr>hs_ents := ents, hs_nodes := h, hs_map := (hs_map s)\<lparr>hm_buf := (hm_buf (hs_map s))[i := d]\<rparr>\<rparr>"
  have lk: "link_ok ?s l \<longleftrightarrow> link_ok (s\<lparr>hs_ents := ents\<rparr>) l" for l by (simp add: link_ok_def key_at_def)
  have mono: "link_ok s l \<Longrightarrow> link_ok (s\<lparr>hs_ents := ents\<rparr>) l" for l
    using ents unfolding link_ok_def by (fastforce simp: key_at_def)
  have buckets: "dlist_rep h ((hm_buf (hs_map s))[i := d] ! j) (links_of (B[i := c] ! j)) \<and> (\<forall>l \<in> set (B[i := c] ! j). link_ok ?s l)"
    if j: "j < length B" for j
  proof (cases "j = i")
    case True
    then show ?thesis using d ok lk i r by (simp add: hm_rep_def)
  next
    case False
    have b: "dlist_rep (hs_nodes s) (hm_buf (hs_map s) ! j) (links_of (B ! j))" "\<forall>l \<in> set (B ! j). link_ok s l"
      using hm_rep_bucket[OF r j] by auto
    have "dlist_rep h (hm_buf (hs_map s) ! j) (links_of (B ! j))"
      by (rule dlist_rep_frame[OF b(1) out]) (use S[OF j False] in \<open>simp add: links_nodes\<close>)
    then show ?thesis using False b(2) mono lk by auto
  qed
  have nodes': "lk_node ` set (B[i := c] ! j) \<subseteq> (if j = i then S else lk_node ` set (B ! j))" if "j < length B" for j
    using nodes that i by (auto simp: nth_list_update)
  have "lk_node ` set (B[i := c] ! j) \<inter> lk_node ` set (B[i := c] ! k) = {}"
    if jk: "j < length B" "k < length B" "j \<noteq> k" for j k
  proof -
    have "lk_node ` set (B ! j) \<inter> lk_node ` set (B ! k) = {}" using r jk unfolding hm_rep_def by blast
    then have "(if j = i then S else lk_node ` set (B ! j)) \<inter> (if k = i then S else lk_node ` set (B ! k)) = {}"
      using S[OF jk(1)] S[OF jk(2)] jk(3) by (simp add: Int_commute)
    with nodes'[OF jk(1)] nodes'[OF jk(2)] show ?thesis by (meson disjoint_iff subsetD)
  qed
  then show ?thesis using r buckets by (simp add: hm_rep_def)
qed

lemma bindings_update:
  "i < length B \<Longrightarrow> bindings (B[i := c]) k =
    (if home B k = i then List.map lk_val (filter (\<lambda>l. lk_key l = k) c) else bindings B k)"
  by (simp add: bindings_def home_def)

text \<open>Which slot a link is in does not matter for lookups of other keys, so links may sit in any slot.\<close>

lemma hmap_add_bindings:
  assumes r: "hm_rep s B" and k: "key_at s key sz k"
    and new: "new_ent \<noteq> NULL" "hs_ents s new_ent = None" "new_node \<noteq> NULL"
      "\<And>j. j < length B \<Longrightarrow> new_node \<notin> lk_node ` set (B ! j)"
  shows "\<exists>s' B'. hmap_add fuel news new_ent new_node key sz val s = Ok s' \<and> hm_rep s' B'
     \<and> hs_mem s' = hs_mem s \<and> bindings B' = (bindings B)(k := bindings B k @ [val])
     \<and> (\<forall>j. length (B' ! j) \<le> length (B ! j) + 1) \<and> length B' = length B
     \<and> (\<forall>j < length B. lk_node ` set (B' ! j) \<subseteq> insert new_node (lk_node ` set (B ! j)))
     \<and> (\<forall>p. p \<noteq> new_ent \<longrightarrow> hs_ents s' p = hs_ents s p)"
proof -
  let ?i = "home B k" and ?l = "\<lparr>lk_node = new_node, lk_ent = new_ent, lk_key = k, lk_val = val\<rparr>"
  let ?ents = "(hs_ents s)(new_ent \<mapsto> \<lparr>he_hash = fnv k, he_key = key, he_key_size = sz, he_value = val\<rparr>)"
  let ?c = "B ! ?i @ [?l]"
  note h = home_slot[OF r, of k]
  have b: "dlist_rep (hs_nodes s) (hm_buf (hs_map s) ! ?i) (links_of (B ! ?i))" "\<forall>l \<in> set (B ! ?i). link_ok s l"
    using hm_rep_bucket[OF r h(3)] by auto
  have "new_node \<notin> fst ` set (links_of (B ! ?i))" using new(4)[OF h(3)] by (simp add: links_nodes)
  from dlist_back_push_rep[OF b(1) this new(3), of new_ent]
  obtain h' d' where p: "dlist_back_push new_node (hs_nodes s) (hm_buf (hs_map s) ! ?i) new_ent = Ok (h', d')"
    "dlist_rep h' d' (links_of ?c)" "same_outside (insert new_node (lk_node ` set (B ! ?i))) (hs_nodes s) h'"
    by (auto simp: links_of_def image_image)
  let ?s = "s\<lparr>hs_ents := ?ents, hs_nodes := h', hs_map := (hs_map s)\<lparr>hm_buf := (hm_buf (hs_map s))[?i := d']\<rparr>\<rparr>"
  have hash: "hm_hash (hs_map s) (hs_mem s) key sz = Ok (fnv k)" using r fnva_hash_key[OF k] by (simp add: hm_rep_def)
  have "(of_nat (length B) :: u64) \<noteq> 0"
    using r unat_of_nat[of "length B", where ?'a = 64] by (intro notI) (simp add: hm_rep_def)
  then have "\<not> hm_count (hs_map s) \<ge> hm_size (hs_map s)" using r by (simp add: hm_rep_def)
  then have run: "hmap_add fuel news new_ent new_node key sz val s = Ok ?s"
    using hash h p(1) new(1) by (simp add: hmap_add_def Let_def home_def)
  have ents: "\<And>q e. hs_ents s q = Some e \<Longrightarrow> ?ents q = Some e" using new(2) by auto
  have "link_ok (s\<lparr>hs_ents := ?ents\<rparr>) l" if "l \<in> set ?c" for l
  proof (cases "l = ?l")
    case True
    then show ?thesis using new(1) k by (simp add: link_ok_def key_at_def)
  next
    case False
    then have "link_ok s l" using that b(2) by auto
    then show ?thesis using ents unfolding link_ok_def by (fastforce simp: key_at_def)
  qed
  moreover have "insert new_node (lk_node ` set (B ! ?i)) \<inter> lk_node ` set (B ! j) = {}"
    if "j < length B" "j \<noteq> ?i" for j
    using new(4)[OF that(1)] r that h(3) unfolding hm_rep_def by blast
  ultimately have rep: "hm_rep ?s (B[?i := ?c])"
    by (intro hm_rep_update[OF r h(3) p(2,3)]) (use ents in auto)
  have "bindings (B[?i := ?c]) = (bindings B)(k := bindings B k @ [val])"
    using bindings_update[OF h(3), of ?c] by (auto simp: bindings_def)
  moreover have "length (B[?i := ?c] ! j) \<le> length (B ! j) + 1" for j
    using h(3) by (cases "j = ?i") auto
  moreover have "lk_node ` set (B[?i := ?c] ! j) \<subseteq> insert new_node (lk_node ` set (B ! j))" if "j < length B" for j
    using that h(3) by (cases "j = ?i") auto
  ultimately show ?thesis using run rep by (intro exI[of _ ?s] exI[of _ "B[?i := ?c]"]) simp
qed

lemma split_first:
  "dropWhile (\<lambda>l. \<not> P l) c = l # r \<Longrightarrow> \<exists>xs. c = xs @ l # r \<and> filter P xs = [] \<and> P l"
  by (metis (mono_tags, lifting) filter_False hd_dropWhile list.discI list.sel(1) set_takeWhileD takeWhile_dropWhile_id)

lemma hmap_remove_bindings:
  assumes r: "hm_rep s B" and k: "key_at s key sz k" and f: "length (B ! home B k) \<le> fuel"
  shows "\<exists>s' B'. hmap_remove fuel key sz s = Ok s' \<and> hm_rep s' B' \<and> hs_mem s' = hs_mem s
     \<and> bindings B' = (bindings B)(k := tl (bindings B k))
     \<and> (\<forall>j. length (B' ! j) \<le> length (B ! j)) \<and> length B' = length B
     \<and> (\<forall>j < length B. lk_node ` set (B' ! j) \<subseteq> lk_node ` set (B ! j)) \<and> hs_ents s' = hs_ents s"
proof -
  let ?i = "home B k"
  note h = home_slot[OF r, of k]
  have b: "dlist_rep (hs_nodes s) (hm_buf (hs_map s) ! ?i) (links_of (B ! ?i))" "\<forall>l \<in> set (B ! ?i). link_ok s l"
    using hm_rep_bucket[OF r h(3)] by auto
  then have sg: "dseg (hs_nodes s) NULL (dl_head (hm_buf (hs_map s) ! ?i)) (links_of (B ! ?i)) (dl_tail (hm_buf (hs_map s) ! ?i)) NULL"
    by (simp add: dlist_rep_def)
  have hash: "hm_hash (hs_map s) (hs_mem s) key sz = Ok (fnv k)" using r fnva_hash_key[OF k] by (simp add: hm_rep_def)
  note cf = chain_find_first[OF sg b(2) f k]
  show ?thesis
  proof (cases "dropWhile (\<lambda>l. lk_key l \<noteq> k) (B ! ?i)")
    case Nil
    then have "bindings B k = []" using dropWhile_filter(1)[of "\<lambda>l. lk_key l = k"] by (simp add: bindings_def)
    then have "(bindings B)(k := tl (bindings B k)) = bindings B" by auto
    then show ?thesis using cf Nil hash h r by (intro exI[of _ s] exI[of _ B]) (simp add: hmap_remove_def)
  next
    case (Cons l ys)
    from split_first[of "\<lambda>l. lk_key l = k", OF this]
    obtain xs where c: "B ! ?i = xs @ l # ys" "filter (\<lambda>l. lk_key l = k) xs = []" "lk_key l = k" by blast
    have "dlist_rep (hs_nodes s) (hm_buf (hs_map s) ! ?i) (links_of xs @ (lk_node l, lk_ent l) # links_of ys)"
      using b(1) c(1) by (simp add: links_of_def)
    from dlist_remove_item_rep[OF this] obtain h' d' where p:
      "dlist_remove_item (hs_nodes s) (hm_buf (hs_map s) ! ?i) (lk_node l) = Ok (h', d')"
      "dlist_rep h' d' (links_of (xs @ ys))" "same_outside (lk_node ` set (B ! ?i)) (hs_nodes s) h'"
      by (auto simp: c(1) links_of_def image_Un image_image)
    let ?s = "s\<lparr>hs_ents := hs_ents s, hs_nodes := h', hs_map := (hs_map s)\<lparr>hm_buf := (hm_buf (hs_map s))[?i := d']\<rparr>\<rparr>"
    have run: "hmap_remove fuel key sz s = Ok ?s"
      using hash h p(1) cf Cons by (auto simp: hmap_remove_def home_def)
    have "lk_node ` set (B ! ?i) \<inter> lk_node ` set (B ! j) = {}" if "j < length B" "j \<noteq> ?i" for j
      using r that h(3) unfolding hm_rep_def by blast
    then have rep: "hm_rep ?s (B[?i := xs @ ys])"
      by (intro hm_rep_update[OF r h(3) p(2,3)]) (use b(2) c(1) in auto)
    have "bindings (B[?i := xs @ ys]) = (bindings B)(k := tl (bindings B k))"
      using bindings_update[OF h(3), of "xs @ ys"] c by (auto simp: bindings_def)
    moreover have "length (B[?i := xs @ ys] ! j) \<le> length (B ! j)" for j
      using h(3) c(1) by (cases "j = ?i") auto
    moreover have "lk_node ` set (B[?i := xs @ ys] ! j) \<subseteq> lk_node ` set (B ! j)" if "j < length B" for j
      using that h(3) c(1) by (cases "j = ?i") auto
    ultimately show ?thesis using run rep by (intro exI[of _ ?s] exI[of _ "B[?i := xs @ ys]"]) simp
  qed
qed

section \<open>The contract of the map\<close>

text \<open>
  What a client of the map relies on: states that represent bindings, of keys to lists of values with
  the oldest first; adding appends, removing drops the oldest, a lookup returns the oldest. \<open>key\<close> says
  which key an argument denotes, \<open>fresh\<close> that the allocations of an addition are new.
\<close>

locale multimap =
  fixes rep :: "'s \<Rightarrow> ('k \<Rightarrow> 'v list) \<Rightarrow> bool"
    and key :: "'s \<Rightarrow> 'a \<Rightarrow> 'k \<Rightarrow> bool"
    and fresh :: "'s \<Rightarrow> 'n \<Rightarrow> bool"
    and add :: "'n \<Rightarrow> 'a \<Rightarrow> 'v \<Rightarrow> 's \<Rightarrow> 's result"
    and remove :: "'a \<Rightarrow> 's \<Rightarrow> 's result"
    and lookup :: "'a \<Rightarrow> 's \<Rightarrow> 'v result"
    and null :: 'v
  assumes add_law: "rep s b \<Longrightarrow> key s a k \<Longrightarrow> fresh s n \<Longrightarrow>
      \<exists>s'. add n a v s = Ok s' \<and> rep s' (b(k := b k @ [v])) \<and> key s' = key s"
    and remove_law: "rep s b \<Longrightarrow> key s a k \<Longrightarrow> \<exists>s'. remove a s = Ok s' \<and> rep s' (b(k := tl (b k))) \<and> key s' = key s"
    and lookup_law: "rep s b \<Longrightarrow> key s a k \<Longrightarrow> lookup a s = Ok (case b k of [] \<Rightarrow> null | v # _ \<Rightarrow> v)"

context multimap
begin

lemma lookup_after_add:
  assumes "rep s b" and "key s a k" and "fresh s n" and "key s a' k'"
  shows "bnd (add n a v s) (lookup a') = Ok (case b k' of [] \<Rightarrow> if k' = k then v else null | w # _ \<Rightarrow> w)"
proof -
  obtain s' where s': "add n a v s = Ok s'" "rep s' (b(k := b k @ [v]))" "key s' = key s"
    using add_law[OF assms(1,2,3)] by blast
  then show ?thesis using lookup_law[OF s'(2), of a' k'] assms(4) by (auto split: list.splits)
qed

lemma remove_uncovers:
  assumes "rep s b" and "key s a k" and "b k = v # w # ws"
  shows "bnd (remove a s) (lookup a) = Ok w"
proof -
  obtain s' where s': "remove a s = Ok s'" "rep s' (b(k := tl (b k)))" "key s' = key s"
    using remove_law[OF assms(1,2)] by blast
  then show ?thesis using lookup_law[OF s'(2), of a k] assms(2,3) by simp
qed

lemma remove_other:
  assumes "rep s b" and "key s a k" and "key s a' k'" and "k \<noteq> k'"
  shows "bnd (remove a s) (lookup a') = lookup a' s"
proof -
  obtain s' where s': "remove a s = Ok s'" "rep s' (b(k := tl (b k)))" "key s' = key s"
    using remove_law[OF assms(1,2)] by blast
  then show ?thesis using lookup_law[OF s'(2), of a' k'] lookup_law[OF assms(1,3)] assms(3,4) by simp
qed

end

text \<open>Chains are shorter than \<open>2^64\<close>, since their nodes have different addresses.\<close>

lemma chain_length_less:
  assumes "hm_rep s B" and "i < length B"
  shows "length (B ! i) < 2 ^ 64"
proof -
  let ?S = "set (List.map fst (links_of (B ! i)))"
  have r: "dlist_rep (hs_nodes s) (hm_buf (hs_map s) ! i) (links_of (B ! i))" using hm_rep_bucket[OF assms] by blast
  then have "distinct (List.map fst (links_of (B ! i)))" by (simp add: dlist_rep_def)
  then have "card ?S = length (B ! i)"
    by (subst distinct_card) (simp_all add: links_of_def)
  moreover have "?S \<subset> UNIV"
    using r dseg_not_NULL[of "hs_nodes s" NULL _ "links_of (B ! i)"] by (fastforce simp: dlist_rep_def)
  then have "card ?S < card (UNIV :: addr set)" by (rule psubset_card_mono[OF finite])
  moreover have "card (UNIV :: addr set) = 2 ^ 64" by (simp add: card_word)
  ultimately show ?thesis by simp
qed

lemmas chain_length = chain_length_less[THEN less_imp_le]

definition holds :: "hm_state \<Rightarrow> (u8 list \<Rightarrow> addr list) \<Rightarrow> bool" where
  "holds s b \<longleftrightarrow> (\<exists>B. hm_rep s B \<and> b = bindings B)"

definition alloc_fresh :: "hm_state \<Rightarrow> addr \<times> addr \<Rightarrow> bool" where
  "alloc_fresh s n \<longleftrightarrow> fst n \<noteq> NULL \<and> hs_ents s (fst n) = None \<and> snd n \<noteq> NULL \<and> hs_nodes s (snd n) = None"

lemma alloc_fresh_node:
  assumes "hm_rep s B" and "alloc_fresh s n" and "j < length B"
  shows "snd n \<notin> lk_node ` set (B ! j)"
proof
  assume "snd n \<in> lk_node ` set (B ! j)"
  then have "snd n \<in> fst ` set (links_of (B ! j))" by (simp add: links_nodes)
  moreover have "dseg (hs_nodes s) NULL (dl_head (hm_buf (hs_map s) ! j)) (links_of (B ! j)) (dl_tail (hm_buf (hs_map s) ! j)) NULL"
    using hm_rep_bucket[OF assms(1,3)] by (simp add: dlist_rep_def)
  note dseg_dom[OF this]
  ultimately show False using assms(2) by (auto simp: alloc_fresh_def)
qed

interpretation hm: multimap holds "\<lambda>s (p, sz) k. key_at s p sz k" alloc_fresh
    "\<lambda>n (p, sz) v s. hmap_add (2 ^ 64) [] (fst n) (snd n) p sz v s"
    "\<lambda>(p, sz) s. hmap_remove (2 ^ 64) p sz s" "\<lambda>(p, sz) s. hmap_lookup (2 ^ 64) p sz s" NULL
proof (unfold_locales, goal_cases)
  case (1 s b a k n v)
  obtain p sz where a: "a = (p, sz)" by (cases a)
  obtain B where B: "hm_rep s B" "b = bindings B" using 1(1) by (auto simp: holds_def)
  have k: "key_at s p sz k" using 1(2) a by simp
  have n: "fst n \<noteq> NULL" "hs_ents s (fst n) = None" "snd n \<noteq> NULL" using 1(3) by (auto simp: alloc_fresh_def)
  obtain s' B' where "hmap_add (2 ^ 64) [] (fst n) (snd n) p sz v s = Ok s'" "hm_rep s' B'" "hs_mem s' = hs_mem s"
    "bindings B' = (bindings B)(k := bindings B k @ [v])"
    using hmap_add_bindings[OF B(1) k n alloc_fresh_node[OF B(1) 1(3)]] by blast
  then show ?case using a B(2) by (auto simp: holds_def key_at_def intro!: ext)
next
  case (2 s b a k)
  obtain p sz where a: "a = (p, sz)" by (cases a)
  obtain B where B: "hm_rep s B" "b = bindings B" using 2(1) by (auto simp: holds_def)
  have k: "key_at s p sz k" using 2(2) a by simp
  obtain s' B' where "hmap_remove (2 ^ 64) p sz s = Ok s'" "hm_rep s' B'" "hs_mem s' = hs_mem s"
    "bindings B' = (bindings B)(k := tl (bindings B k))"
    using hmap_remove_bindings[OF B(1) k chain_length[OF B(1) home_slot(3)[OF B(1)]]] by blast
  then show ?case using a B(2) by (auto simp: holds_def key_at_def intro!: ext)
next
  case (3 s b a k)
  obtain p sz where a: "a = (p, sz)" by (cases a)
  obtain B where B: "hm_rep s B" "b = bindings B" using 3(1) by (auto simp: holds_def)
  have k: "key_at s p sz k" using 3(2) a by simp
  show ?case using hmap_lookup_bindings[OF B(1) k chain_length[OF B(1) home_slot(3)[OF B(1)]]] B(2) a by simp
qed

section \<open>Properties of the hash map\<close>

definition empty_map :: "mem \<Rightarrow> hm_state" where
  "empty_map m = \<lparr>hs_map = hmap_init, hs_nodes = Map.empty, hs_ents = Map.empty, hs_mem = m\<rparr>"

lemma empty_map_rep: "hm_rep (empty_map m) (replicate 170 [])"
  by (simp add: hm_rep_def empty_map_def hmap_init_def links_of_def dlist_rep_Nil empty_dlist_def)

lemma bindings_empty: "bindings (replicate 170 []) k = []"
  using home_less[of "replicate 170 ([] :: link list)" k] by (simp add: bindings_def)

text \<open>
  C21: The hash map implements a multimap. On every state the map can represent, \<open>hmap_add\<close> appends its
  value to the values of the key, \<open>hmap_remove\<close> drops the oldest value of the key, \<open>hmap_lookup\<close> returns
  the oldest one or NULL, no other key is touched, and none of them faults. The table never grows:
  its count stays 0 and its number of slots what it was, however many entries are added.
\<close>

theorem hmap_refines_multimap:
  assumes "hm_rep s B" and "key_at s p sz k" and "alloc_fresh s n"
  shows "hmap_lookup (2 ^ 64) p sz s = Ok (case bindings B k of [] \<Rightarrow> NULL | v # _ \<Rightarrow> v)
    \<and> (\<exists>s' B'. hmap_add (2 ^ 64) [] (fst n) (snd n) p sz v s = Ok s' \<and> hm_rep s' B'
         \<and> bindings B' = (bindings B)(k := bindings B k @ [v]) \<and> length B' = length B \<and> hm_count (hs_map s') = 0)
    \<and> (\<exists>s' B'. hmap_remove (2 ^ 64) p sz s = Ok s' \<and> hm_rep s' B'
         \<and> bindings B' = (bindings B)(k := tl (bindings B k)) \<and> length B' = length B \<and> hm_count (hs_map s') = 0)"
proof -
  have n: "fst n \<noteq> NULL" "hs_ents s (fst n) = None" "snd n \<noteq> NULL" using assms(3) by (auto simp: alloc_fresh_def)
  note len = chain_length[OF assms(1) home_slot(3)[OF assms(1)], of k]
  have c: "hm_rep t C \<Longrightarrow> hm_count (hs_map t) = 0" for t C by (simp add: hm_rep_def)
  obtain s' B' where a: "hmap_add (2 ^ 64) [] (fst n) (snd n) p sz v s = Ok s'" "hm_rep s' B'"
    "bindings B' = (bindings B)(k := bindings B k @ [v])" "length B' = length B"
    using hmap_add_bindings[OF assms(1,2) n alloc_fresh_node[OF assms(1,3)], of "2 ^ 64" "[]" v] by blast
  obtain s2 B2 where r: "hmap_remove (2 ^ 64) p sz s = Ok s2" "hm_rep s2 B2"
    "bindings B2 = (bindings B)(k := tl (bindings B k))" "length B2 = length B"
    using hmap_remove_bindings[OF assms(1,2) len] by blast
  show ?thesis
    by (intro conjI exI[of _ s'] exI[of _ B'] exI[of _ s2] exI[of _ B2] hmap_lookup_bindings[OF assms(1,2) len]
        a r c[OF a(2)] c[OF r(2)])
qed

theorem hmap_refines_multimap_witness:
  "hmap_lookup (2 ^ 64) 8 1 (empty_map [8 \<mapsto> 97]) = Ok NULL
   \<and> (\<exists>s' B'. hmap_add (2 ^ 64) [] 16 24 8 1 99 (empty_map [8 \<mapsto> 97]) = Ok s' \<and> hm_rep s' B' \<and> bindings B' [97] = [99])"
proof -
  have k: "key_at (empty_map [8 \<mapsto> 97]) 8 1 [97]" and n: "alloc_fresh (empty_map [8 \<mapsto> 97]) (16, 24)"
    by (simp_all add: key_at_def empty_map_def alloc_fresh_def)
  note w = hmap_refines_multimap[OF empty_map_rep k n, of 99, simplified bindings_empty list.case fst_conv snd_conv append_Nil]
  then obtain s' B' where "hmap_add (2 ^ 64) [] 16 24 8 1 99 (empty_map [8 \<mapsto> 97]) = Ok s'" "hm_rep s' B'"
    "bindings B' = (bindings (replicate 170 []))([97] := [99])" by blast
  then have "hmap_add (2 ^ 64) [] 16 24 8 1 99 (empty_map [8 \<mapsto> 97]) = Ok s' \<and> hm_rep s' B' \<and> bindings B' [97] = [99]"
    by simp
  with w show ?thesis by blast
qed

text \<open>
  The first value added for a key hides the later ones. Adding a value does not change what a lookup
  of a key that is already present returns; only removing the key once uncovers the next value.
\<close>

theorem hmap_first_binding_wins:
  assumes "holds s b" and "key_at s p sz k" and "alloc_fresh s n" and "b k = v # w # ws"
  shows "bnd (hmap_add (2 ^ 64) [] (fst n) (snd n) p sz x s) (hmap_lookup (2 ^ 64) p sz) = Ok v
    \<and> bnd (hmap_remove (2 ^ 64) p sz s) (hmap_lookup (2 ^ 64) p sz) = Ok w"
  using hm.lookup_after_add[OF assms(1), of "(p, sz)" k n "(p, sz)" k x]
    hm.remove_uncovers[OF assms(1), of "(p, sz)" k v w ws] assms(2,3,4) by simp

theorem hmap_first_binding_wins_witness:
  "\<exists>s. bnd (hmap_add (2 ^ 64) [] 48 56 8 1 77 s) (hmap_lookup (2 ^ 64) 8 1) = Ok 99
     \<and> bnd (hmap_remove (2 ^ 64) 8 1 s) (hmap_lookup (2 ^ 64) 8 1) = Ok 98"
proof -
  let ?s0 = "empty_map [8 \<mapsto> 97]" and ?B0 = "replicate 170 ([] :: link list)"
  have key: "key_at s 8 1 [97]" if "hs_mem s = [8 \<mapsto> 97]" for s using that by (simp add: key_at_def)
  have m0: "hs_mem ?s0 = [8 \<mapsto> 97]" by (simp add: empty_map_def)
  have p0: "(16 :: addr) \<noteq> NULL" "hs_ents ?s0 16 = None" "(24 :: addr) \<noteq> NULL"
    "\<And>j. j < length ?B0 \<Longrightarrow> 24 \<notin> lk_node ` set (?B0 ! j)" by (simp_all add: empty_map_def)
  obtain s1 B1 where 1: "hm_rep s1 B1" "hs_mem s1 = hs_mem ?s0" "bindings B1 = (bindings ?B0)([97] := bindings ?B0 [97] @ [99])"
    "length B1 = length ?B0" "\<forall>j < length ?B0. lk_node ` set (B1 ! j) \<subseteq> insert 24 (lk_node ` set (?B0 ! j))"
    "\<forall>p. p \<noteq> 16 \<longrightarrow> hs_ents s1 p = hs_ents ?s0 p"
    using hmap_add_bindings[OF empty_map_rep key[OF m0] p0, of 0 "[]" 99] by blast
  have l1: "length B1 = 170" and n1: "\<And>j. j < 170 \<Longrightarrow> lk_node ` set (B1 ! j) \<subseteq> {24}"
    using 1(4,5) by auto
  have p1: "(32 :: addr) \<noteq> NULL" "hs_ents s1 32 = None" "(40 :: addr) \<noteq> NULL"
    using 1(6) by (simp_all add: empty_map_def)
  have p1': "40 \<notin> lk_node ` set (B1 ! j)" if "j < length B1" for j
  proof
    assume "40 \<in> lk_node ` set (B1 ! j)"
    then have "(40 :: addr) \<in> {24}" using subsetD[OF n1[of j]] that l1 by simp
    then show False by simp
  qed
  obtain s2 B2 where 2: "hm_rep s2 B2" "hs_mem s2 = hs_mem s1" "bindings B2 = (bindings B1)([97] := bindings B1 [97] @ [98])"
    "length B2 = length B1" "\<forall>j < length B1. lk_node ` set (B2 ! j) \<subseteq> insert 40 (lk_node ` set (B1 ! j))"
    "\<forall>p. p \<noteq> 32 \<longrightarrow> hs_ents s2 p = hs_ents s1 p"
    using hmap_add_bindings[OF 1(1) key[OF trans[OF 1(2) m0]] p1 p1', of 0 "[]" 98] by blast
  have n2: "56 \<notin> lk_node ` set (B2 ! j)" if "j < length B2" for j
  proof
    assume "56 \<in> lk_node ` set (B2 ! j)"
    moreover have "j < length B1" using that 2(4) by simp
    ultimately have "(56 :: addr) \<in> insert 40 (lk_node ` set (B1 ! j))" using 2(5) by blast
    then have "(56 :: addr) \<in> lk_node ` set (B1 ! j)" by simp
    then have "(56 :: addr) \<in> {24}" using subsetD[OF n1[of j]] 2(4) that l1 by simp
    then show False by simp
  qed
  have b2: "bindings B2 [97] = [99, 98]" "hs_mem s2 = [8 \<mapsto> 97]" "hs_ents s2 48 = None"
    using 1(2,3,6) 2(2,3,6) by (auto simp: bindings_empty empty_map_def)
  have "holds (s2\<lparr>hs_nodes := (hs_nodes s2)(56 := None)\<rparr>) (bindings B2)"
    unfolding holds_def
  proof (intro exI[of _ B2] conjI refl)
    have "dlist_rep ((hs_nodes s2)(56 := None)) (hm_buf (hs_map s2) ! i) (links_of (B2 ! i))" if "i < length B2" for i
      by (rule dlist_rep_frame[of "hs_nodes s2" _ _ "{56}"])
        (use hm_rep_bucket[OF 2(1) that] n2[OF that] in \<open>auto simp: same_outside_def links_nodes\<close>)
    then show "hm_rep (s2\<lparr>hs_nodes := (hs_nodes s2)(56 := None)\<rparr>) B2"
      using 2(1) by (simp add: hm_rep_def link_ok_def key_at_def)
  qed
  moreover have "alloc_fresh (s2\<lparr>hs_nodes := (hs_nodes s2)(56 := None)\<rparr>) (48, 56)"
    using b2(3) by (simp add: alloc_fresh_def)
  ultimately show ?thesis
    using hmap_first_binding_wins[of "s2\<lparr>hs_nodes := (hs_nodes s2)(56 := None)\<rparr>" "bindings B2" 8 1 "[97]" "(48, 56)" 99 98 "[]" 77]
      key[of "s2\<lparr>hs_nodes := (hs_nodes s2)(56 := None)\<rparr>"] b2 by auto
qed

lemma drain_empty: "dl_count d = 0 \<Longrightarrow> drain_slot fuel news d new sz2 s = Ok (news, new, s)"
  by (subst drain_slot.simps) simp

lemma resize_skips:
  "list_all (\<lambda>d. dl_count d = 0) ds \<Longrightarrow>
   resize_loop fuel news (ds @ rest) new sz2 s = resize_loop fuel news rest new sz2 s"
  by (induction ds) (simp_all add: drain_empty)

text \<open>
  \<open>hmap_resize\<close> cannot move an entry. It takes the popped entry for the list node and reads the
  entry's hash as a pointer: on a table with at least one entry, if no entry lies at the address that
  the hash of the first entry it pops happens to be, it faults.
\<close>

theorem hmap_resize_faults:
  assumes r: "hm_rep s (replicate i [] @ (c @ [l]) # rest)" and "hs_ents s (lk_ent l) = Some e"
    and "hs_ents s (he_hash e) = None" and "0 < fuel"
  shows "hmap_resize fuel news s = Fault (if he_hash e = NULL then Null_Deref else Wild_Access)"
proof -
  let ?B = "replicate i [] @ (c @ [l]) # rest"
  let ?buf = "hm_buf (hs_map s)"
  have len: "length ?buf = length ?B" using r by (simp add: hm_rep_def del: length_append length_replicate)
  have "unat (hm_size (hs_map s)) = length ?B"
    using r unat_offset[of "length ?B"] by (simp add: hm_rep_def del: length_append length_replicate of_nat_add)
  then have tk: "take (unat (hm_size (hs_map s))) ?buf = ?buf" using len by simp
  have il: "i < length ?B" by simp
  have d: "dlist_rep (hs_nodes s) (?buf ! i) (links_of c @ [(lk_node l, lk_ent l)])"
    using hm_rep_bucket[OF r il] by (simp add: nth_append links_of_def)
  have "dl_count (?buf ! j) = 0" if "j < i" for j
    using hm_rep_bucket[OF r, of j] that by (simp add: nth_append links_of_def dlist_rep_Nil)
  then have z: "list_all (\<lambda>d. dl_count d = 0) (take i ?buf)" using len by (auto simp: list_all_length)
  have buf: "?buf = take i ?buf @ ?buf ! i # drop (Suc i) ?buf" using len by (simp add: id_take_nth_drop)
  obtain h' d' where p: "dlist_back_pop (hs_nodes s) (?buf ! i) = Ok (lk_ent l, h', d')"
    using dlist_back_pop_rep[OF d] by blast
  have "length (?B ! i) < 2 ^ 64" by (rule chain_length_less[OF r il])
  then have "(of_nat (Suc (length c)) :: u64) \<noteq> of_nat 0"
    by (subst of_nat_addr_eq) (simp_all add: nth_append)
  then have cnt: "dl_count (?buf ! i) \<noteq> 0" using d by (simp add: dlist_rep_def links_of_def)
  have ent: "fetch (hs_ents s) (lk_ent l) = Ok e"
    using hm_rep_bucket[OF r il] assms(2) by (simp add: nth_append link_ok_def)
  have flt: "fetch (hs_ents s) (he_hash e) = Fault (if he_hash e = NULL then Null_Deref else Wild_Access)"
    using assms(3) by (simp add: fetch_def)
  obtain f where f: "fuel = Suc f" using assms(4) by (cases fuel) auto
  have "drain_slot fuel news (?buf ! i) new sz2 s = Fault (if he_hash e = NULL then Null_Deref else Wild_Access)" for new sz2
    using cnt p ent flt f by (subst drain_slot.simps) simp
  then have "resize_loop fuel news ?buf new sz2 s = Fault (if he_hash e = NULL then Null_Deref else Wild_Access)" for new sz2
    by (subst buf) (simp only: resize_skips[OF z] resize_loop.simps bnd.simps)
  then show ?thesis by (simp only: hmap_resize_def Let_def tk bnd.simps)
qed

theorem hmap_resize_faults_witness:
  "hmap_resize 1 [] \<lparr>hs_map = \<lparr>hm_size = 1, hm_count = 0, hm_buf = [\<lparr>dl_count = 1, dl_head = 24, dl_tail = 24\<rparr>],
       hm_hash = fnva_hash\<rparr>, hs_nodes = [24 \<mapsto> \<lparr>dn_value = 16, dn_next = 0, dn_prev = 0\<rparr>],
     hs_ents = [16 \<mapsto> \<lparr>he_hash = fnv [97], he_key = 8, he_key_size = 1, he_value = 99\<rparr>], hs_mem = [8 \<mapsto> 97]\<rparr>
   = Fault Wild_Access"
proof -
  let ?s = "\<lparr>hs_map = \<lparr>hm_size = 1, hm_count = 0, hm_buf = [\<lparr>dl_count = 1, dl_head = 24, dl_tail = 24\<rparr>],
       hm_hash = fnva_hash\<rparr>, hs_nodes = [24 \<mapsto> \<lparr>dn_value = 16, dn_next = 0, dn_prev = 0\<rparr>],
     hs_ents = [16 \<mapsto> \<lparr>he_hash = fnv [97], he_key = 8, he_key_size = 1, he_value = 99\<rparr>], hs_mem = [8 \<mapsto> 97]\<rparr> :: hm_state"
  let ?l = "\<lparr>lk_node = 24, lk_ent = 16, lk_key = [97], lk_val = 99\<rparr>"
  have h: "fnv [97] \<noteq> 16" "fnv [97] \<noteq> NULL" by (simp_all add: fnv_def FNV_PRIME_def FNV_OFFSET_def)
  have "hm_rep ?s (replicate 0 [] @ ([] @ [?l]) # [])"
    by (simp add: hm_rep_def dlist_rep_def links_of_def link_ok_def key_at_def)
  from hmap_resize_faults[OF this, of _ 1 "[]"] h show ?thesis by simp
qed

end
