(* ===== verification/Fbcon.thy ===== *)
theory Fbcon
  imports Spinlock CString
begin

section \<open>drivers/fbconsole.c: the console on the frame buffer\<close>

text \<open>
  The console keeps the cells of the screen in \<open>term_buffer\<close>, one character and one colour each, and a
  queue of the glyphs still to draw. The frame buffer is the array of its 32-bit pixels, \<open>fc_pixels\<close>,
  and the font, which the linker takes from a file, is an argument: 256 glyphs of 16 rows. The two arrays
  of \<open>console_init\<close> come from \<open>vzalloc\<close>, so they start as zeros; \<open>fb\<close> is kept by no operation.
\<close>

record fbconsole_queue_item =
  qi_x :: u16
  qi_y :: u16
  qi_c :: u8
  qi_col :: u8

record fbconsole =
  fc_pitch :: u16
  fc_cursor_x :: u16
  fc_cursor_y :: u16
  fc_width_char :: u16
  fc_height_char :: u16
  fc_width :: u16
  fc_height :: u16
  fc_color :: u8
  fc_term_buffer :: "u16 list"
  fc_queue :: "fbconsole_queue_item list"
  fc_queue_items :: nat
  fc_lock :: u64
  fc_pixels :: "u32 list"
  fc_enabled :: bool

definition BLACK :: u8 where "BLACK = 0"
definition WHITE :: u8 where "WHITE = 15"

definition COLOR :: "u8 \<Rightarrow> u8 \<Rightarrow> u8" where "COLOR fg bg = fg OR push_bit 4 bg"
definition BG :: "u8 \<Rightarrow> u8" where "BG col = drop_bit 4 col"
definition FG :: "u8 \<Rightarrow> u8" where "FG col = col AND 0xf"

definition ansi_colors :: "u32 list" where
  "ansi_colors = [0x000000, 0xaa0000, 0x00aa00, 0xaa5500, 0x0000aa, 0xaa00aa, 0x00aaaa, 0xaaaaaa,
     0x555555, 0xff5555, 0x55ff55, 0xffff55, 0x5555ff, 0xff55ff, 0x55ffff, 0xffffff]"

definition get :: "'a list \<Rightarrow> int \<Rightarrow> 'a result" where
  "get xs i = (if 0 \<le> i \<and> i < int (length xs) then Ok (xs ! nat i) else Fault Out_Of_Bounds)"

definition put :: "'a list \<Rightarrow> int \<Rightarrow> 'a \<Rightarrow> 'a list result" where
  "put xs i x = (if 0 \<le> i \<and> i < int (length xs) then Ok (xs[nat i := x]) else Fault Out_Of_Bounds)"

subsection \<open>Glyphs\<close>

text \<open>The column counter of the inner loop is 8 minus the argument, the row counter 16 minus it.\<close>

fun put_columns :: "u16 \<Rightarrow> fbconsole_queue_item \<Rightarrow> u8 \<Rightarrow> int \<Rightarrow> nat \<Rightarrow> u32 list \<Rightarrow> u32 list result" where
  "put_columns pitch todo row y 0 fb = Ok fb"
| "put_columns pitch todo row y (Suc k) fb =
     (let x = 7 - k;
          fb_x = uint (qi_x todo) * 8 + int x;
          fb_y = uint (qi_y todo) * 16 + y in
      bnd (cint (fb_y * (uint pitch div 4))) (\<lambda>base.
      bnd (cint (base + fb_x)) (\<lambda>i.
      bnd (get ansi_colors (if row AND drop_bit x 0x80 \<noteq> 0 then uint (FG (qi_col todo)) else uint (BG (qi_col todo)))) (\<lambda>colour.
      bnd (put fb i colour) (\<lambda>fb. put_columns pitch todo row y k fb)))))"

fun put_rows :: "u8 list \<Rightarrow> u16 \<Rightarrow> fbconsole_queue_item \<Rightarrow> nat \<Rightarrow> u32 list \<Rightarrow> u32 list result" where
  "put_rows font pitch todo 0 fb = Ok fb"
| "put_rows font pitch todo (Suc k) fb =
     (let y = 15 - k in
      bnd (get font (uint (qi_c todo) * 16 + int y)) (\<lambda>row.
      bnd (put_columns pitch todo row (int y) 8 fb) (\<lambda>fb. put_rows font pitch todo k fb)))"

definition put_glyph :: "u8 list \<Rightarrow> fbconsole \<Rightarrow> fbconsole_queue_item \<Rightarrow> fbconsole result" where
  "put_glyph font s todo = bnd (put_rows font (fc_pitch s) todo 16 (fc_pixels s)) (\<lambda>fb. Ok (s\<lparr>fc_pixels := fb\<rparr>))"

fun flush_loop :: "u8 list \<Rightarrow> fbconsole \<Rightarrow> nat \<Rightarrow> nat \<Rightarrow> fbconsole result" where
  "flush_loop font s i 0 = Ok s"
| "flush_loop font s i (Suc k) =
     bnd (get (fc_queue s) (int i)) (\<lambda>todo. bnd (put_glyph font s todo) (\<lambda>s. flush_loop font s (Suc i) k))"

definition console_flush :: "u8 list \<Rightarrow> fbconsole \<Rightarrow> fbconsole result" where
  "console_flush font s = bnd (flush_loop font s 0 (fc_queue_items s)) (\<lambda>s. Ok (s\<lparr>fc_queue_items := 0\<rparr>))"

subsection \<open>The queue\<close>

text \<open>
  The test of the source parses as \<open>*target & (0xff == todo.c)\<close>: it is not whether the cell already has
  the character, but whether the character is 0xff and the lowest bit of the cell is set.
\<close>

definition cell_index :: "fbconsole \<Rightarrow> u16 \<Rightarrow> u16 \<Rightarrow> int result" where
  "cell_index s x y = bnd (cint (uint y * uint (fc_width_char s))) (\<lambda>k. cint (k + uint x))"

definition queue_push :: "u8 list \<Rightarrow> fbconsole \<Rightarrow> fbconsole_queue_item \<Rightarrow> fbconsole result" where
  "queue_push font s todo =
     bnd (cell_index s (qi_x todo) (qi_y todo)) (\<lambda>i.
     bnd (get (fc_term_buffer s) i) (\<lambda>target.
     if target AND (if qi_c todo = 0xff then 1 else 0) \<noteq> 0 \<and> drop_bit 8 target = ucast (qi_col todo) then Ok s else
     bnd (cint (uint (fc_width_char s) * uint (fc_height_char s))) (\<lambda>capacity.
     bnd (if int (fc_queue_items s) \<ge> capacity then console_flush font s else Ok s) (\<lambda>s.
     bnd (put (fc_term_buffer s) i (ucast (qi_c todo) OR push_bit 8 (ucast (qi_col todo)))) (\<lambda>cells.
     bnd (put (fc_queue s) (int (fc_queue_items s)) todo) (\<lambda>queue.
     Ok (s\<lparr>fc_term_buffer := cells, fc_queue := queue, fc_queue_items := fc_queue_items s + 1\<rparr>)))))))"

text \<open>The loops of \<open>scroll\<close>: the counters run up to their bound as the argument \<open>k\<close> runs down to 0.\<close>

fun scroll_row :: "u8 list \<Rightarrow> fbconsole \<Rightarrow> nat \<Rightarrow> nat \<Rightarrow> nat \<Rightarrow> fbconsole result" where
  "scroll_row font s i j 0 = Ok s"
| "scroll_row font s i j (Suc k) =
     bnd (cint (int i * uint (fc_width_char s))) (\<lambda>base.
     bnd (cint (base + int j)) (\<lambda>n.
     bnd (get (fc_term_buffer s) n) (\<lambda>tar.
     bnd (queue_push font s \<lparr>qi_x = of_nat j, qi_y = of_nat (i - 1), qi_c = ucast (tar AND 0xff), qi_col = ucast (drop_bit 8 tar)\<rparr>) (\<lambda>s.
     scroll_row font s i (Suc j) k))))"

fun scroll_rows :: "u8 list \<Rightarrow> fbconsole \<Rightarrow> nat \<Rightarrow> nat \<Rightarrow> fbconsole result" where
  "scroll_rows font s i 0 = Ok s"
| "scroll_rows font s i (Suc k) =
     bnd (scroll_row font s i 0 (unat (fc_width_char s))) (\<lambda>s. scroll_rows font s (Suc i) k)"

fun clear_bottom :: "u8 list \<Rightarrow> fbconsole \<Rightarrow> nat \<Rightarrow> nat \<Rightarrow> fbconsole result" where
  "clear_bottom font s j 0 = Ok s"
| "clear_bottom font s j (Suc k) =
     bnd (queue_push font s \<lparr>qi_x = of_nat j, qi_y = fc_height_char s - 1, qi_c = 0x20, qi_col = fc_color s\<rparr>) (\<lambda>s.
     clear_bottom font s (Suc j) k)"

definition scroll :: "u8 list \<Rightarrow> fbconsole \<Rightarrow> fbconsole result" where
  "scroll font s =
     bnd (scroll_rows font s 1 (unat (fc_height_char s) - 1)) (\<lambda>s.
     bnd (clear_bottom font s 0 (unat (fc_width_char s))) (\<lambda>s. Ok (s\<lparr>fc_cursor_x := 0\<rparr>)))"

definition console_carriage_return :: "u8 list \<Rightarrow> fbconsole \<Rightarrow> fbconsole result" where
  "console_carriage_return font s =
     (if uint (fc_cursor_y s) + 1 \<ge> uint (fc_height_char s) then scroll font s
      else Ok (s\<lparr>fc_cursor_x := 0, fc_cursor_y := fc_cursor_y s + 1\<rparr>))"

definition console_write_glyph :: "u8 list \<Rightarrow> fbconsole \<Rightarrow> u8 \<Rightarrow> fbconsole result" where
  "console_write_glyph font s c =
     queue_push font s \<lparr>qi_x = fc_cursor_x s, qi_y = fc_cursor_y s, qi_c = c, qi_col = fc_color s\<rparr>"

definition write_char :: "u8 list \<Rightarrow> fbconsole \<Rightarrow> u8 \<Rightarrow> fbconsole result" where
  "write_char font s c =
     bnd (if 0x20 \<le> c \<and> c < 0x80 then
            bnd (console_write_glyph font s c) (\<lambda>s. Ok (s\<lparr>fc_cursor_x := fc_cursor_x s + 1\<rparr>))
          else Ok s) (\<lambda>s.
     if fc_cursor_x s \<ge> fc_width_char s \<or> c = 0x0a then console_carriage_return font s else Ok s)"

function write_loop :: "u8 list \<Rightarrow> mem \<Rightarrow> fbconsole \<Rightarrow> addr \<Rightarrow> nat \<Rightarrow> fbconsole result" where
  "write_loop font m s str idx =
     bnd (load m (str + of_nat idx)) (\<lambda>c.
     if 2 ^ 31 \<le> Suc idx then Fault Overflow else
     if c = 0 then Ok s else
     bnd (write_char font s c) (\<lambda>s. write_loop font m s str (Suc idx)))"
  by pat_completeness auto
termination
  by (relation "measure (\<lambda>(font, m, s, str, idx). 2 ^ 31 - idx)") auto

declare write_loop.simps [simp del]

definition console_write :: "u8 list \<Rightarrow> mem \<Rightarrow> fbconsole \<Rightarrow> addr \<Rightarrow> fbconsole result" where
  "console_write font m s str =
     bnd (lock_word (fc_lock s)) (\<lambda>l.
     bnd (write_loop font m (s\<lparr>fc_lock := l\<rparr>) str 0) (\<lambda>s.
     bnd (console_flush font s) (\<lambda>s. Ok (s\<lparr>fc_lock := unlock_word (fc_lock s)\<rparr>))))"

subsection \<open>Initialisation\<close>

record limine_framebuffer =
  lf_width :: u64
  lf_height :: u64
  lf_pitch :: u64

fun blank_column :: "u8 list \<Rightarrow> fbconsole \<Rightarrow> nat \<Rightarrow> nat \<Rightarrow> nat \<Rightarrow> fbconsole result" where
  "blank_column font s i j 0 = Ok s"
| "blank_column font s i j (Suc k) =
     bnd (put_glyph font s \<lparr>qi_x = of_nat i, qi_y = of_nat j, qi_c = 0x20, qi_col = fc_color s\<rparr>) (\<lambda>s. blank_column font s i (Suc j) k)"

fun blank_columns :: "u8 list \<Rightarrow> fbconsole \<Rightarrow> nat \<Rightarrow> nat \<Rightarrow> fbconsole result" where
  "blank_columns font s i 0 = Ok s"
| "blank_columns font s i (Suc k) =
     bnd (blank_column font s i 0 (unat (fc_height_char s))) (\<lambda>s. blank_columns font s (Suc i) k)"

text \<open>The width field is set from the height; nothing reads it.\<close>

definition console_init :: "bool \<Rightarrow> u8 list \<Rightarrow> u32 list \<Rightarrow> limine_framebuffer \<Rightarrow> fbconsole \<Rightarrow> fbconsole result" where
  "console_init no_framebuffer font pixels framebuffer s =
     (if no_framebuffer then Ok s else
      let w = ucast (lf_width framebuffer div 8) :: u16; h = ucast (lf_height framebuffer div 16) :: u16 in
      bnd (cint (uint w * uint h)) (\<lambda>cells.
      let s = \<lparr>fc_pitch = ucast (lf_pitch framebuffer), fc_cursor_x = 0, fc_cursor_y = 0, fc_width_char = w, fc_height_char = h,
            fc_width = ucast (lf_height framebuffer), fc_height = ucast (lf_height framebuffer), fc_color = COLOR WHITE BLACK,
            fc_term_buffer = replicate (nat cells) 0, fc_queue = replicate (nat cells) \<lparr>qi_x = 0, qi_y = 0, qi_c = 0, qi_col = 0\<rparr>,
            fc_queue_items = 0, fc_lock = 0, fc_pixels = pixels, fc_enabled = False\<rparr> in
      bnd (blank_columns font s 0 (unat w)) (\<lambda>s. Ok (s\<lparr>fc_enabled := True\<rparr>))))"

section \<open>Drawing glyphs\<close>

text \<open>
  Pixel \<open>j\<close> of the frame buffer is in column \<open>j mod P\<close> and line \<open>j div P\<close>, where \<open>P\<close> is the number of
  pixels of a line. \<open>draw\<close> is what a glyph does to the whole frame buffer.
\<close>

definition line_pixels :: "u16 \<Rightarrow> nat" where
  "line_pixels pitch = unat pitch div 4"

definition row_pixel :: "u8 \<Rightarrow> u8 \<Rightarrow> nat \<Rightarrow> u32" where
  "row_pixel row col x = ansi_colors ! unat (if row AND drop_bit x 0x80 \<noteq> 0 then FG col else BG col)"

definition glyph_pixel :: "u8 list \<Rightarrow> u8 \<Rightarrow> u8 \<Rightarrow> nat \<Rightarrow> nat \<Rightarrow> u32" where
  "glyph_pixel font c col y x = row_pixel (font ! (unat c * 16 + y)) col x"

definition draw :: "u8 list \<Rightarrow> nat \<Rightarrow> fbconsole_queue_item \<Rightarrow> u32 list \<Rightarrow> u32 list" where
  "draw font P it fb = List.map (\<lambda>j.
     if j mod P div 8 = unat (qi_x it) \<and> j div P div 16 = unat (qi_y it)
     then glyph_pixel font (qi_c it) (qi_col it) (j div P mod 16) (j mod P mod 8) else fb ! j) [0..<length fb]"

lemma length_draw [simp]: "length (draw font P it fb) = length fb"
  by (simp add: draw_def)

lemma get_Ok [simp]: "i < length xs \<Longrightarrow> get xs (int i) = Ok (xs ! i)"
  by (simp add: get_def)

lemma put_Ok [simp]: "i < length xs \<Longrightarrow> put xs (int i) x = Ok (xs[i := x])"
  by (simp add: put_def)

lemma u8_less: "unat (c :: u8) < 256"
proof -
  have "(unsigned c :: nat) < 2 ^ LENGTH(8)" by (rule unsigned_less)
  then show ?thesis by simp
qed

lemma colour_index: "unat (FG col) < 16" "unat (BG col) < 16"
proof -
  have "FG col \<le> 0xf" unfolding FG_def by (rule word_and_le1)
  then have "unat (FG col) \<le> unat (0xf :: u8)" by (simp only: word_le_nat_alt)
  then show "unat (FG col) < 16" by simp
  show "unat (BG col) < 16" using u8_less[of col] by (simp add: BG_def drop_bit_eq_div unat_div)
qed

lemma length_ansi_colors: "length ansi_colors = 16"
  by (simp add: ansi_colors_def)

lemma pixel_colour:
  "get ansi_colors (if row AND drop_bit x 0x80 \<noteq> 0 then uint (FG col) else uint (BG col)) = Ok (row_pixel row col x)"
proof -
  have "get ansi_colors (uint w) = Ok (ansi_colors ! unat w)" if "unat w < 16" for w :: u8
    using get_Ok[of "unat w" ansi_colors] that by (simp add: length_ansi_colors)
  then show ?thesis using colour_index by (simp add: row_pixel_def)
qed

lemma index_iff:
  assumes "X < P" shows "(j :: nat) = Y * P + X \<longleftrightarrow> j div P = Y \<and> j mod P = X"
proof
  assume "j = Y * P + X"
  then show "j div P = Y \<and> j mod P = X" using assms by simp
next
  assume "j div P = Y \<and> j mod P = X"
  then show "j = Y * P + X" using div_mult_mod_eq[of j P] by simp
qed

text \<open>A cell inside the frame buffer.\<close>

definition on_screen :: "u16 \<Rightarrow> u32 list \<Rightarrow> fbconsole_queue_item \<Rightarrow> bool" where
  "on_screen pitch fb it \<longleftrightarrow> unat (qi_x it) * 8 + 8 \<le> line_pixels pitch
     \<and> (unat (qi_y it) * 16 + 16) * line_pixels pitch \<le> length fb
     \<and> (unat (qi_y it) * 16 + 16) * line_pixels pitch < 2 ^ 31"

lemma put_columns_draw:
  assumes "on_screen pitch fb it" and "k \<le> 8" and "y < 16"
  shows "\<exists>fb'. put_columns pitch it row (int y) k fb = Ok fb' \<and> length fb' = length fb
     \<and> (\<forall>j<length fb. fb' ! j = (if j mod line_pixels pitch div 8 = unat (qi_x it) \<and> j div line_pixels pitch = unat (qi_y it) * 16 + y
          \<and> 8 - k \<le> j mod line_pixels pitch mod 8 then row_pixel row (qi_col it) (j mod line_pixels pitch mod 8) else fb ! j))"
  using assms(1,2)
proof (induction k arbitrary: fb)
  case 0
  have "\<not> 8 \<le> j mod line_pixels pitch mod 8" for j :: nat by (simp add: not_le)
  then show ?case by simp
next
  case (Suc k)
  let ?P = "line_pixels pitch" and ?x = "unat (qi_x it)" and ?y = "unat (qi_y it)"
  let ?Y = "?y * 16 + y" and ?X = "?x * 8 + (7 - k)"
  have X: "?X < ?P" using Suc.prems unfolding on_screen_def by linarith
  have "(?y * 16 + y) * ?P + ?P \<le> (?y * 16 + 16) * ?P"
    using assms(3) by (simp add: algebra_simps)
  then have i: "?Y * ?P + ?X < length fb" "?Y * ?P + ?X < 2 ^ 31" using Suc.prems(1) X by (auto simp: on_screen_def)
  have pitch: "uint pitch div 4 = int ?P" by (simp add: line_pixels_def zdiv_int)
  have e: "cint ((uint (qi_y it) * 16 + int y) * (uint pitch div 4)) = Ok (int (?Y * ?P))"
  proof -
    have "(uint (qi_y it) * 16 + int y) * (uint pitch div 4) = int (?Y * ?P)" unfolding pitch by simp
    moreover have "cint (int (?Y * ?P)) = Ok (int (?Y * ?P))" by (rule cint_nat) (use i(2) in linarith)
    ultimately show ?thesis by (simp only:)
  qed
  have e2: "cint (int (?Y * ?P) + (uint (qi_x it) * 8 + int (7 - k))) = Ok (int (?Y * ?P + ?X))"
  proof -
    have "int (?Y * ?P) + (uint (qi_x it) * 8 + int (7 - k)) = int (?Y * ?P + ?X)" by simp
    moreover have "cint (int (?Y * ?P + ?X)) = Ok (int (?Y * ?P + ?X))" by (rule cint_nat) (rule i(2))
    ultimately show ?thesis by (simp only:)
  qed
  let ?c = "row_pixel row (qi_col it) (7 - k)"
  have os: "on_screen pitch (fb[?Y * ?P + ?X := ?c]) it" using Suc.prems(1) by (simp add: on_screen_def)
  obtain fb' where fb': "put_columns pitch it row (int y) k (fb[?Y * ?P + ?X := ?c]) = Ok fb'" "length fb' = length fb"
    "\<forall>j<length fb. fb' ! j = (if j mod ?P div 8 = ?x \<and> j div ?P = ?Y \<and> 8 - k \<le> j mod ?P mod 8 then row_pixel row (qi_col it) (j mod ?P mod 8)
       else fb[?Y * ?P + ?X := ?c] ! j)"
    using Suc.IH[OF os] Suc.prems(2) by auto
  have step: "put_columns pitch it row (int y) (Suc k) fb = Ok fb'"
    using e e2 fb'(1) put_Ok[OF i(1)] by (simp only: put_columns.simps Let_def bnd.simps pixel_colour)
  have "fb' ! j = (if j mod ?P div 8 = ?x \<and> j div ?P = ?Y \<and> 8 - Suc k \<le> j mod ?P mod 8 then row_pixel row (qi_col it) (j mod ?P mod 8) else fb ! j)"
    if j: "j < length fb" for j
  proof -
    have at: "j = ?Y * ?P + ?X \<longleftrightarrow> j div ?P = ?Y \<and> j mod ?P div 8 = ?x \<and> j mod ?P mod 8 = 7 - k"
      using index_iff[OF X, of j ?Y] index_iff[of "7 - k" 8 "j mod ?P" ?x] by auto
    have le: "8 - Suc k \<le> j mod ?P mod 8 \<longleftrightarrow> 8 - k \<le> j mod ?P mod 8 \<or> j mod ?P mod 8 = 7 - k" using Suc.prems(2) by auto
    show ?thesis
    proof (cases "j = ?Y * ?P + ?X")
      case True
      have "\<not> 8 - k \<le> 7 - k" using Suc.prems(2) by simp
      then have "fb' ! j = fb[?Y * ?P + ?X := ?c] ! j" using fb'(3) j at True by metis
      then show ?thesis using at le True j by simp
    next
      case False
      then have "fb[?Y * ?P + ?X := ?c] ! j = fb ! j" by simp
      moreover have "(j mod ?P div 8 = ?x \<and> j div ?P = ?Y \<and> 8 - Suc k \<le> j mod ?P mod 8) = (j mod ?P div 8 = ?x \<and> j div ?P = ?Y \<and> 8 - k \<le> j mod ?P mod 8)"
        using False at le by blast
      ultimately show ?thesis using fb'(3) j by (simp only: if_True)
    qed
  qed
  then show ?case using step fb'(2) by blast
qed

lemma put_rows_draw:
  assumes "on_screen pitch fb it" and "k \<le> 16" and "length font = 4096"
  shows "\<exists>fb'. put_rows font pitch it k fb = Ok fb' \<and> length fb' = length fb
     \<and> (\<forall>j<length fb. fb' ! j = (if j mod line_pixels pitch div 8 = unat (qi_x it) \<and> j div line_pixels pitch div 16 = unat (qi_y it)
          \<and> 16 - k \<le> j div line_pixels pitch mod 16
          then glyph_pixel font (qi_c it) (qi_col it) (j div line_pixels pitch mod 16) (j mod line_pixels pitch mod 8) else fb ! j))"
  using assms(1,2)
proof (induction k arbitrary: fb)
  case 0
  have "\<not> 16 \<le> j div line_pixels pitch mod 16" for j :: nat by (simp add: not_le)
  then show ?case by simp
next
  case (Suc k)
  let ?P = "line_pixels pitch" and ?x = "unat (qi_x it)" and ?y = "unat (qi_y it)" and ?c = "unat (qi_c it)"
  let ?row = "font ! (?c * 16 + (15 - k))"
  have "?c < 256" by (rule u8_less)
  then have "get font (int (?c * 16 + (15 - k))) = Ok ?row" using assms(3) by (intro get_Ok) linarith
  then have g: "get font (uint (qi_c it) * 16 + int (15 - k)) = Ok ?row" by simp
  have d: "15 - k < 16" by simp
  obtain fb1 where fb1: "put_columns pitch it ?row (int (15 - k)) 8 fb = Ok fb1" "length fb1 = length fb"
    "\<forall>j<length fb. fb1 ! j = (if j mod ?P div 8 = ?x \<and> j div ?P = ?y * 16 + (15 - k) then row_pixel ?row (qi_col it) (j mod ?P mod 8) else fb ! j)"
    using put_columns_draw[OF Suc.prems(1) order_refl d, of ?row] by auto
  have os: "on_screen pitch fb1 it" using Suc.prems(1) fb1(2) by (simp add: on_screen_def)
  obtain fb2 where fb2: "put_rows font pitch it k fb1 = Ok fb2" "length fb2 = length fb"
    "\<forall>j<length fb. fb2 ! j = (if j mod ?P div 8 = ?x \<and> j div ?P div 16 = ?y \<and> 16 - k \<le> j div ?P mod 16
       then glyph_pixel font (qi_c it) (qi_col it) (j div ?P mod 16) (j mod ?P mod 8) else fb1 ! j)"
    using Suc.IH[OF os] Suc.prems(2) fb1(2) by auto
  have step: "put_rows font pitch it (Suc k) fb = Ok fb2" using g fb1(1) fb2(1) by (simp only: put_rows.simps Let_def bnd.simps)
  have "fb2 ! j = (if j mod ?P div 8 = ?x \<and> j div ?P div 16 = ?y \<and> 16 - Suc k \<le> j div ?P mod 16
       then glyph_pixel font (qi_c it) (qi_col it) (j div ?P mod 16) (j mod ?P mod 8) else fb ! j)" if j: "j < length fb" for j
  proof -
    have "j div ?P = ?y * 16 + (15 - k) \<longleftrightarrow> j div ?P div 16 = ?y \<and> j div ?P mod 16 = 15 - k"
      by (rule index_iff) simp
    moreover have "16 - Suc k \<le> j div ?P mod 16 \<longleftrightarrow> 16 - k \<le> j div ?P mod 16 \<or> j div ?P mod 16 = 15 - k" using Suc.prems(2) by auto
    moreover have "\<not> 16 - k \<le> 15 - k" using Suc.prems(2) by simp
    ultimately show ?thesis using fb1(3) fb2(3) j by (auto simp: glyph_pixel_def)
  qed
  then show ?case using step fb2(2) by blast
qed

lemma put_glyph_draw:
  assumes "on_screen (fc_pitch s) (fc_pixels s) it" and "length font = 4096"
  shows "put_glyph font s it = Ok (s\<lparr>fc_pixels := draw font (line_pixels (fc_pitch s)) it (fc_pixels s)\<rparr>)"
proof -
  let ?P = "line_pixels (fc_pitch s)"
  obtain fb' where fb': "put_rows font (fc_pitch s) it 16 (fc_pixels s) = Ok fb'" "length fb' = length (fc_pixels s)"
    "\<forall>j<length (fc_pixels s). fb' ! j = (if j mod ?P div 8 = unat (qi_x it) \<and> j div ?P div 16 = unat (qi_y it)
       then glyph_pixel font (qi_c it) (qi_col it) (j div ?P mod 16) (j mod ?P mod 8) else fc_pixels s ! j)"
    using put_rows_draw[OF assms(1) _ assms(2), of 16] by auto
  have "fb' = draw font ?P it (fc_pixels s)" using fb'(2,3) by (intro nth_equalityI) (simp_all add: draw_def)
  then show ?thesis using fb'(1) by (simp add: put_glyph_def)
qed

section \<open>The invariant of the console\<close>

abbreviation columns :: "fbconsole \<Rightarrow> nat" where "columns s \<equiv> unat (fc_width_char s)"
abbreviation lines :: "fbconsole \<Rightarrow> nat" where "lines s \<equiv> unat (fc_height_char s)"
abbreviation pitch_pixels :: "fbconsole \<Rightarrow> nat" where "pitch_pixels s \<equiv> line_pixels (fc_pitch s)"

text \<open>
  \<open>grid_ok\<close>: the screen fits the frame buffer, both arrays have one entry per cell, all characters are
  ASCII, and the queued glyphs are on the screen. \<open>drawn\<close> is the frame buffer once the queue is drawn, and
  \<open>visible\<close> says that it shows every cell that has been written.
\<close>

definition in_grid :: "fbconsole \<Rightarrow> fbconsole_queue_item \<Rightarrow> bool" where
  "in_grid s it \<longleftrightarrow> unat (qi_x it) < columns s \<and> unat (qi_y it) < lines s"

definition grid_ok :: "u8 list \<Rightarrow> fbconsole \<Rightarrow> bool" where
  "grid_ok font s \<longleftrightarrow> length font = 4096 \<and> 0 < columns s \<and> 0 < lines s \<and> columns s * 8 \<le> pitch_pixels s
     \<and> lines s * 16 * pitch_pixels s \<le> length (fc_pixels s) \<and> lines s * 16 * pitch_pixels s < 2 ^ 31
     \<and> length (fc_term_buffer s) = columns s * lines s \<and> length (fc_queue s) = columns s * lines s
     \<and> fc_queue_items s \<le> columns s * lines s
     \<and> (\<forall>t \<in> set (fc_term_buffer s). (ucast t :: u8) < 0x80) \<and> (\<forall>it \<in> set (take (fc_queue_items s) (fc_queue s)). in_grid s it)"

definition drawn :: "u8 list \<Rightarrow> fbconsole \<Rightarrow> u32 list" where
  "drawn font s = foldl (\<lambda>fb it. draw font (pitch_pixels s) it fb) (fc_pixels s) (take (fc_queue_items s) (fc_queue s))"

definition cell_at :: "fbconsole \<Rightarrow> nat \<Rightarrow> u16" where
  "cell_at s j = fc_term_buffer s ! (j div pitch_pixels s div 16 * columns s + j mod pitch_pixels s div 8)"

definition inside :: "fbconsole \<Rightarrow> nat \<Rightarrow> bool" where
  "inside s j \<longleftrightarrow> j < length (fc_pixels s) \<and> j mod pitch_pixels s div 8 < columns s \<and> j div pitch_pixels s div 16 < lines s"

definition visible :: "u8 list \<Rightarrow> fbconsole \<Rightarrow> bool" where
  "visible font s \<longleftrightarrow> (\<forall>j. inside s j \<and> cell_at s j \<noteq> 0 \<longrightarrow>
     drawn font s ! j = glyph_pixel font (ucast (cell_at s j)) (ucast (drop_bit 8 (cell_at s j)))
       (j div pitch_pixels s mod 16) (j mod pitch_pixels s mod 8))"

definition console_inv :: "u8 list \<Rightarrow> fbconsole \<Rightarrow> bool" where
  "console_inv font s \<longleftrightarrow> grid_ok font s \<and> visible font s"

definition same_console :: "fbconsole \<Rightarrow> fbconsole \<Rightarrow> bool" where
  "same_console s s' \<longleftrightarrow> fc_pitch s' = fc_pitch s \<and> fc_cursor_x s' = fc_cursor_x s \<and> fc_cursor_y s' = fc_cursor_y s
     \<and> fc_width_char s' = fc_width_char s \<and> fc_height_char s' = fc_height_char s \<and> fc_color s' = fc_color s \<and> fc_lock s' = fc_lock s
     \<and> fc_enabled s' = fc_enabled s \<and> length (fc_pixels s') = length (fc_pixels s)"

lemma same_console_refl: "same_console s s"
  by (simp add: same_console_def)

lemma same_console_trans: "same_console s s' \<Longrightarrow> same_console s' s'' \<Longrightarrow> same_console s s''"
  by (simp add: same_console_def)

lemma length_foldl_draw [simp]: "length (foldl (\<lambda>fb it. draw font P it fb) fb its) = length fb"
  by (induction its arbitrary: fb) simp_all

lemma length_drawn [simp]: "length (drawn font s) = length (fc_pixels s)"
  by (simp add: drawn_def)

lemma grid_on_screen:
  assumes "grid_ok font s" and "in_grid s it" and "length fb = length (fc_pixels s)"
  shows "on_screen (fc_pitch s) fb it"
proof -
  have "unat (qi_x it) * 8 + 8 \<le> columns s * 8" "(unat (qi_y it) * 16 + 16) \<le> lines s * 16" using assms(2) by (auto simp: in_grid_def)
  moreover have "(unat (qi_y it) * 16 + 16) * pitch_pixels s \<le> lines s * 16 * pitch_pixels s" by (intro mult_le_mono1) fact
  ultimately show ?thesis using assms unfolding on_screen_def grid_ok_def by linarith
qed

lemma flush_loop_draws:
  assumes "grid_ok font s" and "i + k \<le> length (fc_queue s)" and "\<forall>it \<in> set (take k (drop i (fc_queue s))). in_grid s it"
    and "length fb = length (fc_pixels s)"
  shows "flush_loop font (s\<lparr>fc_pixels := fb\<rparr>) i k
     = Ok (s\<lparr>fc_pixels := foldl (\<lambda>fb it. draw font (pitch_pixels s) it fb) fb (take k (drop i (fc_queue s)))\<rparr>)"
  using assms(2-4)
proof (induction k arbitrary: i fb)
  case (Suc k)
  have i: "i < length (fc_queue s)" using Suc.prems(1) by simp
  have d: "take (Suc k) (drop i (fc_queue s)) = fc_queue s ! i # take k (drop (Suc i) (fc_queue s))"
    using i by (simp add: Cons_nth_drop_Suc[symmetric])
  have "put_glyph font (s\<lparr>fc_pixels := fb\<rparr>) (fc_queue s ! i)
      = Ok (s\<lparr>fc_pixels := draw font (pitch_pixels s) (fc_queue s ! i) fb\<rparr>)"
    using put_glyph_draw[of "s\<lparr>fc_pixels := fb\<rparr>" "fc_queue s ! i" font] grid_on_screen[OF assms(1), of "fc_queue s ! i" fb] Suc.prems d assms(1)
    by (simp add: grid_ok_def)
  then show ?case using i d Suc.IH[of "Suc i"] Suc.prems by simp
qed simp

lemma console_flush_drawn:
  assumes "grid_ok font s"
  shows "console_flush font s = Ok (s\<lparr>fc_pixels := drawn font s, fc_queue_items := 0\<rparr>)"
  using flush_loop_draws[OF assms, of 0 "fc_queue_items s" "fc_pixels s"] assms
  by (simp add: console_flush_def drawn_def grid_ok_def)

lemma flushed:
  assumes "grid_ok font s"
  shows "grid_ok font (s\<lparr>fc_pixels := drawn font s, fc_queue_items := 0\<rparr>)"
    "drawn font (s\<lparr>fc_pixels := drawn font s, fc_queue_items := 0\<rparr>) = drawn font s"
    "visible font (s\<lparr>fc_pixels := drawn font s, fc_queue_items := 0\<rparr>) = visible font s"
  using assms by (simp_all add: grid_ok_def in_grid_def drawn_def visible_def inside_def cell_at_def)

subsection \<open>Pushing a glyph\<close>

definition cell_value :: "u8 \<Rightarrow> u8 \<Rightarrow> u16" where
  "cell_value c col = ucast c OR push_bit 8 (ucast col)"

lemma cell_value_parts [simp]:
  "(ucast (cell_value c col) :: u8) = c" "(ucast (drop_bit 8 (cell_value c col)) :: u8) = col"
  by (rule bit_word_eqI, auto simp: cell_value_def bit_simps dest: bit_imp_le_length)+

lemma low_mask: "(0xff :: u16) = mask 8"
  by (simp add: mask_eq_exp_minus_1)

lemma cell_value_of [simp]: "cell_value (ucast (t AND 0xff)) (ucast (drop_bit 8 t)) = t"
  by (rule bit_word_eqI) (auto simp: cell_value_def bit_simps low_mask)

lemma low_byte [simp]: "(ucast ((t :: u16) AND 0xff) :: u8) = ucast t"
  by (rule bit_word_eqI) (auto simp: bit_simps low_mask)

lemma grid_index:
  assumes "x < w" and "y < h" shows "y * w + x < w * (h :: nat)"
proof -
  have "y * w + x < y * w + w" using assms(1) by simp
  also have "\<dots> = (y + 1) * w" by simp
  also have "\<dots> \<le> h * w" using assms(2) by (intro mult_le_mono1) simp
  finally show ?thesis by (simp add: mult.commute)
qed

lemma grid_small:
  assumes "grid_ok font s" shows "columns s * lines s < 2 ^ 31"
proof -
  have "columns s * lines s \<le> pitch_pixels s * (lines s * 16)" using assms by (intro mult_le_mono) (auto simp: grid_ok_def)
  also have "\<dots> = lines s * 16 * pitch_pixels s" by (simp only: mult.commute)
  also have "\<dots> < 2 ^ 31" using assms by (simp add: grid_ok_def)
  finally show ?thesis .
qed

lemma cell_index_grid:
  assumes "grid_ok font s" and "unat x < columns s" and "unat y < lines s"
  shows "cell_index s x y = Ok (int (unat y * columns s + unat x))"
proof -
  have i: "unat y * columns s + unat x < 2 ^ 31" using grid_index[OF assms(2,3)] grid_small[OF assms(1)] by linarith
  have "cint (int (unat y * columns s)) = Ok (int (unat y * columns s))" by (rule cint_nat) (use i in linarith)
  moreover have "cint (int (unat y * columns s + unat x)) = Ok (int (unat y * columns s + unat x))" by (rule cint_nat) (rule i)
  ultimately show ?thesis by (simp add: cell_index_def)
qed

lemma drawn_push:
  assumes "fc_queue_items s < length (fc_queue s)"
  shows "drawn font (s\<lparr>fc_term_buffer := cells, fc_queue := (fc_queue s)[fc_queue_items s := todo], fc_queue_items := fc_queue_items s + 1\<rparr>)
     = draw font (pitch_pixels s) todo (drawn font s)"
  using assms by (simp add: drawn_def take_Suc_conv_app_nth)

text \<open>Writing a glyph of the grid in the queue and its cell in the buffer keeps the invariant.\<close>

lemma push_inv:
  assumes inv: "console_inv font s" and g: "in_grid s todo" and c: "qi_c todo < 0x80" and q: "fc_queue_items s < length (fc_queue s)"
  shows "console_inv font (s\<lparr>fc_term_buffer := (fc_term_buffer s)[unat (qi_y todo) * columns s + unat (qi_x todo) := cell_value (qi_c todo) (qi_col todo)],
     fc_queue := (fc_queue s)[fc_queue_items s := todo], fc_queue_items := fc_queue_items s + 1\<rparr>)"
proof -
  let ?i = "unat (qi_y todo) * columns s + unat (qi_x todo)" and ?v = "cell_value (qi_c todo) (qi_col todo)"
  let ?s = "s\<lparr>fc_term_buffer := (fc_term_buffer s)[?i := ?v], fc_queue := (fc_queue s)[fc_queue_items s := todo], fc_queue_items := fc_queue_items s + 1\<rparr>"
  have ok: "grid_ok font s" and vis: "visible font s" using inv by (simp_all add: console_inv_def)
  have "\<forall>t \<in> set ((fc_term_buffer s)[?i := ?v]). (ucast t :: u8) < 0x80"
    using ok c set_update_subset_insert[of "fc_term_buffer s" ?i ?v] by (auto simp: grid_ok_def)
  moreover have "\<forall>it \<in> set (take (Suc (fc_queue_items s)) ((fc_queue s)[fc_queue_items s := todo])). in_grid ?s it"
  proof -
    have "take (Suc (fc_queue_items s)) ((fc_queue s)[fc_queue_items s := todo]) = take (fc_queue_items s) (fc_queue s) @ [todo]"
      using q by (simp add: take_Suc_conv_app_nth)
    then show ?thesis using ok g by (auto simp: grid_ok_def in_grid_def)
  qed
  ultimately have "grid_ok font ?s" using ok q by (simp add: grid_ok_def)
  moreover have "visible font ?s" unfolding visible_def
  proof (intro allI impI)
    fix j
    let ?X = "j mod pitch_pixels s" and ?Y = "j div pitch_pixels s"
    assume a: "inside ?s j \<and> cell_at ?s j \<noteq> 0"
    then have i: "inside s j" by (simp add: inside_def)
    then have xy: "?X div 8 < columns s" "?Y div 16 < lines s" "j < length (fc_pixels s)" by (simp_all add: inside_def)
    have k: "?Y div 16 * columns s + ?X div 8 < length (fc_term_buffer s)"
      using grid_index[OF xy(1,2)] ok by (simp add: grid_ok_def)
    have same: "?Y div 16 * columns s + ?X div 8 = ?i \<longleftrightarrow> ?X div 8 = unat (qi_x todo) \<and> ?Y div 16 = unat (qi_y todo)"
    proof -
      have "unat (qi_x todo) < columns s" using g by (simp add: in_grid_def)
      from index_iff[OF this, of ?i "unat (qi_y todo)"] have "?i div columns s = unat (qi_y todo)" "?i mod columns s = unat (qi_x todo)" by blast+
      then show ?thesis using index_iff[OF xy(1), of ?i "?Y div 16"] by metis
    qed
    have d: "drawn font ?s = draw font (pitch_pixels s) todo (drawn font s)" by (rule drawn_push[OF q])
    show "drawn font ?s ! j = glyph_pixel font (ucast (cell_at ?s j)) (ucast (drop_bit 8 (cell_at ?s j)))
       (j div pitch_pixels ?s mod 16) (j mod pitch_pixels ?s mod 8)"
    proof (cases "?Y div 16 * columns s + ?X div 8 = ?i")
      case True
      then have "cell_at ?s j = ?v" using k by (simp add: cell_at_def)
      then show ?thesis unfolding d using True same xy(3) by (simp add: draw_def)
    next
      case False
      then have c: "cell_at ?s j = cell_at s j" by (simp add: cell_at_def)
      have "drawn font ?s ! j = drawn font s ! j" unfolding d using False same xy(3) by (auto simp: draw_def)
      then show ?thesis unfolding c using vis i a c by (simp add: visible_def)
    qed
  qed
  ultimately show ?thesis by (simp add: console_inv_def)
qed

lemma queue_push_inv:
  assumes inv: "console_inv font s" and g: "in_grid s todo" and c: "qi_c todo < 0x80"
  shows "\<exists>s'. queue_push font s todo = Ok s' \<and> console_inv font s' \<and> same_console s s'
     \<and> fc_term_buffer s' = (fc_term_buffer s)[unat (qi_y todo) * columns s + unat (qi_x todo) := cell_value (qi_c todo) (qi_col todo)]"
proof -
  let ?i = "unat (qi_y todo) * columns s + unat (qi_x todo)"
  have ok: "grid_ok font s" using inv by (simp add: console_inv_def)
  have xy: "unat (qi_x todo) < columns s" "unat (qi_y todo) < lines s" using g by (simp_all add: in_grid_def)
  have ci: "cell_index s (qi_x todo) (qi_y todo) = Ok (int ?i)" by (rule cell_index_grid[OF ok xy])
  have i: "?i < length (fc_term_buffer s)" using grid_index[OF xy] ok by (simp add: grid_ok_def)
  have cap: "cint (uint (fc_width_char s) * uint (fc_height_char s)) = Ok (int (columns s * lines s))"
    using cint_nat[OF grid_small[OF ok]] by simp
  have nff: "qi_c todo \<noteq> 0xff" using c by auto
  define s1 where "s1 = (if columns s * lines s \<le> fc_queue_items s then s\<lparr>fc_pixels := drawn font s, fc_queue_items := 0\<rparr> else s)"
  have s1: "(if int (fc_queue_items s) \<ge> int (columns s * lines s) then console_flush font s else Ok s) = Ok s1"
    using console_flush_drawn[OF ok] unfolding of_nat_le_iff s1_def by (cases "columns s * lines s \<le> fc_queue_items s") simp_all
  have inv1: "console_inv font s1" using flushed[OF ok] inv by (simp add: s1_def console_inv_def)
  have f1: "fc_term_buffer s1 = fc_term_buffer s" "fc_queue s1 = fc_queue s" "same_console s s1"
    by (simp_all add: s1_def same_console_def)
  have w1: "columns s1 = columns s" "lines s1 = lines s" using f1(3) by (simp_all add: same_console_def)
  have q1: "fc_queue_items s1 < length (fc_queue s1)" using ok f1(2) by (auto simp: s1_def grid_ok_def)
  have g1: "in_grid s1 todo" using g w1 by (simp add: in_grid_def)
  let ?s = "s1\<lparr>fc_term_buffer := (fc_term_buffer s)[?i := cell_value (qi_c todo) (qi_col todo)],
     fc_queue := (fc_queue s1)[fc_queue_items s1 := todo], fc_queue_items := fc_queue_items s1 + 1\<rparr>"
  have "queue_push font s todo = Ok ?s"
    unfolding queue_push_def ci bnd.simps get_Ok[OF i] cap s1 f1(1) put_Ok[OF i] put_Ok[OF q1]
    using nff by (simp add: cell_value_def)
  moreover have "console_inv font ?s" using push_inv[OF inv1 g1 c q1] unfolding f1(1) w1 by simp
  moreover have "same_console s ?s" using f1(3) by (simp add: same_console_def)
  ultimately show ?thesis by (intro exI[of _ ?s]) simp
qed

section \<open>Scrolling and writing\<close>

text \<open>
  The terminal without queue and pixels: its cells row by row, and the cursor. A new line on the last row
  moves every row up by one.
\<close>

record tty =
  tty_cells :: "u16 list"
  tty_x :: nat
  tty_y :: nat

definition tty_newline :: "nat \<Rightarrow> nat \<Rightarrow> u8 \<Rightarrow> tty \<Rightarrow> tty" where
  "tty_newline w h col t =
     (if h \<le> tty_y t + 1 then t\<lparr>tty_cells := drop w (tty_cells t) @ replicate w (cell_value 0x20 col), tty_x := 0\<rparr>
      else t\<lparr>tty_x := 0, tty_y := tty_y t + 1\<rparr>)"

definition tty_char :: "nat \<Rightarrow> nat \<Rightarrow> u8 \<Rightarrow> tty \<Rightarrow> u8 \<Rightarrow> tty" where
  "tty_char w h col t c =
     (let t = (if 0x20 \<le> c \<and> c < 0x80
               then t\<lparr>tty_cells := (tty_cells t)[tty_y t * w + tty_x t := cell_value c col], tty_x := tty_x t + 1\<rparr> else t) in
      if w \<le> tty_x t \<or> c = 0x0a then tty_newline w h col t else t)"

definition tty_write :: "nat \<Rightarrow> nat \<Rightarrow> u8 \<Rightarrow> tty \<Rightarrow> u8 list \<Rightarrow> tty" where
  "tty_write w h col = foldl (tty_char w h col)"

definition tty_of :: "fbconsole \<Rightarrow> tty" where
  "tty_of s = \<lparr>tty_cells = fc_term_buffer s, tty_x = unat (fc_cursor_x s), tty_y = unat (fc_cursor_y s)\<rparr>"

definition cursor_ok :: "fbconsole \<Rightarrow> bool" where
  "cursor_ok s \<longleftrightarrow> unat (fc_cursor_x s) < columns s \<and> unat (fc_cursor_y s) < lines s"

lemma console_inv_cursor [simp]:
  "console_inv font (s\<lparr>fc_cursor_x := x\<rparr>) = console_inv font s" "console_inv font (s\<lparr>fc_cursor_y := y\<rparr>) = console_inv font s"
  "console_inv font (s\<lparr>fc_lock := l\<rparr>) = console_inv font s"
  by (simp_all add: console_inv_def grid_ok_def in_grid_def visible_def inside_def cell_at_def drawn_def)

lemma word_of_nat_u16: "i < unat (w :: u16) \<Longrightarrow> unat (of_nat i :: u16) = i"
proof -
  have "(unsigned w :: nat) < 2 ^ LENGTH(16)" by (rule unsigned_less)
  then show "i < unat (w :: u16) \<Longrightarrow> unat (of_nat i :: u16) = i" by (simp add: unat_of_nat)
qed

lemma grid_cell:
  assumes "console_inv font s" and "n < columns s * lines s"
  shows "(ucast (fc_term_buffer s ! n) :: u8) < 0x80"
  using assms by (simp add: console_inv_def grid_ok_def)

lemma scroll_row_cells:
  assumes "console_inv font s" and "0 < i" and "i < lines s" and "j + k = columns s"
  shows "\<exists>s'. scroll_row font s i j k = Ok s' \<and> console_inv font s' \<and> same_console s s'
     \<and> (\<forall>n<columns s * lines s. fc_term_buffer s' ! n
        = fc_term_buffer s ! (if (i - 1) * columns s + j \<le> n \<and> n < i * columns s then n + columns s else n))"
  using assms(1,3,4)
proof (induction k arbitrary: s j)
  case 0
  have "columns s + (i - 1) * columns s = i * columns s" using assms(2) by (cases i) simp_all
  then have "\<not> ((i - 1) * columns s + j \<le> n \<and> n < i * columns s)" for n using 0(3) by linarith
  then show ?case using 0 same_console_refl by auto
next
  case (Suc k)
  let ?W = "columns s" and ?t = "fc_term_buffer s"
  have ok: "grid_ok font s" using Suc.prems(1) by (simp add: console_inv_def)
  have lt: "length ?t = ?W * lines s" using ok by (simp add: grid_ok_def)
  have j: "j < ?W" using Suc.prems(3) by simp
  have i1: "i - 1 < lines s" using Suc.prems(2) by simp
  have n: "i * ?W + j < ?W * lines s" by (rule grid_index[OF j Suc.prems(2)])
  then have n31: "i * ?W + j < 2 ^ 31" using grid_small[OF ok] by linarith
  let ?tar = "?t ! (i * ?W + j)"
  let ?it = "\<lparr>qi_x = of_nat j, qi_y = of_nat (i - 1), qi_c = ucast (?tar AND 0xff), qi_col = ucast (drop_bit 8 ?tar)\<rparr>"
  have u: "unat (of_nat j :: u16) = j" "unat (of_nat (i - 1) :: u16) = i - 1"
    using word_of_nat_u16[OF j] word_of_nat_u16[OF i1] by simp_all
  have g: "in_grid s ?it" using j i1 u by (simp add: in_grid_def)
  have c: "qi_c ?it < 0x80" using grid_cell[OF Suc.prems(1) n] by simp
  obtain s1 where s1: "queue_push font s ?it = Ok s1" "console_inv font s1" "same_console s s1"
    "fc_term_buffer s1 = ?t[(i - 1) * ?W + j := ?tar]"
    using queue_push_inv[OF Suc.prems(1) g c] u by (auto simp del: low_byte)
  have w1: "columns s1 = ?W" "lines s1 = lines s" using s1(3) by (simp_all add: same_console_def)
  obtain s2 where s2: "scroll_row font s1 i (Suc j) k = Ok s2" "console_inv font s2" "same_console s1 s2"
    "\<forall>n<?W * lines s. fc_term_buffer s2 ! n = fc_term_buffer s1 ! (if (i - 1) * ?W + Suc j \<le> n \<and> n < i * ?W then n + ?W else n)"
    using Suc.IH[of s1 "Suc j"] s1(2) Suc.prems(2,3) w1 by auto
  have "cint (int i * uint (fc_width_char s)) = Ok (int (i * ?W))" using cint_nat[of "i * ?W"] n31 by simp
  moreover have "cint (int (i * ?W) + int j) = Ok (int (i * ?W + j))" using cint_nat[OF n31] by simp
  moreover have "get ?t (int (i * ?W + j)) = Ok ?tar" by (rule get_Ok) (use n lt in simp)
  ultimately have "scroll_row font s i j (Suc k) = Ok s2"
    using s1(1) s2(1) by (simp only: scroll_row.simps bnd.simps)
  moreover have "fc_term_buffer s2 ! m = ?t ! (if (i - 1) * ?W + j \<le> m \<and> m < i * ?W then m + ?W else m)" if m: "m < ?W * lines s" for m
  proof -
    have iw: "i * ?W = (i - 1) * ?W + ?W" using assms(2) by (cases i) simp_all
    then have tar: "i * ?W + j = (i - 1) * ?W + j + ?W" by simp
    let ?k = "if (i - 1) * ?W + Suc j \<le> m \<and> m < i * ?W then m + ?W else m"
    have "fc_term_buffer s2 ! m = ?t[(i - 1) * ?W + j := ?tar] ! ?k" using s2(4) m s1(4) by simp
    also have "\<dots> = ?t ! (if (i - 1) * ?W + j \<le> m \<and> m < i * ?W then m + ?W else m)"
    proof (cases "m = (i - 1) * ?W + j")
      case True
      then show ?thesis using m lt tar iw j by (simp add: ac_simps)
    next
      case False
      then have "?k \<noteq> (i - 1) * ?W + j" by auto
      moreover have "(i - 1) * ?W + Suc j \<le> m \<longleftrightarrow> (i - 1) * ?W + j \<le> m" using False by linarith
      ultimately show ?thesis by (simp only: nth_list_update_neq not_sym)
    qed
    finally show ?thesis .
  qed
  ultimately show ?case using s2(2) same_console_trans[OF s1(3) s2(3)] by blast
qed

lemma scroll_rows_cells:
  assumes "console_inv font s" and "0 < i" and "i + k = lines s"
  shows "\<exists>s'. scroll_rows font s i k = Ok s' \<and> console_inv font s' \<and> same_console s s'
     \<and> (\<forall>n<columns s * lines s. fc_term_buffer s' ! n
        = fc_term_buffer s ! (if (i - 1) * columns s \<le> n \<and> n < (lines s - 1) * columns s then n + columns s else n))"
  using assms
proof (induction k arbitrary: s i)
  case 0
  then have "\<not> ((i - 1) * columns s \<le> n \<and> n < (lines s - 1) * columns s)" for n by auto
  then show ?case using 0 same_console_refl by auto
next
  case (Suc k)
  let ?W = "columns s" and ?t = "fc_term_buffer s"
  obtain s1 where s1: "scroll_row font s i 0 ?W = Ok s1" "console_inv font s1" "same_console s s1"
    "\<forall>n<?W * lines s. fc_term_buffer s1 ! n = ?t ! (if (i - 1) * ?W \<le> n \<and> n < i * ?W then n + ?W else n)"
    using scroll_row_cells[OF Suc.prems(1,2), of 0 ?W] Suc.prems(3) by auto
  have w1: "columns s1 = ?W" "lines s1 = lines s" using s1(3) by (simp_all add: same_console_def)
  obtain s2 where s2: "scroll_rows font s1 (Suc i) k = Ok s2" "console_inv font s2" "same_console s1 s2"
    "\<forall>n<?W * lines s. fc_term_buffer s2 ! n = fc_term_buffer s1 ! (if i * ?W \<le> n \<and> n < (lines s - 1) * ?W then n + ?W else n)"
    using Suc.IH[of s1 "Suc i"] s1(2) Suc.prems(3) w1 by auto
  have "fc_term_buffer s2 ! n = ?t ! (if (i - 1) * ?W \<le> n \<and> n < (lines s - 1) * ?W then n + ?W else n)" if n: "n < ?W * lines s" for n
  proof -
    have le: "(i - 1) * ?W \<le> i * ?W" "i * ?W \<le> (lines s - 1) * ?W" using Suc.prems(3) by (auto intro!: mult_le_mono1)
    show ?thesis
    proof (cases "i * ?W \<le> n \<and> n < (lines s - 1) * ?W")
      case True
      have hw: "(lines s - 1) * ?W + ?W = ?W * lines s" using Suc.prems(3) by (cases "lines s") simp_all
      then have "n + ?W < ?W * lines s" using True by linarith
      then have "fc_term_buffer s1 ! (n + ?W) = ?t ! (n + ?W)" using s1(4) True by simp
      moreover have "(i - 1) * ?W \<le> n" using True le by linarith
      ultimately show ?thesis using s2(4) n True by simp
    next
      case False
      then have "fc_term_buffer s2 ! n = fc_term_buffer s1 ! n" using s2(4) n by auto
      moreover have "n < i * ?W \<longleftrightarrow> n < (lines s - 1) * ?W" using False le by linarith
      ultimately show ?thesis using s1(4) n by simp
    qed
  qed
  then show ?case using s1(1) s2(1,2) same_console_trans[OF s1(3) s2(3)] by auto
qed

lemma clear_bottom_cells:
  assumes "console_inv font s" and "j + k = columns s"
  shows "\<exists>s'. clear_bottom font s j k = Ok s' \<and> console_inv font s' \<and> same_console s s'
     \<and> (\<forall>n<columns s * lines s. fc_term_buffer s' ! n
        = (if (lines s - 1) * columns s + j \<le> n then cell_value 0x20 (fc_color s) else fc_term_buffer s ! n))"
  using assms
proof (induction k arbitrary: s j)
  case 0
  have "0 < lines s" using 0(1) by (simp add: console_inv_def grid_ok_def)
  then have "(lines s - 1) * columns s + columns s = columns s * lines s" by (cases "lines s") simp_all
  then have "\<not> (lines s - 1) * columns s + j \<le> n" if "n < columns s * lines s" for n using that 0(2) by simp
  then show ?case using 0 same_console_refl by auto
next
  case (Suc k)
  let ?W = "columns s" and ?t = "fc_term_buffer s" and ?b = "(lines s - 1) * columns s"
  have ok: "grid_ok font s" using Suc.prems(1) by (simp add: console_inv_def)
  have lt: "length ?t = ?W * lines s" "0 < lines s" using ok by (simp_all add: grid_ok_def)
  have j: "j < ?W" using Suc.prems(2) by simp
  let ?it = "\<lparr>qi_x = of_nat j, qi_y = fc_height_char s - 1, qi_c = 0x20, qi_col = fc_color s\<rparr>"
  have u: "unat (of_nat j :: u16) = j" "unat (fc_height_char s - 1) = lines s - 1"
    using word_of_nat_u16[OF j] lt(2) by (simp_all add: unat_minus_one unat_gt_0)
  have g: "in_grid s ?it" using j lt(2) u by (simp add: in_grid_def)
  obtain s1 where s1: "queue_push font s ?it = Ok s1" "console_inv font s1" "same_console s s1"
    "fc_term_buffer s1 = ?t[?b + j := cell_value 0x20 (fc_color s)]"
    using queue_push_inv[OF Suc.prems(1) g] u by auto
  have w1: "columns s1 = ?W" "lines s1 = lines s" "fc_color s1 = fc_color s" using s1(3) by (simp_all add: same_console_def)
  obtain s2 where s2: "clear_bottom font s1 (Suc j) k = Ok s2" "console_inv font s2" "same_console s1 s2"
    "\<forall>n<?W * lines s. fc_term_buffer s2 ! n = (if ?b + Suc j \<le> n then cell_value 0x20 (fc_color s) else fc_term_buffer s1 ! n)"
    using Suc.IH[of s1 "Suc j"] s1(2) Suc.prems(2) w1 by auto
  have "fc_term_buffer s2 ! n = (if ?b + j \<le> n then cell_value 0x20 (fc_color s) else ?t ! n)" if n: "n < ?W * lines s" for n
    using s2(4) n s1(4) lt(1) by (cases "n = ?b + j") auto
  then show ?case using s1(1) s2(1,2) same_console_trans[OF s1(3) s2(3)] by auto
qed

lemma scroll_cells:
  assumes "console_inv font s"
  shows "\<exists>s'. scroll font s = Ok s' \<and> console_inv font s' \<and> same_console (s\<lparr>fc_cursor_x := 0\<rparr>) s'
     \<and> fc_term_buffer s' = drop (columns s) (fc_term_buffer s) @ replicate (columns s) (cell_value 0x20 (fc_color s))"
proof -
  let ?W = "columns s" and ?t = "fc_term_buffer s"
  have lt: "length ?t = ?W * lines s" "0 < lines s" using assms by (simp_all add: console_inv_def grid_ok_def)
  have hw: "(lines s - 1) * ?W + ?W = ?W * lines s" using lt(2) by (cases "lines s") simp_all
  obtain s1 where s1: "scroll_rows font s 1 (lines s - 1) = Ok s1" "console_inv font s1" "same_console s s1"
    "\<forall>n<?W * lines s. fc_term_buffer s1 ! n = ?t ! (if n < (lines s - 1) * ?W then n + ?W else n)"
    using scroll_rows_cells[OF assms, of 1 "lines s - 1"] lt(2) by auto
  have w1: "columns s1 = ?W" "lines s1 = lines s" "fc_color s1 = fc_color s" using s1(3) by (simp_all add: same_console_def)
  obtain s2 where s2: "clear_bottom font s1 0 ?W = Ok s2" "console_inv font s2" "same_console s1 s2"
    "\<forall>n<?W * lines s. fc_term_buffer s2 ! n = (if (lines s - 1) * ?W \<le> n then cell_value 0x20 (fc_color s) else fc_term_buffer s1 ! n)"
    using clear_bottom_cells[OF s1(2), of 0 ?W] w1 by auto
  have "same_console s s2" by (rule same_console_trans[OF s1(3) s2(3)])
  have w2: "columns s2 = ?W" "lines s2 = lines s" using \<open>same_console s s2\<close> by (simp_all add: same_console_def)
  have l2: "length (fc_term_buffer s2) = ?W * lines s" using s2(2) w2 by (simp add: console_inv_def grid_ok_def)
  have "fc_term_buffer s2 = drop ?W ?t @ replicate ?W (cell_value 0x20 (fc_color s))"
  proof (rule nth_equalityI)
    show "length (fc_term_buffer s2) = length (drop ?W ?t @ replicate ?W (cell_value 0x20 (fc_color s)))" using l2 lt hw by simp
    fix n assume "n < length (fc_term_buffer s2)"
    then have n: "n < ?W * lines s" using l2 by simp
    have ld: "length (drop ?W ?t) = (lines s - 1) * ?W" using lt hw by simp
    show "fc_term_buffer s2 ! n = (drop ?W ?t @ replicate ?W (cell_value 0x20 (fc_color s))) ! n"
    proof (cases "n < (lines s - 1) * ?W")
      case True
      then have "fc_term_buffer s2 ! n = ?t ! (n + ?W)" using s2(4) s1(4) n by simp
      moreover have "(drop ?W ?t @ replicate ?W (cell_value 0x20 (fc_color s))) ! n = drop ?W ?t ! n" using True ld by (simp add: nth_append)
      moreover have "drop ?W ?t ! n = ?t ! (?W + n)" by (rule nth_drop) (use lt(1) hw in linarith)
      ultimately show ?thesis by (simp add: add.commute)
    next
      case False
      then have "fc_term_buffer s2 ! n = cell_value 0x20 (fc_color s)" using s2(4) n by simp
      moreover have "n - (lines s - 1) * ?W < ?W" using n hw False by linarith
      ultimately show ?thesis using False ld by (simp add: nth_append)
    qed
  qed
  moreover have "scroll font s = Ok (s2\<lparr>fc_cursor_x := 0\<rparr>)" using s1(1) s2(1) w1 by (simp add: scroll_def)
  moreover have "same_console (s\<lparr>fc_cursor_x := 0\<rparr>) (s2\<lparr>fc_cursor_x := 0\<rparr>)" using \<open>same_console s s2\<close> by (simp add: same_console_def)
  ultimately show ?thesis using s2(2) by (intro exI[of _ "s2\<lparr>fc_cursor_x := 0\<rparr>"]) simp
qed

text \<open>Which parts of a console a terminal step keeps.\<close>

definition same_screen :: "fbconsole \<Rightarrow> fbconsole \<Rightarrow> bool" where
  "same_screen s s' \<longleftrightarrow> fc_pitch s' = fc_pitch s \<and> fc_width_char s' = fc_width_char s \<and> fc_height_char s' = fc_height_char s
     \<and> fc_color s' = fc_color s \<and> fc_lock s' = fc_lock s \<and> length (fc_pixels s') = length (fc_pixels s)"

lemma same_screen_trans: "same_screen s s' \<Longrightarrow> same_screen s' s'' \<Longrightarrow> same_screen s s''"
  by (simp add: same_screen_def)

lemma carriage_return_tty:
  assumes inv: "console_inv font s" and y: "unat (fc_cursor_y s) < lines s"
  shows "\<exists>s'. console_carriage_return font s = Ok s' \<and> console_inv font s' \<and> cursor_ok s' \<and> same_screen s s'
     \<and> tty_of s' = tty_newline (columns s) (lines s) (fc_color s) (tty_of s)"
proof -
  have pos: "0 < columns s" "0 < lines s" using inv by (simp_all add: console_inv_def grid_ok_def)
  have le: "uint (fc_cursor_y s) + 1 \<ge> uint (fc_height_char s) \<longleftrightarrow> lines s \<le> unat (fc_cursor_y s) + 1"
  proof -
    have "uint (fc_cursor_y s) = int (unat (fc_cursor_y s))" "uint (fc_height_char s) = int (lines s)" by simp_all
    then show ?thesis by linarith
  qed
  show ?thesis
  proof (cases "lines s \<le> unat (fc_cursor_y s) + 1")
    case True
    obtain s1 where s1: "scroll font s = Ok s1" "console_inv font s1" "same_console (s\<lparr>fc_cursor_x := 0\<rparr>) s1"
      "fc_term_buffer s1 = drop (columns s) (fc_term_buffer s) @ replicate (columns s) (cell_value 0x20 (fc_color s))"
      using scroll_cells[OF inv] by blast
    have "console_carriage_return font s = Ok s1" using True le s1(1) by (simp add: console_carriage_return_def)
    moreover have "cursor_ok s1" "same_screen s s1" using s1(3) y pos by (simp_all add: same_console_def cursor_ok_def same_screen_def)
    moreover have "tty_of s1 = tty_newline (columns s) (lines s) (fc_color s) (tty_of s)"
      using s1(3,4) True by (simp add: tty_of_def tty_newline_def same_console_def)
    ultimately show ?thesis using s1(2) by blast
  next
    case False
    let ?s = "s\<lparr>fc_cursor_x := 0, fc_cursor_y := fc_cursor_y s + 1\<rparr>"
    have "unat (fc_cursor_y s) + 1 < 2 ^ LENGTH(16)"
    proof -
      have "(unsigned (fc_height_char s) :: nat) < 2 ^ LENGTH(16)" by (rule unsigned_less)
      then show ?thesis using False by simp
    qed
    then have u: "unat (fc_cursor_y s + 1) = unat (fc_cursor_y s) + 1" by (simp add: unat_word_ariths)
    have "console_carriage_return font s = Ok ?s" using False le by (simp add: console_carriage_return_def)
    moreover have "cursor_ok ?s" using pos False u by (simp add: cursor_ok_def)
    moreover have "same_screen s ?s" by (simp add: same_screen_def)
    moreover have "tty_of ?s = tty_newline (columns s) (lines s) (fc_color s) (tty_of s)" using False u by (simp add: tty_of_def tty_newline_def)
    moreover have "console_inv font ?s"
      using inv by (simp add: console_inv_cursor(1)[of font 0 "s\<lparr>fc_cursor_y := fc_cursor_y s + 1\<rparr>", simplified])
    ultimately show ?thesis by blast
  qed
qed

lemma write_char_tty:
  assumes inv: "console_inv font s" and cur: "cursor_ok s"
  shows "\<exists>s'. write_char font s c = Ok s' \<and> console_inv font s' \<and> cursor_ok s' \<and> same_screen s s'
     \<and> tty_of s' = tty_char (columns s) (lines s) (fc_color s) (tty_of s) c"
proof -
  let ?W = "columns s"
  let ?t = "if 0x20 \<le> c \<and> c < 0x80 then (tty_of s)\<lparr>tty_cells := (tty_cells (tty_of s))[tty_y (tty_of s) * ?W + tty_x (tty_of s) := cell_value c (fc_color s)],
    tty_x := tty_x (tty_of s) + 1\<rparr> else tty_of s"
  have xy: "unat (fc_cursor_x s) < ?W" "unat (fc_cursor_y s) < lines s" using cur by (simp_all add: cursor_ok_def)
  have "\<exists>s1. (if 0x20 \<le> c \<and> c < 0x80 then bnd (console_write_glyph font s c) (\<lambda>s. Ok (s\<lparr>fc_cursor_x := fc_cursor_x s + 1\<rparr>)) else Ok s) = Ok s1
     \<and> console_inv font s1 \<and> same_screen s s1 \<and> unat (fc_cursor_y s1) < lines s1 \<and> tty_of s1 = ?t"
  proof (cases "0x20 \<le> c \<and> c < 0x80")
    case False
    then show ?thesis using inv xy by (auto simp: same_screen_def)
  next
    case True
    let ?it = "\<lparr>qi_x = fc_cursor_x s, qi_y = fc_cursor_y s, qi_c = c, qi_col = fc_color s\<rparr>"
    have g: "in_grid s ?it" using xy by (simp add: in_grid_def)
    obtain s1 where s1: "queue_push font s ?it = Ok s1" "console_inv font s1" "same_console s s1"
      "fc_term_buffer s1 = (fc_term_buffer s)[unat (fc_cursor_y s) * ?W + unat (fc_cursor_x s) := cell_value c (fc_color s)]"
      using queue_push_inv[OF inv g] True by auto
    let ?s = "s1\<lparr>fc_cursor_x := fc_cursor_x s1 + 1\<rparr>"
    have x: "fc_cursor_x s1 = fc_cursor_x s" "fc_cursor_y s1 = fc_cursor_y s" "lines s1 = lines s" using s1(3) by (simp_all add: same_console_def)
    have "unat (fc_cursor_x s) + 1 < 2 ^ LENGTH(16)"
    proof -
      have "(unsigned (fc_width_char s) :: nat) < 2 ^ LENGTH(16)" by (rule unsigned_less)
      then show ?thesis using xy(1) by simp
    qed
    then have u: "unat (fc_cursor_x s + 1) = unat (fc_cursor_x s) + 1" by (simp add: unat_word_ariths)
    have "tty_of ?s = ?t" using True u x s1(4) by (simp add: tty_of_def)
    moreover have "same_screen s ?s" using s1(3) by (simp add: same_console_def same_screen_def)
    ultimately show ?thesis using True s1(1,2) x xy(2) by (intro exI[of _ ?s]) (simp add: console_write_glyph_def)
  qed
  then obtain s1 where s1: "(if 0x20 \<le> c \<and> c < 0x80 then bnd (console_write_glyph font s c) (\<lambda>s. Ok (s\<lparr>fc_cursor_x := fc_cursor_x s + 1\<rparr>)) else Ok s) = Ok s1"
    "console_inv font s1" "same_screen s s1" "unat (fc_cursor_y s1) < lines s1" "tty_of s1 = ?t" by blast
  have x1: "unat (fc_cursor_x s1) = tty_x ?t" by (simp add: s1(5)[symmetric] tty_of_def)
  have w1: "columns s1 = ?W" "lines s1 = lines s" "fc_color s1 = fc_color s" using s1(3) by (simp_all add: same_screen_def)
  have br: "fc_width_char s1 \<le> fc_cursor_x s1 \<or> c = 0x0a \<longleftrightarrow> ?W \<le> tty_x ?t \<or> c = 0x0a"
    using x1 w1(1) by (simp add: word_le_nat_alt)
  show ?thesis
  proof (cases "?W \<le> tty_x ?t \<or> c = 0x0a")
    case True
    obtain s2 where s2: "console_carriage_return font s1 = Ok s2" "console_inv font s2" "cursor_ok s2" "same_screen s1 s2"
      "tty_of s2 = tty_newline ?W (lines s) (fc_color s) ?t"
      using carriage_return_tty[OF s1(2,4)] unfolding w1 s1(5) by blast
    have "write_char font s c = Ok s2" unfolding write_char_def s1(1) bnd.simps br using True s2(1) by simp
    moreover have "tty_char ?W (lines s) (fc_color s) (tty_of s) c = tty_newline ?W (lines s) (fc_color s) ?t"
      unfolding tty_char_def Let_def using True by (simp only: if_True)
    ultimately show ?thesis using s2 same_screen_trans[OF s1(3) s2(4)] by auto
  next
    case False
    have "write_char font s c = Ok s1" unfolding write_char_def s1(1) bnd.simps br using False by simp
    moreover have "tty_char ?W (lines s) (fc_color s) (tty_of s) c = ?t"
      unfolding tty_char_def Let_def using False by (simp only: if_False)
    moreover have "cursor_ok s1" using False x1 w1 s1(4) by (simp add: cursor_ok_def not_le)
    ultimately show ?thesis using s1 by auto
  qed
qed

lemma write_loop_tty:
  assumes "console_inv font s" and "cursor_ok s" and "cstr m (str + of_nat idx) msg" and "idx + length msg + 1 < 2 ^ 31"
  shows "\<exists>s'. write_loop font m s str idx = Ok s' \<and> console_inv font s' \<and> cursor_ok s' \<and> same_screen s s'
     \<and> tty_of s' = tty_write (columns s) (lines s) (fc_color s) (tty_of s) msg"
  using assms
proof (induction msg arbitrary: s idx)
  case Nil
  then show ?case by (simp add: write_loop.simps[of font m s str idx] load_def tty_write_def same_screen_def)
next
  case (Cons c msg)
  obtain s1 where s1: "write_char font s c = Ok s1" "console_inv font s1" "cursor_ok s1" "same_screen s s1"
    "tty_of s1 = tty_char (columns s) (lines s) (fc_color s) (tty_of s) c"
    using write_char_tty[OF Cons.prems(1,2)] by blast
  have w1: "columns s1 = columns s" "lines s1 = lines s" "fc_color s1 = fc_color s" using s1(4) by (simp_all add: same_screen_def)
  have "cstr m (str + of_nat (Suc idx)) msg" "Suc idx + length msg + 1 < 2 ^ 31" using Cons.prems(3,4) by (simp_all add: ac_simps)
  from Cons.IH[OF s1(2,3) this] obtain s2 where s2: "write_loop font m s1 str (Suc idx) = Ok s2" "console_inv font s2" "cursor_ok s2"
    "same_screen s1 s2" "tty_of s2 = tty_write (columns s) (lines s) (fc_color s) (tty_of s1) msg" unfolding w1 by blast
  have "write_loop font m s str idx = Ok s2"
    using Cons.prems(3,4) s1(1) s2(1) by (simp add: write_loop.simps[of font m s str idx] load_def)
  moreover have "tty_of s2 = tty_write (columns s) (lines s) (fc_color s) (tty_of s) (c # msg)"
    using s2(5) s1(5) by (simp add: tty_write_def)
  ultimately show ?case using s2(2,3) same_screen_trans[OF s1(4) s2(4)] by blast
qed

section \<open>Properties of drivers/fbconsole.c\<close>

text \<open>
  C9: The console is a terminal. On a console in a good state, with its lock free, \<open>console_write\<close> of a
  string ends without a fault, leaves the lock free and nothing queued, and its cells and cursor are those
  of the abstract terminal after the characters of the string: printable ones are written at the
  cursor, and at the end of a line or at a newline the cursor goes to the next one, with all rows
  moved up by one at the bottom.
\<close>

theorem console_write_terminal:
  assumes "console_inv font s" and "cursor_ok s" and "fc_lock s = 0" and "cstr m str msg" and "length msg + 1 < 2 ^ 31"
  shows "\<exists>s'. console_write font m s str = Ok s' \<and> console_inv font s' \<and> cursor_ok s' \<and> fc_lock s' = 0 \<and> fc_queue_items s' = 0
     \<and> tty_of s' = tty_write (columns s) (lines s) (fc_color s) (tty_of s) msg"
proof -
  let ?s = "s\<lparr>fc_lock := 1\<rparr>"
  have p: "console_inv font ?s" "cursor_ok ?s" "cstr m (str + of_nat 0) msg" "0 + length msg + 1 < 2 ^ 31"
    using assms by (simp_all add: cursor_ok_def)
  obtain s1 where s1: "write_loop font m ?s str 0 = Ok s1" "console_inv font s1" "cursor_ok s1"
    "tty_of s1 = tty_write (columns s) (lines s) (fc_color s) (tty_of s) msg"
    using write_loop_tty[OF p] by (auto simp: tty_of_def)
  have ok: "grid_ok font s1" using s1(2) by (simp add: console_inv_def)
  let ?s2 = "s1\<lparr>fc_pixels := drawn font s1, fc_queue_items := 0\<rparr>"
  have "console_write font m s str = Ok (?s2\<lparr>fc_lock := 0\<rparr>)"
    using assms(3) s1(1) console_flush_drawn[OF ok] by (simp add: console_write_def)
  moreover have "console_inv font (?s2\<lparr>fc_lock := 0\<rparr>)"
    using flushed[OF ok] s1(2) unfolding console_inv_cursor by (simp add: console_inv_def)
  ultimately show ?thesis using s1(3,4) by (intro exI[of _ "?s2\<lparr>fc_lock := 0\<rparr>"]) (simp add: cursor_ok_def tty_of_def)
qed

text \<open>A console of two rows and two columns, with a font of empty glyphs.\<close>

definition demo_console :: fbconsole where
  "demo_console = \<lparr>fc_pitch = 64, fc_cursor_x = 0, fc_cursor_y = 0, fc_width_char = 2, fc_height_char = 2, fc_width = 32, fc_height = 32,
     fc_color = 15, fc_term_buffer = replicate 4 0, fc_queue = replicate 4 \<lparr>qi_x = 0, qi_y = 0, qi_c = 0, qi_col = 0\<rparr>,
     fc_queue_items = 0, fc_lock = 0, fc_pixels = replicate 512 0, fc_enabled = True\<rparr>"

lemma demo_console_ok: "console_inv (replicate 4096 0) demo_console" "cursor_ok demo_console" "fc_lock demo_console = 0"
proof -
  have p: "pitch_pixels demo_console = 16" by (simp add: demo_console_def line_pixels_def)
  have "grid_ok (replicate 4096 0) demo_console"
    unfolding grid_ok_def p by (simp add: demo_console_def in_grid_def)
  moreover have "cell_at demo_console j = 0" if i: "inside demo_console j" for j
  proof -
    have xy: "j mod 16 div 8 < 2" "j div 16 div 16 < 2" using i by (simp_all add: inside_def p) (simp_all add: demo_console_def)
    then have "j div 16 div 16 * 2 + j mod 16 div 8 < 4" by linarith
    then have "replicate 4 (0 :: u16) ! (j div 16 div 16 * 2 + j mod 16 div 8) = 0" by (rule nth_replicate)
    then show ?thesis by (simp add: cell_at_def p) (simp add: demo_console_def)
  qed
  ultimately show "console_inv (replicate 4096 0) demo_console" by (auto simp: console_inv_def visible_def)
  show "cursor_ok demo_console" "fc_lock demo_console = 0" by (simp_all add: demo_console_def cursor_ok_def)
qed

definition demo_text :: mem where
  "demo_text = [0x100 \<mapsto> 0x61, 0x101 \<mapsto> 0x0a, 0x102 \<mapsto> 0x62, 0x103 \<mapsto> 0x63, 0x104 \<mapsto> 0x64, 0x105 \<mapsto> 0]"

lemma demo_text_ok: "cstr demo_text 0x100 [0x61, 0x0a, 0x62, 0x63, 0x64]"
  by (simp add: demo_text_def)

lemma demo_cells:
  "tty_write 2 2 15 (tty_of demo_console) [0x61, 0x0a, 0x62, 0x63, 0x64] = \<lparr>tty_cells = [0x0f62, 0x0f63, 0x0f64, 0x0f20], tty_x = 1, tty_y = 1\<rparr>"
  by code_simp

theorem console_write_terminal_witness:
  "\<exists>s'. console_write (replicate 4096 0) demo_text demo_console 0x100 = Ok s'
     \<and> fc_term_buffer s' = [0x0f62, 0x0f63, 0x0f64, 0x0f20] \<and> unat (fc_cursor_x s') = 1 \<and> fc_queue_items s' = 0"
proof -
  have w: "columns demo_console = 2" "lines demo_console = 2" "fc_color demo_console = 15" by (simp_all add: demo_console_def)
  obtain s' where s': "console_write (replicate 4096 0) demo_text demo_console 0x100 = Ok s'" "fc_queue_items s' = 0"
    "tty_of s' = tty_write 2 2 15 (tty_of demo_console) [0x61, 0x0a, 0x62, 0x63, 0x64]"
    using console_write_terminal[OF demo_console_ok demo_text_ok] unfolding w by auto
  then show ?thesis unfolding demo_cells by (auto simp: tty_of_def)
qed

text \<open>
  C18: The screen shows the terminal. On a console in a good state, \<open>console_write\<close> draws: after it every pixel
  of every cell that has been written, now or before, is the pixel of the glyph of the character of the
  cell in its colours, however often the queue was flushed on the way.
\<close>

theorem console_write_shows:
  assumes "console_inv font s" and "cursor_ok s" and "fc_lock s = 0" and "cstr m str msg" and "length msg + 1 < 2 ^ 31"
  shows "\<exists>s'. console_write font m s str = Ok s' \<and> (\<forall>j. inside s j \<and> cell_at s' j \<noteq> 0 \<longrightarrow>
     fc_pixels s' ! j = glyph_pixel font (ucast (cell_at s' j)) (ucast (drop_bit 8 (cell_at s' j)))
       (j div pitch_pixels s mod 16) (j mod pitch_pixels s mod 8))"
proof -
  let ?s = "s\<lparr>fc_lock := 1\<rparr>"
  have p: "console_inv font ?s" "cursor_ok ?s" "cstr m (str + of_nat 0) msg" "0 + length msg + 1 < 2 ^ 31"
    using assms by (simp_all add: cursor_ok_def)
  obtain s1 where s1: "write_loop font m ?s str 0 = Ok s1" "console_inv font s1" "same_screen ?s s1"
    using write_loop_tty[OF p] by blast
  have ok: "grid_ok font s1" and v: "visible font s1" using s1(2) by (simp_all add: console_inv_def)
  let ?s2 = "s1\<lparr>fc_pixels := drawn font s1, fc_queue_items := 0, fc_lock := 0\<rparr>"
  have "console_write font m s str = Ok ?s2"
    using assms(3) s1(1) console_flush_drawn[OF ok] by (simp add: console_write_def)
  moreover have "inside s j = inside s1 j" "pitch_pixels s1 = pitch_pixels s" "cell_at ?s2 j = cell_at s1 j" for j
    using s1(3) by (simp_all add: same_screen_def inside_def cell_at_def)
  ultimately show ?thesis using v by (intro exI[of _ ?s2]) (simp add: visible_def)
qed

theorem console_write_shows_witness:
  "\<exists>s'. console_write (replicate 4096 0) demo_text demo_console 0x100 = Ok s' \<and> (\<forall>j. inside demo_console j \<and> cell_at s' j \<noteq> 0 \<longrightarrow>
     fc_pixels s' ! j = glyph_pixel (replicate 4096 0) (ucast (cell_at s' j)) (ucast (drop_bit 8 (cell_at s' j)))
       (j div pitch_pixels demo_console mod 16) (j mod pitch_pixels demo_console mod 8))"
  by (rule console_write_shows[OF demo_console_ok demo_text_ok]) simp

section \<open>The first screen\<close>

lemma blank_column_pixels:
  assumes "grid_ok font s" and "i < columns s" and "j + k = lines s" and "length fb = length (fc_pixels s)"
  shows "\<exists>fb'. blank_column font (s\<lparr>fc_pixels := fb\<rparr>) i j k = Ok (s\<lparr>fc_pixels := fb'\<rparr>) \<and> length fb' = length fb
     \<and> (\<forall>n<length fb. fb' ! n = (if n mod pitch_pixels s div 8 = i \<and> j \<le> n div pitch_pixels s div 16 \<and> n div pitch_pixels s div 16 < lines s
          then glyph_pixel font 0x20 (fc_color s) (n div pitch_pixels s mod 16) (n mod pitch_pixels s mod 8) else fb ! n))"
  using assms(3,4)
proof (induction k arbitrary: j fb)
  case 0
  then show ?case by auto
next
  case (Suc k)
  let ?P = "pitch_pixels s" and ?it = "\<lparr>qi_x = of_nat i, qi_y = of_nat j, qi_c = 0x20, qi_col = fc_color s\<rparr>"
  have j: "j < lines s" using Suc.prems(1) by simp
  have u: "unat (of_nat i :: u16) = i" "unat (of_nat j :: u16) = j" using word_of_nat_u16[OF assms(2)] word_of_nat_u16[OF j] by simp_all
  have "on_screen (fc_pitch s) fb ?it"
    by (rule grid_on_screen[OF assms(1) _ Suc.prems(2)]) (use u assms(2) j in \<open>simp add: in_grid_def\<close>)
  then have pg: "put_glyph font (s\<lparr>fc_pixels := fb\<rparr>) ?it = Ok (s\<lparr>fc_pixels := draw font ?P ?it fb\<rparr>)"
    using put_glyph_draw[of "s\<lparr>fc_pixels := fb\<rparr>" ?it font] assms(1) by (simp add: grid_ok_def)
  obtain fb' where fb': "blank_column font (s\<lparr>fc_pixels := draw font ?P ?it fb\<rparr>) i (Suc j) k = Ok (s\<lparr>fc_pixels := fb'\<rparr>)" "length fb' = length fb"
    "\<forall>n<length fb. fb' ! n = (if n mod ?P div 8 = i \<and> Suc j \<le> n div ?P div 16 \<and> n div ?P div 16 < lines s
       then glyph_pixel font 0x20 (fc_color s) (n div ?P mod 16) (n mod ?P mod 8) else draw font ?P ?it fb ! n)"
    using Suc.IH[of "Suc j" "draw font ?P ?it fb"] Suc.prems by auto
  have "fb' ! n = (if n mod ?P div 8 = i \<and> j \<le> n div ?P div 16 \<and> n div ?P div 16 < lines s
       then glyph_pixel font 0x20 (fc_color s) (n div ?P mod 16) (n mod ?P mod 8) else fb ! n)" if n: "n < length fb" for n
  proof -
    have d: "draw font ?P ?it fb ! n = (if n mod ?P div 8 = i \<and> n div ?P div 16 = j
       then glyph_pixel font 0x20 (fc_color s) (n div ?P mod 16) (n mod ?P mod 8) else fb ! n)" using n u by (simp add: draw_def)
    show ?thesis using fb'(3)[rule_format, OF n] d j by (cases "n div ?P div 16 = j") auto
  qed
  then show ?case using pg fb'(1,2) by auto
qed

lemma blank_columns_pixels:
  assumes "grid_ok font s" and "i + k = columns s" and "length fb = length (fc_pixels s)"
  shows "\<exists>fb'. blank_columns font (s\<lparr>fc_pixels := fb\<rparr>) i k = Ok (s\<lparr>fc_pixels := fb'\<rparr>) \<and> length fb' = length fb
     \<and> (\<forall>n<length fb. i \<le> n mod pitch_pixels s div 8 \<and> n mod pitch_pixels s div 8 < columns s \<and> n div pitch_pixels s div 16 < lines s
          \<longrightarrow> fb' ! n = glyph_pixel font 0x20 (fc_color s) (n div pitch_pixels s mod 16) (n mod pitch_pixels s mod 8))
     \<and> (\<forall>n<length fb. n mod pitch_pixels s div 8 < i \<longrightarrow> fb' ! n = fb ! n)"
  using assms(2,3)
proof (induction k arbitrary: i fb)
  case 0
  then show ?case by auto
next
  case (Suc k)
  let ?P = "pitch_pixels s"
  have i: "i < columns s" using Suc.prems(1) by simp
  obtain fb1 where fb1: "blank_column font (s\<lparr>fc_pixels := fb\<rparr>) i 0 (lines s) = Ok (s\<lparr>fc_pixels := fb1\<rparr>)" "length fb1 = length fb"
    "\<forall>n<length fb. fb1 ! n = (if n mod ?P div 8 = i \<and> 0 \<le> n div ?P div 16 \<and> n div ?P div 16 < lines s
       then glyph_pixel font 0x20 (fc_color s) (n div ?P mod 16) (n mod ?P mod 8) else fb ! n)"
    using blank_column_pixels[OF assms(1) i add_0 Suc.prems(2)] by blast
  obtain fb2 where fb2: "blank_columns font (s\<lparr>fc_pixels := fb1\<rparr>) (Suc i) k = Ok (s\<lparr>fc_pixels := fb2\<rparr>)" "length fb2 = length fb1"
    "\<forall>n<length fb1. Suc i \<le> n mod ?P div 8 \<and> n mod ?P div 8 < columns s \<and> n div ?P div 16 < lines s
       \<longrightarrow> fb2 ! n = glyph_pixel font 0x20 (fc_color s) (n div ?P mod 16) (n mod ?P mod 8)"
    "\<forall>n<length fb1. n mod ?P div 8 < Suc i \<longrightarrow> fb2 ! n = fb1 ! n"
    using Suc.IH[of "Suc i" fb1] Suc.prems fb1(2) by auto
  have "blank_columns font (s\<lparr>fc_pixels := fb\<rparr>) i (Suc k) = Ok (s\<lparr>fc_pixels := fb2\<rparr>)" using fb1(1) fb2(1) by simp
  moreover have "fb2 ! n = glyph_pixel font 0x20 (fc_color s) (n div ?P mod 16) (n mod ?P mod 8)"
    if "n < length fb" "i \<le> n mod ?P div 8" "n mod ?P div 8 < columns s" "n div ?P div 16 < lines s" for n
    using that fb1(2,3) fb2(3,4) by (cases "n mod ?P div 8 = i") auto
  moreover have "fb2 ! n = fb ! n" if "n < length fb" "n mod ?P div 8 < i" for n using that fb1(2,3) fb2(4) by auto
  ultimately show ?case using fb1(2) fb2(2) by auto
qed

text \<open>
  The console starts up blank. For a frame buffer that is not larger than 65535 in each direction, whose
  lines hold the characters and whose memory holds the lines, \<open>console_init\<close> ends in a good state, with the
  cursor at the top left, the lock free and no cell written, and every pixel of the screen shows a blank.
\<close>

theorem console_init_blank:
  assumes "length font = 4096" and "w = unat (lf_width f div 8)" and "h = unat (lf_height f div 16)" and "P = unat (lf_pitch f) div 4"
    and "0 < w" and "w < 2 ^ 16" and "0 < h" and "h < 2 ^ 16" and "unat (lf_pitch f) < 2 ^ 16"
    and "w * 8 \<le> P" and "h * 16 * P \<le> length pixels" and "h * 16 * P < 2 ^ 31"
  shows "\<exists>s'. console_init False font pixels f s = Ok s' \<and> console_inv font s' \<and> cursor_ok s' \<and> fc_lock s' = 0
     \<and> fc_cursor_x s' = 0 \<and> fc_cursor_y s' = 0 \<and> fc_term_buffer s' = replicate (w * h) 0
     \<and> (\<forall>n<length pixels. n mod P div 8 < w \<and> n div P div 16 < h \<longrightarrow>
          fc_pixels s' ! n = glyph_pixel font 0x20 (COLOR WHITE BLACK) (n div P mod 16) (n mod P mod 8))"
proof -
  define W :: u16 where "W = ucast (lf_width f div 8)"
  define H :: u16 where "H = ucast (lf_height f div 16)"
  define T :: u16 where "T = ucast (lf_pitch f)"
  have u: "unat W = w" "unat H = h" "unat T = unat (lf_pitch f)"
    using assms(2,3,6,8,9) by (simp_all add: W_def H_def T_def unsigned_ucast_eq take_bit_nat_eq_self)
  have P: "line_pixels T = P" using assms(4) u(3) by (simp add: line_pixels_def)
  let ?s = "\<lparr>fc_pitch = T, fc_cursor_x = 0, fc_cursor_y = 0, fc_width_char = W, fc_height_char = H,
            fc_width = ucast (lf_height f), fc_height = ucast (lf_height f), fc_color = COLOR WHITE BLACK,
            fc_term_buffer = replicate (w * h) 0, fc_queue = replicate (w * h) \<lparr>qi_x = 0, qi_y = 0, qi_c = 0, qi_col = 0\<rparr>,
            fc_queue_items = 0, fc_lock = 0, fc_pixels = pixels, fc_enabled = False\<rparr>"
  have ok: "grid_ok font ?s" using assms(1,5,7,10-12) u P by (simp add: grid_ok_def)
  have wh: "w * h < 2 ^ 31" using grid_small[OF ok] u by simp
  have sel: "columns ?s = w" "lines ?s = h" "pitch_pixels ?s = P" "fc_pixels ?s = pixels" using u P by simp_all
  obtain fb where fb: "blank_columns font (?s\<lparr>fc_pixels := pixels\<rparr>) 0 w = Ok (?s\<lparr>fc_pixels := fb\<rparr>)" "length fb = length pixels"
    "\<forall>n<length pixels. 0 \<le> n mod P div 8 \<and> n mod P div 8 < w \<and> n div P div 16 < h
       \<longrightarrow> fb ! n = glyph_pixel font 0x20 (fc_color ?s) (n div P mod 16) (n mod P mod 8)"
    using blank_columns_pixels[OF ok, of 0 w pixels] unfolding sel by auto
  have nw: "nat (int w * int h) = w * h" by (metis nat_int of_nat_mult)
  have "cint (uint W * uint H) = Ok (int (w * h))" using cint_nat[OF wh] u by (metis of_nat_mult uint_nat)
  then have "console_init False font pixels f s = Ok (?s\<lparr>fc_pixels := fb, fc_enabled := True\<rparr>)"
    using fb(1) u(1) nw by (simp add: console_init_def Let_def W_def[symmetric] H_def[symmetric] T_def[symmetric])
  moreover have "grid_ok font (?s\<lparr>fc_pixels := fb, fc_enabled := True\<rparr>)" using ok fb(2) by (simp add: grid_ok_def)
  moreover have "visible font (?s\<lparr>fc_pixels := fb, fc_enabled := True\<rparr>)"
  proof -
    have "cell_at (?s\<lparr>fc_pixels := fb, fc_enabled := True\<rparr>) j = 0" if "inside (?s\<lparr>fc_pixels := fb, fc_enabled := True\<rparr>) j" for j
    proof -
      have "j mod P div 8 < w" "j div P div 16 < h" using that u P by (simp_all add: inside_def)
      from grid_index[OF this] show ?thesis using u P by (simp add: cell_at_def)
    qed
    then show ?thesis unfolding visible_def by blast
  qed
  ultimately show ?thesis using fb(3) assms(5,7) u
    by (intro exI[of _ "?s\<lparr>fc_pixels := fb, fc_enabled := True\<rparr>"]) (simp add: console_inv_def cursor_ok_def)
qed

theorem console_init_blank_witness:
  "\<exists>s'. console_init False (replicate 4096 0) (replicate 512 0) \<lparr>lf_width = 16, lf_height = 32, lf_pitch = 64\<rparr> demo_console = Ok s'
     \<and> console_inv (replicate 4096 0) s' \<and> cursor_ok s' \<and> fc_term_buffer s' = [0, 0, 0, 0]"
proof -
  have "\<exists>s'. console_init False (replicate 4096 0) (replicate 512 0) \<lparr>lf_width = 16, lf_height = 32, lf_pitch = 64\<rparr> demo_console = Ok s'
     \<and> console_inv (replicate 4096 0) s' \<and> cursor_ok s' \<and> fc_lock s' = 0 \<and> fc_cursor_x s' = 0 \<and> fc_cursor_y s' = 0
     \<and> fc_term_buffer s' = replicate (2 * 2) 0
     \<and> (\<forall>n<length (replicate 512 (0 :: u32)). n mod 16 div 8 < 2 \<and> n div 16 div 16 < 2 \<longrightarrow>
          fc_pixels s' ! n = glyph_pixel (replicate 4096 0) 0x20 (COLOR WHITE BLACK) (n div 16 mod 16) (n mod 16 mod 8))"
    by (rule console_init_blank) simp_all
  moreover have "replicate (2 * 2) (0 :: u16) = [0, 0, 0, 0]" by (simp add: numeral_eq_Suc)
  ultimately show ?thesis by metis
qed

end
