(* ===== verification/Tmpfs.thy ===== *)
theory Tmpfs
  imports Spinlock
begin

section \<open>fs/tmpfs.c: the memory file system\<close>

text \<open>
  The objects of the file systems live in one heap per kind, at the addresses \<open>kzalloc\<close> hands out
  (\<open>fs_fresh\<close>, in that order; NULL once it is used up). Three things are kept by the value they
  stand for and not by the structure that holds it: a name is its bytes without the NUL, a list of
  children is the list of the pointers in its \<open>dlist\<close>, and a hash map is the list of its bindings in
  the order they were added, of which a lookup finds the oldest. That these structures implement
  these values is what the theories on strings, lists and hash maps prove. The block \<open>data\<close> points
  to is the list of its bytes; \<open>fs_junk\<close> is what a block holds when \<open>vmalloc\<close> returns it.
\<close>

type_synonym name = "u8 list"

record tmpfs_inode =
  ti_name :: name
  ti_children :: "addr list"
  ti_data :: "u8 list"
  ti_number :: int
  ti_length :: int
  ti_effective :: int
  ti_mode :: u16

record tmpfs_superblock =
  current_inode :: int
  tnode_cache :: "(int \<times> addr) list"

text \<open>The tables of operations a vnode can point to, and their fields.\<close>

datatype ops_table = No_Ops | Tmpfs_Operations

datatype vop = Op_open | Op_read | Op_write | Op_ioctl | Op_getdirents | Op_lookup | Op_mkdir | Op_create
  | Op_chmod | Op_remove | Op_rmdir | Op_move | Op_create_node | Op_destroy_node

record vnode =
  vn_lock :: u64
  vn_ops :: ops_table
  vn_vfs :: addr
  vn_private :: addr
  vn_refcount :: int
  vn_mode :: u16
  vn_number :: int
  vn_size :: int

record vfs =
  vf_id :: int
  vf_root :: addr
  vf_private :: addr
  vf_lock :: u64

record dentry =
  de_name :: name
  de_parent :: addr
  de_vnode :: addr
  de_refcount :: int

record fs =
  fs_inodes :: "addr \<rightharpoonup> tmpfs_inode"
  fs_sbs :: "addr \<rightharpoonup> tmpfs_superblock"
  fs_vnodes :: "addr \<rightharpoonup> vnode"
  fs_vfss :: "addr \<rightharpoonup> vfs"
  fs_dentries :: "addr \<rightharpoonup> dentry"
  fs_dcache :: "((addr \<times> name) \<times> addr) list"
  fs_vcache :: "((addr \<times> int) \<times> addr) list"
  fs_root :: addr
  fs_upcount :: int
  fs_fresh :: "addr list"
  fs_junk :: "nat \<Rightarrow> u8"

definition ENOENT :: int where "ENOENT = 2"
definition EEXIST :: int where "EEXIST = 17"
definition EINVAL :: int where "EINVAL = 22"
definition ENOSYS :: int where "ENOSYS = 38"

definition S_IFMT :: u16 where "S_IFMT = 0xf000"
definition S_IFREG :: u16 where "S_IFREG = 0x8000"
definition S_IFDIR :: u16 where "S_IFDIR = 0x4000"
definition S_IFBLK :: u16 where "S_IFBLK = 0x6000"

definition S_ISREG :: "u16 \<Rightarrow> bool" where "S_ISREG m \<longleftrightarrow> m AND S_IFMT = S_IFREG"
definition S_ISDIR :: "u16 \<Rightarrow> bool" where "S_ISDIR m \<longleftrightarrow> m AND S_IFMT = S_IFDIR"
definition S_ISBLK :: "u16 \<Rightarrow> bool" where "S_ISBLK m \<longleftrightarrow> m AND S_IFMT = S_IFBLK"

text \<open>The fields \<open>tmpfs_operations\<close> sets.\<close>

definition tmpfs_operations :: "vop set" where
  "tmpfs_operations = {Op_mkdir, Op_create, Op_lookup, Op_create_node, Op_read, Op_write}"

definition kzalloc :: "fs \<Rightarrow> addr \<times> fs" where
  "kzalloc s = (case fs_fresh s of [] \<Rightarrow> (NULL, s) | a # as \<Rightarrow> (a, s\<lparr>fs_fresh := as\<rparr>))"

definition oldest :: "('k \<times> addr) list \<Rightarrow> 'k \<Rightarrow> addr" where
  "oldest bs k = (case filter (\<lambda>b. fst b = k) bs of [] \<Rightarrow> NULL | b # _ \<Rightarrow> snd b)"

text \<open>A \<open>long\<close> result, and the \<open>int\<close> a \<open>long\<close> is cut to when it is returned as one.\<close>

definition long :: "int \<Rightarrow> int result" where
  "long x = (if - (2 ^ 63) \<le> x \<and> x < 2 ^ 63 then Ok x else Fault Overflow)"

definition as_int :: "int \<Rightarrow> int" where
  "as_int x = signed_take_bit 31 x"

subsection \<open>Directories\<close>

fun has_child :: "(addr \<rightharpoonup> tmpfs_inode) \<Rightarrow> addr list \<Rightarrow> name \<Rightarrow> bool result" where
  "has_child ti [] name = Ok False"
| "has_child ti (c # cs) name =
     bnd (fetch ti c) (\<lambda>i. if ti_name i = name then Ok True else has_child ti cs name)"

definition tmpfs_has_file :: "fs \<Rightarrow> addr \<Rightarrow> name \<Rightarrow> bool result" where
  "tmpfs_has_file s node name =
     bnd (fetch (fs_inodes s) node) (\<lambda>i. has_child (fs_inodes s) (ti_children i) name)"

definition put_vnode :: "fs \<Rightarrow> addr \<Rightarrow> vnode \<Rightarrow> fs" where
  "put_vnode s a v = s\<lparr>fs_vnodes := (fs_vnodes s)(a \<mapsto> v)\<rparr>"

definition put_inode :: "fs \<Rightarrow> addr \<Rightarrow> tmpfs_inode \<Rightarrow> fs" where
  "put_inode s a i = s\<lparr>fs_inodes := (fs_inodes s)(a \<mapsto> i)\<rparr>"

text \<open>The next inode number, taken under the lock of the file system.\<close>

definition next_inode :: "fs \<Rightarrow> addr \<Rightarrow> (int \<times> fs) result" where
  "next_inode s f =
     bnd (fetch (fs_vfss s) f) (\<lambda>vf.
     bnd (lock_word (vf_lock vf)) (\<lambda>_.
     bnd (fetch (fs_sbs s) (vf_private vf)) (\<lambda>b.
     bnd (long (current_inode b + 1)) (\<lambda>n.
     Ok (current_inode b, s\<lparr>fs_sbs := (fs_sbs s)(vf_private vf \<mapsto> b\<lparr>current_inode := n\<rparr>)\<rparr>)))))"

text \<open>
  \<open>tmpfs_mkdir\<close> and \<open>tmpfs_create\<close> differ in the type bits only. The early return leaves the lock of the
  vnode taken.
\<close>

definition tmpfs_add_child :: "u16 \<Rightarrow> fs \<Rightarrow> addr \<Rightarrow> name \<Rightarrow> u16 \<Rightarrow> (int \<times> fs) result" where
  "tmpfs_add_child type s node name flags =
     bnd (fetch (fs_vnodes s) node) (\<lambda>v.
     bnd (lock_word (vn_lock v)) (\<lambda>l.
     let s = put_vnode s node (v\<lparr>vn_lock := l\<rparr>);
         tnode = vn_private v in
     bnd (fetch (fs_vfss s) (vn_vfs v)) (\<lambda>vf.
     let tblock = vf_private vf in
     bnd (tmpfs_has_file s tnode name) (\<lambda>exists.
     if exists then Ok (- EEXIST, s) else
     let (child, s) = kzalloc s in
     if child = NULL then Fault Null_Deref else
     bnd (next_inode s (vn_vfs v)) (\<lambda>(number, s).
     let s = put_inode s child \<lparr>ti_name = name, ti_children = [], ti_data = [], ti_number = number,
               ti_length = 0, ti_effective = 0, ti_mode = (flags AND NOT S_IFMT) OR type\<rparr> in
     bnd (fetch (fs_inodes s) tnode) (\<lambda>t.
     let s = put_inode s tnode (t\<lparr>ti_children := ti_children t @ [child]\<rparr>) in
     bnd (fetch (fs_sbs s) tblock) (\<lambda>b.
     let s = s\<lparr>fs_sbs := (fs_sbs s)(tblock \<mapsto> b\<lparr>tnode_cache := tnode_cache b @ [(number, child)]\<rparr>)\<rparr> in
     bnd (fetch (fs_vnodes s) node) (\<lambda>v.
     Ok (0, put_vnode s node (v\<lparr>vn_lock := unlock_word (vn_lock v)\<rparr>))))))))))"

definition tmpfs_mkdir :: "fs \<Rightarrow> addr \<Rightarrow> name \<Rightarrow> u16 \<Rightarrow> (int \<times> fs) result" where
  "tmpfs_mkdir s node name flags = tmpfs_add_child S_IFDIR s node name flags"

definition tmpfs_create :: "fs \<Rightarrow> addr \<Rightarrow> name \<Rightarrow> u16 \<Rightarrow> (int \<times> fs) result" where
  "tmpfs_create s node name flags = tmpfs_add_child S_IFREG s node name flags"

fun find_number :: "(addr \<rightharpoonup> tmpfs_inode) \<Rightarrow> addr list \<Rightarrow> name \<Rightarrow> int option result" where
  "find_number ti [] name = Ok None"
| "find_number ti (c # cs) name =
     bnd (fetch ti c) (\<lambda>i. if ti_name i = name then Ok (Some (ti_number i)) else find_number ti cs name)"

definition tmpfs_lookup :: "fs \<Rightarrow> addr \<Rightarrow> name \<Rightarrow> (int \<times> int \<times> fs) result" where
  "tmpfs_lookup s node name =
     bnd (fetch (fs_vnodes s) node) (\<lambda>v.
     bnd (lock_word (vn_lock v)) (\<lambda>l.
     let s = put_vnode s node (v\<lparr>vn_lock := l\<rparr>) in
     bnd (fetch (fs_inodes s) (vn_private v)) (\<lambda>t.
     bnd (find_number (fs_inodes s) (ti_children t) name) (\<lambda>r.
     let s = put_vnode s node (v\<lparr>vn_lock := unlock_word l\<rparr>) in
     Ok (case r of None \<Rightarrow> (- ENOENT, 0, s) | Some num \<Rightarrow> (0, num, s))))))"

definition tmpfs_create_node :: "fs \<Rightarrow> addr \<Rightarrow> int \<Rightarrow> (int \<times> addr \<times> fs) result" where
  "tmpfs_create_node s node num =
     bnd (fetch (fs_vnodes s) node) (\<lambda>v.
     bnd (fetch (fs_vfss s) (vn_vfs v)) (\<lambda>vf.
     bnd (fetch (fs_sbs s) (vf_private vf)) (\<lambda>b.
     let tnode = oldest (tnode_cache b) num in
     if tnode = NULL then Ok (- ENOENT, NULL, s) else
     let (new, s) = kzalloc s in
     if new = NULL then Fault Null_Deref else
     bnd (fetch (fs_inodes s) tnode) (\<lambda>t.
     Ok (0, new, put_vnode s new \<lparr>vn_lock = 0, vn_ops = Tmpfs_Operations, vn_vfs = vn_vfs v, vn_private = tnode,
       vn_refcount = 1, vn_mode = ti_mode t, vn_number = num, vn_size = ti_length t\<rparr>)))))"

subsection \<open>Files\<close>

text \<open>
  \<open>memcpy\<close> between a block and a caller's buffer: a negative count is a huge one. The read copies from
  the start of the block, whatever the offset.
\<close>

definition copy_out :: "u8 list \<Rightarrow> int \<Rightarrow> u8 list result" where
  "copy_out block n = (if n < 0 then Fault Wild_Access else if int (length block) < n then Fault Out_Of_Bounds
     else Ok (take (nat n) block))"

definition copy_in :: "u8 list \<Rightarrow> int \<Rightarrow> u8 list \<Rightarrow> int \<Rightarrow> u8 list result" where
  "copy_in block off buf n =
     (if n = 0 then Ok block
      else bnd (copy_out buf n) (\<lambda>bs.
        if off < 0 \<or> int (length block) < off + n then Fault Out_Of_Bounds
        else Ok (take (nat off) block @ bs @ drop (nat off + length bs) block)))"

definition tmpfs_read :: "fs \<Rightarrow> addr \<Rightarrow> int \<Rightarrow> int \<Rightarrow> (int \<times> u8 list) result" where
  "tmpfs_read s node n off =
     bnd (fetch (fs_vnodes s) node) (\<lambda>v.
     if \<not> S_ISREG (vn_mode v) then Ok (- EINVAL, []) else
     bnd (fetch (fs_inodes s) (vn_private v)) (\<lambda>t.
     if off \<ge> ti_length t then Ok (0, []) else
     bnd (long (ti_length t - off)) (\<lambda>available.
     let to_read = min n available in
     bnd (copy_out (ti_data t) to_read) (\<lambda>bs.
     Ok (as_int to_read, bs)))))"

definition tmpfs_grow :: "fs \<Rightarrow> tmpfs_inode \<Rightarrow> int \<Rightarrow> tmpfs_inode result" where
  "tmpfs_grow s t new_length =
     bnd (long (new_length + 0xfff)) (\<lambda>x.
     let alloc_size = x - x mod 0x1000;
         new = List.map (fs_junk s) [0..<nat alloc_size] in
     bnd (copy_out (ti_data t) (ti_length t)) (\<lambda>old.
     bnd (copy_in new 0 old (ti_length t)) (\<lambda>new.
     Ok (t\<lparr>ti_data := new, ti_effective := alloc_size\<rparr>))))"

definition tmpfs_write :: "fs \<Rightarrow> addr \<Rightarrow> u8 list \<Rightarrow> int \<Rightarrow> int \<Rightarrow> (int \<times> fs) result" where
  "tmpfs_write s node buf n off =
     bnd (fetch (fs_vnodes s) node) (\<lambda>v.
     if \<not> S_ISREG (vn_mode v) then Ok (- EINVAL, s) else
     bnd (fetch (fs_inodes s) (vn_private v)) (\<lambda>t.
     bnd (long (off + n)) (\<lambda>e.
     let new_length = max (ti_length t) e in
     bnd (if new_length > ti_effective t then tmpfs_grow s t new_length else Ok t) (\<lambda>t.
     bnd (copy_in (ti_data t) off buf n) (\<lambda>d.
     let t = t\<lparr>ti_data := d, ti_length := new_length\<rparr>;
         s = put_inode s (vn_private v) t in
     Ok (as_int n, put_vnode s node (v\<lparr>vn_size := ti_length t\<rparr>)))))))"

section \<open>Well-formed file systems\<close>

text \<open>
  \<open>mount_ok s f B\<close>: the file system \<open>f\<close> is mounted with superblock \<open>B\<close>, whose cache binds every inode
  number in use to its inode, the inodes form a graph of directories with distinct names, and the
  block of every file has its effective length and covers its length.
\<close>

definition ino :: "fs \<Rightarrow> addr \<Rightarrow> tmpfs_inode" where
  "ino s p = the (fs_inodes s p)"

definition nodes :: "tmpfs_superblock \<Rightarrow> addr set" where
  "nodes B = snd ` set (tnode_cache B)"

definition inode_ok :: "fs \<Rightarrow> tmpfs_superblock \<Rightarrow> addr \<Rightarrow> bool" where
  "inode_ok s B p \<longleftrightarrow> p \<noteq> NULL \<and> fs_inodes s p \<noteq> None \<and> set (ti_children (ino s p)) \<subseteq> nodes B
     \<and> distinct (List.map (\<lambda>c. ti_name (ino s c)) (ti_children (ino s p)))
     \<and> 0 \<le> ti_length (ino s p) \<and> ti_length (ino s p) \<le> ti_effective (ino s p)
     \<and> int (length (ti_data (ino s p))) = ti_effective (ino s p)"

definition mount_ok :: "fs \<Rightarrow> addr \<Rightarrow> tmpfs_superblock \<Rightarrow> bool" where
  "mount_ok s f B \<longleftrightarrow> f \<noteq> NULL \<and> (\<exists>F. fs_vfss s f = Some F \<and> vf_lock F = 0 \<and> vf_private F \<noteq> NULL \<and> fs_sbs s (vf_private F) = Some B)
     \<and> distinct (List.map fst (tnode_cache B))
     \<and> (\<forall>(k, p) \<in> set (tnode_cache B). k < current_inode B \<and> inode_ok s B p \<and> ti_number (ino s p) = k)"

definition fresh_ok :: "fs \<Rightarrow> bool" where
  "fresh_ok s \<longleftrightarrow> distinct (fs_fresh s) \<and> NULL \<notin> set (fs_fresh s)
     \<and> (\<forall>a \<in> set (fs_fresh s). fs_inodes s a = None \<and> fs_vnodes s a = None \<and> fs_dentries s a = None)"

definition vnode_ok :: "fs \<Rightarrow> addr \<Rightarrow> tmpfs_superblock \<Rightarrow> addr \<Rightarrow> addr \<Rightarrow> bool" where
  "vnode_ok s f B v p \<longleftrightarrow> v \<noteq> NULL \<and> p \<in> nodes B \<and> (\<exists>V. fs_vnodes s v = Some V \<and> vn_lock V = 0
     \<and> vn_ops V = Tmpfs_Operations \<and> vn_vfs V = f \<and> vn_private V = p
     \<and> (S_ISREG (vn_mode V) \<longleftrightarrow> S_ISREG (ti_mode (ino s p))))"

text \<open>The entry of a directory with a given name.\<close>

definition entry :: "fs \<Rightarrow> addr \<Rightarrow> name \<Rightarrow> addr option" where
  "entry s p n = List.find (\<lambda>c. ti_name (ino s c) = n) (ti_children (ino s p))"

lemma mount_okD:
  assumes "mount_ok s f B" and "p \<in> nodes B"
  shows "inode_ok s B p" "(ti_number (ino s p), p) \<in> set (tnode_cache B)"
  using assms by (auto simp: mount_ok_def nodes_def)

lemma ino_Some: "inode_ok s B p \<Longrightarrow> fs_inodes s p = Some (ino s p) \<and> p \<noteq> NULL"
proof -
  assume "inode_ok s B p"
  then have "p \<noteq> NULL" "fs_inodes s p \<noteq> None" unfolding inode_ok_def by blast+
  then show ?thesis by (auto simp: ino_def)
qed

lemma fetch_ino: "inode_ok s B p \<Longrightarrow> fetch (fs_inodes s) p = Ok (ino s p)"
  using ino_Some by (simp add: fetch_def)

lemma has_child_find:
  "\<forall>c \<in> set cs. fetch (fs_inodes s) c = Ok (ino s c) \<Longrightarrow>
   has_child (fs_inodes s) cs n = Ok (List.find (\<lambda>c. ti_name (ino s c) = n) cs \<noteq> None)"
  by (induction cs) auto

lemma find_number_find:
  "\<forall>c \<in> set cs. fetch (fs_inodes s) c = Ok (ino s c) \<Longrightarrow>
   find_number (fs_inodes s) cs n = Ok (map_option (\<lambda>c. ti_number (ino s c)) (List.find (\<lambda>c. ti_name (ino s c) = n) cs))"
  by (induction cs) auto

lemma children_fetch:
  assumes "mount_ok s f B" and "p \<in> nodes B"
  shows "\<forall>c \<in> set (ti_children (ino s p)). fetch (fs_inodes s) c = Ok (ino s c)"
proof
  fix c assume c: "c \<in> set (ti_children (ino s p))"
  have "set (ti_children (ino s p)) \<subseteq> nodes B" using mount_okD(1)[OF assms] by (simp add: inode_ok_def)
  then have "c \<in> nodes B" using c by blast
  then show "fetch (fs_inodes s) c = Ok (ino s c)" using fetch_ino mount_okD(1)[OF assms(1)] by blast
qed

lemma tmpfs_has_file_entry:
  assumes "mount_ok s f B" and "p \<in> nodes B"
  shows "tmpfs_has_file s p n = Ok (entry s p n \<noteq> None)"
  using fetch_ino[OF mount_okD(1)[OF assms]] has_child_find[OF children_fetch[OF assms]]
  by (simp add: tmpfs_has_file_def entry_def)

lemma find_SomeD: "List.find P xs = Some x \<Longrightarrow> x \<in> set xs \<and> P x"
  by (induction xs) (auto split: if_splits)

lemma entry_node:
  assumes "mount_ok s f B" and "p \<in> nodes B" and "entry s p n = Some c"
  shows "c \<in> nodes B" "ti_name (ino s c) = n"
  using mount_okD(1)[OF assms(1,2)] find_SomeD[OF assms(3)[unfolded entry_def]] by (auto simp: inode_ok_def)

lemma put_vnode_same: "fs_vnodes s v = Some V \<Longrightarrow> put_vnode s v V = s"
  by (cases s) (simp add: put_vnode_def fun_upd_idem)

lemma put_vnode_twice: "put_vnode (put_vnode s v V) v W = put_vnode s v W"
  by (simp add: put_vnode_def)

lemma put_vnode_simps [simp]:
  "fs_inodes (put_vnode s v V) = fs_inodes s" "fs_sbs (put_vnode s v V) = fs_sbs s" "fs_vfss (put_vnode s v V) = fs_vfss s"
  "fs_fresh (put_vnode s v V) = fs_fresh s" "fs_dentries (put_vnode s v V) = fs_dentries s" "fs_junk (put_vnode s v V) = fs_junk s"
  "fs_vnodes (put_vnode s v V) = (fs_vnodes s)(v \<mapsto> V)" "fs_root (put_vnode s v V) = fs_root s"
  "fs_upcount (put_vnode s v V) = fs_upcount s"
  "fs_dcache (put_vnode s v V) = fs_dcache s" "fs_vcache (put_vnode s v V) = fs_vcache s"
  by (simp_all add: put_vnode_def)

lemma put_inode_simps [simp]:
  "fs_vnodes (put_inode s p i) = fs_vnodes s" "fs_sbs (put_inode s p i) = fs_sbs s" "fs_vfss (put_inode s p i) = fs_vfss s"
  "fs_fresh (put_inode s p i) = fs_fresh s" "fs_dentries (put_inode s p i) = fs_dentries s" "fs_junk (put_inode s p i) = fs_junk s"
  "fs_inodes (put_inode s p i) = (fs_inodes s)(p \<mapsto> i)" "fs_root (put_inode s p i) = fs_root s"
  "fs_upcount (put_inode s p i) = fs_upcount s"
  "fs_dcache (put_inode s p i) = fs_dcache s" "fs_vcache (put_inode s p i) = fs_vcache s"
  by (simp_all add: put_inode_def)

lemma ino_put [simp]:
  "ino (put_vnode s v V) p = ino s p" "ino (put_inode s q i) p = (if p = q then i else ino s p)"
  "ino (s\<lparr>fs_sbs := x\<rparr>) p = ino s p" "ino (s\<lparr>fs_fresh := y\<rparr>) p = ino s p" "ino (s\<lparr>fs_dentries := z\<rparr>) p = ino s p"
  by (simp_all add: ino_def)

lemma kzalloc_simps: "fs_fresh s = a # as \<Longrightarrow> kzalloc s = (a, s\<lparr>fs_fresh := as\<rparr>)"
  by (simp add: kzalloc_def)

lemma tmpfs_lookup_entry:
  assumes "mount_ok s f B" and "vnode_ok s f B v p"
  shows "tmpfs_lookup s v n = Ok (case entry s p n of None \<Rightarrow> (- ENOENT, 0, s) | Some c \<Rightarrow> (0, ti_number (ino s c), s))"
proof -
  obtain V where V: "v \<noteq> NULL" "p \<in> nodes B" "fs_vnodes s v = Some V" "vn_lock V = 0" "vn_private V = p"
    using assms(2) by (auto simp: vnode_ok_def)
  have i: "fetch (fs_inodes s) p = Ok (ino s p)" by (rule fetch_ino[OF mount_okD(1)[OF assms(1) V(2)]])
  have same: "V\<lparr>vn_lock := 0\<rparr> = V" using V(4) by (cases V) simp
  show ?thesis
    using V i find_number_find[OF children_fetch[OF assms(1) V(2)], of n]
    by (simp add: tmpfs_lookup_def entry_def put_vnode_twice same put_vnode_same Let_def split: option.splits)
qed

lemma oldest_unique:
  "distinct (List.map fst bs) \<Longrightarrow> (k, a) \<in> set bs \<Longrightarrow> oldest bs k = a"
proof (induction bs)
  case (Cons b bs)
  have tail: "oldest (b # bs) k = oldest bs k" if "fst b \<noteq> k" using that by (simp add: oldest_def)
  show ?case
  proof (cases "fst b = k")
    case True
    then have "k \<notin> fst ` set bs" using Cons.prems(1) by auto
    then have "(k, a) \<notin> set bs" by (metis fst_conv image_eqI)
    then have "b = (k, a)" using Cons.prems(2) by simp
    then show ?thesis by (simp add: oldest_def)
  next
    case False
    then show ?thesis using Cons tail by auto
  qed
qed simp

lemma tmpfs_create_node_new:
  assumes "mount_ok s f B" and "vnode_ok s f B v p" and "q \<in> nodes B" and "fs_fresh s = a # as" and "fresh_ok s"
  shows "tmpfs_create_node s v (ti_number (ino s q)) = Ok (0, a, put_vnode (s\<lparr>fs_fresh := as\<rparr>) a
     \<lparr>vn_lock = 0, vn_ops = Tmpfs_Operations, vn_vfs = f, vn_private = q, vn_refcount = 1, vn_mode = ti_mode (ino s q),
      vn_number = ti_number (ino s q), vn_size = ti_length (ino s q)\<rparr>)"
proof -
  obtain V where V: "v \<noteq> NULL" "fs_vnodes s v = Some V" "vn_vfs V = f" using assms(2) by (auto simp: vnode_ok_def)
  obtain F where F: "f \<noteq> NULL" "fs_vfss s f = Some F" "vf_private F \<noteq> NULL" "fs_sbs s (vf_private F) = Some B"
    using assms(1) by (auto simp: mount_ok_def)
  have d: "distinct (List.map fst (tnode_cache B))" using assms(1) by (simp add: mount_ok_def)
  have q: "oldest (tnode_cache B) (ti_number (ino s q)) = q" by (rule oldest_unique[OF d mount_okD(2)[OF assms(1,3)]])
  have i: "fetch (fs_inodes s) q = Ok (ino s q)" "q \<noteq> NULL"
    using fetch_ino[OF mount_okD(1)[OF assms(1,3)]] ino_Some[OF mount_okD(1)[OF assms(1,3)]] by auto
  have a: "a \<noteq> NULL" using assms(4,5) by (auto simp: fresh_ok_def)
  show ?thesis using V F q i a kzalloc_simps[OF assms(4)] by (simp add: tmpfs_create_node_def)
qed

subsection \<open>Adding a child\<close>

definition grown :: "tmpfs_superblock \<Rightarrow> addr \<Rightarrow> tmpfs_superblock" where
  "grown B a = B\<lparr>current_inode := current_inode B + 1, tnode_cache := tnode_cache B @ [(current_inode B, a)]\<rparr>"

definition with_child :: "u16 \<Rightarrow> fs \<Rightarrow> addr \<Rightarrow> tmpfs_superblock \<Rightarrow> addr \<Rightarrow> addr list \<Rightarrow> addr \<Rightarrow> name \<Rightarrow> u16 \<Rightarrow> fs" where
  "with_child type s b B a as p n flags = s\<lparr>fs_fresh := as, fs_sbs := (fs_sbs s)(b \<mapsto> grown B a),
     fs_inodes := (fs_inodes s)(a \<mapsto> \<lparr>ti_name = n, ti_children = [], ti_data = [], ti_number = current_inode B,
               ti_length = 0, ti_effective = 0, ti_mode = (flags AND NOT S_IFMT) OR type\<rparr>,
        p \<mapsto> (ino s p)\<lparr>ti_children := ti_children (ino s p) @ [a]\<rparr>)\<rparr>"

lemma nodes_grown [simp]: "nodes (grown B a) = insert a (nodes B)"
  by (auto simp: nodes_def grown_def)

lemma fresh_not_node:
  assumes "mount_ok s f B" and "fresh_ok s" and "fs_fresh s = a # as"
  shows "a \<notin> nodes B" "a \<noteq> NULL"
proof -
  have n: "fs_inodes s a = None" "a \<noteq> NULL" using assms(2,3) by (auto simp: fresh_ok_def)
  show "a \<noteq> NULL" by fact
  show "a \<notin> nodes B"
  proof
    assume "a \<in> nodes B"
    then show False using ino_Some[OF mount_okD(1)[OF assms(1)]] n(1) by simp
  qed
qed

lemma tmpfs_add_child_new:
  assumes "mount_ok s f B" and "vnode_ok s f B v p" and "fresh_ok s" and "fs_fresh s = a # as" and "entry s p n = None"
    and "current_inode B + 1 < 2 ^ 63" and "0 \<le> current_inode B" and "fs_vfss s f = Some F"
  shows "tmpfs_add_child type s v n flags = Ok (0, with_child type s (vf_private F) B a as p n flags)"
proof -
  obtain V where V: "v \<noteq> NULL" "p \<in> nodes B" "fs_vnodes s v = Some V" "vn_lock V = 0" "vn_vfs V = f" "vn_private V = p"
    using assms(2) by (auto simp: vnode_ok_def)
  have F: "f \<noteq> NULL" "vf_lock F = 0" "vf_private F \<noteq> NULL" "fs_sbs s (vf_private F) = Some B"
    using assms(1,8) by (auto simp: mount_ok_def)
  have ip: "fs_inodes s p = Some (ino s p)" "p \<noteq> NULL" using ino_Some[OF mount_okD(1)[OF assms(1) V(2)]] by auto
  have a: "a \<noteq> p" "a \<noteq> NULL" using fresh_not_node[OF assms(1,3,4)] V(2) by auto
  let ?s = "put_vnode s v (V\<lparr>vn_lock := 1\<rparr>)"
  have hf: "tmpfs_has_file ?s p n = Ok False"
    using tmpfs_has_file_entry[OF assms(1) V(2), of n] assms(5) by (simp add: tmpfs_has_file_def)
  have ka: "kzalloc ?s = (a, ?s\<lparr>fs_fresh := as\<rparr>)" by (rule kzalloc_simps) (simp add: assms(4))
  have lg: "long (current_inode B + 1) = Ok (current_inode B + 1)" using assms(6,7) by (simp add: long_def)
  have same: "V\<lparr>vn_lock := 0\<rparr> = V" using V(4) by (cases V) simp
  have vs: "(fs_vnodes s)(v \<mapsto> V) = fs_vnodes s" using V(3) by (simp add: fun_upd_idem)
  show ?thesis
    using V F assms(8) ip a hf ka lg same vs
    by (simp add: tmpfs_add_child_def next_inode_def Let_def) (rule fs.equality; simp add: with_child_def grown_def put_inode_def same vs)
qed

lemma tmpfs_add_child_exists:
  assumes "mount_ok s f B" and "vnode_ok s f B v p" and "entry s p n \<noteq> None"
  shows "tmpfs_add_child type s v n flags = Ok (- EEXIST, put_vnode s v ((the (fs_vnodes s v))\<lparr>vn_lock := 1\<rparr>))"
proof -
  obtain V where V: "v \<noteq> NULL" "p \<in> nodes B" "fs_vnodes s v = Some V" "vn_lock V = 0" "vn_vfs V = f" "vn_private V = p"
    using assms(2) by (auto simp: vnode_ok_def)
  obtain F where F: "f \<noteq> NULL" "fs_vfss s f = Some F" using assms(1) by (auto simp: mount_ok_def)
  have "tmpfs_has_file (put_vnode s v (V\<lparr>vn_lock := 1\<rparr>)) p n = Ok True"
    using tmpfs_has_file_entry[OF assms(1) V(2), of n] assms(3) by (simp add: tmpfs_has_file_def)
  then show ?thesis using V F by (simp add: tmpfs_add_child_def Let_def)
qed

lemma with_child_simps [simp]:
  "fs_vnodes (with_child type s b B a as p n flags) = fs_vnodes s" "fs_vfss (with_child type s b B a as p n flags) = fs_vfss s"
  "fs_dentries (with_child type s b B a as p n flags) = fs_dentries s" "fs_fresh (with_child type s b B a as p n flags) = as"
  "fs_root (with_child type s b B a as p n flags) = fs_root s" "fs_dcache (with_child type s b B a as p n flags) = fs_dcache s"
  "fs_vcache (with_child type s b B a as p n flags) = fs_vcache s"
  by (simp_all add: with_child_def)

lemma ino_with_child:
  assumes "a \<noteq> p"
  shows "ino (with_child type s b B a as p n flags) q =
     (if q = p then (ino s p)\<lparr>ti_children := ti_children (ino s p) @ [a]\<rparr>
      else if q = a then \<lparr>ti_name = n, ti_children = [], ti_data = [], ti_number = current_inode B,
               ti_length = 0, ti_effective = 0, ti_mode = (flags AND NOT S_IFMT) OR type\<rparr> else ino s q)"
  using assms by (simp add: with_child_def ino_def)

lemma find_append: "List.find P (xs @ ys) = (case List.find P xs of None \<Rightarrow> List.find P ys | Some x \<Rightarrow> Some x)"
  by (induction xs) auto

lemma find_cong_on: "(\<And>x. x \<in> set xs \<Longrightarrow> P x = Q x) \<Longrightarrow> List.find P xs = List.find Q xs"
  by (induction xs) auto

lemma find_None: "List.find P xs = None \<longleftrightarrow> (\<forall>x \<in> set xs. \<not> P x)"
  by (induction xs) auto

lemma entry_with_child:
  assumes m: "mount_ok s f B" and fr: "fresh_ok s" "fs_fresh s = a # as" and p: "p \<in> nodes B" and e: "entry s p n = None"
    and q: "q \<in> nodes (grown B a)"
  shows "entry (with_child type s b B a as p n flags) q m = (if q = p \<and> m = n then Some a else if q = a then None else entry s q m)"
proof -
  let ?s = "with_child type s b B a as p n flags"
  have a: "a \<notin> nodes B" "a \<noteq> p" using fresh_not_node[OF m fr] p by auto
  note i = ino_with_child[OF a(2)]
  have nm: "ti_name (ino ?s c) = ti_name (ino s c)" if "c \<in> nodes B" for c using that a by (auto simp: i)
  have ch: "List.find (\<lambda>c. ti_name (ino ?s c) = m) (ti_children (ino s r)) = entry s r m" if "r \<in> nodes B" for r
    unfolding entry_def
  proof (rule find_cong_on)
    fix c assume "c \<in> set (ti_children (ino s r))"
    then have "c \<in> nodes B" using mount_okD(1)[OF m that] by (auto simp: inode_ok_def)
    then show "(ti_name (ino ?s c) = m) = (ti_name (ino s c) = m)" using nm by simp
  qed
  show ?thesis
  proof (cases "q = p")
    case True
    have "entry ?s p m = (case entry s p m of None \<Rightarrow> (if m = n then Some a else None) | Some x \<Rightarrow> Some x)"
      using ch[OF p] a by (auto simp: entry_def i find_append split: option.splits)
    then show ?thesis using True e a by (auto split: option.splits)
  next
    case False
    show ?thesis
    proof (cases "q = a")
      case qa: True
      then show ?thesis using a by (simp add: entry_def i)
    next
      case qa: False
      then have "q \<in> nodes B" "ino ?s q = ino s q" using q False by (simp_all add: i)
      then show ?thesis using ch[of q] False qa by (simp add: entry_def)
    qed
  qed
qed

lemma inode_ok_mono:
  assumes "inode_ok s B p" and "ino s' p = ino s p" and "fs_inodes s' p = fs_inodes s p" and "nodes B \<subseteq> nodes B'"
    and "\<And>c. c \<in> nodes B \<Longrightarrow> ti_name (ino s' c) = ti_name (ino s c)"
  shows "inode_ok s' B' p"
proof -
  have c: "set (ti_children (ino s p)) \<subseteq> nodes B" using assms(1) by (simp add: inode_ok_def)
  then have me: "List.map (\<lambda>c. ti_name (ino s' c)) (ti_children (ino s p)) = List.map (\<lambda>c. ti_name (ino s c)) (ti_children (ino s p))"
    using assms(5) by auto
  show ?thesis using assms(1,4) c unfolding inode_ok_def assms(2,3) me by blast
qed

lemma mount_ok_with_child:
  assumes m: "mount_ok s f B" and fr: "fresh_ok s" "fs_fresh s = a # as" and p: "p \<in> nodes B" and e: "entry s p n = None"
    and F: "fs_vfss s f = Some F"
  shows "mount_ok (with_child type s (vf_private F) B a as p n flags) f (grown B a)"
proof -
  let ?s = "with_child type s (vf_private F) B a as p n flags"
  have a: "a \<notin> nodes B" "a \<noteq> p" "a \<noteq> NULL" using fresh_not_node[OF m fr] p by auto
  note i = ino_with_child[OF a(2)]
  have ip: "inode_ok s B p" by (rule mount_okD(1)[OF m p])
  have nm: "ti_name (ino ?s c) = ti_name (ino s c)" if "c \<in> nodes B" for c using that a by (auto simp: i)
  have cp: "set (ti_children (ino s p)) \<subseteq> nodes B" using ip by (simp add: inode_ok_def)
  have F2: "f \<noteq> NULL" "vf_lock F = 0" "vf_private F \<noteq> NULL" "fs_sbs s (vf_private F) = Some B"
    using m F by (auto simp: mount_ok_def)
  have lt: "k < current_inode B" if "(k, q) \<in> set (tnode_cache B)" for k q using that m by (auto simp: mount_ok_def)
  have dis: "distinct (List.map fst (tnode_cache (grown B a)))"
    using m lt by (force simp: mount_ok_def grown_def)
  have okp: "inode_ok ?s (grown B a) p"
  proof -
    let ?ch = "ti_children (ino s p)"
    have me: "List.map (\<lambda>c. ti_name (ino ?s c)) ?ch = List.map (\<lambda>c. ti_name (ino s c)) ?ch"
      using nm cp by auto
    have na: "ti_name (ino ?s a) = n" using a by (simp add: i)
    have "n \<notin> set (List.map (\<lambda>c. ti_name (ino s c)) ?ch)" using e by (auto simp: entry_def find_None)
    then have dd: "distinct (List.map (\<lambda>c. ti_name (ino ?s c)) (?ch @ [a]))"
      using ip me na unfolding inode_ok_def map_append distinct_append me by simp
    have ch: "ti_children (ino ?s p) = ?ch @ [a]" by (simp add: i)
    have sub: "set (?ch @ [a]) \<subseteq> nodes (grown B a)" using cp by auto
    have "fs_inodes ?s p \<noteq> None" by (simp add: with_child_def)
    then show ?thesis using ip dd sub unfolding inode_ok_def ch by (simp add: i)
  qed
  have oka: "inode_ok ?s (grown B a) a"
    using a by (simp add: inode_ok_def i) (simp add: with_child_def)
  have "inode_ok ?s (grown B a) q \<and> ti_number (ino ?s q) = k \<and> k < current_inode (grown B a)"
    if "(k, q) \<in> set (tnode_cache (grown B a))" for k q
  proof (cases "q = a")
    case True
    then have "k = current_inode B" using that a(1) by (auto simp: grown_def nodes_def image_iff)
    then show ?thesis using True oka a by (simp add: i grown_def)
  next
    case False
    then have kq: "(k, q) \<in> set (tnode_cache B)" using that by (auto simp: grown_def)
    then have q: "q \<in> nodes B" by (force simp: nodes_def)
    have num: "ti_number (ino ?s q) = k" using kq m False by (auto simp: i mount_ok_def)
    have "inode_ok ?s (grown B a) q"
    proof (cases "q = p")
      case notp: False
      show ?thesis by (rule inode_ok_mono[OF mount_okD(1)[OF m q]]) (use notp False nm in \<open>auto simp: i\<close>, simp add: with_child_def)
    qed (use okp in simp)
    then show ?thesis using num lt[OF kq] by (simp add: grown_def)
  qed
  then show ?thesis using F2 F dis unfolding mount_ok_def by (auto simp: with_child_def)
qed

lemma vnode_ok_with_child:
  assumes "mount_ok s f B" and "fresh_ok s" and "fs_fresh s = a # as" and "p \<in> nodes B" and "vnode_ok s f B v q"
  shows "vnode_ok (with_child type s b B a as p n flags) f (grown B a) v q"
proof -
  have a: "a \<notin> nodes B" "a \<noteq> p" using fresh_not_node[OF assms(1-3)] assms(4) by auto
  then have "ti_mode (ino (with_child type s b B a as p n flags) q) = ti_mode (ino s q)"
    using assms(5) by (auto simp: ino_with_child[OF a(2)] vnode_ok_def)
  then show ?thesis using assms(5) by (auto simp: vnode_ok_def)
qed

lemma fresh_ok_with_child:
  assumes "mount_ok s f B" and "fresh_ok s" and "fs_fresh s = a # as" and "p \<in> nodes B"
  shows "fresh_ok (with_child type s b B a as p n flags)"
proof -
  have "fs_inodes s p \<noteq> None" using ino_Some[OF mount_okD(1)[OF assms(1,4)]] by simp
  then show ?thesis using assms(2,3) by (auto simp: fresh_ok_def with_child_def)
qed

subsection \<open>Reading and writing\<close>

definition contents :: "fs \<Rightarrow> addr \<Rightarrow> u8 list" where
  "contents s p = take (nat (ti_length (ino s p))) (ti_data (ino s p))"

text \<open>The block of a file after room for \<open>new_length\<close> bytes has been made.\<close>

lemma tmpfs_grow_block:
  assumes "0 \<le> ti_length t" and "ti_length t \<le> ti_effective t" and "int (length (ti_data t)) = ti_effective t"
    and "ti_effective t < nl" and "nl < 2 ^ 62"
  shows "\<exists>e d. tmpfs_grow s t nl = Ok (t\<lparr>ti_data := d, ti_effective := e\<rparr>) \<and> int (length d) = e \<and> nl \<le> e
     \<and> take (nat (ti_length t)) d = take (nat (ti_length t)) (ti_data t)"
proof -
  let ?x = "nl + 0xfff"
  let ?e = "?x - ?x mod 0x1000"
  let ?new = "List.map (fs_junk s) [0..<nat ?e]"
  have lg: "long ?x = Ok ?x" using assms by (simp add: long_def)
  have m: "0 \<le> ?x mod 0x1000" "?x mod 0x1000 < 0x1000" by simp_all
  then have e: "nl \<le> ?e" "0 \<le> ?e" using assms by linarith+
  let ?k = "nat (ti_length t)"
  have old: "copy_out (ti_data t) (ti_length t) = Ok (take ?k (ti_data t))" using assms by (simp add: copy_out_def)
  have lk: "length (take ?k (ti_data t)) = ?k" using assms by simp
  define d where "d = (if ti_length t = 0 then ?new else take ?k (ti_data t) @ drop ?k ?new)"
  have ci: "copy_in ?new 0 (take ?k (ti_data t)) (ti_length t) = Ok d"
    using assms e lk by (simp add: copy_in_def copy_out_def d_def)
  have "int (length d) = ?e" using assms e lk by (auto simp: d_def)
  moreover have "take ?k d = take ?k (ti_data t)" using lk by (simp add: d_def)
  moreover have "tmpfs_grow s t nl = Ok (t\<lparr>ti_data := d, ti_effective := ?e\<rparr>)"
    using lg old ci by (simp add: tmpfs_grow_def Let_def)
  ultimately show ?thesis using e(1) by blast
qed

lemma take_splice:
  assumes "j \<le> length xs" and "j + length bs \<le> k" and "k \<le> length xs"
  shows "take k (take j xs @ bs @ drop (j + length bs) xs) = take j xs @ bs @ drop (j + length bs) (take k xs)"
proof -
  have "k - (j + length bs) = k - j - length bs" by simp
  then show ?thesis using assms by (simp add: drop_take min_absorb1 min_absorb2)
qed

lemma tmpfs_write_file:
  assumes "mount_ok s f B" and "vnode_ok s f B v p" and "S_ISREG (ti_mode (ino s p))"
    and "0 \<le> off" and "off \<le> ti_length (ino s p)" and "0 \<le> n" and "n \<le> int (length buf)" and "off + n < 2 ^ 62"
  shows "\<exists>s' t. tmpfs_write s v buf n off = Ok (as_int n, s') \<and> s' = put_vnode (put_inode s p t) v ((the (fs_vnodes s v))\<lparr>vn_size := ti_length t\<rparr>)
     \<and> ti_length t = max (ti_length (ino s p)) (off + n) \<and> ti_length t \<le> ti_effective t \<and> int (length (ti_data t)) = ti_effective t
     \<and> take (nat (ti_length t)) (ti_data t) = take (nat off) (contents s p) @ take (nat n) buf @ drop (nat (off + n)) (contents s p)
     \<and> ti_name t = ti_name (ino s p) \<and> ti_children t = ti_children (ino s p) \<and> ti_number t = ti_number (ino s p) \<and> ti_mode t = ti_mode (ino s p)"
proof -
  obtain V where V: "v \<noteq> NULL" "p \<in> nodes B" "fs_vnodes s v = Some V" "vn_private V = p" "S_ISREG (vn_mode V) = S_ISREG (ti_mode (ino s p))"
    using assms(2) by (auto simp: vnode_ok_def)
  have ok: "inode_ok s B p" by (rule mount_okD(1)[OF assms(1) V(2)])
  let ?t = "ino s p"
  have i: "0 \<le> ti_length ?t" "ti_length ?t \<le> ti_effective ?t" "int (length (ti_data ?t)) = ti_effective ?t"
    using ok by (auto simp: inode_ok_def)
  let ?nl = "max (ti_length ?t) (off + n)"
  have "\<exists>e d. (if ?nl > ti_effective ?t then tmpfs_grow s ?t ?nl else Ok ?t) = Ok (?t\<lparr>ti_data := d, ti_effective := e\<rparr>)
     \<and> int (length d) = e \<and> ?nl \<le> e \<and> take (nat (ti_length ?t)) d = take (nat (ti_length ?t)) (ti_data ?t)"
  proof (cases "?nl > ti_effective ?t")
    case True
    then have "?nl < 2 ^ 62" using i assms(8) by linarith
    then show ?thesis using tmpfs_grow_block[OF i True] True by simp
  next
    case False
    have "?t\<lparr>ti_data := ti_data ?t, ti_effective := ti_effective ?t\<rparr> = ?t" by simp
    then show ?thesis using False i by (intro exI[of _ "ti_effective ?t"] exI[of _ "ti_data ?t"]) simp
  qed
  then obtain e d where g: "(if ?nl > ti_effective ?t then tmpfs_grow s ?t ?nl else Ok ?t) = Ok (?t\<lparr>ti_data := d, ti_effective := e\<rparr>)"
    "int (length d) = e" "?nl \<le> e" "take (nat (ti_length ?t)) d = take (nat (ti_length ?t)) (ti_data ?t)" by blast
  let ?b = "take (nat n) buf"
  have lb: "length ?b = nat n" using assms(6,7) by simp
  define d' where "d' = take (nat off) d @ ?b @ drop (nat off + nat n) d"
  have ci: "copy_in d off buf n = Ok d'"
    using assms(4,6,7) g(2,3) lb by (auto simp: copy_in_def copy_out_def d'_def)
  have ld: "int (length d') = e" using g(2,3) lb assms(4,5,6) by (auto simp: d'_def)
  let ?k = "nat ?nl"
  have on: "nat (off + n) = nat off + length ?b" using lb assms(4,6) by (simp add: nat_add_distrib)
  have tk: "take ?k d' = take (nat off) d @ ?b @ drop (nat off + length ?b) (take ?k d)"
  proof -
    have "take ?k (take (nat off) d @ ?b @ drop (nat off + length ?b) d) = take (nat off) d @ ?b @ drop (nat off + length ?b) (take ?k d)"
      by (rule take_splice) (use g(2,3) lb assms(4-6) i in auto)
    then show ?thesis by (simp only: d'_def lb)
  qed
  have t1: "take (nat off) d = take (nat off) (contents s p)"
  proof -
    have "take (nat off) d = take (nat off) (take (nat (ti_length ?t)) d)" using assms(5) by (simp add: min_absorb1)
    also have "\<dots> = take (nat off) (contents s p)"
      using arg_cong[OF g(4), of "take (nat off)"] by (simp add: contents_def)
    finally show ?thesis .
  qed
  have t2: "drop (nat off + length ?b) (take ?k d) = drop (nat (off + n)) (contents s p)"
  proof (cases "off + n \<le> ti_length ?t")
    case True
    then have "?k = nat (ti_length ?t)" by simp
    then show ?thesis using g(4) on by (simp add: contents_def)
  next
    case False
    then have k: "?k = nat off + length ?b" using on by simp
    have "length (contents s p) \<le> nat (off + n)" using False by (simp add: contents_def)
    then show ?thesis using k by simp
  qed
  have reg: "S_ISREG (vn_mode V)" using assms(3) V(5) by simp
  have lg: "long (off + n) = Ok (off + n)" using assms(4,6,8) by (simp add: long_def)
  let ?u = "?t\<lparr>ti_effective := e, ti_data := d', ti_length := ?nl\<rparr>"
  have "tmpfs_write s v buf n off = Ok (as_int n, put_vnode (put_inode s p ?u) v (V\<lparr>vn_size := ?nl\<rparr>))"
    using V reg lg g(1) ci fetch_ino[OF ok] by (simp add: tmpfs_write_def Let_def)
  moreover have "take (nat ?nl) d' = take (nat off) (contents s p) @ ?b @ drop (nat (off + n)) (contents s p)"
    using tk t1 t2 by simp
  ultimately show ?thesis using V(3) ld g(3)
    by (intro exI[of _ "put_vnode (put_inode s p ?u) v (V\<lparr>vn_size := ?nl\<rparr>)"] exI[of _ ?u]) simp
qed

lemma tmpfs_read_file:
  assumes "mount_ok s f B" and "vnode_ok s f B v p" and "S_ISREG (ti_mode (ino s p))"
    and "0 \<le> off" and "off < 2 ^ 63" and "0 \<le> n" and "ti_length (ino s p) < 2 ^ 63"
  shows "tmpfs_read s v n off = (if ti_length (ino s p) \<le> off then Ok (0, [])
     else Ok (as_int (min n (ti_length (ino s p) - off)), take (nat (min n (ti_length (ino s p) - off))) (contents s p)))"
proof -
  obtain V where V: "v \<noteq> NULL" "p \<in> nodes B" "fs_vnodes s v = Some V" "vn_private V = p" "S_ISREG (vn_mode V) = S_ISREG (ti_mode (ino s p))"
    using assms(2) by (auto simp: vnode_ok_def)
  have ok: "inode_ok s B p" by (rule mount_okD(1)[OF assms(1) V(2)])
  let ?t = "ino s p"
  have i: "0 \<le> ti_length ?t" "ti_length ?t \<le> ti_effective ?t" "int (length (ti_data ?t)) = ti_effective ?t"
    using ok by (auto simp: inode_ok_def)
  let ?k = "min n (ti_length ?t - off)"
  have "long (ti_length ?t - off) = Ok (ti_length ?t - off)" using i assms(4,5,7) by (simp add: long_def)
  moreover have "copy_out (ti_data ?t) ?k = Ok (take (nat ?k) (contents s p))" if "off < ti_length ?t"
    using that i assms(4,6) by (auto simp: copy_out_def contents_def min_def nat_mono)
  ultimately show ?thesis using V assms(3) fetch_ino[OF ok] by (auto simp: tmpfs_read_def Let_def not_le)
qed

text \<open>Changing the block of one file, and the size of one vnode, keeps the file system well-formed.\<close>

definition same_place :: "tmpfs_inode \<Rightarrow> tmpfs_inode \<Rightarrow> bool" where
  "same_place t i \<longleftrightarrow> ti_name t = ti_name i \<and> ti_children t = ti_children i \<and> ti_number t = ti_number i \<and> ti_mode t = ti_mode i"

definition block_ok :: "tmpfs_inode \<Rightarrow> bool" where
  "block_ok t \<longleftrightarrow> 0 \<le> ti_length t \<and> ti_length t \<le> ti_effective t \<and> int (length (ti_data t)) = ti_effective t"

lemma mount_ok_put_inode:
  assumes m: "mount_ok s f B" and p: "p \<in> nodes B" and t: "same_place t (ino s p)" "block_ok t"
  shows "mount_ok (put_vnode (put_inode s p t) v V) f B"
proof -
  let ?s = "put_vnode (put_inode s p t) v V"
  have nm: "ti_name (ino ?s c) = ti_name (ino s c)" for c using t(1) by (simp add: same_place_def)
  have "inode_ok ?s B q" if "q \<in> nodes B" for q
  proof (cases "q = p")
    case True
    then show ?thesis using mount_okD(1)[OF m p] t nm
      by (simp add: inode_ok_def same_place_def block_ok_def)
  next
    case False
    then show ?thesis using inode_ok_mono[OF mount_okD(1)[OF m that], of ?s B] nm by simp
  qed
  then have ok: "inode_ok ?s B q" if "(k, q) \<in> set (tnode_cache B)" for k q
    using that unfolding nodes_def by (metis image_eqI snd_conv)
  have "ti_number (ino ?s q) = ti_number (ino s q)" for q using t(1) by (simp add: same_place_def)
  then show ?thesis using m ok unfolding mount_ok_def by auto
qed

lemma entry_put_inode:
  assumes "same_place t (ino s p)"
  shows "entry (put_vnode (put_inode s p t) v V) q m = entry s q m"
proof -
  have "ti_name (ino (put_vnode (put_inode s p t) v V) c) = ti_name (ino s c)" for c
    using assms by (simp add: same_place_def)
  moreover have "ti_children (ino (put_vnode (put_inode s p t) v V) q) = ti_children (ino s q)"
    using assms by (simp add: same_place_def)
  ultimately show ?thesis by (simp add: entry_def)
qed

lemma vnode_ok_put_inode:
  assumes "vnode_ok s f B w q" and "same_place t (ino s p)" and "fs_vnodes s v = Some V"
  shows "vnode_ok (put_vnode (put_inode s p t) v (V\<lparr>vn_size := x\<rparr>)) f B w q"
  using assms by (auto simp: vnode_ok_def same_place_def)

lemma fresh_ok_put_inode:
  assumes "fresh_ok s" and "fs_inodes s p \<noteq> None" and "fs_vnodes s v \<noteq> None"
  shows "fresh_ok (put_vnode (put_inode s p t) v V)"
  using assms by (auto simp: fresh_ok_def)

section \<open>Properties of fs/tmpfs.c\<close>

text \<open>
  C37: What a write does to a file. On a well-formed file system, a write that starts inside or at the end
  of the file replaces exactly the bytes of its range, growing the file where it passes the end, whatever
  the memory \<open>vmalloc\<close> returned held; it returns the count, updates the size of the vnode it went
  through, changes no other file and no directory, and keeps the file system well-formed.
\<close>

theorem tmpfs_write_splices:
  assumes "mount_ok s f B" and "fresh_ok s" and "vnode_ok s f B v p" and "S_ISREG (ti_mode (ino s p))"
    and "0 \<le> off" and "off \<le> ti_length (ino s p)" and "0 \<le> n" and "n \<le> int (length buf)" and "off + n < 2 ^ 62"
  shows "\<exists>s'. tmpfs_write s v buf n off = Ok (as_int n, s') \<and> mount_ok s' f B \<and> fresh_ok s'
     \<and> contents s' p = take (nat off) (contents s p) @ take (nat n) buf @ drop (nat (off + n)) (contents s p)
     \<and> (\<forall>q. q \<noteq> p \<longrightarrow> ino s' q = ino s q) \<and> (\<forall>q m. entry s' q m = entry s q m)
     \<and> (\<forall>w q. vnode_ok s f B w q \<longrightarrow> vnode_ok s' f B w q)
     \<and> vn_size (the (fs_vnodes s' v)) = ti_length (ino s' p) \<and> (\<forall>w. w \<noteq> v \<longrightarrow> fs_vnodes s' w = fs_vnodes s w)"
proof -
  obtain V where V: "p \<in> nodes B" "fs_vnodes s v = Some V" using assms(3) by (auto simp: vnode_ok_def)
  obtain s' t where w: "tmpfs_write s v buf n off = Ok (as_int n, s')"
    "s' = put_vnode (put_inode s p t) v ((the (fs_vnodes s v))\<lparr>vn_size := ti_length t\<rparr>)"
    "ti_length t = max (ti_length (ino s p)) (off + n)" "ti_length t \<le> ti_effective t" "int (length (ti_data t)) = ti_effective t"
    "take (nat (ti_length t)) (ti_data t) = take (nat off) (contents s p) @ take (nat n) buf @ drop (nat (off + n)) (contents s p)"
    "same_place t (ino s p)"
    using tmpfs_write_file[OF assms(1,3-9)] unfolding same_place_def by blast
  have ok: "inode_ok s B p" by (rule mount_okD(1)[OF assms(1) V(1)])
  then have "0 \<le> ti_length t" using w(3) by (simp add: inode_ok_def max_def)
  then have b: "block_ok t" using w(4,5) by (simp add: block_ok_def)
  have s': "s' = put_vnode (put_inode s p t) v (V\<lparr>vn_size := ti_length t\<rparr>)" using w(2) V(2) by simp
  have "contents s' p = take (nat off) (contents s p) @ take (nat n) buf @ drop (nat (off + n)) (contents s p)"
    using w(6) unfolding contents_def s' by simp
  moreover have "mount_ok s' f B" unfolding s' by (rule mount_ok_put_inode[OF assms(1) V(1) w(7) b])
  moreover have "fresh_ok s'" unfolding s' by (rule fresh_ok_put_inode[OF assms(2)]) (use ino_Some[OF ok] V(2) in simp_all)
  moreover have "\<forall>q m. entry s' q m = entry s q m" unfolding s' using entry_put_inode[OF w(7)] by blast
  moreover have "\<forall>w q. vnode_ok s f B w q \<longrightarrow> vnode_ok s' f B w q" unfolding s' using vnode_ok_put_inode[OF _ w(7) V(2)] by blast
  moreover have "(\<forall>q. q \<noteq> p \<longrightarrow> ino s' q = ino s q) \<and> vn_size (the (fs_vnodes s' v)) = ti_length (ino s' p)
      \<and> (\<forall>w. w \<noteq> v \<longrightarrow> fs_vnodes s' w = fs_vnodes s w)" unfolding s' by simp
  ultimately show ?thesis using w(1) by blast
qed

text \<open>A file system with one directory at 16 and in it one file at 24, of three bytes and one spare byte.\<close>

definition demo_dir :: tmpfs_inode where
  "demo_dir = \<lparr>ti_name = [0x2f], ti_children = [24], ti_data = [], ti_number = 0, ti_length = 0, ti_effective = 0, ti_mode = 0x41ff\<rparr>"

definition demo_file :: tmpfs_inode where
  "demo_file = \<lparr>ti_name = [0x61], ti_children = [], ti_data = [1, 2, 3, 9], ti_number = 1, ti_length = 3, ti_effective = 4, ti_mode = 0x8000\<rparr>"

definition demo_super :: tmpfs_superblock where
  "demo_super = \<lparr>current_inode = 2, tnode_cache = [(0, 16), (1, 24)]\<rparr>"

definition demo_vnode :: "addr \<Rightarrow> u16 \<Rightarrow> int \<Rightarrow> vnode" where
  "demo_vnode p mode n = \<lparr>vn_lock = 0, vn_ops = Tmpfs_Operations, vn_vfs = 48, vn_private = p, vn_refcount = 1, vn_mode = mode,
     vn_number = n, vn_size = 0\<rparr>"

definition demo_fs :: fs where
  "demo_fs = \<lparr>fs_inodes = [16 \<mapsto> demo_dir, 24 \<mapsto> demo_file], fs_sbs = [56 \<mapsto> demo_super],
     fs_vnodes = [64 \<mapsto> demo_vnode 16 0x41ff 0, 72 \<mapsto> demo_vnode 24 0x8000 1],
     fs_vfss = [48 \<mapsto> \<lparr>vf_id = 0, vf_root = 80, vf_private = 56, vf_lock = 0\<rparr>],
     fs_dentries = [80 \<mapsto> \<lparr>de_name = [0x2f], de_parent = 0, de_vnode = 64, de_refcount = 1\<rparr>],
     fs_dcache = [((0, [0x2f]), 80)], fs_vcache = [], fs_root = 80, fs_upcount = 1,
     fs_fresh = List.map (\<lambda>i. 0x1000 + of_nat i * 64) [0..<8], fs_junk = (\<lambda>_. 7)\<rparr>"

lemma demo_ino: "ino demo_fs 16 = demo_dir" "ino demo_fs 24 = demo_file"
  by (simp_all add: ino_def demo_fs_def)

lemma demo_nodes: "nodes demo_super = {16, 24}"
  by (auto simp: nodes_def demo_super_def)

lemma demo_inode_ok: "inode_ok demo_fs demo_super 16" "inode_ok demo_fs demo_super 24"
  by (simp_all add: inode_ok_def demo_ino demo_nodes) (simp_all add: demo_dir_def demo_file_def demo_fs_def)

lemma demo_mount_ok: "mount_ok demo_fs 48 demo_super"
  using demo_inode_ok
  by (simp add: mount_ok_def demo_super_def demo_ino) (simp add: demo_fs_def demo_dir_def demo_file_def demo_super_def)

lemma demo_fresh: "fs_fresh demo_fs = [0x1000, 0x1040, 0x1080, 0x10c0, 0x1100, 0x1140, 0x1180, 0x11c0]"
  by (simp add: demo_fs_def upt_rec)

lemma demo_fresh_ok: "fresh_ok demo_fs"
  unfolding fresh_ok_def demo_fresh by (simp add: demo_fs_def)

lemma demo_vnode_ok: "vnode_ok demo_fs 48 demo_super 64 16" "vnode_ok demo_fs 48 demo_super 72 24"
  by (simp_all add: vnode_ok_def demo_nodes demo_ino) (simp_all add: demo_fs_def demo_vnode_def demo_dir_def demo_file_def)

theorem tmpfs_write_splices_witness:
  "\<exists>s'. tmpfs_write demo_fs 72 [4, 5, 6] 3 2 = Ok (3, s') \<and> contents s' 24 = [1, 2, 4, 5, 6]"
proof -
  have r: "S_ISREG (ti_mode (ino demo_fs 24))" by (simp add: demo_ino demo_file_def S_ISREG_def S_IFMT_def S_IFREG_def)
  have c: "contents demo_fs 24 = [1, 2, 3]" by (simp add: contents_def demo_ino demo_file_def)
  obtain s' where "tmpfs_write demo_fs 72 [4, 5, 6] 3 2 = Ok (as_int 3, s')"
    "contents s' 24 = take (nat 2) (contents demo_fs 24) @ take (nat 3) [4, 5, 6] @ drop (nat (2 + 3)) (contents demo_fs 24)"
    using tmpfs_write_splices[OF demo_mount_ok demo_fresh_ok demo_vnode_ok(2) r, of 2 3 "[4, 5, 6]"]
    by (auto simp: demo_ino demo_file_def)
  then show ?thesis by (simp add: c as_int_def numeral_eq_Suc)
qed

text \<open>
  What a read returns. A read before the end of the file returns as many bytes as are left after the
  offset, but takes them from the start of the file: only a read at offset 0 returns the bytes of its
  range, and a file written and read back from 0 gives the bytes written.
\<close>

theorem tmpfs_read_from_start:
  assumes "mount_ok s f B" and "vnode_ok s f B v p" and "S_ISREG (ti_mode (ino s p))"
    and "0 \<le> off" and "off < ti_length (ino s p)" and "0 \<le> n" and "ti_length (ino s p) < 2 ^ 31"
  shows "\<exists>k. k = min n (ti_length (ino s p) - off) \<and> tmpfs_read s v n off = Ok (k, take (nat k) (contents s p))"
proof -
  have i: "inode_ok s B p" using assms(1,2) mount_okD(1) by (auto simp: vnode_ok_def)
  let ?k = "min n (ti_length (ino s p) - off)"
  have "as_int ?k = ?k" unfolding as_int_def by (rule signed_take_bit_int_eq_self) (use assms(4-7) in \<open>auto simp: min_def\<close>)
  then show ?thesis using tmpfs_read_file[OF assms(1-4) _ assms(6)] assms(5,7) by auto
qed

theorem tmpfs_read_from_start_witness:
  "tmpfs_read demo_fs 72 5 2 = Ok (1, [1])"
proof -
  have r: "S_ISREG (ti_mode (ino demo_fs 24))" by (simp add: demo_ino demo_file_def S_ISREG_def S_IFMT_def S_IFREG_def)
  have c: "contents demo_fs 24 = [1, 2, 3]" by (simp add: contents_def demo_ino demo_file_def)
  show ?thesis using tmpfs_read_from_start[OF demo_mount_ok demo_vnode_ok(2) r, of 2 5]
    by (simp add: c) (simp add: demo_ino demo_file_def)
qed

text \<open>
  A name that exists locks the directory up. \<open>tmpfs_mkdir\<close> and \<open>tmpfs_create\<close> of a name the directory
  already has return -EEXIST with the lock of the vnode still taken, and every later lookup, \<open>mkdir\<close> or
  \<open>create\<close> through that vnode deadlocks.
\<close>

theorem tmpfs_exists_keeps_lock:
  assumes "mount_ok s f B" and "vnode_ok s f B v p" and "entry s p n \<noteq> None" and "op = tmpfs_mkdir \<or> op = tmpfs_create"
  shows "\<exists>s'. op s v n flags = Ok (- EEXIST, s') \<and> fs_inodes s' = fs_inodes s
     \<and> tmpfs_lookup s' v m = Fault Deadlock \<and> tmpfs_mkdir s' v m fl = Fault Deadlock \<and> tmpfs_create s' v m fl = Fault Deadlock"
proof -
  obtain V where V: "v \<noteq> NULL" "fs_vnodes s v = Some V" using assms(2) by (auto simp: vnode_ok_def)
  let ?s = "put_vnode s v (V\<lparr>vn_lock := 1\<rparr>)"
  have "op s v n flags = Ok (- EEXIST, ?s)"
    using tmpfs_add_child_exists[OF assms(1-3)] assms(4) V(2) by (auto simp: tmpfs_mkdir_def tmpfs_create_def)
  moreover have "tmpfs_lookup ?s v m = Fault Deadlock \<and> tmpfs_mkdir ?s v m fl = Fault Deadlock \<and> tmpfs_create ?s v m fl = Fault Deadlock"
    using V by (simp add: tmpfs_lookup_def tmpfs_mkdir_def tmpfs_create_def tmpfs_add_child_def)
  ultimately show ?thesis by (intro exI[of _ ?s]) simp
qed

theorem tmpfs_exists_keeps_lock_witness:
  "\<exists>s'. tmpfs_mkdir demo_fs 64 [0x61] 0 = Ok (- 17, s') \<and> tmpfs_lookup s' 64 [0x62] = Fault Deadlock"
proof -
  have "entry demo_fs 16 [0x61] \<noteq> None" by (simp add: entry_def demo_ino demo_dir_def) (simp add: demo_file_def)
  from tmpfs_exists_keeps_lock[OF demo_mount_ok demo_vnode_ok(1) this disjI1[OF refl], of 0 "[0x62]" 0]
  show ?thesis by (auto simp: EEXIST_def)
qed

end
