(* ===== verification/Printk.thy ===== *)
theory Printk
  imports CString Spinlock "HOL-Library.Signed_Division"
begin

section \<open>libk/printk.c: formatted output\<close>

text \<open>
  Local character arrays are byte lists of the array's length, and an access outside one faults;
  the output buffer, the format and string arguments are byte memory. A C \<open>int\<close> is an \<open>int\<close>
  with a fault where the source overflows it. The variable arguments are the 8-byte slots the
  calling convention passes them in: \<open>va_arg\<close> of a 32-bit type reads the low half of its slot.
  The loop over the format runs on fuel, one unit for each character or directive it treats.
\<close>

subsection \<open>Numbers\<close>

definition aget :: "u8 list \<Rightarrow> int \<Rightarrow> u8 result" where
  "aget xs i = (if 0 \<le> i \<and> i < int (length xs) then Ok (xs ! nat i) else Fault Out_Of_Bounds)"

definition aput :: "u8 list \<Rightarrow> int \<Rightarrow> u8 \<Rightarrow> u8 list result" where
  "aput xs i b = (if 0 \<le> i \<and> i < int (length xs) then Ok (xs[nat i := b]) else Fault Out_Of_Bounds)"

lemma aput_eq_Ok [result_simps]:
  "aput xs i b = Ok ys \<longleftrightarrow> 0 \<le> i \<and> i < int (length xs) \<and> ys = xs[nat i := b]"
  by (auto simp: aput_def)

lemma aget_eq_Ok [result_simps]: "aget xs i = Ok b \<longleftrightarrow> 0 \<le> i \<and> i < int (length xs) \<and> b = xs ! nat i"
  by (auto simp: aget_def)

function reverse_loop :: "u8 list \<Rightarrow> int \<Rightarrow> int \<Rightarrow> u8 list result" where
  "reverse_loop str start end1 =
     (if start < end1 then
        bnd (aget str start) (\<lambda>temp.
        bnd (aget str end1) (\<lambda>c.
        bnd (aput str start c) (\<lambda>str.
        bnd (aput str end1 temp) (\<lambda>str.
        reverse_loop str (start + 1) (end1 - 1)))))
      else Ok str)"
  by pat_completeness auto
termination
  by (relation "measure (\<lambda>(_, s, e). nat (e - s))") auto

declare reverse_loop.simps [simp del]

definition reverse :: "u8 list \<Rightarrow> int \<Rightarrow> u8 list result" where
  "reverse str len = reverse_loop str 0 (len - 1)"

definition digit_char :: "int \<Rightarrow> bool \<Rightarrow> u8" where
  "digit_char d capital = word_of_int (if d > 9 then d - 10 + (if capital then 0x41 else 0x61) else d + 0x30)"

function itoa_loop :: "int \<Rightarrow> u8 list \<Rightarrow> int \<Rightarrow> int \<Rightarrow> bool \<Rightarrow> (u8 list \<times> int) result" where
  "itoa_loop num str i base capital =
     (if num = 0 then Ok (str, i)
      else if base = 0 then Fault Div_By_Zero
      else bnd (aput str i (digit_char (num smod base) capital)) (\<lambda>str.
           itoa_loop (num sdiv base) str (i + 1) base capital))"
  by pat_completeness auto
termination
  by (relation "measure (\<lambda>(num, str, i, _). nat (int (length str) - i))") (auto simp: result_simps)

declare itoa_loop.simps [simp del]

definition itoa :: "int \<Rightarrow> u8 list \<Rightarrow> int \<Rightarrow> bool \<Rightarrow> u8 list result" where
  "itoa num str base capital =
     (if num = 0 then bnd (aput str 0 0x30) (\<lambda>str. aput str 1 0)
      else let isNegative = (num < 0 \<and> base = 10) in
        bnd (if num < 0 then (if num = - (2 ^ 31) then Fault Overflow else Ok (- num)) else Ok num) (\<lambda>n.
        bnd (itoa_loop n str 0 base capital) (\<lambda>(str, i).
        bnd (if isNegative then bnd (aput str i 0x2d) (\<lambda>str. Ok (str, i + 1)) else Ok (str, i)) (\<lambda>(str, i).
        bnd (reverse str i) (\<lambda>str. aput str i 0)))))"

function ltoa_loop :: "u64 \<Rightarrow> u8 list \<Rightarrow> int \<Rightarrow> int \<Rightarrow> bool \<Rightarrow> (u8 list \<times> int) result" where
  "ltoa_loop num str i base capital =
     (if num = 0 then Ok (str, i)
      else if (word_of_int base :: u64) = 0 then Fault Div_By_Zero
      else bnd (aput str i (digit_char (uint (num mod word_of_int base)) capital)) (\<lambda>str.
           ltoa_loop (num div word_of_int base) str (i + 1) base capital))"
  by pat_completeness auto
termination
  by (relation "measure (\<lambda>(num, str, i, _). nat (int (length str) - i))") (auto simp: result_simps)

declare ltoa_loop.simps [simp del]

definition ltoa :: "u64 \<Rightarrow> u8 list \<Rightarrow> int \<Rightarrow> bool \<Rightarrow> u8 list result" where
  "ltoa num str base capital =
     (if num = 0 then bnd (aput str 0 0x30) (\<lambda>str. aput str 1 0)
      else bnd (ltoa_loop num str 0 base capital) (\<lambda>(str, i).
        bnd (reverse str i) (\<lambda>str. aput str i 0)))"

subsection \<open>Directives\<close>

function strnlen_loop :: "mem \<Rightarrow> addr \<Rightarrow> nat \<Rightarrow> int \<Rightarrow> nat result" where
  "strnlen_loop m s sc count =
     (if count = 0 then Ok sc
      else if count \<le> - (2 ^ 31) then Fault Overflow
      else bnd (load m (s + of_nat sc)) (\<lambda>b.
        if b = 0 then Ok sc else strnlen_loop m s (Suc sc) (count - 1)))"
  by pat_completeness auto
termination
  by (relation "measure (\<lambda>(m, s, sc, count). nat (count + 2 ^ 31))") auto

declare strnlen_loop.simps [simp del]

definition strnlen :: "mem \<Rightarrow> addr \<Rightarrow> int \<Rightarrow> nat result" where
  "strnlen m s count = strnlen_loop m s 0 count"





definition va_arg :: "u64 list \<Rightarrow> (u64 \<times> u64 list) result" where
  "va_arg args = (case args of [] \<Rightarrow> Fault Bad_Vararg | a # as \<Rightarrow> Ok (a, as))"

text \<open>The output loops: blanks, the first bytes of a string, and a number up to its NUL.\<close>

fun put_blanks :: "nat \<Rightarrow> addr \<Rightarrow> mem \<Rightarrow> (addr \<times> mem) result" where
  "put_blanks 0 str m = Ok (str, m)"
| "put_blanks (Suc n) str m = bnd (store m str 0x20) (\<lambda>m. put_blanks n (str + 1) m)"

fun put_string :: "nat \<Rightarrow> addr \<Rightarrow> addr \<Rightarrow> mem \<Rightarrow> (addr \<times> mem) result" where
  "put_string 0 s str m = Ok (str, m)"
| "put_string (Suc n) s str m =
     bnd (load m s) (\<lambda>b. bnd (store m str b) (\<lambda>m. put_string n (s + 1) (str + 1) m))"

function numbuf_len :: "u8 list \<Rightarrow> nat \<Rightarrow> nat result" where
  "numbuf_len numbuf i =
     bnd (aget numbuf (int i)) (\<lambda>b. if b = 0 then Ok i else numbuf_len numbuf (Suc i))"
  by pat_completeness auto
termination
  by (relation "measure (\<lambda>(numbuf, i). length numbuf - i)") (auto simp: result_simps)

function put_number :: "u8 list \<Rightarrow> nat \<Rightarrow> addr \<Rightarrow> mem \<Rightarrow> (addr \<times> mem) result" where
  "put_number numbuf i str m =
     bnd (aget numbuf (int i)) (\<lambda>b. if b = 0 then Ok (str, m)
       else bnd (store m str b) (\<lambda>m. put_number numbuf (Suc i) (str + 1) m))"
  by pat_completeness auto
termination
  by (relation "measure (\<lambda>(numbuf, i, _). length numbuf - i)") (auto simp: result_simps)

declare numbuf_len.simps [simp del] put_number.simps [simp del]

definition int32 :: "u64 \<Rightarrow> int" where
  "int32 a = sint (ucast a :: u32)"

type_synonym vs_state = "mem \<times> addr \<times> u64 list \<times> u8 list"

definition vs_string :: "int \<Rightarrow> vs_state \<Rightarrow> vs_state result" where
  "vs_string width = (\<lambda>(m, str, args, numbuf).
     bnd (va_arg args) (\<lambda>(s, args).
     bnd (strnlen m s 1024) (\<lambda>len.
     bnd (put_blanks (nat (width - int len)) str m) (\<lambda>(str, m).
     bnd (put_string len s str m) (\<lambda>(str, m). Ok (m, str, args, numbuf))))))"

definition vs_char :: "int \<Rightarrow> vs_state \<Rightarrow> vs_state result" where
  "vs_char width = (\<lambda>(m, str, args, numbuf).
     bnd (put_blanks (nat (width - 1)) str m) (\<lambda>(str, m).
     bnd (va_arg args) (\<lambda>(c, args).
     bnd (store m str (ucast c)) (\<lambda>m. Ok (m, str + 1, args, numbuf)))))"

definition vs_int :: "int \<Rightarrow> bool \<Rightarrow> int \<Rightarrow> vs_state \<Rightarrow> vs_state result" where
  "vs_int base capital width = (\<lambda>(m, str, args, numbuf).
     bnd (va_arg args) (\<lambda>(a, args).
     bnd (itoa (int32 a) numbuf base capital) (\<lambda>numbuf.
     bnd (numbuf_len numbuf 0) (\<lambda>len.
     bnd (put_blanks (nat (width - int len)) str m) (\<lambda>(str, m).
     bnd (put_number numbuf 0 str m) (\<lambda>(str, m). Ok (m, str, args, numbuf)))))))"

definition vs_pointer :: "int \<Rightarrow> vs_state \<Rightarrow> vs_state result" where
  "vs_pointer width = (\<lambda>(m, str, args, numbuf).
     bnd (va_arg args) (\<lambda>(a, args).
     bnd (ltoa a numbuf 16 True) (\<lambda>numbuf.
     bnd (numbuf_len numbuf 0) (\<lambda>len.
     bnd (put_blanks (nat (width - 2 - int len)) str m) (\<lambda>(str, m).
     bnd (store m str 0x30) (\<lambda>m.
     bnd (store m (str + 1) 0x78) (\<lambda>m.
     bnd (put_number numbuf 0 (str + 2) m) (\<lambda>(str, m). Ok (m, str, args, numbuf)))))))))"

text \<open>A directive that is none of these writes nothing and takes no argument.\<close>

definition directive :: "u8 \<Rightarrow> int \<Rightarrow> vs_state \<Rightarrow> vs_state result" where
  "directive c width s =
     (if c = 0x73 then vs_string width s
      else if c = 0x63 then vs_char width s
      else if c = 0x64 then vs_int 10 False width s
      else if c = 0x78 then vs_int 16 False width s
      else if c = 0x58 then vs_int 16 True width s
      else if c = 0x70 then vs_pointer width s
      else Ok s)"




subsection \<open>printk\<close>





section \<open>Numbers as text\<close>

lemma aput_at [simp]: "aput (pre @ x # post) (int (length pre)) c = Ok (pre @ c # post)"
  by (simp add: aput_def)

lemma aget_at [simp]: "aget (pre @ x # post) (int (length pre)) = Ok x"
  by (simp add: aget_def nth_append)

lemma reverse_loop_rev:
  "reverse_loop (pre @ xs @ post) (int (length pre)) (int (length pre) + int (length xs) - 1) = Ok (pre @ rev xs @ post)"
proof (induction "length xs" arbitrary: pre xs post rule: less_induct)
  case less
  show ?case
  proof (cases "length xs < 2")
    case True
    then have "rev xs = xs" by (cases xs; cases "tl xs") auto
    then show ?thesis using True by (simp add: reverse_loop.simps)
  next
    case False
    then obtain a zs where a: "xs = a # zs" "zs \<noteq> []" by (cases xs) auto
    define ys where "ys = butlast zs"
    define b where "b = last zs"
    have xs: "xs = a # ys @ [b]" using a by (simp add: ys_def b_def)
    have s1: "aget (pre @ a # ys @ b # post) (int (length pre)) = Ok a" by simp
    have e: "int (length pre) + int (length xs) - 1 = int (length (pre @ a # ys))" using xs by simp
    have s2: "aget (pre @ a # ys @ b # post) (int (length (pre @ a # ys))) = Ok b"
      using aget_at[of "pre @ a # ys" b post] by simp
    have s3: "aput (pre @ a # ys @ b # post) (int (length pre)) b = Ok (pre @ b # ys @ b # post)" by simp
    have s4: "aput (pre @ b # ys @ b # post) (int (length (pre @ a # ys))) a = Ok (pre @ b # ys @ a # post)"
      using aput_at[of "pre @ b # ys" b post a] by simp
    have "reverse_loop ((pre @ [b]) @ ys @ (a # post)) (int (length (pre @ [b]))) (int (length (pre @ [b])) + int (length ys) - 1)
        = Ok ((pre @ [b]) @ rev ys @ (a # post))" by (rule less) (simp add: xs)
    then show ?thesis
      using s1 s2 s3 s4 unfolding e by (simp add: reverse_loop.simps[of "pre @ a # ys @ b # post"] xs algebra_simps)
  qed
qed

lemma reverse_rev: "reverse (xs @ post) (int (length xs)) = Ok (rev xs @ post)"
  using reverse_loop_rev[of "[]" xs post] by (simp add: reverse_def)

text \<open>The digits of a number, most significant first.\<close>

function digits :: "nat \<Rightarrow> nat \<Rightarrow> nat list" where
  "digits b n = (if n = 0 \<or> b < 2 then [] else digits b (n div b) @ [n mod b])"
  by pat_completeness auto
termination
  by (relation "measure snd") auto

declare digits.simps [simp del]

lemma digits_0 [simp]: "digits b 0 = []"
  by (simp add: digits.simps)

lemma digits_step: "2 \<le> b \<Longrightarrow> 0 < n \<Longrightarrow> digits b n = digits b (n div b) @ [n mod b]"
  using digits.simps[of b n] by simp

lemma digits_bound: "2 \<le> b \<Longrightarrow> d \<in> set (digits b n) \<Longrightarrow> d < b"
proof (induction n rule: less_induct)
  case (less n)
  have "n div b < n" if "n \<noteq> 0" using that less.prems(1) by simp
  then have "d \<in> set (digits b (n div b)) \<Longrightarrow> d < b"
    using less.IH[of "n div b"] less.prems(1) by (metis digits_0 div_0 empty_iff empty_set)
  then show ?case using less.prems by (cases "n = 0") (auto simp: digits_step)
qed

lemma digits_length: "2 \<le> b \<Longrightarrow> length (digits b n) \<le> k \<longleftrightarrow> n < b ^ k"
proof (induction k arbitrary: n)
  case 0
  then show ?case by (cases "n = 0") (auto simp: digits_step)
next
  case (Suc k)
  show ?case
  proof (cases "n = 0")
    case False
    then have "length (digits b n) \<le> Suc k \<longleftrightarrow> n div b < b ^ k" using Suc by (simp add: digits_step)
    also have "\<dots> \<longleftrightarrow> n < b ^ Suc k" using Suc.prems by (simp add: div_less_iff_less_mult mult.commute)
    finally show ?thesis .
  qed (use Suc.prems in simp)
qed

lemma digits_value: "2 \<le> b \<Longrightarrow> foldl (\<lambda>v d. v * b + d) 0 (digits b n) = n"
proof (induction n rule: less_induct)
  case (less n)
  then show ?case by (cases "n = 0") (auto simp: digits_step)
qed

definition num_text :: "nat \<Rightarrow> bool \<Rightarrow> nat \<Rightarrow> u8 list" where
  "num_text b cap n = (if n = 0 then [0x30] else map (\<lambda>d. digit_char (int d) cap) (digits b n))"

definition int_text :: "nat \<Rightarrow> bool \<Rightarrow> int \<Rightarrow> u8 list" where
  "int_text b cap n = (if n < 0 \<and> b = 10 then [0x2d] else []) @ num_text b cap (nat \<bar>n\<bar>)"

lemma signed_nonneg:
  fixes k b :: int
  assumes "0 \<le> k" and "0 < b"
  shows "k smod b = k mod b" "k sdiv b = k div b"
  using assms by (cases "k = 0"; simp add: signed_divide_int_def signed_modulo_int_def)+

lemma itoa_loop_digits:
  assumes "2 \<le> b" and "length (digits b n) \<le> length xs"
  shows "itoa_loop (int n) (pre @ xs) (int (length pre)) (int b) cap
    = Ok (pre @ map (\<lambda>d. digit_char (int d) cap) (rev (digits b n)) @ drop (length (digits b n)) xs, int (length pre + length (digits b n)))"
  using assms(2)
proof (induction n arbitrary: pre xs rule: less_induct)
  case (less n)
  show ?case
  proof (cases "n = 0")
    case True
    then show ?thesis by (simp add: itoa_loop.simps)
  next
    case False
    have dg: "digits b n = digits b (n div b) @ [n mod b]" using False assms(1) by (simp add: digits_step)
    then obtain x ys where xs: "xs = x # ys" using less(2) by (cases xs) auto
    let ?c = "digit_char (int (n mod b)) cap"
    have s: "int n smod int b = int (n mod b)" "int n sdiv int b = int (n div b)"
      using assms(1) by (simp_all add: signed_nonneg zdiv_int zmod_int)
    have ih: "itoa_loop (int (n div b)) ((pre @ [?c]) @ ys) (int (length (pre @ [?c]))) (int b) cap
      = Ok ((pre @ [?c]) @ map (\<lambda>d. digit_char (int d) cap) (rev (digits b (n div b))) @ drop (length (digits b (n div b))) ys,
         int (length (pre @ [?c]) + length (digits b (n div b))))"
      by (rule less(1)) (use False assms(1) less(2) dg xs in auto)
    show ?thesis
      using ih assms(1) False by (simp add: itoa_loop.simps[of "int n"] s dg xs algebra_simps)
  qed
qed

lemma itoa_loop_overflow:
  assumes "2 \<le> b" and "length xs < length (digits b n)"
  shows "itoa_loop (int n) (pre @ xs) (int (length pre)) (int b) cap = Fault Out_Of_Bounds"
  using assms(2)
proof (induction n arbitrary: pre xs rule: less_induct)
  case (less n)
  then have n: "n \<noteq> 0" by (cases "n = 0") auto
  have dg: "digits b n = digits b (n div b) @ [n mod b]" using n assms(1) by (simp add: digits_step)
  have s: "int n smod int b = int (n mod b)" "int n sdiv int b = int (n div b)"
    using assms(1) by (simp_all add: signed_nonneg zdiv_int zmod_int)
  show ?case
  proof (cases xs)
    case Nil
    then show ?thesis using n assms(1) by (simp add: itoa_loop.simps[of "int n"] aput_def)
  next
    case (Cons x ys)
    let ?c = "digit_char (int (n mod b)) cap"
    have "itoa_loop (int (n div b)) ((pre @ [?c]) @ ys) (int (length (pre @ [?c]))) (int b) cap = Fault Out_Of_Bounds"
      by (rule less(1)) (use n assms(1) less(2) dg Cons in auto)
    then show ?thesis
      using assms(1) n by (simp add: itoa_loop.simps[of "int n"] s Cons algebra_simps)
  qed
qed

lemma ltoa_loop_itoa_loop:
  assumes "2 \<le> b" and "b < 2 ^ 31"
  shows "ltoa_loop num str i (int b) cap = itoa_loop (uint num) str i (int b) cap"
proof (induction num str i "int b" cap rule: ltoa_loop.induct)
  case (1 num str i cap)
  have b: "uint (word_of_int (int b) :: u64) = int b" using assms by (simp add: unsigned_of_nat take_bit_nat_eq_self)
  then have b0: "(word_of_int (int b) :: u64) \<noteq> 0" using assms(1) by (metis of_nat_eq_0_iff unsigned_0 not_numeral_le_zero)
  have s: "uint num smod int b = uint (num mod word_of_int (int b))" "uint num sdiv int b = uint (num div word_of_int (int b))"
    using assms(1) b by (simp_all add: signed_nonneg uint_div uint_mod)
  show ?case
  proof (cases "num = 0")
    case False
    then have "uint num \<noteq> 0" by (simp add: uint_0_iff)
    then show ?thesis using 1 False b0 assms(1) s
      by (simp add: ltoa_loop.simps[of num] itoa_loop.simps[of "uint num"] cong: bnd_cong)
  qed (simp add: ltoa_loop.simps itoa_loop.simps)
qed

lemma two_cells: "1 < length xs \<Longrightarrow> \<exists>x y zs. xs = x # y # zs"
  by (metis One_nat_def Suc_less_eq length_Cons length_greater_0_conv list.exhaust list.size(3) not_less_zero)

lemma ltoa_text:
  assumes "2 \<le> b" and "b < 2 ^ 31" and "length (num_text b cap (unat num)) < length str"
  shows "ltoa num str (int b) cap = Ok (num_text b cap (unat num) @ 0 # drop (Suc (length (num_text b cap (unat num)))) str)"
proof (cases "num = 0")
  case True
  have "1 < length str" using assms(3) True by (simp add: num_text_def)
  then obtain x y zs where "str = x # y # zs" using two_cells by blast
  then show ?thesis using True by (simp add: ltoa_def num_text_def aput_def)
next
  case False
  let ?d = "digits b (unat num)"
  have n: "uint num = int (unat num)" "unat num \<noteq> 0" using False by (simp_all add: unat_eq_0)
  let ?t = "map (\<lambda>d. digit_char (int d) cap) ?d"
  have t: "num_text b cap (unat num) = ?t" using n(2) by (simp add: num_text_def)
  have len: "length ?d < length str" using assms(3) t by simp
  have eq: "ltoa_loop num str 0 (int b) cap = itoa_loop (int (unat num)) str 0 (int b) cap"
    by (simp only: ltoa_loop_itoa_loop[OF assms(1,2)] n(1))
  have lp: "ltoa_loop num str 0 (int b) cap = Ok (rev ?t @ drop (length ?d) str, int (length ?d))"
    using itoa_loop_digits[OF assms(1), of "unat num" str "[]" cap] len
    unfolding eq by (simp add: rev_map)
  obtain x zs where dr: "drop (length ?d) str = x # zs" "zs = drop (Suc (length ?d)) str"
    using len by (metis Cons_nth_drop_Suc)
  have "reverse (rev ?t @ x # zs) (int (length ?d)) = Ok (?t @ x # zs)"
    using reverse_rev[of "rev ?t" "x # zs"] by simp
  moreover have "aput (?t @ x # zs) (int (length ?d)) 0 = Ok (?t @ 0 # zs)"
    using aput_at[of ?t x zs 0] by simp
  ultimately show ?thesis using False lp dr t by (simp add: ltoa_def)
qed

lemma ltoa_overflow:
  assumes "2 \<le> b" and "b < 2 ^ 31" and "\<not> length (num_text b cap (unat num)) < length str"
  shows "ltoa num str (int b) cap = Fault Out_Of_Bounds"
proof (cases "num = 0")
  case True
  then show ?thesis using assms(3) by (cases str) (auto simp: ltoa_def num_text_def aput_def)
next
  case False
  let ?d = "digits b (unat num)"
  have n: "uint num = int (unat num)" "unat num \<noteq> 0" using False by (simp_all add: unat_eq_0)
  have len: "length str \<le> length ?d" using assms(3) n(2) by (simp add: num_text_def)
  have eq: "ltoa_loop num str 0 (int b) cap = itoa_loop (int (unat num)) str 0 (int b) cap"
    by (simp only: ltoa_loop_itoa_loop[OF assms(1,2)] n(1))
  show ?thesis
  proof (cases "length str = length ?d")
    case True
    let ?t = "map (\<lambda>d. digit_char (int d) cap) ?d"
    have "ltoa_loop num str 0 (int b) cap = Ok (rev ?t, int (length ?d))"
      using itoa_loop_digits[OF assms(1), of "unat num" str "[]" cap] True
      unfolding eq by (simp add: rev_map)
    moreover have "reverse (rev ?t) (int (length ?d)) = Ok ?t" using reverse_rev[of "rev ?t" "[]"] by simp
    ultimately show ?thesis using False by (simp add: ltoa_def aput_def)
  next
    case neq: False
    then have "ltoa_loop num str 0 (int b) cap = Fault Out_Of_Bounds"
      using itoa_loop_overflow[OF assms(1), of str "unat num" "[]" cap] len
      unfolding eq by simp
    then show ?thesis using False by (simp add: ltoa_def)
  qed
qed

lemma itoa_text:
  assumes "2 \<le> b" and "\<bar>n\<bar> < 2 ^ 31" and "length (int_text b cap n) < length str"
  shows "itoa n str (int b) cap = Ok (int_text b cap n @ 0 # drop (Suc (length (int_text b cap n))) str)"
proof (cases "n = 0")
  case True
  have "1 < length str" using assms(3) True by (simp add: int_text_def num_text_def)
  then obtain x y zs where "str = x # y # zs" using two_cells by blast
  then show ?thesis using True by (simp add: itoa_def int_text_def num_text_def aput_def)
next
  case False
  let ?d = "digits b (nat \<bar>n\<bar>)"
  let ?t = "map (\<lambda>d. digit_char (int d) cap) ?d"
  let ?s = "if n < 0 \<and> b = 10 then [0x2d::u8] else []"
  have it: "int_text b cap n = ?s @ ?t" using False by (simp add: int_text_def num_text_def)
  have len: "length ?s + length ?d < length str" using assms(3) it by simp
  have a: "(if n < 0 then (if n = - (2 ^ 31) then Fault Overflow else Ok (- n)) else Ok n) = Ok (int (nat \<bar>n\<bar>))"
    using assms(2) by (auto simp: abs_if)
  have lp: "itoa_loop (int (nat \<bar>n\<bar>)) str 0 (int b) cap = Ok (rev ?t @ drop (length ?d) str, int (length ?d))"
    using itoa_loop_digits[OF assms(1), of "nat \<bar>n\<bar>" str "[]" cap] len by (simp add: rev_map)
  have "length ?d < length str" using len by linarith
  then have dr0: "drop (length ?d) str = str ! length ?d # drop (Suc (length ?d)) str" by (simp add: Cons_nth_drop_Suc)
  define x where "x = str ! length ?d"
  define zs where "zs = drop (Suc (length ?d)) str"
  have dr: "drop (length ?d) str = x # zs" "zs = drop (Suc (length ?d)) str" using dr0 by (simp_all add: x_def zs_def)
  show ?thesis
  proof (cases "n < 0 \<and> b = 10")
    case True
    have "zs \<noteq> []" using len True dr by auto
    then obtain y ws where zs: "zs = y # ws" by (cases zs) auto
    have p1: "aput (rev ?t @ x # zs) (int (length ?d)) 0x2d = Ok (rev ?t @ 0x2d # zs)"
      using aput_at[of "rev ?t" x zs "0x2d"] by simp
    have p2: "reverse (rev ?t @ 0x2d # zs) (int (length ?d) + 1) = Ok (0x2d # ?t @ zs)"
      using reverse_rev[of "rev ?t @ [0x2d]" zs] by (simp add: algebra_simps)
    have p3: "aput (0x2d # ?t @ zs) (int (length ?d) + 1) 0 = Ok (0x2d # ?t @ 0 # ws)"
      using aput_at[of "0x2d # ?t" y ws 0] zs by (simp add: algebra_simps)
    have ws: "ws = drop (Suc (Suc (length ?d))) str" using dr zs by (metis drop_Suc tl_drop list.sel(3))
    show ?thesis using False True a lp dr(1) p1 p2 p3 ws it by (simp add: itoa_def)
  next
    case neg: False
    have p2: "reverse (rev ?t @ x # zs) (int (length ?d)) = Ok (?t @ x # zs)"
      using reverse_rev[of "rev ?t" "x # zs"] by simp
    have p3: "aput (?t @ x # zs) (int (length ?d)) 0 = Ok (?t @ 0 # zs)"
      using aput_at[of ?t x zs 0] by simp
    have b: "\<not> (n < 0 \<and> int b = 10)" using neg by auto
    show ?thesis using False neg b a lp dr p2 p3 it by (auto simp: itoa_def)
  qed
qed

section \<open>The formatted text\<close>














subsection \<open>Formats as lists of items\<close>














lemma digit_char_nonzero: "0 \<le> d \<Longrightarrow> d < 36 \<Longrightarrow> digit_char d cap \<noteq> 0"
  by (auto simp: digit_char_def word_of_int_eq_0_iff dest: zdvd_imp_le)

lemma num_text_nonzero: "2 \<le> b \<Longrightarrow> b \<le> 36 \<Longrightarrow> 0 \<notin> set (num_text b cap n)"
proof
  assume b: "2 \<le> b" "b \<le> 36" and "0 \<in> set (num_text b cap n)"
  then obtain d where d: "d \<in> set (digits b n)" "digit_char (int d) cap = 0" by (auto simp: num_text_def split: if_splits)
  then have "int d < 36" using digits_bound[OF b(1) d(1)] b(2) by linarith
  then show False using digit_char_nonzero[of "int d" cap] d(2) by simp
qed

lemma int_text_nonzero: "2 \<le> b \<Longrightarrow> b \<le> 36 \<Longrightarrow> 0 \<notin> set (int_text b cap n)"
  using num_text_nonzero by (auto simp: int_text_def)

lemma num_text_length: "2 \<le> b \<Longrightarrow> 0 < k \<Longrightarrow> length (num_text b cap n) \<le> k \<longleftrightarrow> n < b ^ k"
  using digits_length[of b n k] by (auto simp: num_text_def)





subsection \<open>The directives write the specified text\<close>






















text \<open>Reading a number back.\<close>

definition digit_value :: "u8 \<Rightarrow> int" where
  "digit_value c = (if uint c \<le> 0x39 then uint c - 0x30 else if uint c \<le> 0x5a then uint c - 0x41 + 10 else uint c - 0x61 + 10)"

definition read_num :: "nat \<Rightarrow> u8 list \<Rightarrow> int" where
  "read_num b t = foldl (\<lambda>v c. v * int b + digit_value c) 0 t"

definition read_int :: "nat \<Rightarrow> u8 list \<Rightarrow> int" where
  "read_int b t = (if t \<noteq> [] \<and> hd t = 0x2d then - read_num b (tl t) else read_num b t)"

lemma digit_value_char: "0 \<le> d \<Longrightarrow> d < 36 \<Longrightarrow> digit_value (digit_char d cap) = d \<and> digit_char d cap \<noteq> 0x2d"
proof -
  assume d: "0 \<le> d" "d < 36"
  have u: "uint (digit_char d cap) = (if d > 9 then d - 10 + (if cap then 0x41 else 0x61) else d + 0x30)"
    using d by (auto simp: digit_char_def uint_word_of_int)
  then have "uint (digit_char d cap) \<noteq> uint (0x2d :: u8)" using d by (auto split: if_splits)
  then show ?thesis using u d by (auto simp: digit_value_def split: if_splits)
qed

lemma read_num_digits:
  assumes "2 \<le> b" and "b \<le> 36"
  shows "read_num b (num_text b cap n) = int n"
proof (cases "n = 0")
  case True
  then show ?thesis by (simp add: read_num_def num_text_def digit_value_def)
next
  case False
  have "foldl (\<lambda>v c. v * int b + digit_value c) (int w) (map (\<lambda>d. digit_char (int d) cap) ds) = int (foldl (\<lambda>v d. v * b + d) w ds)"
    if "\<forall>d \<in> set ds. d < 36" for ds w
    using that
  proof (induction ds arbitrary: w)
    case (Cons d ds)
    then have "digit_value (digit_char (int d) cap) = int d" using digit_value_char[of "int d" cap] by simp
    then show ?case using Cons.IH[of "w * b + d"] Cons.prems by simp
  qed simp
  from this[of "digits b n" 0] show ?thesis
    using digits_bound[OF assms(1), of _ n] assms digits_value[OF assms(1), of n] False
    by (fastforce simp: read_num_def num_text_def)
qed

lemma num_text_hd: "2 \<le> b \<Longrightarrow> b \<le> 36 \<Longrightarrow> num_text b cap n \<noteq> [] \<and> hd (num_text b cap n) \<noteq> 0x2d"
proof -
  assume b: "2 \<le> b" "b \<le> 36"
  have ne: "num_text b cap n \<noteq> []" using digits_length[OF b(1), of n 0] by (auto simp: num_text_def)
  have "\<forall>c \<in> set (num_text b cap n). c \<noteq> 0x2d"
  proof
    fix c assume c: "c \<in> set (num_text b cap n)"
    show "c \<noteq> 0x2d"
    proof (cases "n = 0")
      case False
      then obtain d where "d \<in> set (digits b n)" "c = digit_char (int d) cap" using c by (auto simp: num_text_def)
      then show ?thesis using digits_bound[OF b(1), of d n] digit_value_char[of "int d" cap] b(2) by simp
    qed (use c in \<open>simp add: num_text_def\<close>)
  qed
  then show ?thesis using ne hd_in_set by blast
qed

lemma read_int_text:
  assumes "2 \<le> b" and "b \<le> 36"
  shows "read_int b (int_text b cap n) = (if b = 10 then n else \<bar>n\<bar>)"
proof (cases "n < 0 \<and> b = 10")
  case True
  then show ?thesis using read_num_digits[OF assms, of cap "nat \<bar>n\<bar>"] by (simp add: read_int_def int_text_def)
next
  case False
  then have "read_int b (int_text b cap n) = \<bar>n\<bar>"
    using read_num_digits[OF assms, of cap "nat \<bar>n\<bar>"] num_text_hd[OF assms, of cap "nat \<bar>n\<bar>"]
    by (auto simp: read_int_def int_text_def)
  then show ?thesis using False by auto
qed

section \<open>Properties of libk/printk.c\<close>







text \<open>
  C33: Numbers print and read back. In every base from 2 to 36, an array of at least 34 bytes holds the text
  \<open>itoa\<close> writes for any number but the smallest one, the text ends at its NUL, and reading it gives the
  number back; in every base but ten the sign is lost.
\<close>

theorem itoa_reads_back:
  assumes "2 \<le> b" and "b \<le> 36" and "\<bar>n\<bar> < 2 ^ 31" and "34 \<le> length str"
  shows "\<exists>t rest. itoa n str (int b) cap = Ok (t @ 0 # rest) \<and> 0 \<notin> set t \<and> length (t @ 0 # rest) = length str
     \<and> read_int b t = (if b = 10 then n else \<bar>n\<bar>)"
proof -
  let ?t = "int_text b cap n"
  have "nat \<bar>n\<bar> < 2 ^ 31" using assms(3) by simp
  also have "(2::nat) ^ 31 \<le> b ^ 31" using assms(1) by (rule power_mono) simp
  finally have "length (num_text b cap (nat \<bar>n\<bar>)) \<le> 31" using assms(1) by (subst num_text_length) simp_all
  moreover have "length (if n < 0 \<and> b = 10 then [0x2d :: u8] else []) \<le> 1" by simp
  ultimately have len: "length ?t < length str" using assms(4) unfolding int_text_def length_append by linarith
  have "length (?t @ 0 # drop (Suc (length ?t)) str) = length str" using len by simp
  then show ?thesis
    using itoa_text[OF assms(1,3) len] int_text_nonzero[OF assms(1,2)] read_int_text[OF assms(1,2)] by blast
qed

theorem itoa_reads_back_witness:
  "\<exists>t rest. itoa (- 1234) (replicate 40 0) 10 False = Ok (t @ 0 # rest) \<and> 0 \<notin> set t \<and> read_int 10 t = - 1234"
  using itoa_reads_back[of 10 "- 1234" "replicate 40 0" False] by auto

text \<open>
  The number buffer is too short for kernel pointers. In the 16 bytes of \<open>numbuf\<close>, \<open>ltoa\<close> overruns the
  array for exactly the numbers of 16 hexadecimal digits, and so \<open>%p\<close> overruns it for every address of the
  upper half of the address space, where the kernel and its direct map live.
\<close>

theorem pointer_overruns_numbuf:
  assumes "length nb = 16"
  shows "(ltoa v nb 16 cap = Fault Out_Of_Bounds \<longleftrightarrow> 2 ^ 60 \<le> unat v)
     \<and> (2 ^ 60 \<le> unat v \<longrightarrow> directive 0x70 w (m, str, v # args, nb) = Fault Out_Of_Bounds)"
proof -
  have l: "length (num_text 16 cap (unat v)) < length nb \<longleftrightarrow> unat v < 2 ^ 60" for cap
  proof -
    have "length (num_text 16 cap (unat v)) \<le> 15 \<longleftrightarrow> unat v < 16 ^ 15" by (rule num_text_length) simp_all
    moreover have "(16 :: nat) ^ 15 = 2 ^ 60" by simp
    ultimately show ?thesis using assms by linarith
  qed
  have f: "ltoa v nb 16 cap = Fault Out_Of_Bounds \<longleftrightarrow> 2 ^ 60 \<le> unat v" for cap
    using ltoa_text[of 16 cap v nb] ltoa_overflow[of 16 cap v nb] l[of cap] by auto
  then show ?thesis by (auto simp: directive_def vs_pointer_def va_arg_def)
qed

theorem pointer_overruns_numbuf_witness:
  "ltoa 0xffff800000001000 (replicate 16 0) 16 True = Fault Out_Of_Bounds"
  using pointer_overruns_numbuf[of "replicate 16 0" "0xffff800000001000" True] by simp












end
