(* ===== verification/Vfs.thy ===== *)
theory Vfs
  imports Tmpfs Printk
begin

section \<open>fs/vfs.c: paths, dentries and files\<close>

text \<open>
  The operations of a vnode are called through its table: NULL is dereferenced where there is none, and
  the only table of the kernel is the one of tmpfs. The result of a call that stores a pointer is the pair
  of the error code and that pointer, NULL where it was not stored. The key of the dentry cache is the
  pair of the parent and the name, the key of the vnode cache the pair of the file system and the number;
  the copies of keys and names a call makes and frees again do not show.
\<close>

definition VFS_PATH_MAX :: nat where "VFS_PATH_MAX = 256"

record vfile =
  fd_entry :: addr
  fd_pos :: int
  fd_flags :: u16

definition vop_of :: "fs \<Rightarrow> addr \<Rightarrow> ops_table result" where
  "vop_of s node =
     bnd (fetch (fs_vnodes s) node) (\<lambda>v. if vn_ops v = No_Ops then Fault Null_Deref else Ok (vn_ops v))"

definition has_op :: "ops_table \<Rightarrow> vop \<Rightarrow> bool" where
  "has_op t op = (case t of No_Ops \<Rightarrow> False | Tmpfs_Operations \<Rightarrow> op \<in> tmpfs_operations)"

subsection \<open>Paths\<close>

text \<open>
  The components of a path, each copied from the buffer of 256 bytes it was collected in; what the buffer
  holds before that is never read. \<open>acc\<close> is the list of the components so far.
\<close>

fun parse_loop :: "u8 list \<Rightarrow> u8 list \<Rightarrow> nat \<Rightarrow> name list \<Rightarrow> name list result" where
  "parse_loop [] buf pos acc =
     (if pos > 0 then bnd (aput buf (int pos) 0) (\<lambda>buf. Ok (acc @ [take pos buf])) else Ok acc)"
| "parse_loop (c # path) buf pos acc =
     bnd (aput buf (int pos) c) (\<lambda>buf.
     if c = 0x2f then bnd (aput buf (int pos) 0) (\<lambda>buf. parse_loop path buf 0 (acc @ [take pos buf]))
     else parse_loop path buf (pos + 1) acc)"

definition vfs_parse_path :: "u8 list \<Rightarrow> name list result" where
  "vfs_parse_path path =
     (let buf = replicate VFS_PATH_MAX 0 in
      if path \<noteq> [] \<and> hd path = 0x2f then parse_loop (tl path) buf 0 [[0x2f]] else parse_loop path buf 0 [])"

definition vfs_find_vnode :: "fs \<Rightarrow> addr \<Rightarrow> int \<Rightarrow> (int \<times> addr \<times> fs) result" where
  "vfs_find_vnode s node num =
     (if node = NULL then Ok (EINVAL, NULL, s) else
      bnd (fetch (fs_vnodes s) node) (\<lambda>v.
      if vn_ops v = No_Ops \<or> vn_vfs v = NULL then Ok (EINVAL, NULL, s) else
      let ret = oldest (fs_vcache s) (vn_vfs v, num) in
      if ret \<noteq> NULL then Ok (0, ret, s) else
      if \<not> has_op (vn_ops v) Op_create_node then Ok (- ENOSYS, NULL, s) else
      tmpfs_create_node s node num))"

definition put_dentry :: "fs \<Rightarrow> addr \<Rightarrow> dentry \<Rightarrow> fs" where
  "put_dentry s a d = s\<lparr>fs_dentries := (fs_dentries s)(a \<mapsto> d)\<rparr>"

definition no_dentry :: dentry where
  "no_dentry = \<lparr>de_name = [], de_parent = NULL, de_vnode = NULL, de_refcount = 0\<rparr>"

text \<open>The new dentry is allocated before the lookup, and not freed where that fails.\<close>

definition vfs_find_child :: "fs \<Rightarrow> addr \<Rightarrow> name \<Rightarrow> (int \<times> addr \<times> fs) result" where
  "vfs_find_child s dent name =
     (if dent = NULL then Ok (- EINVAL, NULL, s) else
      if name = [0x2e] then Ok (0, dent, s) else
      let ret = oldest (fs_dcache s) (dent, name) in
      if ret \<noteq> NULL then Ok (0, ret, s) else
      let (ret, s) = kzalloc s in
      let s = (if ret = NULL then s else put_dentry s ret no_dentry) in
      bnd (fetch (fs_dentries s) dent) (\<lambda>d.
      bnd (vop_of s (de_vnode d)) (\<lambda>_.
      bnd (tmpfs_lookup s (de_vnode d) name) (\<lambda>(err, num, s).
      if err \<noteq> 0 then Ok (err, NULL, s) else
      bnd (vfs_find_vnode s (de_vnode d) num) (\<lambda>(err, node, s).
      if err \<noteq> 0 then Ok (err, NULL, s) else
      if ret = NULL then Fault Null_Deref else
      Ok (0, ret, put_dentry s ret \<lparr>de_name = name, de_parent = dent, de_vnode = node, de_refcount = 1\<rparr>))))))"

fun walk_loop :: "fs \<Rightarrow> addr \<Rightarrow> name list \<Rightarrow> (int \<times> addr \<times> fs) result" where
  "walk_loop s cur [] = Ok (0, cur, s)"
| "walk_loop s cur (n # files) =
     bnd (vfs_find_child s cur n) (\<lambda>(err, res, s).
     if err \<noteq> 0 then Ok (err, NULL, s) else walk_loop s res files)"

definition vfs_find_dentry :: "fs \<Rightarrow> u8 list \<Rightarrow> addr \<Rightarrow> bool \<Rightarrow> (int \<times> addr \<times> fs) result" where
  "vfs_find_dentry s path rel parent =
     bnd (vfs_parse_path path) (\<lambda>files.
     if files = [] \<or> (length files = 1 \<and> parent) then Ok (- EINVAL, NULL, s) else
     let files = (if parent then butlast files else files);
         absolute = (path \<noteq> [] \<and> hd path = 0x2f);
         files = (if absolute then tl files else files);
         rel = (if absolute then fs_root s else rel);
         rel = (if rel = NULL then fs_root s else rel) in
     walk_loop s rel files)"

subsection \<open>Operations\<close>

definition vfs_add :: "vop \<Rightarrow> (fs \<Rightarrow> addr \<Rightarrow> name \<Rightarrow> u16 \<Rightarrow> (int \<times> fs) result) \<Rightarrow> fs \<Rightarrow> u8 list \<Rightarrow> addr \<Rightarrow> u16 \<Rightarrow> (int \<times> fs) result" where
  "vfs_add op f s path rel flags =
     bnd (vfs_find_dentry s path rel True) (\<lambda>(err, parent, s).
     if err \<noteq> 0 then Ok (err, s) else
     bnd (fetch (fs_dentries s) parent) (\<lambda>d.
     bnd (vop_of s (de_vnode d)) (\<lambda>ops.
     if \<not> has_op ops op then Ok (- ENOSYS, s) else
     bnd (vfs_parse_path path) (\<lambda>files.
     if files = [] then Fault Null_Deref else
     let child = last files in
     bnd (vfs_find_child s parent child) (\<lambda>(err, dummy, s).
     if err = 0 then Ok (- EEXIST, s) else
     bnd (fetch (fs_dentries s) parent) (\<lambda>d.
     f s (de_vnode d) child flags))))))"

definition vfs_mkdir :: "fs \<Rightarrow> u8 list \<Rightarrow> addr \<Rightarrow> u16 \<Rightarrow> (int \<times> fs) result" where
  "vfs_mkdir = vfs_add Op_mkdir tmpfs_mkdir"

definition vfs_create :: "fs \<Rightarrow> u8 list \<Rightarrow> addr \<Rightarrow> u16 \<Rightarrow> (int \<times> fs) result" where
  "vfs_create = vfs_add Op_create tmpfs_create"

definition vfs_open :: "fs \<Rightarrow> u8 list \<Rightarrow> addr \<Rightarrow> u16 \<Rightarrow> vfile \<Rightarrow> (int \<times> vfile \<times> fs) result" where
  "vfs_open s path rel flags fd =
     bnd (vfs_find_dentry s path rel False) (\<lambda>(err, ent, s).
     if err \<noteq> 0 then Ok (err, fd, s) else
     Ok (0, fd\<lparr>fd_entry := ent, fd_flags := flags, fd_pos := 0\<rparr>, s))"

definition vfs_close :: "vfile \<Rightarrow> int" where
  "vfs_close fd = 0"

definition file_vnode :: "fs \<Rightarrow> vfile \<Rightarrow> addr result" where
  "file_vnode s fd = bnd (fetch (fs_dentries s) (fd_entry fd)) (\<lambda>d. Ok (de_vnode d))"

text \<open>The position moves on regular files and block devices.\<close>

definition advance :: "fs \<Rightarrow> addr \<Rightarrow> vfile \<Rightarrow> int \<Rightarrow> vfile result" where
  "advance s node fd res =
     bnd (fetch (fs_vnodes s) node) (\<lambda>v.
     if res > 0 \<and> (S_ISREG (vn_mode v) \<or> S_ISBLK (vn_mode v))
     then bnd (long (fd_pos fd + res)) (\<lambda>p. Ok (fd\<lparr>fd_pos := p\<rparr>)) else Ok fd)"

definition vfs_write :: "fs \<Rightarrow> vfile \<Rightarrow> u8 list \<Rightarrow> int \<Rightarrow> (int \<times> vfile \<times> fs) result" where
  "vfs_write s fd buf n =
     bnd (file_vnode s fd) (\<lambda>node.
     bnd (vop_of s node) (\<lambda>ops.
     if \<not> has_op ops Op_write then Ok (- ENOSYS, fd, s) else
     bnd (tmpfs_write s node buf n (fd_pos fd)) (\<lambda>(res, s).
     bnd (advance s node fd res) (\<lambda>fd. Ok (res, fd, s)))))"

text \<open>The argument \<open>pos\<close> is not used.\<close>

definition vfs_pread :: "fs \<Rightarrow> vfile \<Rightarrow> int \<Rightarrow> int \<Rightarrow> (int \<times> u8 list) result" where
  "vfs_pread s fd n pos =
     bnd (file_vnode s fd) (\<lambda>node.
     bnd (vop_of s node) (\<lambda>ops.
     if \<not> has_op ops Op_read then Ok (- ENOSYS, []) else
     tmpfs_read s node n (fd_pos fd)))"

definition vfs_read :: "fs \<Rightarrow> vfile \<Rightarrow> int \<Rightarrow> (int \<times> u8 list \<times> vfile) result" where
  "vfs_read s fd n =
     bnd (vfs_pread s fd n (fd_pos fd)) (\<lambda>(res, bs).
     bnd (file_vnode s fd) (\<lambda>node.
     bnd (advance s node fd res) (\<lambda>fd. Ok (res, bs, fd))))"

definition vfs_size :: "fs \<Rightarrow> vfile \<Rightarrow> int result" where
  "vfs_size s fd = bnd (file_vnode s fd) (\<lambda>node. bnd (fetch (fs_vnodes s) node) (\<lambda>v. Ok (vn_size v)))"

definition vfs_cache_dentry :: "fs \<Rightarrow> addr \<Rightarrow> fs result" where
  "vfs_cache_dentry s ent =
     bnd (fetch (fs_dentries s) ent) (\<lambda>d. Ok (s\<lparr>fs_dcache := fs_dcache s @ [((de_parent d, de_name d), ent)]\<rparr>))"

definition vfs_cache_vnode :: "fs \<Rightarrow> addr \<Rightarrow> fs result" where
  "vfs_cache_vnode s node =
     bnd (fetch (fs_vnodes s) node) (\<lambda>v. Ok (s\<lparr>fs_vcache := fs_vcache s @ [((vn_vfs v, vn_number v), node)]\<rparr>))"

subsection \<open>Mounting the root\<close>

text \<open>
  \<open>dentry_resolve\<close> pushes the names of the dentries, from the given one up to the root, and then takes
  each name for a dentry: it reads the first eight bytes of the string as the pointer to a name. \<open>m\<close>
  is the memory the strings lie in, \<open>np\<close> the address of the name of a dentry.
\<close>

fun name_pointers :: "nat \<Rightarrow> (addr \<Rightarrow> addr) \<Rightarrow> fs \<Rightarrow> addr \<Rightarrow> addr list \<Rightarrow> addr list result" where
  "name_pointers fuel np s pos stack =
     (if pos = NULL then Ok stack else
      case fuel of 0 \<Rightarrow> Fault Diverges | Suc fuel \<Rightarrow>
      bnd (fetch (fs_dentries s) pos) (\<lambda>d. name_pointers fuel np s (de_parent d) (np pos # stack)))"

declare name_pointers.simps [simp del]

fun resolve_loop :: "mem \<Rightarrow> addr list \<Rightarrow> addr \<Rightarrow> nat \<Rightarrow> mem result" where
  "resolve_loop m [] path len = Ok m"
| "resolve_loop m (v # stack) path len =
     (let path = path + of_nat len in
      bnd (store m path 0x2f) (\<lambda>m.
      bnd (load_le m v 8) (\<lambda>name.
      bnd (strcpy m (path + 1) name) (\<lambda>(_, m).
      bnd (strlen m name) (\<lambda>len. resolve_loop m stack path len)))))"

definition dentry_resolve :: "nat \<Rightarrow> (addr \<Rightarrow> addr) \<Rightarrow> fs \<Rightarrow> mem \<Rightarrow> addr \<Rightarrow> addr \<Rightarrow> mem result" where
  "dentry_resolve fuel np s m dentry path =
     bnd (name_pointers fuel np s dentry []) (\<lambda>stack. resolve_loop m stack path 0)"

definition mount_root :: "fs \<Rightarrow> addr \<Rightarrow> addr \<Rightarrow> fs result" where
  "mount_root s dentry v =
     (let (rv, s) = kzalloc s; (ri, s) = kzalloc s in
      if rv = NULL \<or> ri = NULL then Fault Null_Deref else
      bnd (fetch (fs_dentries s) dentry) (\<lambda>d.
      let s = put_dentry s dentry (d\<lparr>de_vnode := rv\<rparr>);
          s = put_vnode s rv \<lparr>vn_lock = 0, vn_ops = Tmpfs_Operations, vn_vfs = v, vn_private = ri, vn_refcount = 1,
                vn_mode = S_IFDIR OR 0x1ff, vn_number = 0, vn_size = 0\<rparr> in
      bnd (fetch (fs_vfss s) v) (\<lambda>vf.
      let (sb, s) = kzalloc s in
      if sb = NULL then Fault Null_Deref else
      let s = put_inode s ri \<lparr>ti_name = de_name d, ti_children = [], ti_data = [], ti_number = 0, ti_length = 0,
                ti_effective = 0, ti_mode = 0\<rparr>;
          s = s\<lparr>fs_vfss := (fs_vfss s)(v \<mapsto> vf\<lparr>vf_private := sb\<rparr>),
                fs_sbs := (fs_sbs s)(sb \<mapsto> \<lparr>current_inode = 1, tnode_cache = [(0, ri)]\<rparr>)\<rparr> in
      Ok s)))"

text \<open>\<open>tmpfs_mount\<close> ends with the path of the dentry, written to a local array at \<open>path\<close>.\<close>

definition tmpfs_mount :: "nat \<Rightarrow> (addr \<Rightarrow> addr) \<Rightarrow> mem \<Rightarrow> addr \<Rightarrow> fs \<Rightarrow> addr \<Rightarrow> addr \<Rightarrow> (mem \<times> fs) result" where
  "tmpfs_mount fuel np m path s dentry v =
     bnd (mount_root s dentry v) (\<lambda>s.
     bnd (dentry_resolve fuel np s m dentry path) (\<lambda>m. Ok (m, s)))"

definition init_objects :: "fs \<Rightarrow> (addr \<times> addr \<times> addr \<times> fs) result" where
  "init_objects s =
     (let s = s\<lparr>fs_dcache := [], fs_vcache := []\<rparr>;
          (node, s) = kzalloc s; (v, s) = kzalloc s; (root, s) = kzalloc s in
      if node = NULL \<or> v = NULL \<or> root = NULL then Fault Null_Deref else
      let s = put_vnode s node \<lparr>vn_lock = 0, vn_ops = No_Ops, vn_vfs = v, vn_private = NULL, vn_refcount = 0,
                vn_mode = S_IFDIR OR 0x1ff, vn_number = 0, vn_size = 0\<rparr>;
          s = put_dentry s root \<lparr>de_name = [0x2f], de_parent = NULL, de_vnode = node, de_refcount = 1\<rparr>;
          s = s\<lparr>fs_vfss := (fs_vfss s)(v \<mapsto> \<lparr>vf_id = fs_upcount s, vf_root = root, vf_private = NULL, vf_lock = 0\<rparr>),
                fs_upcount := fs_upcount s + 1\<rparr> in
      Ok (node, v, root, s))"

definition vfs_init :: "nat \<Rightarrow> (addr \<Rightarrow> addr) \<Rightarrow> mem \<Rightarrow> addr \<Rightarrow> fs \<Rightarrow> (mem \<times> fs) result" where
  "vfs_init fuel np m path s =
     bnd (init_objects s) (\<lambda>(node, v, root, s).
     bnd (tmpfs_mount fuel np m path s root v) (\<lambda>(m, s).
     bnd (vfs_cache_dentry s root) (\<lambda>s.
     bnd (vfs_cache_vnode s node) (\<lambda>s.
     Ok (m, s\<lparr>fs_root := root\<rparr>)))))"

section \<open>Parsing paths\<close>

fun join_path :: "name list \<Rightarrow> u8 list" where
  "join_path [] = []"
| "join_path [n] = n"
| "join_path (n # ns) = n @ 0x2f # join_path ns"

definition plain_name :: "name \<Rightarrow> bool" where
  "plain_name n \<longleftrightarrow> n \<noteq> [] \<and> 0x2f \<notin> set n"

lemma aput_Ok: "n < length buf \<Longrightarrow> aput buf (int n) c = Ok (buf[n := c])"
  by (simp add: aput_def)

lemma aput_bad: "length buf \<le> n \<Longrightarrow> aput buf (int n) c = Fault Out_Of_Bounds"
  by (simp add: aput_def)

text \<open>A component moves into the buffer byte by byte.\<close>

lemma parse_component:
  assumes "0x2f \<notin> set xs" and "n + length xs \<le> length buf"
  shows "\<exists>buf'. parse_loop (xs @ rest) buf n acc = parse_loop rest buf' (n + length xs) acc
     \<and> length buf' = length buf \<and> take (n + length xs) buf' = take n buf @ xs"
  using assms
proof (induction xs arbitrary: n buf)
  case Nil
  then show ?case by auto
next
  case (Cons x xs)
  have n: "n < length buf" using Cons.prems by simp
  obtain buf' where b: "parse_loop (xs @ rest) (buf[n := x]) (Suc n) acc = parse_loop rest buf' (Suc n + length xs) acc"
    "length buf' = length buf" "take (Suc n + length xs) buf' = take (Suc n) (buf[n := x]) @ xs"
    using Cons.IH[of "Suc n" "buf[n := x]"] Cons.prems by auto
  have "take (Suc n) (buf[n := x]) = take n buf @ [x]" using n by (simp add: take_Suc_conv_app_nth)
  then show ?case using b n Cons.prems(1) aput_Ok[OF n, of x] by (intro exI[of _ buf']) auto
qed

lemma parse_component_long:
  assumes "0x2f \<notin> set xs" and "length buf < n + length xs" and "n \<le> length buf"
  shows "parse_loop (xs @ rest) buf n acc = Fault Out_Of_Bounds"
  using assms
proof (induction xs arbitrary: n buf)
  case (Cons x xs)
  show ?case
  proof (cases "n = length buf")
    case True
    then show ?thesis using aput_bad[of buf n x] by simp
  next
    case False
    then have "n < length buf" using Cons.prems(3) by simp
    then show ?thesis using Cons.IH[of "buf[n := x]" "Suc n"] Cons.prems aput_Ok[of n buf x] by simp
  qed
qed simp

lemma parse_join:
  assumes "list_all plain_name ns" and "length buf = VFS_PATH_MAX"
  shows "parse_loop (join_path ns) buf 0 acc =
     (if \<forall>n \<in> set ns. length n < VFS_PATH_MAX then Ok (acc @ ns) else Fault Out_Of_Bounds)"
  using assms
proof (induction ns arbitrary: buf acc rule: join_path.induct)
  case 1
  then show ?case by simp
next
  case (2 n)
  have p: "0x2f \<notin> set n" "n \<noteq> []" using 2 by (auto simp: plain_name_def)
  show ?case
  proof (cases "length n < VFS_PATH_MAX")
    case True
    obtain buf' where b: "parse_loop n buf 0 acc = parse_loop [] buf' (length n) acc" "length buf' = length buf" "take (length n) buf' = n"
      using parse_component[OF p(1), of 0 buf "[]" acc] True 2 by auto
    have "aput buf' (int (length n)) 0 = Ok (buf'[length n := 0])" using True b(2) 2 by (intro aput_Ok) simp
    then show ?thesis using b p True by simp
  next
    case False
    show ?thesis
    proof (cases "length n = VFS_PATH_MAX")
      case True
      obtain buf' where b: "parse_loop n buf 0 acc = parse_loop [] buf' (length n) acc" "length buf' = length buf"
        using parse_component[OF p(1), of 0 buf "[]" acc] True 2 by auto
      then show ?thesis using p True 2 aput_bad[of buf' "length n" 0] by (simp add: VFS_PATH_MAX_def)
    next
      case notmax: False
      then show ?thesis using parse_component_long[OF p(1), of buf 0 "[]" acc] False 2 by simp
    qed
  qed
next
  case (3 n m ns)
  have p: "0x2f \<notin> set n" "n \<noteq> []" using 3(2) by (auto simp: plain_name_def)
  show ?case
  proof (cases "length n < VFS_PATH_MAX")
    case True
    obtain buf' where b: "parse_loop (n @ 0x2f # join_path (m # ns)) buf 0 acc = parse_loop (0x2f # join_path (m # ns)) buf' (length n) acc"
      "length buf' = length buf" "take (length n) buf' = n"
      using parse_component[OF p(1), of 0 buf "0x2f # join_path (m # ns)" acc] True 3(3) by auto
    have "aput buf' (int (length n)) 0x2f = Ok (buf'[length n := 0x2f])" "aput (buf'[length n := 0x2f]) (int (length n)) 0 = Ok (buf'[length n := 0])"
      using True b(2) 3(3) by (simp_all add: aput_Ok)
    then have "parse_loop (join_path (n # m # ns)) buf 0 acc = parse_loop (join_path (m # ns)) (buf'[length n := 0]) 0 (acc @ [n])"
      using b by simp
    also have "\<dots> = (if \<forall>x \<in> set (m # ns). length x < VFS_PATH_MAX then Ok ((acc @ [n]) @ m # ns) else Fault Out_Of_Bounds)"
      by (rule 3(1)) (use 3(2,3) b(2) in simp_all)
    finally show ?thesis using True by simp
  next
    case False
    have "parse_loop (n @ 0x2f # join_path (m # ns)) buf 0 acc = Fault Out_Of_Bounds"
    proof (cases "length n = VFS_PATH_MAX")
      case True
      obtain buf' where "parse_loop (n @ 0x2f # join_path (m # ns)) buf 0 acc = parse_loop (0x2f # join_path (m # ns)) buf' (length n) acc"
        "length buf' = length buf"
        using parse_component[OF p(1), of 0 buf "0x2f # join_path (m # ns)" acc] True 3(3) by auto
      then show ?thesis using True 3(3) aput_bad[of buf' "length n" "0x2f"] by simp
    next
      case notmax: False
      then show ?thesis using parse_component_long[OF p(1), of buf 0] False 3(3) by simp
    qed
    then show ?thesis using False by auto
  qed
qed

lemma join_hd: "list_all plain_name ns \<Longrightarrow> ns \<noteq> [] \<Longrightarrow> join_path ns \<noteq> [] \<and> hd (join_path ns) \<noteq> 0x2f"
  by (cases ns rule: join_path.cases) (auto simp: plain_name_def hd_append dest: hd_in_set)

text \<open>A slash after the last component changes nothing.\<close>

lemma parse_join_slash:
  assumes "list_all plain_name ns" and "length buf = VFS_PATH_MAX" and "ns \<noteq> []" and "\<forall>n \<in> set ns. length n < VFS_PATH_MAX"
  shows "parse_loop (join_path ns @ [0x2f]) buf 0 acc = Ok (acc @ ns)"
  using assms
proof (induction ns arbitrary: buf acc rule: join_path.induct)
  case (2 n)
  have p: "0x2f \<notin> set n" using 2 by (auto simp: plain_name_def)
  obtain buf' where b: "parse_loop (n @ [0x2f]) buf 0 acc = parse_loop [0x2f] buf' (length n) acc" "length buf' = length buf" "take (length n) buf' = n"
    using parse_component[OF p, of 0 buf "[0x2f]" acc] 2 by auto
  have "aput buf' (int (length n)) 0x2f = Ok (buf'[length n := 0x2f])" "aput (buf'[length n := 0x2f]) (int (length n)) 0 = Ok (buf'[length n := 0])"
    using b(2) 2 by (simp_all add: aput_Ok)
  then show ?case using b by simp
next
  case (3 n m ns)
  have p: "0x2f \<notin> set n" using 3(2) by (auto simp: plain_name_def)
  obtain buf' where b: "parse_loop (n @ 0x2f # join_path (m # ns) @ [0x2f]) buf 0 acc = parse_loop (0x2f # join_path (m # ns) @ [0x2f]) buf' (length n) acc"
    "length buf' = length buf" "take (length n) buf' = n"
    using parse_component[OF p, of 0 buf "0x2f # join_path (m # ns) @ [0x2f]" acc] 3 by auto
  have "aput buf' (int (length n)) 0x2f = Ok (buf'[length n := 0x2f])" "aput (buf'[length n := 0x2f]) (int (length n)) 0 = Ok (buf'[length n := 0])"
    using b(2) 3 by (simp_all add: aput_Ok)
  then have "parse_loop (join_path (n # m # ns) @ [0x2f]) buf 0 acc = parse_loop (join_path (m # ns) @ [0x2f]) (buf'[length n := 0]) 0 (acc @ [n])"
    using b by simp
  also have "\<dots> = Ok ((acc @ [n]) @ m # ns)" by (rule 3(1)) (use 3 b(2) in simp_all)
  finally show ?case by simp
qed simp

section \<open>Walking the tree\<close>

text \<open>
  \<open>vfs_ok s f B\<close>: a well-formed file system \<open>f\<close>, and caches that hold no child. Numbers of children are
  positive, since the root has number 0. \<open>dentry_ok s f B d p\<close>: the dentry \<open>d\<close> stands for the inode \<open>p\<close>.
\<close>

definition vfs_ok :: "fs \<Rightarrow> addr \<Rightarrow> tmpfs_superblock \<Rightarrow> bool" where
  "vfs_ok s f B \<longleftrightarrow> mount_ok s f B \<and> fresh_ok s \<and> 0 < current_inode B
     \<and> (\<forall>((d, n), x) \<in> set (fs_dcache s). d = NULL) \<and> (\<forall>((g, k), x) \<in> set (fs_vcache s). g = f \<longrightarrow> k = 0)
     \<and> (\<forall>p \<in> nodes B. \<forall>c \<in> set (ti_children (ino s p)). ti_number (ino s c) \<noteq> 0)"

definition dentry_ok :: "fs \<Rightarrow> addr \<Rightarrow> tmpfs_superblock \<Rightarrow> addr \<Rightarrow> addr \<Rightarrow> bool" where
  "dentry_ok s f B d p \<longleftrightarrow> d \<noteq> NULL \<and> (\<exists>D. fs_dentries s d = Some D \<and> vnode_ok s f B (de_vnode D) p)"

text \<open>A step that only allocates dentries and vnodes, at most \<open>k\<close> of them.\<close>

definition extends :: "fs \<Rightarrow> fs \<Rightarrow> nat \<Rightarrow> bool" where
  "extends s s' k \<longleftrightarrow> fs_inodes s' = fs_inodes s \<and> fs_sbs s' = fs_sbs s \<and> fs_vfss s' = fs_vfss s \<and> fs_root s' = fs_root s
     \<and> fs_dcache s' = fs_dcache s \<and> fs_vcache s' = fs_vcache s \<and> fresh_ok s'
     \<and> (\<forall>v V. fs_vnodes s v = Some V \<longrightarrow> fs_vnodes s' v = Some V)
     \<and> (\<forall>d D. fs_dentries s d = Some D \<longrightarrow> fs_dentries s' d = Some D)
     \<and> length (fs_fresh s) \<le> length (fs_fresh s') + k"

lemma extends_trans: "extends s s' i \<Longrightarrow> extends s' s'' j \<Longrightarrow> extends s s'' (i + j)"
  by (auto simp: extends_def)

lemma extends_refl: "fresh_ok s \<Longrightarrow> extends s s k"
  by (simp add: extends_def)

lemma extends_ino: "extends s s' k \<Longrightarrow> ino s' p = ino s p"
  by (simp add: extends_def ino_def)

lemma extends_entry: "extends s s' k \<Longrightarrow> entry s' p n = entry s p n"
  by (simp add: entry_def extends_ino)

lemma extends_contents: "extends s s' k \<Longrightarrow> contents s' p = contents s p"
  by (simp add: contents_def extends_ino)

lemma extends_inode_ok: "extends s s' k \<Longrightarrow> inode_ok s' B p = inode_ok s B p"
  by (simp add: inode_ok_def extends_ino) (simp add: extends_def)

lemma extends_vnode_ok: "extends s s' k \<Longrightarrow> vnode_ok s f B v p \<Longrightarrow> vnode_ok s' f B v p"
  by (auto simp: vnode_ok_def extends_ino) (auto simp: extends_def)

lemma extends_dentry_ok: "extends s s' k \<Longrightarrow> dentry_ok s f B d p \<Longrightarrow> dentry_ok s' f B d p"
proof -
  assume e: "extends s s' k" and "dentry_ok s f B d p"
  then obtain D where D: "d \<noteq> NULL" "fs_dentries s d = Some D" "vnode_ok s f B (de_vnode D) p" by (auto simp: dentry_ok_def)
  have "fs_dentries s' d = Some D" using e D(2) by (simp add: extends_def)
  then show ?thesis using D(1) extends_vnode_ok[OF e D(3)] by (simp add: dentry_ok_def)
qed

lemma extends_vfs_ok:
  assumes e: "extends s s' k" and v: "vfs_ok s f B"
  shows "vfs_ok s' f B"
proof -
  have i: "ino s' p = ino s p" for p by (rule extends_ino[OF e])
  have ok: "inode_ok s' B p = inode_ok s B p" for p by (rule extends_inode_ok[OF e])
  have "fs_vfss s' = fs_vfss s" "fs_sbs s' = fs_sbs s" "fs_dcache s' = fs_dcache s" "fs_vcache s' = fs_vcache s" "fresh_ok s'"
    using e unfolding extends_def by blast+
  then show ?thesis using v unfolding vfs_ok_def mount_ok_def i ok by simp
qed

lemma oldest_None: "\<forall>(k', x) \<in> set bs. k' \<noteq> k \<Longrightarrow> oldest bs k = NULL"
  by (induction bs) (auto simp: oldest_def)

lemma kzalloc_extends:
  assumes "fresh_ok s" and "fs_fresh s = a # as"
  shows "kzalloc s = (a, s\<lparr>fs_fresh := as\<rparr>)" "a \<noteq> NULL" "fs_vnodes s a = None" "fs_dentries s a = None" "fs_inodes s a = None"
    "fresh_ok (s\<lparr>fs_fresh := as\<rparr>)"
  using assms by (auto simp: kzalloc_simps fresh_ok_def)

lemma put_dentry_simps [simp]:
  "fs_inodes (put_dentry s d D) = fs_inodes s" "fs_sbs (put_dentry s d D) = fs_sbs s" "fs_vfss (put_dentry s d D) = fs_vfss s"
  "fs_fresh (put_dentry s d D) = fs_fresh s" "fs_vnodes (put_dentry s d D) = fs_vnodes s" "fs_root (put_dentry s d D) = fs_root s"
  "fs_dcache (put_dentry s d D) = fs_dcache s" "fs_vcache (put_dentry s d D) = fs_vcache s"
  "fs_dentries (put_dentry s d D) = (fs_dentries s)(d \<mapsto> D)"
  by (simp_all add: put_dentry_def)

text \<open>One step of the walk. The vnode of a new dentry has the length of its inode.\<close>

definition sized :: "fs \<Rightarrow> addr \<Rightarrow> addr \<Rightarrow> bool" where
  "sized s d q \<longleftrightarrow> (\<exists>D V. fs_dentries s d = Some D \<and> fs_vnodes s (de_vnode D) = Some V \<and> vn_size V = ti_length (ino s q))"

lemma vfs_find_child_entry:
  assumes v: "vfs_ok s f B" and d: "dentry_ok s f B d p" and room: "2 \<le> length (fs_fresh s)"
  shows "if n = [0x2e] then vfs_find_child s d n = Ok (0, d, s)
    else case entry s p n of
        None \<Rightarrow> \<exists>s'. vfs_find_child s d n = Ok (- ENOENT, NULL, s') \<and> extends s s' 2
      | Some c \<Rightarrow> \<exists>d' s'. vfs_find_child s d n = Ok (0, d', s') \<and> extends s s' 2 \<and> dentry_ok s' f B d' c \<and> sized s' d' c"
proof (cases "n = [0x2e]")
  case True
  then show ?thesis using d by (simp add: vfs_find_child_def dentry_ok_def)
next
  case False
  have m: "mount_ok s f B" and fr: "fresh_ok s" using v by (auto simp: vfs_ok_def)
  obtain D where D: "d \<noteq> NULL" "fs_dentries s d = Some D" "vnode_ok s f B (de_vnode D) p" using d by (auto simp: dentry_ok_def)
  obtain V where V: "de_vnode D \<noteq> NULL" "p \<in> nodes B" "fs_vnodes s (de_vnode D) = Some V" "vn_ops V = Tmpfs_Operations" "vn_vfs V = f"
    using D(3) by (auto simp: vnode_ok_def)
  have f0: "f \<noteq> NULL" using m by (auto simp: mount_ok_def)
  obtain a as where as: "fs_fresh s = a # as" "as \<noteq> []" using room by (cases "fs_fresh s"; cases "tl (fs_fresh s)") auto
  note ka = kzalloc_extends[OF fr as(1)]
  have ad: "a \<noteq> d" using ka(4) D(2) by auto
  have dc: "oldest (fs_dcache s) (d, n) = NULL" using v D(1) by (intro oldest_None) (auto simp: vfs_ok_def)
  let ?s1 = "put_dentry (s\<lparr>fs_fresh := as\<rparr>) a no_dentry"
  have fr1: "fresh_ok ?s1" using fr as(1) by (auto simp: fresh_ok_def)
  have e1: "extends s ?s1 1" using ka(4) fr1 as(1) by (auto simp: extends_def)
  have v1: "vfs_ok ?s1 f B" by (rule extends_vfs_ok[OF e1 v])
  then have m1: "mount_ok ?s1 f B" by (simp add: vfs_ok_def)
  have vn1: "vnode_ok ?s1 f B (de_vnode D) p" by (rule extends_vnode_ok[OF e1 D(3)])
  have lk: "tmpfs_lookup ?s1 (de_vnode D) n = Ok (case entry s p n of None \<Rightarrow> (- ENOENT, 0, ?s1) | Some c \<Rightarrow> (0, ti_number (ino s c), ?s1))"
    using tmpfs_lookup_entry[OF m1 vn1, of n] by (simp add: extends_entry[OF e1] extends_ino[OF e1] split: option.splits)
  have D1: "fetch (fs_dentries ?s1) d = Ok D" using D ad by simp
  have ops: "vop_of ?s1 (de_vnode D) = Ok Tmpfs_Operations" using V by (simp add: vop_of_def)
  have start: "vfs_find_child s d n = bnd (Ok (case entry s p n of None \<Rightarrow> (- ENOENT, 0, ?s1) | Some c \<Rightarrow> (0, ti_number (ino s c), ?s1)))
     (\<lambda>(err, num, s). if err \<noteq> 0 then Ok (err, NULL, s) else
      bnd (vfs_find_vnode s (de_vnode D) num) (\<lambda>(err, node, s). if err \<noteq> 0 then Ok (err, NULL, s) else
      if a = NULL then Fault Null_Deref else
      Ok (0, a, put_dentry s a \<lparr>de_name = n, de_parent = d, de_vnode = node, de_refcount = 1\<rparr>)))"
    using False D(1) dc ka(1,2) D1 ops lk by (simp add: vfs_find_child_def Let_def)
  show ?thesis
  proof (cases "entry s p n")
    case None
    have "vfs_find_child s d n = Ok (- ENOENT, NULL, ?s1)" unfolding start using None by (simp add: ENOENT_def)
    moreover have "extends s ?s1 2" using e1 by (simp add: extends_def)
    ultimately show ?thesis using False None by auto
  next
    case (Some c)
    have c: "c \<in> nodes B" by (rule entry_node(1)[OF m V(2) Some])
    have "c \<in> set (ti_children (ino s p))" using find_SomeD[OF Some[unfolded entry_def]] by simp
    then have num: "ti_number (ino s c) \<noteq> 0" using v V(2) by (auto simp: vfs_ok_def)
    then have vc: "oldest (fs_vcache s) (f, ti_number (ino s c)) = NULL" using v by (intro oldest_None) (auto simp: vfs_ok_def)
    obtain b bs where bs: "as = b # bs" using as(2) by (cases as) auto
    have fb: "fs_fresh ?s1 = b # bs" using bs by simp
    note kb = kzalloc_extends[OF fr1 fb]
    let ?V = "\<lparr>vn_lock = 0, vn_ops = Tmpfs_Operations, vn_vfs = f, vn_private = c, vn_refcount = 1, vn_mode = ti_mode (ino s c),
      vn_number = ti_number (ino s c), vn_size = ti_length (ino s c)\<rparr>"
    let ?s2 = "put_vnode (?s1\<lparr>fs_fresh := bs\<rparr>) b ?V"
    have cn: "tmpfs_create_node ?s1 (de_vnode D) (ti_number (ino s c)) = Ok (0, b, ?s2)"
      using tmpfs_create_node_new[OF m1 vn1 c fb fr1] unfolding extends_ino[OF e1] .
    have fv: "vfs_find_vnode ?s1 (de_vnode D) (ti_number (ino s c)) = Ok (0, b, ?s2)"
      using V f0 vc cn by (simp add: vfs_find_vnode_def has_op_def tmpfs_operations_def)
    let ?s3 = "put_dentry ?s2 a \<lparr>de_name = n, de_parent = d, de_vnode = b, de_refcount = 1\<rparr>"
    have res: "vfs_find_child s d n = Ok (0, a, ?s3)" unfolding start using Some fv ka(2) by simp
    have fr3: "fresh_ok ?s3" using fr1 fb ka by (auto simp: fresh_ok_def)
    have e3: "extends s ?s3 2" using ka(4) kb(3) fr3 as bs by (auto simp: extends_def)
    have "vnode_ok ?s3 f B b c" using kb(2) c extends_ino[OF e3, of c] by (simp add: vnode_ok_def)
    then have "dentry_ok ?s3 f B a c" using ka(2) by (simp add: dentry_ok_def)
    moreover have "sized ?s3 a c" using extends_ino[OF e3, of c] by (simp add: sized_def)
    ultimately show ?thesis using res e3 Some False by auto
  qed
qed

fun resolve :: "fs \<Rightarrow> addr \<Rightarrow> name list \<Rightarrow> addr option" where
  "resolve s p [] = Some p"
| "resolve s p (n # ns) = (if n = [0x2e] then resolve s p ns
     else case entry s p n of None \<Rightarrow> None | Some c \<Rightarrow> resolve s c ns)"

lemma extends_resolve: "extends s s' k \<Longrightarrow> resolve s' p ns = resolve s p ns"
  by (induction ns arbitrary: p) (simp_all add: extends_entry split: option.splits)

lemma walk_loop_resolve:
  assumes "vfs_ok s f B" and "dentry_ok s f B d p" and "2 * length ns \<le> length (fs_fresh s)"
  shows "case resolve s p ns of
      None \<Rightarrow> \<exists>s'. walk_loop s d ns = Ok (- ENOENT, NULL, s') \<and> extends s s' (2 * length ns)
    | Some q \<Rightarrow> \<exists>d' s'. walk_loop s d ns = Ok (0, d', s') \<and> extends s s' (2 * length ns) \<and> dentry_ok s' f B d' q
        \<and> (sized s d p \<or> ns \<noteq> [] \<and> last ns \<noteq> [0x2e] \<longrightarrow> sized s' d' q)"
  using assms
proof (induction ns arbitrary: s d p)
  case Nil
  then show ?case by (simp add: extends_refl vfs_ok_def)
next
  case (Cons n ns)
  have room: "2 \<le> length (fs_fresh s)" using Cons.prems(3) by simp
  note st = vfs_find_child_entry[OF Cons.prems(1,2) room, of n]
  have fr: "fresh_ok s" using Cons.prems(1) by (simp add: vfs_ok_def)
  consider (dot) "n = [0x2e]" | (none) "n \<noteq> [0x2e]" "entry s p n = None" | (some) c where "n \<noteq> [0x2e]" "entry s p n = Some c" by blast
  then show ?case
  proof cases
    case dot
    have w: "walk_loop s d (n # ns) = walk_loop s d ns" using st dot by simp
    have mono: "extends s s' (2 * length ns) \<Longrightarrow> extends s s' (2 * length (n # ns))" for s' by (simp add: extends_def)
    show ?thesis using Cons.IH[OF Cons.prems(1,2)] Cons.prems(3) dot w mono by (fastforce split: option.splits)
  next
    case none
    obtain s1 where s1: "vfs_find_child s d n = Ok (- ENOENT, NULL, s1)" "extends s s1 2" using st none by auto
    have "extends s s1 (2 * length (n # ns))" using s1(2) by (simp add: extends_def)
    then show ?thesis using s1(1) none by (simp add: ENOENT_def)
  next
    case some
    obtain d1 s1 where s1: "vfs_find_child s d n = Ok (0, d1, s1)" "extends s s1 2" "dentry_ok s1 f B d1 c" "sized s1 d1 c" using st some by auto
    have room1: "2 * length ns \<le> length (fs_fresh s1)" using s1(2) Cons.prems(3) by (simp add: extends_def)
    have w: "walk_loop s d (n # ns) = walk_loop s1 d1 ns" using s1(1) by simp
    have tr: "extends s1 s' (2 * length ns) \<Longrightarrow> extends s s' (2 * length (n # ns))" for s'
      using extends_trans[OF s1(2), of s' "2 * length ns"] by simp
    show ?thesis using Cons.IH[OF extends_vfs_ok[OF s1(2) Cons.prems(1)] s1(3) room1] some w tr s1(4)
      by (auto simp: extends_resolve[OF s1(2)] split: option.splits)
  qed
qed

subsection \<open>Paths from the root\<close>

text \<open>A path from the root: the components \<open>ns\<close>, with or without the leading slash.\<close>

definition root_path :: "bool \<Rightarrow> name list \<Rightarrow> u8 list" where
  "root_path absolute ns = (if absolute then 0x2f # join_path ns else join_path ns)"

definition name_ok :: "name \<Rightarrow> bool" where
  "name_ok n \<longleftrightarrow> plain_name n \<and> length n < VFS_PATH_MAX"

lemma names_ok: "list_all name_ok ns \<Longrightarrow> list_all plain_name ns \<and> (\<forall>n \<in> set ns. length n < VFS_PATH_MAX)"
  by (auto simp: list_all_iff name_ok_def)

lemma vfs_parse_path_join:
  assumes "list_all plain_name ns"
  shows "vfs_parse_path (root_path absolute ns) =
     (if \<forall>n \<in> set ns. length n < VFS_PATH_MAX then Ok ((if absolute then [[0x2f]] else []) @ ns) else Fault Out_Of_Bounds)"
proof (cases absolute)
  case True
  then show ?thesis using parse_join[OF assms, of "replicate VFS_PATH_MAX 0"] by (simp add: vfs_parse_path_def root_path_def)
next
  case False
  have "\<not> (join_path ns \<noteq> [] \<and> hd (join_path ns) = 0x2f)" using join_hd[OF assms] by (cases "ns = []") auto
  then have "vfs_parse_path (join_path ns) = parse_loop (join_path ns) (replicate VFS_PATH_MAX 0) 0 []"
    by (simp only: vfs_parse_path_def Let_def if_False)
  then show ?thesis using False parse_join[OF assms, of "replicate VFS_PATH_MAX 0"] by (simp add: root_path_def)
qed

text \<open>What a path says: whether it starts at the root, and its components.\<close>

definition path_of :: "u8 list \<Rightarrow> bool \<Rightarrow> name list \<Rightarrow> bool" where
  "path_of path absolute ns \<longleftrightarrow> vfs_parse_path path = Ok ((if absolute then [[0x2f]] else []) @ ns) \<and> (absolute \<longleftrightarrow> path \<noteq> [] \<and> hd path = 0x2f)"

lemma path_of_root_path:
  assumes "list_all name_ok ns"
  shows "path_of (root_path absolute ns) absolute ns"
proof -
  have ns: "list_all plain_name ns" "\<forall>n \<in> set ns. length n < VFS_PATH_MAX" using names_ok[OF assms(1)] by auto
  have "absolute \<longleftrightarrow> root_path absolute ns \<noteq> [] \<and> hd (root_path absolute ns) = 0x2f"
    using join_hd[OF ns(1)] by (cases "ns = []") (auto simp: root_path_def)
  then show ?thesis using vfs_parse_path_join[OF ns(1), of absolute] ns(2) by (simp add: path_of_def)
qed

lemma path_of_slash:
  assumes "list_all name_ok ns" and "ns \<noteq> []"
  shows "path_of (join_path ns @ [0x2f]) False ns"
proof -
  have ns: "list_all plain_name ns" "\<forall>n \<in> set ns. length n < VFS_PATH_MAX" using names_ok[OF assms(1)] by auto
  have h: "\<not> (join_path ns @ [0x2f] \<noteq> [] \<and> hd (join_path ns @ [0x2f]) = 0x2f)" using join_hd[OF ns(1) assms(2)] by simp
  then have "vfs_parse_path (join_path ns @ [0x2f]) = parse_loop (join_path ns @ [0x2f]) (replicate VFS_PATH_MAX 0) 0 []"
    by (simp only: vfs_parse_path_def Let_def if_False)
  then show ?thesis using parse_join_slash[OF ns(1) _ assms(2) ns(2), of "replicate VFS_PATH_MAX 0" "[]"] h
    by (simp add: path_of_def)
qed

lemma vfs_find_dentry_walk:
  assumes "path_of path absolute ns" and "ns \<noteq> []"
  shows "vfs_find_dentry s path NULL parent =
     (if \<not> absolute \<and> length ns = 1 \<and> parent then Ok (- EINVAL, NULL, s)
      else walk_loop s (fs_root s) (if parent then butlast ns else ns))"
  using assms by (cases absolute) (auto simp: path_of_def vfs_find_dentry_def Let_def)

lemma vfs_open_walk:
  assumes "path_of path absolute ns" and "ns \<noteq> []"
  shows "vfs_open s path NULL flags fd =
     bnd (walk_loop s (fs_root s) ns) (\<lambda>(err, ent, s). if err \<noteq> 0 then Ok (err, fd, s) else
       Ok (0, fd\<lparr>fd_entry := ent, fd_flags := flags, fd_pos := 0\<rparr>, s))"
  using vfs_find_dentry_walk[OF assms, of s False] by (simp add: vfs_open_def)

text \<open>Adding a child keeps what a path resolves to, and makes the new name resolve to the new inode.\<close>

lemma resolve_mono:
  assumes "\<And>q m c. entry s q m = Some c \<Longrightarrow> entry s' q m = Some c" and "resolve s p ns = Some q"
  shows "resolve s' p ns = Some q"
  using assms(2) by (induction ns arbitrary: p) (auto split: if_splits option.splits dest: assms(1))

lemma resolve_append: "resolve s p (ns @ ms) = (case resolve s p ns of None \<Rightarrow> None | Some q \<Rightarrow> resolve s q ms)"
  by (induction ns arbitrary: p) (auto split: option.splits)

lemma resolve_node:
  assumes "mount_ok s f B" and "p \<in> nodes B" and "resolve s p ns = Some q"
  shows "q \<in> nodes B"
  using assms(2,3)
proof (induction ns arbitrary: p)
  case (Cons n ns)
  then show ?case using entry_node(1)[OF assms(1) Cons.prems(1)] by (auto split: if_splits option.splits)
qed simp

lemma resolve_mono_on:
  assumes "mount_ok s f B" and "\<And>q m c. q \<in> nodes B \<Longrightarrow> entry s q m = Some c \<Longrightarrow> entry s' q m = Some c"
    and "p \<in> nodes B" and "resolve s p ns = Some q"
  shows "resolve s' p ns = Some q"
  using assms(3,4)
proof (induction ns arbitrary: p)
  case (Cons n ns)
  show ?case
  proof (cases "n = [0x2e]")
    case False
    then obtain c where c: "entry s p n = Some c" "resolve s c ns = Some q" using Cons.prems(2) by (auto split: option.splits)
    have "c \<in> nodes B" by (rule entry_node(1)[OF assms(1) Cons.prems(1) c(1)])
    then show ?thesis using False assms(2)[OF Cons.prems(1) c(1)] Cons.IH c(2) by simp
  qed (use Cons in simp)
qed simp

text \<open>\<open>vfs_mkdir\<close> and \<open>vfs_create\<close> up to the call of tmpfs.\<close>

lemma vfs_add_walk:
  assumes v: "vfs_ok s f B" and d: "dentry_ok s f B (fs_root s) r" and ns: "path_of path absolute (ns @ [n])"
    and path: "absolute \<or> ns \<noteq> []" and n: "n \<noteq> [0x2e]" and p: "resolve s r ns = Some p"
    and room: "2 * length ns + 2 \<le> length (fs_fresh s)" and op: "op \<in> tmpfs_operations"
  shows "\<exists>s' w. extends s s' (2 * length ns + 2) \<and> vnode_ok s' f B w p
     \<and> vfs_add op g s path NULL flags = (if entry s p n = None then g s' w n flags else Ok (- EEXIST, s'))"
proof -
  have fd: "vfs_find_dentry s path NULL True = walk_loop s (fs_root s) ns"
    using vfs_find_dentry_walk[OF ns, of s True] path by auto
  obtain d1 s1 where w: "walk_loop s (fs_root s) ns = Ok (0, d1, s1)" "extends s s1 (2 * length ns)" "dentry_ok s1 f B d1 p"
    using walk_loop_resolve[OF v d, of ns] p room by auto
  have pp: "vfs_parse_path path = Ok ((if absolute then [[0x2f]] else []) @ ns @ [n])"
    using ns by (simp add: path_of_def)
  obtain D where D: "d1 \<noteq> NULL" "fs_dentries s1 d1 = Some D" "vnode_ok s1 f B (de_vnode D) p" using w(3) by (auto simp: dentry_ok_def)
  have ops: "vop_of s1 (de_vnode D) = Ok Tmpfs_Operations" using D(3) by (auto simp: vop_of_def vnode_ok_def)
  have ho: "has_op Tmpfs_Operations op" using op by (simp add: has_op_def)
  have room1: "2 \<le> length (fs_fresh s1)" using w(2) room by (simp add: extends_def)
  note fc = vfs_find_child_entry[OF extends_vfs_ok[OF w(2) v] w(3) room1, of n]
  have go: "vfs_add op g s path NULL flags
     = bnd (vfs_find_child s1 d1 n) (\<lambda>(err, dummy, s). if err = 0 then Ok (- EEXIST, s) else
        bnd (fetch (fs_dentries s) d1) (\<lambda>d. g s (de_vnode d) n flags))"
    using fd w(1) D(1,2) ops ho pp by (simp add: vfs_add_def)
  show ?thesis
  proof (cases "entry s p n")
    case None
    then obtain s2 where s2: "vfs_find_child s1 d1 n = Ok (- ENOENT, NULL, s2)" "extends s1 s2 2"
      using fc n extends_entry[OF w(2)] by auto
    have d2: "fs_dentries s2 d1 = Some D" using s2(2) D(2) by (simp add: extends_def)
    have "vnode_ok s2 f B (de_vnode D) p" by (rule extends_vnode_ok[OF s2(2) D(3)])
    moreover have "vfs_add op g s path NULL flags = g s2 (de_vnode D) n flags"
      unfolding go using s2(1) d2 D(1) by (simp add: ENOENT_def)
    ultimately show ?thesis using extends_trans[OF w(2) s2(2)] None by auto
  next
    case (Some c)
    then obtain d2 s2 where s2: "vfs_find_child s1 d1 n = Ok (0, d2, s2)" "extends s1 s2 2"
      using fc n extends_entry[OF w(2)] by auto
    have "vnode_ok s2 f B (de_vnode D) p" by (rule extends_vnode_ok[OF s2(2) D(3)])
    moreover have "vfs_add op g s path NULL flags = Ok (- EEXIST, s2)"
      unfolding go using s2(1) by simp
    ultimately show ?thesis using extends_trans[OF w(2) s2(2)] Some by auto
  qed
qed

lemma vfs_ok_with_child:
  assumes v: "vfs_ok s f B" and as: "fs_fresh s = a # as" and p: "p \<in> nodes B" and e: "entry s p n = None" and F: "fs_vfss s f = Some F"
  shows "vfs_ok (with_child type s (vf_private F) B a as p n flags) f (grown B a)"
proof -
  let ?s = "with_child type s (vf_private F) B a as p n flags"
  have m: "mount_ok s f B" and fr: "fresh_ok s" using v by (auto simp: vfs_ok_def)
  have a: "a \<notin> nodes B" "a \<noteq> p" using fresh_not_node[OF m fr as] p by auto
  note i = ino_with_child[OF a(2)]
  have num: "ti_number (ino ?s c) = ti_number (ino s c)" if "c \<in> nodes B" for c using that a by (auto simp: i)
  have "ti_number (ino ?s c) \<noteq> 0" if q: "q \<in> nodes (grown B a)" and c: "c \<in> set (ti_children (ino ?s q))" for q c
  proof (cases "c = a")
    case True
    then show ?thesis using v a by (simp add: i vfs_ok_def)
  next
    case False
    then have q2: "q \<in> nodes B" "c \<in> set (ti_children (ino s q))" using q c a by (auto simp: i split: if_splits)
    then have "c \<in> nodes B" using mount_okD(1)[OF m q2(1)] by (auto simp: inode_ok_def)
    then show ?thesis using num v q2 by (auto simp: vfs_ok_def)
  qed
  moreover have "mount_ok ?s f (grown B a)" by (rule mount_ok_with_child[OF m fr as p e F])
  moreover have "fresh_ok ?s" by (rule fresh_ok_with_child[OF m fr as p])
  moreover have "0 < current_inode (grown B a)" using v by (simp add: grown_def vfs_ok_def)
  ultimately show ?thesis using v unfolding vfs_ok_def by simp
qed

section \<open>Properties of fs/vfs.c\<close>

text \<open>
  C40: Paths split into their components. A path of non-empty names joined by slashes, with or without a
  leading slash, parses into exactly these names, after a component \<open>/\<close> for the leading slash; with a name
  of 256 bytes or more the parser overruns its buffer instead.
\<close>

theorem vfs_parse_path_splits:
  assumes "list_all plain_name ns"
  shows "vfs_parse_path (root_path absolute ns) =
     (if \<forall>n \<in> set ns. length n < 256 then Ok ((if absolute then [[0x2f]] else []) @ ns) else Fault Out_Of_Bounds)"
  using vfs_parse_path_join[OF assms] by (simp add: VFS_PATH_MAX_def)

theorem vfs_parse_path_splits_witness:
  "vfs_parse_path [0x2f, 0x61, 0x62, 0x2f, 0x63] = Ok [[0x2f], [0x61, 0x62], [0x63]]"
  using vfs_parse_path_splits[of "[[0x61, 0x62], [0x63]]" True] by (simp add: plain_name_def root_path_def)

text \<open>
  C36: Opening a path. On a well-formed file system, \<open>vfs_open\<close> of a path from the root returns 0 and a file at
  position 0 on the inode the path resolves to, or -ENOENT where it resolves to none; either way it
  changes no file and no directory.
\<close>

theorem vfs_open_resolves:
  assumes "vfs_ok s f B" and "dentry_ok s f B (fs_root s) r" and "path_of path absolute ns" and "ns \<noteq> []"
    and "2 * length ns \<le> length (fs_fresh s)"
  shows "\<exists>s' fd'. vfs_open s path NULL flags fd
       = Ok (if resolve s r ns = None then - ENOENT else 0, fd', s')
     \<and> vfs_ok s' f B \<and> (\<forall>p. ino s' p = ino s p) \<and> (\<forall>p m. entry s' p m = entry s p m)
     \<and> (\<forall>q. resolve s r ns = Some q \<longrightarrow> dentry_ok s' f B (fd_entry fd') q \<and> fd_pos fd' = 0)"
proof -
  note o = vfs_open_walk[OF assms(3,4), of s flags fd]
  show ?thesis
  proof (cases "resolve s r ns")
    case None
    then obtain s' where s': "walk_loop s (fs_root s) ns = Ok (- ENOENT, NULL, s')" "extends s s' (2 * length ns)"
      using walk_loop_resolve[OF assms(1,2,5)] by auto
    have "vfs_open s path NULL flags fd = Ok (- ENOENT, fd, s')"
      unfolding o using s'(1) by (simp add: ENOENT_def)
    then show ?thesis using None extends_vfs_ok[OF s'(2) assms(1)] extends_ino[OF s'(2)] extends_entry[OF s'(2)] by simp
  next
    case (Some q)
    then obtain d s' where s': "walk_loop s (fs_root s) ns = Ok (0, d, s')" "extends s s' (2 * length ns)" "dentry_ok s' f B d q"
      using walk_loop_resolve[OF assms(1,2,5)] by auto
    have "vfs_open s path NULL flags fd = Ok (0, fd\<lparr>fd_entry := d, fd_flags := flags, fd_pos := 0\<rparr>, s')"
      unfolding o using s'(1) by simp
    then show ?thesis using Some s'(3) extends_vfs_ok[OF s'(2) assms(1)] extends_ino[OF s'(2)] extends_entry[OF s'(2)] by simp
  qed
qed

lemma demo_vfs_ok: "vfs_ok demo_fs 48 demo_super"
  using demo_mount_ok demo_fresh_ok
  by (simp add: vfs_ok_def demo_nodes demo_ino) (simp add: demo_fs_def demo_super_def demo_dir_def demo_file_def ino_def)

lemma demo_root: "dentry_ok demo_fs 48 demo_super (fs_root demo_fs) 16"
proof -
  have "fs_dentries demo_fs 80 = Some \<lparr>de_name = [0x2f], de_parent = 0, de_vnode = 64, de_refcount = 1\<rparr>" "fs_root demo_fs = 80"
    by (simp_all add: demo_fs_def)
  then show ?thesis using demo_vnode_ok(1) by (simp add: dentry_ok_def)
qed

lemma demo_entry: "entry demo_fs 16 [0x61] = Some 24" "entry demo_fs 16 [0x62] = None"
  by (simp add: entry_def demo_ino demo_dir_def, simp add: demo_file_def)+

lemma demo_room: "length (fs_fresh demo_fs) = 8"
  by (simp add: demo_fresh)

theorem vfs_open_resolves_witness:
  "\<exists>s' fd'. vfs_open demo_fs [0x2f, 0x61] NULL 0 \<lparr>fd_entry = 0, fd_pos = 5, fd_flags = 0\<rparr> = Ok (0, fd', s')
     \<and> dentry_ok s' 48 demo_super (fd_entry fd') 24 \<and> fd_pos fd' = 0"
proof -
  have "list_all name_ok [[0x61]]" by (simp add: name_ok_def plain_name_def VFS_PATH_MAX_def)
  from path_of_root_path[OF this, of True] have p: "path_of [0x2f, 0x61] True [[0x61]]" by (simp add: root_path_def)
  show ?thesis
    using vfs_open_resolves[OF demo_vfs_ok demo_root p, of 0 "\<lparr>fd_entry = 0, fd_pos = 5, fd_flags = 0\<rparr>"]
    by (auto simp: demo_room demo_entry)
qed

lemma vfs_add_new:
  assumes "vfs_ok s f B" and "dentry_ok s f B (fs_root s) r" and "path_of path absolute (ns @ [n])"
    and "absolute \<or> ns \<noteq> []" and "n \<noteq> [0x2e]" and "resolve s r ns = Some p"
    and "2 * length ns + 3 \<le> length (fs_fresh s)" and "current_inode B + 1 < 2 ^ 63" and "vp \<in> tmpfs_operations"
    and "entry s p n = None"
  shows "\<exists>s' q. vfs_add vp (tmpfs_add_child type) s path NULL flags = Ok (0, s') \<and> vfs_ok s' f (grown B q) \<and> q \<notin> nodes B
     \<and> (\<forall>p' \<in> nodes B. \<forall>m. entry s' p' m = (if p' = p \<and> m = n then Some q else entry s p' m))
     \<and> (\<forall>p' \<in> nodes B. p' \<noteq> p \<longrightarrow> ino s' p' = ino s p') \<and> contents s' p = contents s p \<and> ti_mode (ino s' p) = ti_mode (ino s p)
     \<and> ti_length (ino s' p) = ti_length (ino s p)
     \<and> contents s' q = [] \<and> ti_children (ino s' q) = [] \<and> ti_length (ino s' q) = 0 \<and> ti_mode (ino s' q) = (flags AND NOT S_IFMT) OR type
     \<and> fs_root s' = fs_root s \<and> dentry_ok s' f (grown B q) (fs_root s') r \<and> resolve s' r (ns @ [n]) = Some q
     \<and> (\<forall>ms x. resolve s r ms = Some x \<longrightarrow> resolve s' r ms = Some x)
     \<and> length (fs_fresh s) \<le> length (fs_fresh s') + (2 * length ns + 3)
     \<and> (\<forall>d x. dentry_ok s f B d x \<longrightarrow> dentry_ok s' f (grown B q) d x)"
proof -
  define g where "g = tmpfs_add_child type"
  obtain s1 w where s1: "extends s s1 (2 * length ns + 2)" "vnode_ok s1 f B w p"
    "vfs_add vp g s path NULL flags = (if entry s p n = None then g s1 w n flags else Ok (- EEXIST, s1))"
    using vfs_add_walk[OF assms(1-6) _ assms(9), of g flags] assms(7) by auto
  have v1: "vfs_ok s1 f B" by (rule extends_vfs_ok[OF s1(1) assms(1)])
  then have m1: "mount_ok s1 f B" and fr1: "fresh_ok s1" and ci: "0 < current_inode B" by (auto simp: vfs_ok_def)
  have l1: "length (fs_fresh s) \<le> length (fs_fresh s1) + (2 * length ns + 2)" using s1(1) by (simp add: extends_def)
  then obtain a as where as: "fs_fresh s1 = a # as" using assms(7) by (cases "fs_fresh s1") auto
  obtain F where F: "fs_vfss s1 f = Some F" using m1 by (auto simp: mount_ok_def)
  have p: "p \<in> nodes B" using s1(2) by (simp add: vnode_ok_def)
  have e1: "entry s1 p n = None" using assms(10) extends_entry[OF s1(1)] by simp
  let ?s = "with_child type s1 (vf_private F) B a as p n flags"
  have res: "vfs_add vp (tmpfs_add_child type) s path NULL flags = Ok (0, ?s)"
    using s1(3) assms(10) tmpfs_add_child_new[OF m1 s1(2) fr1 as e1 assms(8) less_imp_le[OF ci] F] by (simp add: g_def)
  have a: "a \<notin> nodes B" "a \<noteq> p" using fresh_not_node[OF m1 fr1 as] p by auto
  note i = ino_with_child[OF a(2)]
  have v2: "vfs_ok ?s f (grown B a)" by (rule vfs_ok_with_child[OF v1 as p e1 F])
  have en: "entry ?s p' m = (if p' = p \<and> m = n then Some a else entry s p' m)" if "p' \<in> nodes B" for p' m
    using entry_with_child[OF m1 fr1 as p e1, of p'] that a extends_entry[OF s1(1)] by auto
  have oth: "ino ?s p' = ino s p'" if "p' \<in> nodes B" "p' \<noteq> p" for p'
    using that a i extends_ino[OF s1(1)] by auto
  have rt: "fs_root ?s = fs_root s" using s1(1) by (simp add: extends_def)
  have de: "dentry_ok ?s f (grown B a) d x" if "dentry_ok s f B d x" for d x
    using extends_dentry_ok[OF s1(1) that] vnode_ok_with_child[OF m1 fr1 as p] unfolding dentry_ok_def by auto
  have root2: "dentry_ok ?s f (grown B a) (fs_root ?s) r" unfolding rt by (rule de[OF assms(2)])
  have rn: "r \<in> nodes B" using assms(2) by (auto simp: dentry_ok_def vnode_ok_def)
  have m0: "mount_ok s f B" using assms(1) by (simp add: vfs_ok_def)
  have keep: "resolve ?s r ms = Some x" if "resolve s r ms = Some x" for ms x
    by (rule resolve_mono_on[OF m0 _ rn that]) (use en e1 extends_entry[OF s1(1)] in auto)
  have r2: "resolve ?s r (ns @ [n]) = Some a" using keep[OF assms(6)] en[OF p] assms(5) by (simp add: resolve_append)
  have dir: "contents ?s p = contents s p" "ti_mode (ino ?s p) = ti_mode (ino s p)" "ti_length (ino ?s p) = ti_length (ino s p)"
    using extends_ino[OF s1(1)] by (simp_all add: contents_def i)
  have new: "contents ?s a = []" "ti_children (ino ?s a) = []" "ti_length (ino ?s a) = 0" "ti_mode (ino ?s a) = (flags AND NOT S_IFMT) OR type"
    using a by (simp_all add: contents_def i)
  have "length (fs_fresh s) \<le> length (fs_fresh ?s) + (2 * length ns + 3)" using l1 as by simp
  then show ?thesis using res v2 a(1) en oth dir new rt root2 r2 keep de by (intro exI[of _ ?s] exI[of _ a]) simp
qed

lemma vfs_open_found:
  assumes "vfs_ok s f B" and "dentry_ok s f B (fs_root s) r" and "path_of path absolute ns" and "ns \<noteq> []"
    and "2 * length ns \<le> length (fs_fresh s)" and "resolve s r ns = Some q"
  shows "\<exists>s' d. vfs_open s path NULL flags fd = Ok (0, fd\<lparr>fd_entry := d, fd_flags := flags, fd_pos := 0\<rparr>, s')
     \<and> extends s s' (2 * length ns) \<and> dentry_ok s' f B d q \<and> (last ns \<noteq> [0x2e] \<longrightarrow> sized s' d q)"
proof -
  obtain d s' where s': "walk_loop s (fs_root s) ns = Ok (0, d, s')" "extends s s' (2 * length ns)" "dentry_ok s' f B d q"
    "last ns \<noteq> [0x2e] \<longrightarrow> sized s' d q"
    using walk_loop_resolve[OF assms(1,2,5)] assms(4,6) by auto
  have "vfs_open s path NULL flags fd = Ok (0, fd\<lparr>fd_entry := d, fd_flags := flags, fd_pos := 0\<rparr>, s')"
    unfolding vfs_open_walk[OF assms(3,4)] using s'(1) by simp
  then show ?thesis using s'(2-4) by blast
qed

text \<open>
  C34: Creating and opening. On a well-formed file system, \<open>vfs_create\<close> and \<open>vfs_mkdir\<close> of a path whose
  directory exists and whose last name is new return 0 and add exactly that entry, a new and empty inode
  of the right type, to the directory: no other entry and no other inode changes, the file system stays
  well-formed, and opening the same path then finds the new inode. Where the name exists they return
  -EEXIST and change neither files nor directories.
\<close>

theorem vfs_create_adds_entry:
  assumes "vfs_ok s f B" and "dentry_ok s f B (fs_root s) r" and "path_of path absolute (ns @ [n])"
    and "absolute \<or> ns \<noteq> []" and "n \<noteq> [0x2e]" and "resolve s r ns = Some p"
    and "4 * length ns + 5 \<le> length (fs_fresh s)" and "current_inode B + 1 < 2 ^ 63"
    and "(op = vfs_create \<and> type = S_IFREG) \<or> (op = vfs_mkdir \<and> type = S_IFDIR)"
  shows "if entry s p n \<noteq> None
     then \<exists>s'. op s path NULL flags = Ok (- EEXIST, s') \<and> vfs_ok s' f B \<and> (\<forall>q. ino s' q = ino s q)
     else \<exists>s' q B' s'' fd'. op s path NULL flags = Ok (0, s') \<and> vfs_ok s' f B' \<and> q \<notin> nodes B
        \<and> nodes B' = insert q (nodes B)
        \<and> (\<forall>p' \<in> nodes B. \<forall>m. entry s' p' m = (if p' = p \<and> m = n then Some q else entry s p' m))
        \<and> (\<forall>p' \<in> nodes B. p' \<noteq> p \<longrightarrow> ino s' p' = ino s p')
        \<and> contents s' q = [] \<and> ti_children (ino s' q) = [] \<and> ti_mode (ino s' q) = (flags AND NOT S_IFMT) OR type
        \<and> vfs_open s' path NULL 0 fd = Ok (0, fd', s'') \<and> dentry_ok s'' f B' (fd_entry fd') q"
proof -
  obtain vp where op: "op = vfs_add vp (tmpfs_add_child type)" "vp \<in> tmpfs_operations"
    using assms(9) by (auto simp: vfs_create_def vfs_mkdir_def tmpfs_operations_def tmpfs_create_def[abs_def] tmpfs_mkdir_def[abs_def])
  have room: "2 * length ns + 2 \<le> length (fs_fresh s)" "2 * length ns + 3 \<le> length (fs_fresh s)" using assms(7) by simp_all
  show ?thesis
  proof (cases "entry s p n = None")
    case False
    obtain s1 where s1: "extends s s1 (2 * length ns + 2)" "op s path NULL flags = Ok (- EEXIST, s1)"
      using vfs_add_walk[OF assms(1-6) room(1) op(2), of "tmpfs_add_child type" flags] False unfolding op(1) by auto
    then show ?thesis using False extends_vfs_ok[OF s1(1) assms(1)] extends_ino[OF s1(1)] by auto
  next
    case True
    obtain s1 q where s1: "op s path NULL flags = Ok (0, s1)" "vfs_ok s1 f (grown B q)" "q \<notin> nodes B"
      "\<forall>p' \<in> nodes B. \<forall>m. entry s1 p' m = (if p' = p \<and> m = n then Some q else entry s p' m)"
      "\<forall>p' \<in> nodes B. p' \<noteq> p \<longrightarrow> ino s1 p' = ino s p'" "contents s1 q = []" "ti_children (ino s1 q) = []"
      "ti_mode (ino s1 q) = (flags AND NOT S_IFMT) OR type" "dentry_ok s1 f (grown B q) (fs_root s1) r" "resolve s1 r (ns @ [n]) = Some q"
      "length (fs_fresh s) \<le> length (fs_fresh s1) + (2 * length ns + 3)"
      using vfs_add_new[OF assms(1-6) room(2) assms(8) op(2) True, of type flags] unfolding op(1) by blast
    have l2: "2 * length (ns @ [n]) \<le> length (fs_fresh s1)" using s1(11) assms(7) by simp
    obtain s2 d where o: "vfs_open s1 path NULL 0 fd = Ok (0, fd\<lparr>fd_entry := d, fd_flags := 0, fd_pos := 0\<rparr>, s2)"
      "dentry_ok s2 f (grown B q) d q"
      using vfs_open_found[OF s1(2,9) assms(3) _ l2 s1(10), of 0 fd] by auto
    have "dentry_ok s2 f (grown B q) (fd_entry (fd\<lparr>fd_entry := d, fd_flags := 0, fd_pos := 0\<rparr>)) q" using o(2) by simp
    then show ?thesis using True s1(1-8) o(1) nodes_grown[of B q] by (simp only: simp_thms if_False) blast
  qed
qed

theorem vfs_create_adds_entry_witness:
  "\<exists>s' q. vfs_create demo_fs [0x2f, 0x62] NULL 0 = Ok (0, s') \<and> entry s' 16 [0x62] = Some q \<and> contents s' q = []"
proof -
  have r: "resolve demo_fs 16 [] = Some 16" by simp
  have "list_all name_ok [[0x62]]" by (simp add: name_ok_def plain_name_def VFS_PATH_MAX_def)
  from path_of_root_path[OF this, of True] have n: "path_of [0x2f, 0x62] True ([] @ [[0x62]])" by (simp add: root_path_def)
  have c: "current_inode demo_super + 1 < 2 ^ 63" by (simp add: demo_super_def)
  have k: "(16 :: addr) \<in> nodes demo_super" by (simp add: demo_nodes)
  show ?thesis
    using vfs_create_adds_entry[OF demo_vfs_ok demo_root n _ _ r _ c, of vfs_create S_IFREG 0 "\<lparr>fd_entry = 0, fd_pos = 5, fd_flags = 0\<rparr>"] k
    by (auto simp: demo_room demo_entry)
qed

lemma file_vnode_ok:
  assumes "dentry_ok s f B (fd_entry fd) p"
  shows "\<exists>v. file_vnode s fd = Ok v \<and> vnode_ok s f B v p \<and> vop_of s v = Ok Tmpfs_Operations"
  using assms by (auto simp: dentry_ok_def file_vnode_def vop_of_def vnode_ok_def)

lemma as_int_small: "0 \<le> n \<Longrightarrow> n < 2 ^ 31 \<Longrightarrow> as_int n = n"
  unfolding as_int_def by (rule signed_take_bit_int_eq_self) auto

lemma inode_length_pos:
  assumes "vfs_ok s f B" and "dentry_ok s f B d p"
  shows "0 \<le> ti_length (ino s p)"
  using assms mount_okD(1)[of s f B p] by (auto simp: vfs_ok_def dentry_ok_def vnode_ok_def inode_ok_def)

lemma vfs_write_at:
  assumes "vfs_ok s f B" and "dentry_ok s f B (fd_entry fd) p" and "S_ISREG (ti_mode (ino s p))" and "0 \<le> fd_pos fd" and "fd_pos fd \<le> ti_length (ino s p)"
    and "fd_pos fd < 2 ^ 61"
    and "0 \<le> n" and "n \<le> int (length buf)" and "n < 2 ^ 31"
  shows "\<exists>s'. vfs_write s fd buf n = Ok (n, fd\<lparr>fd_pos := fd_pos fd + n\<rparr>, s') \<and> vfs_ok s' f B
     \<and> contents s' p = take (nat (fd_pos fd)) (contents s p) @ take (nat n) buf @ drop (nat (fd_pos fd + n)) (contents s p)
     \<and> ti_length (ino s' p) = max (ti_length (ino s p)) (fd_pos fd + n)
     \<and> (\<forall>q. q \<noteq> p \<longrightarrow> ino s' q = ino s q) \<and> ti_mode (ino s' p) = ti_mode (ino s p) \<and> (\<forall>q m. entry s' q m = entry s q m)
     \<and> fs_dentries s' = fs_dentries s \<and> fs_root s' = fs_root s \<and> fs_fresh s' = fs_fresh s
     \<and> (\<forall>u q. vnode_ok s f B u q \<longrightarrow> vnode_ok s' f B u q) \<and> (\<forall>d q. dentry_ok s f B d q \<longrightarrow> dentry_ok s' f B d q)
     \<and> (\<forall>u. file_vnode s fd \<noteq> Ok u \<longrightarrow> fs_vnodes s' u = fs_vnodes s u)"
proof -
  have m: "mount_ok s f B" and fr: "fresh_ok s" using assms(1) by (auto simp: vfs_ok_def)
  obtain v where v: "file_vnode s fd = Ok v" "vnode_ok s f B v p" "vop_of s v = Ok Tmpfs_Operations"
    using file_vnode_ok[OF assms(2)] by blast
  have i: "inode_ok s B p" using mount_okD(1)[OF m] v(2) by (simp add: vnode_ok_def)
  then have l0: "0 \<le> ti_length (ino s p)" by (simp add: inode_ok_def)
  obtain s' t where w: "tmpfs_write s v buf n (fd_pos fd) = Ok (as_int n, s')"
    "s' = put_vnode (put_inode s p t) v ((the (fs_vnodes s v))\<lparr>vn_size := ti_length t\<rparr>)"
    "ti_length t = max (ti_length (ino s p)) (fd_pos fd + n)" "ti_length t \<le> ti_effective t" "int (length (ti_data t)) = ti_effective t"
    "take (nat (ti_length t)) (ti_data t) = take (nat (fd_pos fd)) (contents s p) @ take (nat n) buf @ drop (nat (fd_pos fd + n)) (contents s p)"
    "same_place t (ino s p)"
    using tmpfs_write_file[OF m v(2) assms(3-5,7,8)] assms(6,9) unfolding same_place_def by auto
  obtain V where V: "fs_vnodes s v = Some V" "S_ISREG (vn_mode V) = S_ISREG (ti_mode (ino s p))" "v \<noteq> NULL" using v(2) by (auto simp: vnode_ok_def)
  have s': "s' = put_vnode (put_inode s p t) v (V\<lparr>vn_size := ti_length t\<rparr>)" using w(2) V(1) by simp
  have b: "block_ok t" using w(3-5) l0 by (simp add: block_ok_def max_def)
  have m': "mount_ok s' f B" unfolding s' by (rule mount_ok_put_inode[OF m _ w(7) b]) (use v(2) in \<open>simp add: vnode_ok_def\<close>)
  have num: "ti_number (ino s' q) = ti_number (ino s q)" "ti_children (ino s' q) = ti_children (ino s q)" for q
    using w(7) unfolding s' by (simp_all add: same_place_def)
  have fr': "fresh_ok s'" unfolding s' by (rule fresh_ok_put_inode[OF fr]) (use ino_Some[OF i] V(1) in simp_all)
  have ok': "vfs_ok s' f B" using assms(1) m' fr' unfolding vfs_ok_def num by (simp add: s')
  have vn': "\<forall>u q. vnode_ok s f B u q \<longrightarrow> vnode_ok s' f B u q" unfolding s' using vnode_ok_put_inode[OF _ w(7) V(1)] by blast
  have de: "fs_dentries s' = fs_dentries s" "fs_root s' = fs_root s" "fs_fresh s' = fs_fresh s" unfolding s' by simp_all
  have dn': "\<forall>d q. dentry_ok s f B d q \<longrightarrow> dentry_ok s' f B d q" using vn' by (auto simp: dentry_ok_def de)
  have n31: "as_int n = n" by (rule as_int_small) (use assms(7,9) in simp_all)
  have len: "ti_length (ino s' p) = max (ti_length (ino s p)) (fd_pos fd + n)" unfolding s' using w(3) by simp
  have md: "ti_mode (ino s' p) = ti_mode (ino s p)" using w(7) unfolding s' by (simp add: same_place_def)
  have c: "contents s' p = take (nat (fd_pos fd)) (contents s p) @ take (nat n) buf @ drop (nat (fd_pos fd + n)) (contents s p)" using w(6) unfolding contents_def s' by simp
  have en: "\<forall>q m. entry s' q m = entry s q m" unfolding s' using entry_put_inode[OF w(7)] by blast
  have fd: "fd\<lparr>fd_pos := fd_pos fd\<rparr> = fd" by (cases fd) simp
  have wr: "vfs_write s fd buf n = Ok (n, fd\<lparr>fd_pos := fd_pos fd + n\<rparr>, s')"
    using v w(1) assms(3-9) n31 V fd
    by (auto simp: vfs_write_def has_op_def tmpfs_operations_def advance_def s' long_def)
  have oth: "\<forall>q. q \<noteq> p \<longrightarrow> ino s' q = ino s q" "\<forall>u. file_vnode s fd \<noteq> Ok u \<longrightarrow> fs_vnodes s' u = fs_vnodes s u"
    using v(1) unfolding s' by auto
  show ?thesis using wr ok' c len oth md en de vn' dn' by blast
qed

lemma vfs_write_file:
  assumes "vfs_ok s f B" and "dentry_ok s f B (fd_entry fd) p" and "S_ISREG (ti_mode (ino s p))" and "fd_pos fd = 0"
    and "0 \<le> n" and "n \<le> int (length buf)" and "n < 2 ^ 31"
  shows "\<exists>s'. vfs_write s fd buf n = Ok (n, fd\<lparr>fd_pos := n\<rparr>, s') \<and> vfs_ok s' f B
     \<and> contents s' p = take (nat n) buf @ drop (nat n) (contents s p) \<and> ti_length (ino s' p) = max (ti_length (ino s p)) n
     \<and> (\<forall>q. q \<noteq> p \<longrightarrow> ino s' q = ino s q) \<and> ti_mode (ino s' p) = ti_mode (ino s p) \<and> (\<forall>q m. entry s' q m = entry s q m)
     \<and> fs_dentries s' = fs_dentries s \<and> fs_root s' = fs_root s \<and> fs_fresh s' = fs_fresh s
     \<and> (\<forall>u q. vnode_ok s f B u q \<longrightarrow> vnode_ok s' f B u q) \<and> (\<forall>d q. dentry_ok s f B d q \<longrightarrow> dentry_ok s' f B d q)
     \<and> (\<forall>u. file_vnode s fd \<noteq> Ok u \<longrightarrow> fs_vnodes s' u = fs_vnodes s u)"
  using vfs_write_at[OF assms(1-3) _ _ _ assms(5-7)] assms(4) inode_length_pos[OF assms(1,2)] by auto

text \<open>
  C35: Files keep what is written. Writing \<open>n\<close> bytes at the start of a regular file returns \<open>n\<close>, moves the
  position to \<open>n\<close> and keeps the file system well-formed, and reading through any file descriptor at
  position 0 of the same inode then gives these bytes back; the size of the other vnodes of the inode stays
  what it was when they were opened.
\<close>

theorem vfs_write_reads_back:
  assumes "vfs_ok s f B" and "dentry_ok s f B (fd_entry fd) p" and "dentry_ok s f B (fd_entry fd2) p"
    and "S_ISREG (ti_mode (ino s p))" and "fd_pos fd = 0" and "fd_pos fd2 = 0"
    and "0 < n" and "n \<le> int (length buf)" and "n < 2 ^ 31" and "ti_length (ino s p) < 2 ^ 31"
  shows "\<exists>s' fd'. vfs_write s fd buf n = Ok (n, fd', s') \<and> fd_pos fd' = n \<and> vfs_ok s' f B
     \<and> vfs_read s' fd2 n = Ok (n, take (nat n) buf, fd2\<lparr>fd_pos := n\<rparr>)
     \<and> (file_vnode s fd2 \<noteq> file_vnode s fd \<longrightarrow> vfs_size s' fd2 = vfs_size s fd2)"
proof -
  obtain s' where w: "vfs_write s fd buf n = Ok (n, fd\<lparr>fd_pos := n\<rparr>, s')" "vfs_ok s' f B"
    "contents s' p = take (nat n) buf @ drop (nat n) (contents s p)" "ti_length (ino s' p) = max (ti_length (ino s p)) n"
    "ti_mode (ino s' p) = ti_mode (ino s p)" "fs_dentries s' = fs_dentries s"
    "dentry_ok s' f B (fd_entry fd2) p" "\<forall>u. file_vnode s fd \<noteq> Ok u \<longrightarrow> fs_vnodes s' u = fs_vnodes s u"
    using vfs_write_file[OF assms(1,2,4,5) less_imp_le[OF assms(7)] assms(8,9)] assms(3) by blast
  have m': "mount_ok s' f B" using w(2) by (simp add: vfs_ok_def)
  obtain v2 where v2: "file_vnode s' fd2 = Ok v2" "vnode_ok s' f B v2 p" "vop_of s' v2 = Ok Tmpfs_Operations"
    using file_vnode_ok[OF w(7)] by blast
  obtain V2 where V2: "fs_vnodes s' v2 = Some V2" "S_ISREG (vn_mode V2) = S_ISREG (ti_mode (ino s' p))" "v2 \<noteq> NULL" using v2(2) by (auto simp: vnode_ok_def)
  have reg': "S_ISREG (ti_mode (ino s' p))" using assms(4) w(5) by simp
  have "0 < ti_length (ino s' p)" "ti_length (ino s' p) < 2 ^ 31" using w(4) assms(7,9,10) by auto
  then obtain k where k: "k = min n (ti_length (ino s' p) - 0)" "tmpfs_read s' v2 n 0 = Ok (k, take (nat k) (contents s' p))"
    using tmpfs_read_file[OF m' v2(2) reg', of 0 n] assms(7) as_int_small[of "min n (ti_length (ino s' p))"] by (auto simp: min_def)
  have kn: "k = n" using k(1) w(4) assms(7) by simp
  have "take (nat n) (contents s' p) = take (nat n) buf" using w(3) assms(8) by simp
  then have rd: "vfs_read s' fd2 n = Ok (n, take (nat n) buf, fd2\<lparr>fd_pos := n\<rparr>)"
    using v2 k(2) kn assms(6,7,9) V2 reg'
    by (simp add: vfs_read_def vfs_pread_def has_op_def tmpfs_operations_def advance_def long_def)
  have "file_vnode s' fd2 = file_vnode s fd2" using w(6) by (simp add: file_vnode_def)
  then have fv: "file_vnode s fd2 = Ok v2" using v2(1) by simp
  have "vfs_size s' fd2 = vfs_size s fd2" if "file_vnode s fd2 \<noteq> file_vnode s fd"
    using that v2(1) fv w(8) by (simp add: vfs_size_def fetch_def)
  then show ?thesis using w(1,2) rd by (intro exI[of _ s'] exI[of _ "fd\<lparr>fd_pos := n\<rparr>"]) simp
qed

definition demo_fd_fs :: fs where
  "demo_fd_fs = demo_fs\<lparr>fs_dentries := (fs_dentries demo_fs)(96 \<mapsto> \<lparr>de_name = [0x61], de_parent = 80, de_vnode = 72, de_refcount = 1\<rparr>)\<rparr>"

lemma demo_fd_ok: "vfs_ok demo_fd_fs 48 demo_super" "dentry_ok demo_fd_fs 48 demo_super 96 24"
proof -
  have fr: "fresh_ok demo_fd_fs" using demo_fresh_ok unfolding fresh_ok_def demo_fd_fs_def
    by (simp add: demo_fresh)
  have e: "extends demo_fs demo_fd_fs 0" using fr by (simp add: extends_def demo_fd_fs_def) (simp add: demo_fs_def)
  show "vfs_ok demo_fd_fs 48 demo_super" by (rule extends_vfs_ok[OF e demo_vfs_ok])
  show "dentry_ok demo_fd_fs 48 demo_super 96 24"
    using extends_vnode_ok[OF e demo_vnode_ok(2)] by (simp add: dentry_ok_def) (simp add: demo_fd_fs_def)
qed

theorem vfs_write_reads_back_witness:
  "\<exists>s' fd'. vfs_write demo_fd_fs \<lparr>fd_entry = 96, fd_pos = 0, fd_flags = 0\<rparr> [4, 5] 2 = Ok (2, fd', s')
     \<and> vfs_read s' \<lparr>fd_entry = 96, fd_pos = 0, fd_flags = 1\<rparr> 2 = Ok (2, [4, 5], \<lparr>fd_entry = 96, fd_pos = 2, fd_flags = 1\<rparr>)"
proof -
  have i: "ino demo_fd_fs 24 = demo_file" by (simp add: demo_fd_fs_def ino_def) (simp add: demo_fs_def)
  have r: "S_ISREG (ti_mode (ino demo_fd_fs 24))" by (simp add: i demo_file_def S_ISREG_def S_IFMT_def S_IFREG_def)
  let ?a = "\<lparr>fd_entry = 96, fd_pos = 0, fd_flags = 0\<rparr>" and ?b = "\<lparr>fd_entry = 96, fd_pos = 0, fd_flags = 1\<rparr>"
  have l: "ti_length (ino demo_fd_fs 24) < 2 ^ 31" by (simp add: i demo_file_def)
  have d: "dentry_ok demo_fd_fs 48 demo_super (fd_entry ?a) 24" "dentry_ok demo_fd_fs 48 demo_super (fd_entry ?b) 24"
    using demo_fd_ok(2) by simp_all
  show ?thesis using vfs_write_reads_back[OF demo_fd_ok(1) d r _ _ _ _ _ l, of 2 "[4, 5]"] by auto
qed

text \<open>
  Mounting takes a name for a dentry. Before it prints the mount point, \<open>vfs_init\<close> has built a
  well-formed file system with an empty root directory, but \<open>dentry_resolve\<close> then follows the first eight
  bytes of the name \<open>/\<close> as a pointer: unless the word they form is the address of a mapped string,
  \<open>vfs_init\<close> faults.
\<close>

theorem vfs_init_follows_name:
  assumes "fresh_ok s" and "fs_fresh s = a # v # root # rv # ri # sb # as" and "np root = q" and "0 < fuel"
    and "load_le m q 8 = Ok w" and "m w = None" and "m path \<noteq> None" and "disjoint_ranges path 1 q 8"
  shows "(\<exists>s' B. bnd (init_objects s) (\<lambda>(_, v, root, s). mount_root s root v) = Ok s' \<and> mount_ok s' v B \<and> fresh_ok s'
            \<and> (\<forall>n. entry s' ri n = None) \<and> dentry_ok s' v B root ri)
     \<and> vfs_init fuel np m path s = Fault Wild_Access"
proof -
  have ne: "a \<noteq> NULL" "v \<noteq> NULL" "root \<noteq> NULL" "rv \<noteq> NULL" "ri \<noteq> NULL" "sb \<noteq> NULL"
    using assms(1,2) by (auto simp: fresh_ok_def)
  have dist: "distinct [a, v, root, rv, ri, sb]" using assms(1,2) by (auto simp: fresh_ok_def)
  let ?B = "\<lparr>current_inode = 1, tnode_cache = [(0, ri)]\<rparr>"
  obtain s1 where s1: "init_objects s = Ok (a, v, root, s1)"
    "fs_dentries s1 = (fs_dentries s)(root \<mapsto> \<lparr>de_name = [0x2f], de_parent = NULL, de_vnode = a, de_refcount = 1\<rparr>)"
    "\<exists>F. fs_vfss s1 v = Some F \<and> vf_lock F = 0" "fs_fresh s1 = rv # ri # sb # as" "fs_inodes s1 = fs_inodes s"
    "fs_vnodes s1 = (fs_vnodes s)(a \<mapsto> \<lparr>vn_lock = 0, vn_ops = No_Ops, vn_vfs = v, vn_private = NULL, vn_refcount = 0,
                vn_mode = S_IFDIR OR 0x1ff, vn_number = 0, vn_size = 0\<rparr>)"
    using ne by (simp add: init_objects_def kzalloc_def assms(2) Let_def)
  obtain F where F: "fs_vfss s1 v = Some F" "vf_lock F = 0" using s1(3) by blast
  obtain s2 where s2: "mount_root s1 root v = Ok s2"
    "fs_dentries s2 = (fs_dentries s)(root \<mapsto> \<lparr>de_name = [0x2f], de_parent = NULL, de_vnode = rv, de_refcount = 1\<rparr>)"
    "fs_vfss s2 v = Some (F\<lparr>vf_private := sb\<rparr>)" "fs_sbs s2 sb = Some ?B" "fs_fresh s2 = as"
    "fs_inodes s2 = (fs_inodes s)(ri \<mapsto> \<lparr>ti_name = [0x2f], ti_children = [], ti_data = [], ti_number = 0, ti_length = 0,
                ti_effective = 0, ti_mode = 0\<rparr>)"
    "fs_vnodes s2 = (fs_vnodes s1)(rv \<mapsto> \<lparr>vn_lock = 0, vn_ops = Tmpfs_Operations, vn_vfs = v, vn_private = ri, vn_refcount = 1,
                vn_mode = S_IFDIR OR 0x1ff, vn_number = 0, vn_size = 0\<rparr>)"
    using ne dist F s1(2,4,5) by (simp add: mount_root_def kzalloc_def Let_def)
  have i: "ino s2 ri = \<lparr>ti_name = [0x2f], ti_children = [], ti_data = [], ti_number = 0, ti_length = 0, ti_effective = 0, ti_mode = 0\<rparr>"
    by (simp add: ino_def s2(6))
  have n: "nodes ?B = {ri}" by (simp add: nodes_def)
  have "inode_ok s2 ?B ri" using ne by (simp add: inode_ok_def i n s2(6))
  then have mo: "mount_ok s2 v ?B" using F ne s2(3,4) by (simp add: mount_ok_def i)
  have fr: "fresh_ok s2" using assms(1,2) s2(2,5,6,7) s1(6) by (auto simp: fresh_ok_def)
  have en: "\<forall>n. entry s2 ri n = None" by (simp add: entry_def i)
  have "fs_dentries s2 root = Some \<lparr>de_name = [0x2f], de_parent = NULL, de_vnode = rv, de_refcount = 1\<rparr>" by (simp add: s2(2))
  then have dr: "fetch (fs_dentries s2) root = Ok \<lparr>de_name = [0x2f], de_parent = NULL, de_vnode = rv, de_refcount = 1\<rparr>"
    using ne(3) by simp
  obtain k where k: "fuel = Suc k" using assms(4) by (cases fuel) auto
  have np: "name_pointers fuel np s2 root [] = Ok [q]"
    using k dr ne(3) assms(3) by (simp add: name_pointers.simps)
  obtain c where c: "m path = Some c" using assms(7) by auto
  let ?m = "m(path \<mapsto> 0x2f)"
  have ld: "load_le ?m r j = load_le m r j" if "\<forall>i<j. r + of_nat i \<noteq> path" for r j
    using that
  proof (induction j arbitrary: r)
    case (Suc j)
    have "load_le ?m (r + 1) j = load_le m (r + 1) j"
    proof (rule Suc.IH, intro allI impI)
      fix i assume "i < j"
      then show "r + 1 + of_nat i \<noteq> path" using Suc.prems[rule_format, of "Suc i"] by (simp add: add.assoc)
    qed
    moreover have "load ?m r = load m r" using Suc.prems[rule_format, of 0] by (simp add: load_def)
    ultimately show ?case by (simp only: load_le.simps)
  qed simp
  have "load_le ?m q 8 = Ok w"
  proof -
    have "\<forall>i<8. q + of_nat i \<noteq> path"
    proof (intro allI impI notI)
      fix i :: nat assume "i < 8" and e: "q + of_nat i = path"
      then have "\<not> unat ((q + of_nat i) - path) < 1" by (intro disjoint_rangesD[OF assms(8)]) simp_all
      then show False unfolding e by simp
    qed
    then show ?thesis using ld[of 8 q] assms(5) by simp
  qed
  moreover have "?m w = None" using assms(6) c by auto
  then have "strcpy ?m (path + 1) w = Fault Wild_Access"
    by (simp add: strcpy_def strlen_def strlen_loop.simps[of _ w 0] load_def)
  ultimately have "dentry_resolve fuel np s2 m root path = Fault Wild_Access"
    using np c by (simp add: dentry_resolve_def store_def)
  then have "vfs_init fuel np m path s = Fault Wild_Access"
    using s1(1) s2(1) by (simp add: vfs_init_def tmpfs_mount_def)
  moreover have "dentry_ok s2 v ?B root ri"
    using ne n s2(2,7) by (simp add: dentry_ok_def vnode_ok_def i S_ISREG_def S_IFMT_def S_IFDIR_def S_IFREG_def)
  ultimately show ?thesis using s1(1) s2(1) mo fr en by auto
qed

text \<open>The name at 0x2000 with its six spare bytes, and the array at 0x3000.\<close>

definition name_mem :: mem where
  "name_mem = [0x2000 \<mapsto> 0x2f, 0x2001 \<mapsto> 0, 0x2002 \<mapsto> 0, 0x2003 \<mapsto> 0, 0x2004 \<mapsto> 0, 0x2005 \<mapsto> 0, 0x2006 \<mapsto> 0, 0x2007 \<mapsto> 0,
     0x3000 \<mapsto> 0]"

definition empty_fs :: fs where
  "empty_fs = \<lparr>fs_inodes = Map.empty, fs_sbs = Map.empty, fs_vnodes = Map.empty, fs_vfss = Map.empty, fs_dentries = Map.empty,
     fs_dcache = [], fs_vcache = [], fs_root = NULL, fs_upcount = 0, fs_fresh = [16, 24, 32, 40, 48, 56], fs_junk = (\<lambda>_. 0)\<rparr>"

theorem vfs_init_follows_name_witness:
  "vfs_init 1 (\<lambda>_. 0x2000) name_mem 0x3000 empty_fs = Fault Wild_Access"
proof -
  have p: "fresh_ok empty_fs" "fs_fresh empty_fs = 16 # 24 # 32 # 40 # 48 # 56 # []" "name_mem 0x3000 \<noteq> None" "name_mem 0x2f = None"
    by (simp_all add: fresh_ok_def empty_fs_def name_mem_def)
  have l: "load_le name_mem 0x2000 8 = Ok 0x2f" by (simp add: numeral_eq_Suc) (simp add: load_def name_mem_def)
  have d: "disjoint_ranges 0x3000 1 0x2000 8" by (rule disjoint_ranges_sym, rule disjoint_rangesI) simp_all
  show ?thesis using vfs_init_follows_name[OF p(1,2) _ _ l p(4,3) d, of "\<lambda>_. 0x2000" 1] by simp
qed

end
