(* ===== verification/Cmdline.thy ===== *)
theory Cmdline
  imports Vfs
begin

section \<open>boot/cmdline.c: the kernel command line\<close>

text \<open>
  The list of arguments that starts at the global \<open>kernel_cmdline\<close> is the list of the strings its nodes
  point to, \<open>None\<close> where the pointer is NULL; a string is its bytes without the NUL. \<open>cl_allocs\<close> is how
  many more calls of \<open>kzalloc\<close> return memory; the NULL of the next one is written through before it is
  looked at. The line printed for every key is left out.
\<close>

definition MAX_CMDLINE_COMMAND :: nat where "MAX_CMDLINE_COMMAND = 512"

record cmdline =
  cl_args :: "u8 list option list"
  cl_allocs :: nat

definition used :: "nat \<Rightarrow> nat result" where
  "used n = (if n = 0 then Fault Null_Deref else Ok (n - 1))"

text \<open>
  The loop of \<open>build_args\<close> over the rest of the string, with the buffer of the word, its length, the nodes
  that are finished, the current node with those behind it, and the memory left.
\<close>

fun build_loop :: "u8 list \<Rightarrow> u8 list \<Rightarrow> nat \<Rightarrow> u8 list option list \<Rightarrow> u8 list option list \<Rightarrow> nat \<Rightarrow> cmdline result" where
  "build_loop [] buf len ready current n =
     bnd (aput buf (int len) 0) (\<lambda>buf.
     bnd (used n) (\<lambda>n. Ok \<lparr>cl_args = ready @ Some (take len buf) # tl current, cl_allocs = n\<rparr>))"
| "build_loop (c # cmd) buf len ready current n =
     (if c = 0x20 then
        bnd (used n) (\<lambda>n.
        bnd (aput buf (int len) 0) (\<lambda>buf.
        bnd (used n) (\<lambda>n. build_loop cmd buf 0 (ready @ [Some (take len buf)]) [None] n)))
      else bnd (aput buf (int len) c) (\<lambda>buf. build_loop cmd buf (len + 1) ready current n))"

definition build_args :: "u8 list \<Rightarrow> cmdline \<Rightarrow> cmdline result" where
  "build_args cmd s = build_loop cmd (replicate MAX_CMDLINE_COMMAND 0) 0 [] (cl_args s) (cl_allocs s)"

fun make_key :: "u8 list \<Rightarrow> u8 list" where
  "make_key [] = []"
| "make_key (c # cs) = (if c = 0x3d then [] else c # make_key cs)"

fun make_val :: "u8 list \<Rightarrow> u8 list" where
  "make_val [] = []"
| "make_val (c # cs) = (if c = 0x3d then cs else make_val cs)"

text \<open>\<open>strncmp\<close> returns 0.\<close>

fun same_prefix :: "nat \<Rightarrow> u8 list \<Rightarrow> u8 list \<Rightarrow> bool" where
  "same_prefix 0 s t = True"
| "same_prefix (Suc n) [] t = (t = [])"
| "same_prefix (Suc n) (a # s) t = (case t of [] \<Rightarrow> False | b # t \<Rightarrow> a = b \<and> same_prefix n s t)"

text \<open>The result is the value, \<open>None\<close> for NULL, and the memory left.\<close>

fun find_loop :: "u8 list option list \<Rightarrow> u8 list \<Rightarrow> nat \<Rightarrow> (u8 list option \<times> nat) result" where
  "find_loop [] query n = Ok (None, n)"
| "find_loop (a # args) query n =
     (case a of None \<Rightarrow> Fault Null_Deref | Some a \<Rightarrow>
      if length a \<ge> MAX_CMDLINE_COMMAND then Fault Out_Of_Bounds else
      let key = make_key a in
      if same_prefix MAX_CMDLINE_COMMAND key query
      then bnd (used n) (\<lambda>n. Ok (Some (make_val (drop (length key) a)), n))
      else find_loop args query n)"

definition find_cmdline :: "cmdline \<Rightarrow> u8 list \<Rightarrow> (u8 list option \<times> cmdline) result" where
  "find_cmdline s query =
     bnd (find_loop (cl_args s) query (cl_allocs s)) (\<lambda>(res, n). Ok (res, s\<lparr>cl_allocs := n\<rparr>))"

text \<open>
  \<open>kfree\<close> finds the slab through the frame of its argument, and NULL is no address of a frame, as the
  theory on slab.c has it.
\<close>

definition kfree_string :: "u8 list option \<Rightarrow> cmdline \<Rightarrow> cmdline result" where
  "kfree_string res s = (case res of None \<Rightarrow> Fault Wild_Access | Some _ \<Rightarrow> Ok (s\<lparr>cl_allocs := cl_allocs s + 1\<rparr>))"

definition cmdline_contains :: "cmdline \<Rightarrow> u8 list \<Rightarrow> (bool \<times> cmdline) result" where
  "cmdline_contains s query =
     bnd (find_cmdline s query) (\<lambda>(res, s). bnd (kfree_string res s) (\<lambda>s. Ok (res \<noteq> None, s)))"

text \<open>The response of the boot loader is \<open>None\<close> where the pointer to it is NULL.\<close>

definition parse_cmdline :: "u8 list option \<Rightarrow> cmdline \<Rightarrow> cmdline result" where
  "parse_cmdline response s =
     (case response of None \<Rightarrow> Ok s | Some cmd \<Rightarrow>
      if length cmd > MAX_CMDLINE_COMMAND then Ok s else build_args cmd s)"

section \<open>Options\<close>

text \<open>
  A command line is a list of options separated by single spaces, each a key or a key, an equals sign and a
  value.
\<close>

type_synonym boot_option = "u8 list \<times> u8 list option"

fun show_option :: "boot_option \<Rightarrow> u8 list" where
  "show_option (k, None) = k"
| "show_option (k, Some v) = k @ 0x3d # v"

fun show_options :: "boot_option list \<Rightarrow> u8 list" where
  "show_options [] = []"
| "show_options [x] = show_option x"
| "show_options (x # xs) = show_option x @ 0x20 # show_options xs"

fun option_ok :: "boot_option \<Rightarrow> bool" where
  "option_ok (k, v) \<longleftrightarrow> 0x20 \<notin> set k \<and> 0x3d \<notin> set k \<and> (case v of None \<Rightarrow> True | Some v \<Rightarrow> 0x20 \<notin> set v)
     \<and> length (show_option (k, v)) < MAX_CMDLINE_COMMAND"

definition option_value :: "boot_option list \<Rightarrow> u8 list \<Rightarrow> u8 list option" where
  "option_value xs q = map_option (\<lambda>v. case v of None \<Rightarrow> [] | Some v \<Rightarrow> v) (map_of xs q)"

lemma build_word:
  assumes "0x20 \<notin> set w" and "len + length w \<le> length buf"
  shows "\<exists>buf'. build_loop (w @ cmd) buf len ready current n = build_loop cmd buf' (len + length w) ready current n
     \<and> length buf' = length buf \<and> take (len + length w) buf' = take len buf @ w"
  using assms
proof (induction w arbitrary: buf len)
  case Nil
  then show ?case by auto
next
  case (Cons c w)
  have l: "len < length buf" using Cons.prems(2) by simp
  obtain buf' where b: "build_loop (w @ cmd) (buf[len := c]) (Suc len) ready current n = build_loop cmd buf' (Suc len + length w) ready current n"
    "length buf' = length buf" "take (Suc len + length w) buf' = take (Suc len) (buf[len := c]) @ w"
    using Cons.IH[of "Suc len" "buf[len := c]"] Cons.prems by auto
  have "take (Suc len) (buf[len := c]) = take len buf @ [c]" using l by (simp add: take_Suc_conv_app_nth)
  then show ?case using b Cons.prems(1) aput_Ok[OF l, of c] by (intro exI[of _ buf']) auto
qed

lemma option_ok_word: "option_ok x \<Longrightarrow> 0x20 \<notin> set (show_option x) \<and> length (show_option x) < MAX_CMDLINE_COMMAND"
  by (cases x rule: show_option.cases) auto

lemma build_options:
  assumes "xs \<noteq> []" and "\<forall>x \<in> set xs. option_ok x" and "2 * length xs \<le> n" and "length buf = MAX_CMDLINE_COMMAND" and "tl current = []"
  shows "build_loop (show_options xs) buf 0 ready current n
     = Ok \<lparr>cl_args = ready @ List.map (\<lambda>x. Some (show_option x)) xs, cl_allocs = n - (2 * length xs - 1)\<rparr>"
  using assms
proof (induction xs arbitrary: buf ready current n rule: show_options.induct)
  case (2 x)
  have w: "0x20 \<notin> set (show_option x)" "length (show_option x) < MAX_CMDLINE_COMMAND" using option_ok_word 2 by auto
  obtain buf' where b: "build_loop (show_option x) buf 0 ready current n = build_loop [] buf' (length (show_option x)) ready current n"
    "length buf' = length buf" "take (length (show_option x)) buf' = show_option x"
    using build_word[OF w(1), of 0 buf "[]" ready current n] w(2) 2 by auto
  have "aput buf' (int (length (show_option x))) 0 = Ok (buf'[length (show_option x) := 0])" using w(2) b(2) 2 by (intro aput_Ok) simp
  then show ?case using b 2 by (simp add: used_def)
next
  case (3 x y xs)
  have w: "0x20 \<notin> set (show_option x)" "length (show_option x) < MAX_CMDLINE_COMMAND" using option_ok_word 3(3) by auto
  let ?cmd = "0x20 # show_options (y # xs)"
  obtain buf' where b: "build_loop (show_option x @ ?cmd) buf 0 ready current n = build_loop ?cmd buf' (length (show_option x)) ready current n"
    "length buf' = length buf" "take (length (show_option x)) buf' = show_option x"
    using build_word[OF w(1), of 0 buf ?cmd ready current n] w(2) 3 by auto
  let ?buf = "buf'[length (show_option x) := 0]"
  have a: "aput buf' (int (length (show_option x))) 0 = Ok ?buf" using w(2) b(2) 3 by (intro aput_Ok) simp
  have "build_loop (show_options (y # xs)) ?buf 0 (ready @ [Some (show_option x)]) [None] (n - 2)
      = Ok \<lparr>cl_args = (ready @ [Some (show_option x)]) @ List.map (\<lambda>x. Some (show_option x)) (y # xs), cl_allocs = n - 2 - (2 * length (y # xs) - 1)\<rparr>"
    by (rule 3(1)) (use 3(3-6) b(2) in auto)
  then show ?case using a b 3(4) by (simp add: used_def numeral_2_eq_2)
qed simp

lemma make_key_append: "0x3d \<notin> set k \<Longrightarrow> make_key (k @ 0x3d # v) = k \<and> make_key k = k"
  by (induction k) auto

lemma same_prefix_eq: "length s < n \<Longrightarrow> same_prefix n s t \<longleftrightarrow> s = t"
proof (induction s arbitrary: n t)
  case Nil
  then show ?case by (cases n) auto
next
  case (Cons a s)
  then show ?case by (cases n) (auto split: list.splits)
qed

lemma find_options:
  assumes "\<forall>x \<in> set xs. option_ok x" and "0 < n"
  shows "find_loop (List.map (\<lambda>x. Some (show_option x)) xs) q n
     = Ok (option_value xs q, if option_value xs q = None then n else n - 1)"
  using assms(1)
proof (induction xs)
  case Nil
  then show ?case by (simp add: option_value_def)
next
  case (Cons x xs)
  obtain k v where x: "x = (k, v)" by (cases x)
  have k: "0x3d \<notin> set k" "length (show_option x) < MAX_CMDLINE_COMMAND" using Cons.prems x by auto
  have key: "make_key (show_option x) = k" using make_key_append[OF k(1)] x by (cases v) auto
  have "length k < MAX_CMDLINE_COMMAND" using k(2) x by (cases v) auto
  then have eq: "same_prefix MAX_CMDLINE_COMMAND k q \<longleftrightarrow> k = q" by (rule same_prefix_eq)
  have val: "make_val (drop (length k) (show_option x)) = (case v of None \<Rightarrow> [] | Some v \<Rightarrow> v)" using x by (cases v) auto
  show ?case using key eq k(2) val Cons assms(2) x by (auto simp: option_value_def used_def Let_def not_le)
qed

section \<open>Properties of boot/cmdline.c\<close>

text \<open>
  C19: Options are found. Parsing a command line that spells out a list of options, none longer than 511
  bytes and all together no longer than 512, keeps each of them, and \<open>find_cmdline\<close> then returns the
  value of the first one with the key asked for, the empty string where it has none, and NULL where
  there is no such option. This needs two objects per option and one for the value.
\<close>

theorem cmdline_finds_options:
  assumes "xs \<noteq> []" and "\<forall>x \<in> set xs. option_ok x" and "length (show_options xs) \<le> 512"
    and "cl_args s = [a]" and "2 * length xs < cl_allocs s"
  shows "\<exists>s'. parse_cmdline (Some (show_options xs)) s = Ok s' \<and> cl_args s' = List.map (\<lambda>x. Some (show_option x)) xs
     \<and> (\<forall>q. \<exists>s''. find_cmdline s' q = Ok (option_value xs q, s'') \<and> cl_args s'' = cl_args s')"
proof -
  let ?s = "\<lparr>cl_args = List.map (\<lambda>x. Some (show_option x)) xs, cl_allocs = cl_allocs s - (2 * length xs - 1)\<rparr>"
  have "parse_cmdline (Some (show_options xs)) s = Ok ?s"
    using build_options[OF assms(1,2), of "cl_allocs s" "replicate MAX_CMDLINE_COMMAND 0" "cl_args s" "[]"] assms(3-5)
    by (simp add: parse_cmdline_def build_args_def MAX_CMDLINE_COMMAND_def)
  moreover have "\<exists>s''. find_cmdline ?s q = Ok (option_value xs q, s'') \<and> cl_args s'' = cl_args ?s" for q
    using find_options[OF assms(2), of "cl_allocs ?s" q] assms(5) by (simp add: find_cmdline_def)
  ultimately show ?thesis by auto
qed

theorem cmdline_finds_options_witness:
  "\<exists>s'. parse_cmdline (Some [0x71, 0x20, 0x72, 0x3d, 0x31, 0x3d, 0x20, 0x72, 0x3d]) \<lparr>cl_args = [None], cl_allocs = 9\<rparr> = Ok s'
     \<and> (\<exists>s''. find_cmdline s' [0x72] = Ok (Some [0x31, 0x3d], s'')) \<and> (\<exists>s''. find_cmdline s' [0x73] = Ok (None, s''))"
proof -
  let ?xs = "[([0x71], None), ([0x72], Some [0x31, 0x3d]), ([0x72], Some [])] :: boot_option list"
  have "\<forall>x \<in> set ?xs. option_ok x" by (simp add: MAX_CMDLINE_COMMAND_def)
  then have "\<exists>s'. parse_cmdline (Some (show_options ?xs)) \<lparr>cl_args = [None], cl_allocs = 9\<rparr> = Ok s'
     \<and> cl_args s' = List.map (\<lambda>x. Some (show_option x)) ?xs \<and> (\<forall>q. \<exists>s''. find_cmdline s' q = Ok (option_value ?xs q, s'') \<and> cl_args s'' = cl_args s')"
    by (intro cmdline_finds_options) simp_all
  then obtain s' where s': "parse_cmdline (Some (show_options ?xs)) \<lparr>cl_args = [None], cl_allocs = 9\<rparr> = Ok s'"
    "\<forall>q. \<exists>s''. find_cmdline s' q = Ok (option_value ?xs q, s'')" by blast
  have "option_value ?xs [0x72] = Some [0x31, 0x3d]" "option_value ?xs [0x73] = None" by (simp_all add: option_value_def)
  then show ?thesis using s'(1) s'(2)[rule_format, of "[0x72]"] s'(2)[rule_format, of "[0x73]"] by simp
qed

text \<open>
  Asking for a missing option is fatal. \<open>cmdline_contains\<close> answers true for an option that is there,
  but for one that is not it frees the NULL that \<open>find_cmdline\<close> returned.
\<close>

theorem cmdline_contains_frees_null:
  assumes "cl_args s = List.map (\<lambda>x. Some (show_option x)) xs" and "\<forall>x \<in> set xs. option_ok x" and "0 < cl_allocs s"
  shows "if map_of xs q = None then cmdline_contains s q = Fault Wild_Access else cmdline_contains s q = Ok (True, s)"
proof -
  have "find_cmdline s q = Ok (option_value xs q, s\<lparr>cl_allocs := if option_value xs q = None then cl_allocs s else cl_allocs s - 1\<rparr>)"
    using find_options[OF assms(2,3), of q] assms(1) by (simp add: find_cmdline_def)
  then show ?thesis using assms(3) by (auto simp: cmdline_contains_def kfree_string_def option_value_def)
qed

theorem cmdline_contains_frees_null_witness:
  "cmdline_contains \<lparr>cl_args = [Some [0x71]], cl_allocs = 1\<rparr> [0x72] = Fault Wild_Access
   \<and> cmdline_contains \<lparr>cl_args = [Some [0x71]], cl_allocs = 1\<rparr> [0x71] = Ok (True, \<lparr>cl_args = [Some [0x71]], cl_allocs = 1\<rparr>)"
  using cmdline_contains_frees_null[of "\<lparr>cl_args = [Some [0x71]], cl_allocs = 1\<rparr>" "[([0x71], None)]" "[0x72]"]
    cmdline_contains_frees_null[of "\<lparr>cl_args = [Some [0x71]], cl_allocs = 1\<rparr>" "[([0x71], None)]" "[0x71]"]
  by (simp add: MAX_CMDLINE_COMMAND_def)

end
