(* ===== verification/Initrd.thy ===== *)
theory Initrd
  imports Vfs "HOL-Library.Signed_Division"
begin

section \<open>fs/initrd.c: unpacking the initial file system\<close>

text \<open>
  The archive lies in byte memory, where the boot loader put it; the file system is the state of the
  theory on vfs.c. The string literals of the source are strings of that memory, at the addresses of
  \<open>literals\<close>. The offsets are those of \<open>struct posix_ustar_header\<close>. The lines printed are left out,
  and so is the block of the file descriptor given back at the end, since an address is handed out once.
\<close>

record literals =
  lit_ustar :: addr
  lit_dot :: addr
  lit_initrd :: addr

definition USTAR_REG :: u8 where "USTAR_REG = 0x30"
definition USTAR_REG_2 :: u8 where "USTAR_REG_2 = 0"
definition USTAR_DIR :: u8 where "USTAR_DIR = 0x35"

definition off_size :: addr where "off_size = 124"
definition off_typeflag :: addr where "off_typeflag = 156"
definition off_magic :: addr where "off_magic = 257"

fun oct2bin_loop :: "mem \<Rightarrow> addr \<Rightarrow> nat \<Rightarrow> int \<Rightarrow> int result" where
  "oct2bin_loop m str 0 n = Ok n"
| "oct2bin_loop m str (Suc k) n =
     bnd (cint (n * 8)) (\<lambda>n.
     bnd (load m str) (\<lambda>c.
     bnd (cint (n + (schar c - 0x30))) (\<lambda>n. oct2bin_loop m (str + 1) k n)))"

definition oct2bin :: "mem \<Rightarrow> addr \<Rightarrow> nat \<Rightarrow> int result" where
  "oct2bin m str len = oct2bin_loop m str len 0"

definition ustar_next :: "literals \<Rightarrow> mem \<Rightarrow> addr \<Rightarrow> addr result" where
  "ustar_next ro m header =
     bnd (oct2bin m (header + off_size) 11) (\<lambda>filesize.
     bnd (cint (filesize + 511)) (\<lambda>x.
     bnd (cint ((x sdiv 512 + 1) * 512)) (\<lambda>aligned.
     let new = header + of_int aligned in
     bnd (strcmp m (new + off_magic) (lit_ustar ro)) (\<lambda>r. Ok (if r \<noteq> 0 then NULL else new)))))"

text \<open>
  A string argument of a file-system call is the bytes before its NUL; a buffer is the bytes that are
  mapped, at most as many as the call says.
\<close>

definition c_string :: "mem \<Rightarrow> addr \<Rightarrow> u8 list result" where
  "c_string m p = bnd (strlen m p) (\<lambda>n. Ok (List.map (\<lambda>i. the (m (p + of_nat i))) [0..<n]))"

fun buffer_at :: "mem \<Rightarrow> addr \<Rightarrow> nat \<Rightarrow> u8 list" where
  "buffer_at m p 0 = []"
| "buffer_at m p (Suc n) = (case m p of None \<Rightarrow> [] | Some b \<Rightarrow> b # buffer_at m (p + 1) n)"

definition blank_file :: vfile where
  "blank_file = \<lparr>fd_entry = NULL, fd_pos = 0, fd_flags = 0\<rparr>"

text \<open>One round of the loop of \<open>unpack_ustar\<close>: errors of the calls are printed and otherwise
  ignored. \<open>vfs_close\<close> has no effect, and the memory \<open>kfree\<close> takes back is not handed out again by the supply of
  addresses.\<close>

definition unpack_file :: "mem \<Rightarrow> fs \<Rightarrow> addr \<Rightarrow> fs result" where
  "unpack_file m s header =
     bnd (c_string m header) (\<lambda>name.
     bnd (vfs_create s name NULL 0) (\<lambda>(err, s).
     if err \<noteq> 0 then Ok s else
     let (fd, s) = kzalloc s in
     bnd (vfs_open s name NULL 0 blank_file) (\<lambda>(err, desc, s).
     if fd = NULL then Fault Null_Deref else
     bnd (oct2bin m (header + off_size) 11) (\<lambda>n.
     bnd (vfs_write s desc (buffer_at m (header + 512) (nat n)) n) (\<lambda>(err, desc, s).
     Ok s)))))"

definition unpack_entry :: "literals \<Rightarrow> mem \<Rightarrow> fs \<Rightarrow> addr \<Rightarrow> fs result" where
  "unpack_entry ro m s header =
     bnd (strcmp m header (lit_dot ro)) (\<lambda>r.
     if r = 0 then Ok s else
     bnd (load m (header + off_typeflag)) (\<lambda>typeflag.
     if typeflag = USTAR_DIR then
       bnd (c_string m header) (\<lambda>name. bnd (vfs_mkdir s name NULL 0) (\<lambda>(err, s). Ok s))
     else if typeflag = USTAR_REG_2 \<or> typeflag = USTAR_REG then unpack_file m s header
     else Ok s))"

text \<open>
  The loop runs until a header has another magic; the length of the archive is not looked at, and nothing
  bounds the number of rounds but the fuel, which stands for a loop that does not end when it runs out.
\<close>

fun unpack_loop :: "nat \<Rightarrow> literals \<Rightarrow> mem \<Rightarrow> fs \<Rightarrow> addr \<Rightarrow> fs result" where
  "unpack_loop fuel ro m s header =
     (if header = NULL then Ok s else
      case fuel of 0 \<Rightarrow> Fault Diverges | Suc fuel \<Rightarrow>
      bnd (unpack_entry ro m s header) (\<lambda>s.
      bnd (ustar_next ro m header) (\<lambda>header. unpack_loop fuel ro m s header)))"

declare unpack_loop.simps [simp del]

definition unpack_ustar :: "nat \<Rightarrow> literals \<Rightarrow> mem \<Rightarrow> fs \<Rightarrow> int \<Rightarrow> addr \<Rightarrow> fs result" where
  "unpack_ustar fuel ro m s len header = unpack_loop fuel ro m s header"

record boot_module =
  md_path :: addr
  md_size :: u64
  md_address :: addr

fun unpack_modules :: "nat \<Rightarrow> literals \<Rightarrow> mem \<Rightarrow> fs \<Rightarrow> boot_module list \<Rightarrow> fs result" where
  "unpack_modules fuel ro m s [] = Ok s"
| "unpack_modules fuel ro m s (x # xs) =
     bnd (strcmp m (md_path x) (lit_initrd ro)) (\<lambda>r.
     bnd (if r = 0 then unpack_ustar fuel ro m s (sint (ucast (md_size x) :: u32)) (md_address x) else Ok s) (\<lambda>s.
     unpack_modules fuel ro m s xs))"

text \<open>The response of the boot loader is \<open>None\<close> where the pointer to it is NULL.\<close>

definition unpack_initrd :: "nat \<Rightarrow> literals \<Rightarrow> mem \<Rightarrow> boot_module list option \<Rightarrow> fs \<Rightarrow> fs result" where
  "unpack_initrd fuel ro m response s =
     (case response of None \<Rightarrow> Ok s | Some modules \<Rightarrow> if modules = [] then Ok s else unpack_modules fuel ro m s modules)"

section \<open>What an archive says\<close>

text \<open>
  An archive is a list of items: the root, directories and files, with paths from the root. \<open>archive_at\<close>
  says how it lies in memory: each item has a header with its name, the octal digits of its size, its
  type and the magic, then its data up to the next block; a block of zeros ends it.
\<close>

datatype item = Root_Item | Dir_Item "name list" | File_Item "name list" "u8 list"

fun item_path :: "item \<Rightarrow> u8 list" where
  "item_path Root_Item = [0x2e, 0x2f]"
| "item_path (Dir_Item cs) = join_path ([0x2e] # cs) @ [0x2f]"
| "item_path (File_Item cs d) = join_path ([0x2e] # cs)"

fun item_data :: "item \<Rightarrow> u8 list" where
  "item_data (File_Item cs d) = d"
| "item_data _ = []"

fun item_types :: "item \<Rightarrow> u8 set" where
  "item_types Root_Item = UNIV"
| "item_types (Dir_Item cs) = {0x35}"
| "item_types (File_Item cs d) = {0x30, 0}"

fun octal :: "nat \<Rightarrow> nat \<Rightarrow> u8 list" where
  "octal 0 n = []"
| "octal (Suc k) n = octal k (n div 8) @ [0x30 + of_nat (n mod 8)]"

definition magic :: "u8 list" where "magic = [0x75, 0x73, 0x74, 0x61, 0x72]"

definition blocks :: "item \<Rightarrow> nat" where
  "blocks it = 1 + (length (item_data it) + 511) div 512"

definition header_at :: "mem \<Rightarrow> addr \<Rightarrow> item \<Rightarrow> bool" where
  "header_at m a it \<longleftrightarrow> cstr m a (item_path it) \<and> length (item_path it) < 100 \<and> bytes_at m (a + 124) (octal 11 (length (item_data it)))
     \<and> (\<exists>t \<in> item_types it. m (a + 156) = Some t) \<and> cstr m (a + 257) magic"

fun archive_at :: "mem \<Rightarrow> addr \<Rightarrow> item list \<Rightarrow> bool" where
  "archive_at m a [] \<longleftrightarrow> m (a + 257) = Some 0"
| "archive_at m a (it # its) \<longleftrightarrow> a \<noteq> NULL \<and> header_at m a it \<and> bytes_at m (a + 512) (item_data it)
     \<and> archive_at m (a + of_nat (512 * blocks it)) its"

definition initrd_path :: "u8 list" where
  "initrd_path = [0x2f, 0x62, 0x6f, 0x6f, 0x74, 0x2f, 0x69, 0x6e, 0x69, 0x74, 0x72, 0x64]"

definition literals_ok :: "mem \<Rightarrow> literals \<Rightarrow> bool" where
  "literals_ok m ro \<longleftrightarrow> cstr m (lit_ustar ro) magic \<and> cstr m (lit_dot ro) [0x2e, 0x2f] \<and> cstr m (lit_initrd ro) initrd_path"

text \<open>Names of an archive: not empty, shorter than a path, without slash, and not the dot.\<close>

definition child_name :: "name \<Rightarrow> bool" where
  "child_name n \<longleftrightarrow> name_ok n \<and> n \<noteq> [0x2e]"

fun item_ok :: "item \<Rightarrow> bool" where
  "item_ok Root_Item \<longleftrightarrow> True"
| "item_ok (Dir_Item cs) \<longleftrightarrow> cs \<noteq> [] \<and> list_all child_name cs"
| "item_ok (File_Item cs d) \<longleftrightarrow> cs \<noteq> [] \<and> list_all child_name cs \<and> length d < 2 ^ 31 - 1023"

text \<open>
  The tree of a file system, as a map from paths to what is there; and what an item does to it: it is
  added where its parent exists and it does not.
\<close>

datatype tree_node = Dir_Node | File_Node "u8 list"

definition node_of :: "fs \<Rightarrow> addr \<Rightarrow> tree_node" where
  "node_of s q = (if S_ISREG (ti_mode (ino s q)) then File_Node (contents s q) else Dir_Node)"

definition tree_of :: "fs \<Rightarrow> addr \<Rightarrow> name list \<rightharpoonup> tree_node" where
  "tree_of s r cs = (if [0x2e] \<in> set cs then None else map_option (node_of s) (resolve s r cs))"

definition add_node :: "(name list \<rightharpoonup> tree_node) \<Rightarrow> name list \<Rightarrow> tree_node \<Rightarrow> (name list \<rightharpoonup> tree_node)" where
  "add_node T cs x = (if T cs = None \<and> T (butlast cs) \<noteq> None then T(cs \<mapsto> x) else T)"

fun put_item :: "(name list \<rightharpoonup> tree_node) \<Rightarrow> item \<Rightarrow> (name list \<rightharpoonup> tree_node)" where
  "put_item T Root_Item = T"
| "put_item T (Dir_Item cs) = add_node T cs Dir_Node"
| "put_item T (File_Item cs d) = add_node T cs (File_Node d)"

text \<open>No inode is reached by two paths.\<close>

definition tree_inj :: "fs \<Rightarrow> addr \<Rightarrow> bool" where
  "tree_inj s r \<longleftrightarrow> (\<forall>cs ds x. [0x2e] \<notin> set cs \<longrightarrow> [0x2e] \<notin> set ds \<longrightarrow> resolve s r cs = Some x \<longrightarrow> resolve s r ds = Some x \<longrightarrow> cs = ds)"

section \<open>Reading headers\<close>

lemma length_octal [simp]: "length (octal k n) = k"
  by (induction k arbitrary: n) simp_all

lemma oct2bin_loop_append:
  "oct2bin_loop m p (i + j) n = bnd (oct2bin_loop m p i n) (\<lambda>n. oct2bin_loop m (p + of_nat i) j n)"
proof (induction i arbitrary: p n)
  case (Suc i)
  have "oct2bin_loop m (p + 1) (i + j) = (\<lambda>n. bnd (oct2bin_loop m (p + 1) i n) (\<lambda>n. oct2bin_loop m (p + 1 + of_nat i) j n))"
    by (rule ext) (rule Suc.IH)
  then show ?case by (simp add: bnd_assoc add.assoc)
qed simp

lemma schar_digit: "d < 8 \<Longrightarrow> schar (0x30 + of_nat d) = 0x30 + int d"
proof -
  assume "d < 8"
  then have "d \<in> {0, 1, 2, 3, 4, 5, 6, 7}" by auto
  then show ?thesis by (auto simp: schar_def)
qed

lemma oct2bin_octal:
  assumes "bytes_at m p (octal k n)" and "n < 8 ^ k" and "n < 2 ^ 31"
  shows "oct2bin m p k = Ok (int n)"
  using assms
proof (induction k arbitrary: n)
  case 0
  then show ?case by (simp add: oct2bin_def)
next
  case (Suc k)
  have b: "bytes_at m p (octal k (n div 8))" "m (p + of_nat k) = Some (0x30 + of_nat (n mod 8))"
    using Suc.prems(1) by (auto simp: bytes_at_append)
  have "n div 8 < 8 ^ k" using Suc.prems(2) by (simp add: less_mult_imp_div_less mult.commute)
  then have "oct2bin m p k = Ok (int (n div 8))" using Suc.IH[OF b(1)] Suc.prems(3) by simp
  moreover have "oct2bin_loop m (p + of_nat k) 1 (int (n div 8)) = Ok (int n)"
  proof -
    have "int (n div 8) * 8 + int (n mod 8) = int n" by (simp add: zdiv_int zmod_int)
    moreover have "int n < 2 ^ 31" using Suc.prems(3) by simp
    ultimately have x: "int (n div 8) * 8 + int (n mod 8) = int n" "int n < 2 ^ 31" "int (n div 8) * 8 \<le> int n" by linarith+
    have "cint (int (n div 8) * 8) = Ok (int (n div 8) * 8)" using x by (intro cint_Ok) simp_all
    moreover have "cint (int (n div 8) * 8 + (schar (0x30 + of_nat (n mod 8)) - 0x30)) = Ok (int n)"
      using x schar_digit[of "n mod 8"] cint_Ok[of "int n"] by simp
    ultimately show ?thesis using b(2) by (simp add: load_def)
  qed
  ultimately show ?case using oct2bin_loop_append[of m p k 1 0] by (simp add: oct2bin_def del: oct2bin_loop.simps)
qed

lemma c_string_cstr:
  assumes "cstr m p s" and "length s < 2 ^ 31"
  shows "c_string m p = Ok s"
proof -
  have "bytes_at m p s" using assms(1) by (simp add: cstr_def bytes_at_append)
  then have "List.map (\<lambda>i. the (m (p + of_nat i))) [0..<length s] = s"
    by (intro nth_equalityI) (simp_all add: bytes_at_nth)
  then show ?thesis using strlen_cstr[OF assms] by (simp add: c_string_def)
qed

lemma buffer_at_bytes: "bytes_at m p d \<Longrightarrow> buffer_at m p (length d) = d"
  by (induction d arbitrary: p) simp_all

lemma magic_string: "0 \<notin> set magic" "length magic = 5"
  by (simp_all add: magic_def)

lemma aligned_blocks:
  assumes "length (item_data it) < 2 ^ 31 - 1023"
  shows "((int (length (item_data it)) + 511) sdiv 512 + 1) * 512 = int (512 * blocks it)"
    "int (512 * blocks it) < 2 ^ 31"
proof -
  have "((int (length (item_data it)) + 511) sdiv 512) = int ((length (item_data it) + 511) div 512)"
    by (simp add: signed_divide_int_def zdiv_int)
  then show "((int (length (item_data it)) + 511) sdiv 512 + 1) * 512 = int (512 * blocks it)"
    by (simp add: blocks_def)
  have "512 * ((length (item_data it) + 511) div 512) \<le> length (item_data it) + 511"
    using div_times_less_eq_dividend[of "length (item_data it) + 511" 512] by (simp add: mult.commute)
  then show "int (512 * blocks it) < 2 ^ 31" using assms by (simp add: blocks_def)
qed

lemma item_data_small: "item_ok it \<Longrightarrow> length (item_data it) < 2 ^ 31 - 1023"
  by (cases it) simp_all

text \<open>The next header: the one of the next item, or none.\<close>

lemma ustar_next_item:
  assumes "literals_ok m ro" and "header_at m a it" and "item_ok it" and "archive_at m (a + of_nat (512 * blocks it)) its"
  shows "ustar_next ro m a = Ok (if its = [] then NULL else a + of_nat (512 * blocks it))"
proof -
  let ?n = "length (item_data it)" and ?b = "a + of_nat (512 * blocks it)"
  have d: "?n < 2 ^ 31 - 1023" by (rule item_data_small[OF assms(3)])
  have "bytes_at m (a + off_size) (octal 11 ?n)" using assms(2) by (simp add: header_at_def off_size_def)
  from oct2bin_octal[OF this] have o: "oct2bin m (a + off_size) 11 = Ok (int ?n)" using d by simp
  note al = aligned_blocks[OF d]
  have lit: "cstr m (lit_ustar ro) magic" using assms(1) by (simp add: literals_ok_def)
  have r: "\<exists>r. strcmp m (?b + off_magic) (lit_ustar ro) = Ok r \<and> (r = 0 \<longleftrightarrow> its \<noteq> [])"
  proof (cases its)
    case Nil
    then have "cstr m (?b + off_magic) []" using assms(4) by (simp add: off_magic_def)
    from strcmp_cstr[OF this lit] show ?thesis using Nil by (simp add: magic_def uchar_def)
  next
    case (Cons x xs)
    then have "cstr m (?b + off_magic) magic" using assms(4) by (simp add: header_at_def off_magic_def)
    from strcmp_cstr[OF this lit] show ?thesis using Cons magic_string first_diff_0_iff[of magic magic] by simp
  qed
  have "cint (int ?n + 511) = Ok (int ?n + 511)" using d by (intro cint_Ok) simp_all
  moreover have "cint (((int ?n + 511) sdiv 512 + 1) * 512) = Ok (int (512 * blocks it))"
    unfolding al(1) using al(2) by (intro cint_Ok) linarith+
  ultimately show ?thesis using o r by (auto simp: ustar_next_def Let_def)
qed

lemma name_at:
  assumes "header_at m a it"
  shows "c_string m a = Ok (item_path it)"
  using assms by (intro c_string_cstr) (simp_all add: header_at_def)

section \<open>The tree of a file system\<close>

lemma entry_no_children: "ti_children (ino s q) = [] \<Longrightarrow> entry s q n = None"
  by (simp add: entry_def)

lemma resolve_snoc: "k \<noteq> [0x2e] \<Longrightarrow> resolve s r (ms @ [k]) = (case resolve s r ms of None \<Rightarrow> None | Some x \<Rightarrow> entry s x k)"
  by (auto simp: resolve_append split: option.splits)

text \<open>Adding one entry adds one path.\<close>

lemma resolve_added:
  assumes m: "mount_ok s f B" and r: "r \<in> nodes B" and inj: "tree_inj s r" and p: "resolve s r ns = Some p"
    and c: "[0x2e] \<notin> set (ns @ [n])" and e: "entry s p n = None" and q: "q \<notin> nodes B" "ti_children (ino s' q) = []"
    and en: "\<forall>p' \<in> nodes B. \<forall>m. entry s' p' m = (if p' = p \<and> m = n then Some q else entry s p' m)"
    and ms: "[0x2e] \<notin> set ms"
  shows "resolve s' r ms = (if ms = ns @ [n] then Some q else resolve s r ms)"
  using ms
proof (induction ms rule: rev_induct)
  case Nil
  then show ?case by simp
next
  case (snoc k ms)
  have k: "[0x2e] \<notin> set ms" "k \<noteq> [0x2e]" using snoc.prems by auto
  note IH = snoc.IH[OF k(1)]
  show ?case
  proof (cases "ms = ns @ [n]")
    case True
    then have "resolve s' r ms = Some q" "resolve s r ms = None" using IH p e c by (auto simp: resolve_append)
    then have "resolve s' r (ms @ [k]) = None" "resolve s r (ms @ [k]) = None"
      using entry_no_children[OF q(2)] k(2) resolve_append[of _ r ms "[k]"] by simp_all
    then show ?thesis using True by simp
  next
    case other: False
    show ?thesis
    proof (cases "resolve s r ms")
      case None
      then show ?thesis using IH other p by (auto simp: resolve_append)
    next
      case (Some x)
      have x: "x \<in> nodes B" by (rule resolve_node[OF m r Some])
      have "x = p \<longleftrightarrow> ms = ns" using inj Some p k(1) c unfolding tree_inj_def by auto
      moreover have "entry s' x k = (if x = p \<and> k = n then Some q else entry s x k)" using en x by blast
      ultimately show ?thesis using IH other Some unfolding resolve_snoc[OF k(2)] by auto
    qed
  qed
qed

lemma tree_of_added:
  assumes m: "mount_ok s f B" and r: "r \<in> nodes B" and inj: "tree_inj s r" and p: "resolve s r ns = Some p"
    and c: "[0x2e] \<notin> set (ns @ [n])" and e: "entry s p n = None" and q: "q \<notin> nodes B" "ti_children (ino s' q) = []"
    and en: "\<forall>p' \<in> nodes B. \<forall>m. entry s' p' m = (if p' = p \<and> m = n then Some q else entry s p' m)"
    and oth: "\<forall>p' \<in> nodes B. node_of s' p' = node_of s p'"
  shows "tree_inj s' r" "tree_of s' r = (tree_of s r)(ns @ [n] \<mapsto> node_of s' q)" "tree_of s r (ns @ [n]) = None"
proof -
  note res = resolve_added[OF m r inj p c e q en]
  have old: "x \<noteq> q" if "resolve s r ms = Some x" for ms x using resolve_node[OF m r that] q(1) by auto
  show "tree_inj s' r" unfolding tree_inj_def
  proof (intro allI impI)
    fix cs ds x
    assume "[0x2e] \<notin> set cs" "[0x2e] \<notin> set ds" "resolve s' r cs = Some x" "resolve s' r ds = Some x"
    then show "cs = ds" using res old inj[unfolded tree_inj_def] by (metis option.inject)
  qed
  show "tree_of s' r = (tree_of s r)(ns @ [n] \<mapsto> node_of s' q)"
  proof
    fix ms
    show "tree_of s' r ms = ((tree_of s r)(ns @ [n] \<mapsto> node_of s' q)) ms"
    proof (cases "[0x2e] \<in> set ms")
      case True
      then show ?thesis using c by (auto simp: tree_of_def)
    next
      case False
      have "node_of s' x = node_of s x" if "resolve s r ms = Some x" for x using oth resolve_node[OF m r that] by blast
      then show ?thesis using res[OF False] False c by (cases "resolve s r ms") (auto simp: tree_of_def)
    qed
  qed
  show "tree_of s r (ns @ [n]) = None" using p e c by (auto simp: tree_of_def resolve_append)
qed

text \<open>Steps that change no directory, and at most the data of one file.\<close>

lemma resolve_same: "\<forall>q m. entry s' q m = entry s q m \<Longrightarrow> resolve s' r ms = resolve s r ms"
  by (induction ms arbitrary: r) (simp_all split: option.splits)

lemma tree_inj_same: "\<forall>q m. entry s' q m = entry s q m \<Longrightarrow> tree_inj s' r = tree_inj s r"
  using resolve_same[of s' s r] by (simp add: tree_inj_def)

lemma node_of_extends: "extends s s' k \<Longrightarrow> node_of s' q = node_of s q"
  by (simp add: node_of_def extends_ino extends_contents)

lemma tree_of_extends: "extends s s' k \<Longrightarrow> tree_of s' r = tree_of s r"
  by (rule ext) (auto simp: tree_of_def extends_resolve node_of_extends cong: map_option_cong)

lemma tree_inj_extends: "extends s s' k \<Longrightarrow> tree_inj s' r = tree_inj s r"
  by (simp add: tree_inj_def extends_resolve)

lemma tree_of_written:
  assumes "tree_inj s r" and "resolve s r cs = Some q" and "[0x2e] \<notin> set cs"
    and "\<forall>p m. entry s' p m = entry s p m" and "\<forall>p. p \<noteq> q \<longrightarrow> ino s' p = ino s p"
  shows "tree_of s' r = (tree_of s r)(cs \<mapsto> node_of s' q)"
proof
  fix ms
  show "tree_of s' r ms = ((tree_of s r)(cs \<mapsto> node_of s' q)) ms"
  proof (cases "ms = cs \<or> [0x2e] \<in> set ms")
    case True
    then show ?thesis using assms(2,3) by (auto simp: tree_of_def resolve_same[OF assms(4)])
  next
    case False
    have "node_of s' x = node_of s x" if "resolve s r ms = Some x" for x
    proof -
      have "x \<noteq> q" using assms(1,2,3) that False unfolding tree_inj_def by blast
      then show ?thesis using assms(5) by (simp add: node_of_def contents_def)
    qed
    then show ?thesis using False by (cases "resolve s r ms") (auto simp: tree_of_def resolve_same[OF assms(4)])
  qed
qed

section \<open>Unpacking one item\<close>

text \<open>The state between two items.\<close>

definition ready :: "fs \<Rightarrow> addr \<Rightarrow> tmpfs_superblock \<Rightarrow> addr \<Rightarrow> bool" where
  "ready s f B r \<longleftrightarrow> vfs_ok s f B \<and> dentry_ok s f B (fs_root s) r \<and> tree_inj s r"

lemma ready_extends:
  assumes "ready s f B r" and "extends s s' k"
  shows "ready s' f B r" "tree_of s' r = tree_of s r"
proof -
  have "fs_root s' = fs_root s" using assms(2) by (simp add: extends_def)
  then show "ready s' f B r" "tree_of s' r = tree_of s r"
    using assms extends_vfs_ok extends_dentry_ok tree_inj_extends tree_of_extends by (auto simp: ready_def)
qed

lemma ready_root: "ready s f B r \<Longrightarrow> mount_ok s f B \<and> r \<in> nodes B"
  by (auto simp: ready_def vfs_ok_def dentry_ok_def vnode_ok_def)

text \<open>\<open>vfs_mkdir\<close> and \<open>vfs_create\<close> of a path below the root that starts with the dot.\<close>

lemma vfs_add_no_parent:
  assumes v: "vfs_ok s f B" and d: "dentry_ok s f B (fs_root s) r" and ns: "path_of path absolute (ns @ [n])"
    and path: "absolute \<or> ns \<noteq> []" and p: "resolve s r ns = None" and room: "2 * length ns \<le> length (fs_fresh s)"
  shows "\<exists>s'. vfs_add op g s path NULL flags = Ok (- ENOENT, s') \<and> extends s s' (2 * length ns)"
proof -
  have fd: "vfs_find_dentry s path NULL True = walk_loop s (fs_root s) ns"
    using vfs_find_dentry_walk[OF ns, of s True] path by auto
  obtain s1 where "walk_loop s (fs_root s) ns = Ok (- ENOENT, NULL, s1)" "extends s s1 (2 * length ns)"
    using walk_loop_resolve[OF v d, of ns] p room by auto
  then show ?thesis using fd by (auto simp: vfs_add_def ENOENT_def)
qed

lemma add_item:
  assumes r: "ready s f B r" and cs: "list_all child_name (ds @ [n])" and path: "path_of path False ([0x2e] # ds @ [n])"
    and room: "2 * length ds + 5 \<le> length (fs_fresh s)" and ci: "current_inode B + 1 < 2 ^ 63" and op: "vp \<in> tmpfs_operations"
  shows "\<exists>err s' B'. vfs_add vp (tmpfs_add_child type) s path NULL 0 = Ok (err, s') \<and> ready s' f B' r
     \<and> current_inode B' \<le> current_inode B + 1 \<and> length (fs_fresh s) \<le> length (fs_fresh s') + (2 * length ds + 5)
     \<and> (if tree_of s r (ds @ [n]) = None \<and> tree_of s r ds \<noteq> None
        then err = 0 \<and> tree_of s' r = (tree_of s r)(ds @ [n] \<mapsto> (if S_ISREG type then File_Node [] else Dir_Node))
          \<and> (\<exists>q. resolve s' r ([0x2e] # ds @ [n]) = Some q \<and> contents s' q = [] \<and> ti_length (ino s' q) = 0
              \<and> (S_ISREG (ti_mode (ino s' q)) \<longleftrightarrow> S_ISREG type))
        else err \<noteq> 0 \<and> tree_of s' r = tree_of s r)"
proof -
  have v: "vfs_ok s f B" and d: "dentry_ok s f B (fs_root s) r" and inj: "tree_inj s r" using r by (auto simp: ready_def)
  have mo: "mount_ok s f B" "r \<in> nodes B" using ready_root[OF r] by auto
  have n: "n \<noteq> [0x2e]" "[0x2e] \<notin> set ds" using cs by (auto simp: child_name_def list_all_iff)
  have ns: "path_of path False (([0x2e] # ds) @ [n])" using path by simp
  have rs: "resolve s r ([0x2e] # ds) = resolve s r ds" by simp
  have fin: ?thesis if x: "vfs_add vp (tmpfs_add_child type) s path NULL 0 = Ok (err, s')" "extends s s' (2 * length ds + 5)" "err \<noteq> 0"
      "\<not> (tree_of s r (ds @ [n]) = None \<and> tree_of s r ds \<noteq> None)" for err s'
  proof (intro exI conjI)
    show "vfs_add vp (tmpfs_add_child type) s path NULL 0 = Ok (err, s')" by (rule x)
    show "ready s' f B r" by (rule ready_extends[OF r x(2)])
    show "length (fs_fresh s) \<le> length (fs_fresh s') + (2 * length ds + 5)" using x(2) by (simp add: extends_def)
  qed (use x ready_extends[OF r x(2)] in simp_all)
  show ?thesis
  proof (cases "resolve s r ds")
    case None
    then obtain s1 where s1: "vfs_add vp (tmpfs_add_child type) s path NULL 0 = Ok (- ENOENT, s1)" "extends s s1 (2 * length ([0x2e] # ds))"
      using vfs_add_no_parent[OF v d ns, of vp "tmpfs_add_child type" 0] rs room by auto
    have "extends s s1 (2 * length ds + 5)" using s1(2) by (auto simp: extends_def)
    then show ?thesis using fin[OF s1(1)] None n by (simp add: tree_of_def ENOENT_def)
  next
    case (Some p)
    have rp: "resolve s r ([0x2e] # ds) = Some p" using Some by simp
    have room2: "2 * length ([0x2e] # ds) + 3 \<le> length (fs_fresh s)" "2 * length ([0x2e] # ds) + 2 \<le> length (fs_fresh s)"
      using room by simp_all
    show ?thesis
    proof (cases "entry s p n")
      case None
      obtain s1 q where s1: "vfs_add vp (tmpfs_add_child type) s path NULL 0 = Ok (0, s1)" "vfs_ok s1 f (grown B q)" "q \<notin> nodes B"
        "\<forall>p' \<in> nodes B. \<forall>m. entry s1 p' m = (if p' = p \<and> m = n then Some q else entry s p' m)"
        "\<forall>p' \<in> nodes B. p' \<noteq> p \<longrightarrow> ino s1 p' = ino s p'" "contents s1 p = contents s p" "ti_mode (ino s1 p) = ti_mode (ino s p)"
        "contents s1 q = []" "ti_children (ino s1 q) = []" "ti_length (ino s1 q) = 0"
        "ti_mode (ino s1 q) = (0 AND NOT S_IFMT) OR type" "dentry_ok s1 f (grown B q) (fs_root s1) r"
        "resolve s1 r (([0x2e] # ds) @ [n]) = Some q" "length (fs_fresh s) \<le> length (fs_fresh s1) + (2 * length ([0x2e] # ds) + 3)"
        using vfs_add_new[OF v d ns _ n(1) rp room2(1) ci op None, of type 0] by blast
      have nd: "node_of s1 p' = node_of s p'" if "p' \<in> nodes B" for p'
        using s1(5,6,7) that by (cases "p' = p") (simp_all add: node_of_def contents_def)
      have c: "[0x2e] \<notin> set (ds @ [n])" using n by auto
      note t = tree_of_added[OF mo inj Some c None s1(3,9,4)]
      have q: "node_of s1 q = (if S_ISREG type then File_Node [] else Dir_Node)" using s1(8,11) by (simp add: node_of_def)
      have td: "tree_of s r ds \<noteq> None" using Some n by (simp add: tree_of_def)
      have "ready s1 f (grown B q) r" using s1(2,12) t(1) nd by (simp add: ready_def)
      moreover have "current_inode (grown B q) \<le> current_inode B + 1" by (simp add: grown_def)
      moreover have "length (fs_fresh s) \<le> length (fs_fresh s1) + (2 * length ds + 5)" using s1(14) by simp
      moreover have "tree_of s1 r = (tree_of s r)(ds @ [n] \<mapsto> (if S_ISREG type then File_Node [] else Dir_Node))"
        using t(2) nd q by simp
      moreover have "tree_of s r (ds @ [n]) = None" using t(3) nd by simp
      ultimately show ?thesis using s1(1,8,10,11,13) td by (intro exI[of _ 0] exI[of _ s1] exI[of _ "grown B q"]) simp
    next
      case ex: (Some c)
      obtain s1 where s1: "extends s s1 (2 * length ([0x2e] # ds) + 2)" "vfs_add vp (tmpfs_add_child type) s path NULL 0 = Ok (- EEXIST, s1)"
        using vfs_add_walk[OF v d ns _ n(1) rp room2(2) op, of "tmpfs_add_child type" 0] ex by auto
      have "extends s s1 (2 * length ds + 5)" using s1(1) by (auto simp: extends_def)
      moreover have "tree_of s r (ds @ [n]) \<noteq> None" using Some ex n by (simp add: tree_of_def resolve_append)
      ultimately show ?thesis using fin[OF s1(2)] by (simp add: EEXIST_def)
    qed
  qed
qed

fun item_cost :: "item \<Rightarrow> nat" where
  "item_cost Root_Item = 0"
| "item_cost (Dir_Item cs) = 2 * length cs + 3"
| "item_cost (File_Item cs d) = 4 * length cs + 6"

lemma item_names:
  assumes "list_all child_name cs" and "cs \<noteq> []"
  shows "path_of (join_path ([0x2e] # cs)) False ([0x2e] # cs)" "path_of (join_path ([0x2e] # cs) @ [0x2f]) False ([0x2e] # cs)"
    "join_path ([0x2e] # cs) \<noteq> [0x2e, 0x2f]" "join_path ([0x2e] # cs) @ [0x2f] \<noteq> [0x2e, 0x2f]"
proof -
  have n: "list_all name_ok ([0x2e] # cs)"
    using assms(1) by (auto simp: list_all_iff child_name_def name_ok_def plain_name_def VFS_PATH_MAX_def)
  show "path_of (join_path ([0x2e] # cs)) False ([0x2e] # cs)" using path_of_root_path[OF n, of False] by (simp add: root_path_def)
  show "path_of (join_path ([0x2e] # cs) @ [0x2f]) False ([0x2e] # cs)" by (rule path_of_slash[OF n]) simp
  obtain c ds where c: "cs = c # ds" using assms(2) by (cases cs) auto
  have "join_path cs \<noteq> []" using join_hd[of cs] names_ok[OF n] assms(2) by simp
  then show "join_path ([0x2e] # cs) \<noteq> [0x2e, 0x2f]" "join_path ([0x2e] # cs) @ [0x2f] \<noteq> [0x2e, 0x2f]" using c by simp_all
qed

text \<open>The part of a header that says what to do.\<close>

lemma header_kind:
  assumes "literals_ok m ro" and "header_at m a it" and "item_ok it"
  shows "\<exists>k. strcmp m a (lit_dot ro) = Ok k \<and> (k = 0 \<longleftrightarrow> it = Root_Item)"
proof -
  have c: "cstr m a (item_path it)" "length (item_path it) < 2 ^ 64" using assms(2) by (simp_all add: header_at_def)
  have d: "cstr m (lit_dot ro) [0x2e, 0x2f]" using assms(1) by (simp add: literals_ok_def)
  have "0 \<notin> set (item_path it)" using c(1) by (simp add: cstr_def)
  then have "first_diff (item_path it) [0x2e, 0x2f] = 0 \<longleftrightarrow> item_path it = [0x2e, 0x2f]" by (intro first_diff_0_iff) simp_all
  moreover have "item_path it = [0x2e, 0x2f] \<longleftrightarrow> it = Root_Item"
    using item_names(3,4) assms(3) by (cases it) auto
  ultimately show ?thesis using strcmp_cstr[OF c(1) d c(2)] by simp
qed

lemma unpack_file_item:
  assumes r: "ready s f B r" and h: "header_at m a (File_Item cs d)" and b: "bytes_at m (a + 512) d" and ok: "item_ok (File_Item cs d)"
    and room: "item_cost (File_Item cs d) \<le> length (fs_fresh s)" and ci: "current_inode B + 1 < 2 ^ 63"
  shows "\<exists>s' B'. unpack_file m s a = Ok s' \<and> ready s' f B' r \<and> current_inode B' \<le> current_inode B + 1
     \<and> length (fs_fresh s) \<le> length (fs_fresh s') + item_cost (File_Item cs d) \<and> tree_of s' r = put_item (tree_of s r) (File_Item cs d)"
proof -
  have cs: "cs \<noteq> []" "list_all child_name cs" "length d < 2 ^ 31 - 1023" using ok by auto
  obtain ds n where dn: "cs = ds @ [n]" using cs(1) by (cases cs rule: rev_cases) auto
  have ca: "list_all child_name (ds @ [n])" using cs(2) dn by simp
  let ?p = "join_path ([0x2e] # cs)"
  have pa: "path_of ?p False ([0x2e] # cs)" by (rule item_names(1)[OF cs(2,1)])
  have pa2: "path_of ?p False ([0x2e] # ds @ [n])" using pa dn by simp
  have room1: "2 * length ds + 5 \<le> length (fs_fresh s)" using room dn by simp
  have reg: "S_ISREG S_IFREG" by (simp add: S_ISREG_def S_IFREG_def S_IFMT_def)
  have op: "Op_create \<in> tmpfs_operations" by (simp add: tmpfs_operations_def)
  obtain err s1 B1 where s1: "vfs_add Op_create (tmpfs_add_child S_IFREG) s ?p NULL 0 = Ok (err, s1)" "ready s1 f B1 r"
    "current_inode B1 \<le> current_inode B + 1" "length (fs_fresh s) \<le> length (fs_fresh s1) + (2 * length ds + 5)"
    "if tree_of s r (ds @ [n]) = None \<and> tree_of s r ds \<noteq> None
     then err = 0 \<and> tree_of s1 r = (tree_of s r)(ds @ [n] \<mapsto> (if S_ISREG S_IFREG then File_Node [] else Dir_Node))
       \<and> (\<exists>q. resolve s1 r ([0x2e] # ds @ [n]) = Some q \<and> contents s1 q = [] \<and> ti_length (ino s1 q) = 0
           \<and> (S_ISREG (ti_mode (ino s1 q)) \<longleftrightarrow> S_ISREG S_IFREG))
     else err \<noteq> 0 \<and> tree_of s1 r = tree_of s r"
    using add_item[OF r ca pa2 room1 ci op, of S_IFREG] by blast
  have nm: "c_string m a = Ok ?p" using name_at[OF h] by simp
  have vc: "vfs_create s ?p NULL 0 = Ok (err, s1)"
    using s1(1) by (simp add: vfs_create_def tmpfs_create_def[abs_def])
  show ?thesis
  proof (cases "tree_of s r (ds @ [n]) = None \<and> tree_of s r ds \<noteq> None")
    case False
    then have e: "err \<noteq> 0" "tree_of s1 r = tree_of s r" using s1(5) by auto
    have "unpack_file m s a = Ok s1" using nm vc e(1) by (simp add: unpack_file_def)
    moreover have "put_item (tree_of s r) (File_Item cs d) = tree_of s r" using False dn by (auto simp: add_node_def)
    ultimately show ?thesis using s1(2,3,4) e(2) dn by (intro exI[of _ s1] exI[of _ B1]) simp
  next
    case True
    then obtain q where q: "err = 0" "tree_of s1 r = (tree_of s r)(cs \<mapsto> File_Node [])" "resolve s1 r ([0x2e] # cs) = Some q"
      "contents s1 q = []" "ti_length (ino s1 q) = 0" "S_ISREG (ti_mode (ino s1 q))" using s1(5) dn reg by auto
    have fr: "fresh_ok s1" using s1(2) by (simp add: ready_def vfs_ok_def)
    obtain x xs where xs: "fs_fresh s1 = x # xs" using s1(4) room dn by (cases "fs_fresh s1") auto
    note k = kzalloc_extends[OF fr xs]
    let ?s2 = "s1\<lparr>fs_fresh := xs\<rparr>"
    have e2: "extends s1 ?s2 1" using k(6) xs by (simp add: extends_def)
    have r2: "ready ?s2 f B1 r" by (rule ready_extends[OF s1(2) e2])
    have l2: "2 * length ([0x2e] # cs) \<le> length (fs_fresh ?s2)" using s1(4) room dn xs by simp
    have q2: "resolve ?s2 r ([0x2e] # cs) = Some q" using q(3) extends_resolve[OF e2] by simp
    have v2: "vfs_ok ?s2 f B1" "dentry_ok ?s2 f B1 (fs_root ?s2) r" using r2 by (simp_all add: ready_def)
    obtain s3 e where s3: "vfs_open ?s2 ?p NULL 0 blank_file = Ok (0, blank_file\<lparr>fd_entry := e, fd_flags := 0, fd_pos := 0\<rparr>, s3)"
      "extends ?s2 s3 (2 * length ([0x2e] # cs))" "dentry_ok s3 f B1 e q"
      using vfs_open_found[OF v2 pa _ l2 q2] by blast
    have e3: "extends s1 s3 (1 + 2 * length ([0x2e] # cs))" by (rule extends_trans[OF e2 s3(2)])
    have r3: "ready s3 f B1 r" "tree_of s3 r = tree_of s1 r" using ready_extends[OF s1(2) e3] by simp_all
    let ?fd = "blank_file\<lparr>fd_entry := e, fd_flags := 0, fd_pos := 0\<rparr>"
    have d3: "dentry_ok s3 f B1 (fd_entry ?fd) q" using s3(3) by simp
    have q3: "S_ISREG (ti_mode (ino s3 q))" "contents s3 q = []" "ti_length (ino s3 q) = 0"
      using q(4-6) extends_ino[OF e3] extends_contents[OF e3] by simp_all
    have v3: "vfs_ok s3 f B1" "tree_inj s3 r" "dentry_ok s3 f B1 (fs_root s3) r" using r3(1) by (simp_all add: ready_def)
    obtain s4 where s4: "vfs_write s3 ?fd d (int (length d)) = Ok (int (length d), ?fd\<lparr>fd_pos := int (length d)\<rparr>, s4)" "vfs_ok s4 f B1"
      "contents s4 q = take (nat (int (length d))) d @ drop (nat (int (length d))) (contents s3 q)"
      "\<forall>q'. q' \<noteq> q \<longrightarrow> ino s4 q' = ino s3 q'" "ti_mode (ino s4 q) = ti_mode (ino s3 q)" "\<forall>q' m. entry s4 q' m = entry s3 q' m"
      "fs_root s4 = fs_root s3" "fs_fresh s4 = fs_fresh s3" "\<forall>d' q'. dentry_ok s3 f B1 d' q' \<longrightarrow> dentry_ok s4 f B1 d' q'"
      using vfs_write_file[OF v3(1) d3 q3(1), of "int (length d)" d] cs(3) by auto
    have o: "oct2bin m (a + off_size) 11 = Ok (int (length d))"
      by (rule oct2bin_octal) (use h cs(3) in \<open>simp_all add: header_at_def off_size_def\<close>)
    have "unpack_file m s a = Ok s4"
      using nm vc q(1) kzalloc_simps[OF xs] s3(1) k(2) o s4(1) buffer_at_bytes[OF b] by (simp add: unpack_file_def Let_def)
    moreover have "ready s4 f B1 r" using s4(2,7,9) v3(3) tree_inj_same[OF s4(6)] v3(2) by (simp add: ready_def)
    moreover have "length (fs_fresh s) \<le> length (fs_fresh s4) + item_cost (File_Item cs d)"
      using s1(4) e3 s4(8) dn by (simp add: extends_def)
    moreover have "tree_of s4 r = put_item (tree_of s r) (File_Item cs d)"
    proof -
      have q0: "resolve s3 r cs = Some q" using q(3) extends_resolve[OF e3] by simp
      have c: "[0x2e] \<notin> set cs" using cs(2) by (auto simp: list_all_iff child_name_def)
      have "node_of s4 q = File_Node d" using s4(3,5) q3 by (simp add: node_of_def)
      then have "tree_of s4 r = (tree_of s r)(cs \<mapsto> File_Node d)"
        using tree_of_written[OF v3(2) q0 c s4(6,4)] r3(2) q(2) by simp
      then show ?thesis using True dn by (simp add: add_node_def)
    qed
    ultimately show ?thesis using s1(3) by blast
  qed
qed

lemma unpack_entry_item:
  assumes r: "ready s f B r" and ro: "literals_ok m ro" and h: "header_at m a it" and b: "bytes_at m (a + 512) (item_data it)" and ok: "item_ok it"
    and room: "item_cost it \<le> length (fs_fresh s)" and ci: "current_inode B + 1 < 2 ^ 63"
  shows "\<exists>s' B'. unpack_entry ro m s a = Ok s' \<and> ready s' f B' r \<and> current_inode B' \<le> current_inode B + 1
     \<and> length (fs_fresh s) \<le> length (fs_fresh s') + item_cost it \<and> tree_of s' r = put_item (tree_of s r) it"
proof -
  obtain k where k: "strcmp m a (lit_dot ro) = Ok k" "k = 0 \<longleftrightarrow> it = Root_Item" using header_kind[OF ro h ok] by blast
  obtain t where t: "m (a + off_typeflag) = Some t" "t \<in> item_types it" using h by (auto simp: header_at_def off_typeflag_def)
  have nm: "c_string m a = Ok (item_path it)" by (rule name_at[OF h])
  show ?thesis
  proof (cases it)
    case Root_Item
    then have "unpack_entry ro m s a = Ok s" using k by (simp add: unpack_entry_def)
    then show ?thesis using r Root_Item by (intro exI[of _ s] exI[of _ B]) simp
  next
    case (Dir_Item cs)
    have cs: "cs \<noteq> []" "list_all child_name cs" using ok Dir_Item by auto
    obtain ds n where dn: "cs = ds @ [n]" using cs(1) by (cases cs rule: rev_cases) auto
    have ca: "list_all child_name (ds @ [n])" using cs(2) dn by simp
    let ?p = "join_path ([0x2e] # cs) @ [0x2f]"
    have pa: "path_of ?p False ([0x2e] # ds @ [n])" using item_names(2)[OF cs(2,1)] dn by simp
    have room1: "2 * length ds + 5 \<le> length (fs_fresh s)" using room dn Dir_Item by simp
    have reg: "\<not> S_ISREG S_IFDIR" by (simp add: S_ISREG_def S_IFREG_def S_IFDIR_def S_IFMT_def)
    have op: "Op_mkdir \<in> tmpfs_operations" by (simp add: tmpfs_operations_def)
    obtain err s1 B1 where s1: "vfs_add Op_mkdir (tmpfs_add_child S_IFDIR) s ?p NULL 0 = Ok (err, s1)" "ready s1 f B1 r"
      "current_inode B1 \<le> current_inode B + 1" "length (fs_fresh s) \<le> length (fs_fresh s1) + (2 * length ds + 5)"
      "tree_of s1 r = (if tree_of s r (ds @ [n]) = None \<and> tree_of s r ds \<noteq> None then (tree_of s r)(ds @ [n] \<mapsto> Dir_Node) else tree_of s r)"
      using add_item[OF r ca pa room1 ci op, of S_IFDIR] reg by (auto split: if_splits)
    have vm: "vfs_mkdir s ?p NULL 0 = Ok (err, s1)" using s1(1) by (simp add: vfs_mkdir_def tmpfs_mkdir_def[abs_def])
    have "unpack_entry ro m s a = Ok s1"
      using k t nm vm Dir_Item by (simp add: unpack_entry_def load_def USTAR_DIR_def)
    moreover have "tree_of s1 r = put_item (tree_of s r) it" using s1(5) Dir_Item dn by (simp add: add_node_def)
    ultimately show ?thesis using s1(2-4) Dir_Item dn by (intro exI[of _ s1] exI[of _ B1]) simp
  next
    case (File_Item cs d)
    have "unpack_entry ro m s a = unpack_file m s a"
      using k t File_Item by (auto simp: unpack_entry_def load_def USTAR_DIR_def USTAR_REG_def USTAR_REG_2_def)
    moreover have "bytes_at m (a + 512) d" using b File_Item by simp
    ultimately show ?thesis using unpack_file_item[OF r h[unfolded File_Item] _ ok[unfolded File_Item] room[unfolded File_Item] ci] File_Item by simp
  qed
qed

section \<open>Unpacking an archive\<close>

lemma unpack_loop_items:
  assumes "ready s f B r" and "literals_ok m ro" and "archive_at m a items" and "items \<noteq> []" and "list_all item_ok items"
    and "length items \<le> fuel" and "sum_list (List.map item_cost items) \<le> length (fs_fresh s)"
    and "current_inode B + int (length items) < 2 ^ 63"
  shows "\<exists>s' B'. unpack_loop fuel ro m s a = Ok s' \<and> ready s' f B' r \<and> tree_of s' r = foldl put_item (tree_of s r) items
     \<and> length (fs_fresh s) \<le> length (fs_fresh s') + sum_list (List.map item_cost items)"
  using assms(1,3-8)
proof (induction items arbitrary: s B a fuel)
  case (Cons it items)
  have it: "a \<noteq> NULL" "header_at m a it" "bytes_at m (a + 512) (item_data it)" "archive_at m (a + of_nat (512 * blocks it)) items" "item_ok it"
    using Cons.prems(2,4) by auto
  have l: "item_cost it \<le> length (fs_fresh s)" "current_inode B + 1 < 2 ^ 63" using Cons.prems(6,7) by auto
  obtain fl where fl: "fuel = Suc fl" "length items \<le> fl" using Cons.prems(5) by (cases fuel) auto
  obtain s1 B1 where s1: "unpack_entry ro m s a = Ok s1" "ready s1 f B1 r" "current_inode B1 \<le> current_inode B + 1"
    "length (fs_fresh s) \<le> length (fs_fresh s1) + item_cost it" "tree_of s1 r = put_item (tree_of s r) it"
    using unpack_entry_item[OF Cons.prems(1) assms(2) it(2,3,5) l] by blast
  let ?b = "a + of_nat (512 * blocks it)"
  have nx: "ustar_next ro m a = Ok (if items = [] then NULL else ?b)" by (rule ustar_next_item[OF assms(2) it(2,5,4)])
  have step: "unpack_loop fuel ro m s a = unpack_loop fl ro m s1 (if items = [] then NULL else ?b)"
    using s1(1) nx it(1) unfolding fl(1) by (simp add: unpack_loop.simps[of "Suc fl"])
  show ?case
  proof (cases "items = []")
    case True
    then have "unpack_loop fuel ro m s a = Ok s1" using step by (simp add: unpack_loop.simps[of fl])
    then show ?thesis using s1(2,4,5) True by auto
  next
    case False
    have room: "sum_list (List.map item_cost items) \<le> length (fs_fresh s1)" using s1(4) Cons.prems(6) by simp
    have ci: "current_inode B1 + int (length items) < 2 ^ 63" using s1(3) Cons.prems(7) by simp
    have oks: "list_all item_ok items" using Cons.prems(4) by simp
    obtain s2 B2 where s2: "unpack_loop fl ro m s1 ?b = Ok s2" "ready s2 f B2 r" "tree_of s2 r = foldl put_item (tree_of s1 r) items"
      "length (fs_fresh s1) \<le> length (fs_fresh s2) + sum_list (List.map item_cost items)"
      using Cons.IH[OF s1(2) it(4) False oks fl(2) room ci] by blast
    then show ?thesis using step False s1(4,5) by (intro exI[of _ s2] exI[of _ B2]) simp
  qed
qed simp

lemma skipped_modules:
  assumes "literals_ok m ro" and "\<forall>y \<in> set ys. \<exists>p. cstr m (md_path y) p \<and> p \<noteq> initrd_path \<and> length p < 2 ^ 64"
  shows "unpack_modules fuel ro m s (ys @ xs) = unpack_modules fuel ro m s xs"
  using assms(2)
proof (induction ys)
  case (Cons y ys)
  then obtain p where p: "cstr m (md_path y) p" "p \<noteq> initrd_path" "length p < 2 ^ 64" by auto
  have l: "cstr m (lit_initrd ro) initrd_path" using assms(1) by (simp add: literals_ok_def)
  have "first_diff p initrd_path \<noteq> 0"
    using first_diff_0_iff[of p initrd_path] p(1,2) l by (simp add: cstr_def)
  then show ?case using strcmp_cstr[OF p(1) l p(3)] Cons by simp
qed simp

lemma unpack_initrd_items:
  assumes "ready s f B r" and "literals_ok m ro" and "cstr m (md_path x) initrd_path"
    and "\<forall>y \<in> set (ys @ zs). \<exists>p. cstr m (md_path y) p \<and> p \<noteq> initrd_path \<and> length p < 2 ^ 64"
    and "archive_at m (md_address x) items" and "items \<noteq> []" and "list_all item_ok items"
    and "length items \<le> fuel" and "sum_list (List.map item_cost items) \<le> length (fs_fresh s)"
    and "current_inode B + int (length items) < 2 ^ 63"
  shows "\<exists>s' B'. unpack_initrd fuel ro m (Some (ys @ x # zs)) s = Ok s' \<and> ready s' f B' r
     \<and> tree_of s' r = foldl put_item (tree_of s r) items
     \<and> length (fs_fresh s) \<le> length (fs_fresh s') + sum_list (List.map item_cost items)"
proof -
  obtain s' B' where s': "unpack_loop fuel ro m s (md_address x) = Ok s'" "ready s' f B' r" "tree_of s' r = foldl put_item (tree_of s r) items"
    "length (fs_fresh s) \<le> length (fs_fresh s') + sum_list (List.map item_cost items)"
    using unpack_loop_items[OF assms(1,2,5-10)] by blast
  have l: "cstr m (lit_initrd ro) initrd_path" using assms(2) by (simp add: literals_ok_def)
  have "strcmp m (md_path x) (lit_initrd ro) = Ok 0"
    using strcmp_cstr[OF assms(3) l] first_diff_0_iff[of initrd_path initrd_path] l by (simp add: cstr_def initrd_path_def)
  moreover have "unpack_modules fuel ro m s (ys @ x # zs) = unpack_modules fuel ro m s (x # zs)"
    by (rule skipped_modules[OF assms(2)]) (use assms(4) in auto)
  moreover have "unpack_modules fuel ro m s' zs = Ok s'"
    using skipped_modules[OF assms(2), of zs fuel s' "[]"] assms(4) by auto
  ultimately have "unpack_initrd fuel ro m (Some (ys @ x # zs)) s = Ok s'"
    using s'(1) by (simp add: unpack_initrd_def unpack_ustar_def)
  then show ?thesis using s'(2-4) by blast
qed

section \<open>Properties of fs/initrd.c\<close>

text \<open>
  C6: The initial file system is what the archive says. When one of the modules of the boot loader is
  \<open>/boot/initrd\<close> and holds an archive of well-formed items, \<open>unpack_initrd\<close> ends, keeps the file system
  well-formed, and its tree is the tree it had with the items added one after the other: each where its
  parent is there and itself is not, a directory empty and a file with all its bytes, and no other path
  changed. One round of the loop per item is enough.
\<close>

theorem unpack_initrd_adds_items:
  assumes "vfs_ok s f B" and "dentry_ok s f B (fs_root s) r" and "tree_inj s r"
    and "literals_ok m ro" and "cstr m (md_path x) initrd_path"
    and "\<forall>y \<in> set (ys @ zs). \<exists>p. cstr m (md_path y) p \<and> p \<noteq> initrd_path \<and> length p < 2 ^ 64"
    and "archive_at m (md_address x) items" and "items \<noteq> []" and "list_all item_ok items"
    and "length items \<le> fuel" and "sum_list (List.map item_cost items) \<le> length (fs_fresh s)"
    and "current_inode B + int (length items) < 2 ^ 63"
  shows "\<exists>s' B'. unpack_initrd fuel ro m (Some (ys @ x # zs)) s = Ok s'
     \<and> vfs_ok s' f B' \<and> dentry_ok s' f B' (fs_root s') r \<and> tree_inj s' r
     \<and> tree_of s' r = foldl put_item (tree_of s r) items"
  using unpack_initrd_items[of s f B r, OF _ assms(4-12)] assms(1-3) unfolding ready_def by blast

text \<open>
  The bytes of an archive, and a memory that holds them: each piece is placed over what was there.
\<close>

definition padded_to :: "nat \<Rightarrow> u8 list \<Rightarrow> u8 list" where
  "padded_to k bs = bs @ replicate (k - length bs) 0"

definition item_type :: "item \<Rightarrow> u8" where
  "item_type it = (case it of File_Item cs d \<Rightarrow> 0x30 | _ \<Rightarrow> 0x35)"

definition header_bytes :: "item \<Rightarrow> u8 list" where
  "header_bytes it = padded_to 100 (item_path it) @ replicate 24 0 @ octal 11 (length (item_data it)) @ replicate 21 0
     @ [item_type it] @ replicate 100 0 @ magic @ [0] @ replicate 249 0"

fun archive_bytes :: "item list \<Rightarrow> u8 list" where
  "archive_bytes [] = replicate 512 0"
| "archive_bytes (it # its) = header_bytes it @ padded_to (512 * (blocks it - 1)) (item_data it) @ archive_bytes its"

definition place :: "addr \<Rightarrow> u8 list \<Rightarrow> mem \<Rightarrow> mem" where
  "place p bs m = (\<lambda>a. if unat (a - p) < length bs then Some (bs ! unat (a - p)) else m a)"

lemma place_bytes: "length bs \<le> 2 ^ 64 \<Longrightarrow> bytes_at (place p bs m) p bs"
  by (auto simp: bytes_at_nth place_def unat_offset)

lemma place_frame:
  assumes "bytes_at m q xs" and "disjoint_ranges p (length bs) q (length xs)" and "length xs \<le> 2 ^ 64"
  shows "bytes_at (place p bs m) q xs"
  using assms(1) disjoint_rangesD[OF assms(2) _ assms(3)] by (auto simp: bytes_at_nth place_def)

lemma bytes_at_take: "bytes_at m p (xs @ ys) \<Longrightarrow> bytes_at m p xs"
  by (simp add: bytes_at_append)

lemma blocks_cover: "length (item_data it) \<le> 512 * (blocks it - 1)"
proof -
  have "length (item_data it) + 511 = 512 * ((length (item_data it) + 511) div 512) + (length (item_data it) + 511) mod 512" by simp
  moreover have "(length (item_data it) + 511) mod 512 < 512" by simp
  ultimately show ?thesis unfolding blocks_def by linarith
qed

lemma length_header_bytes: "length (item_path it) \<le> 100 \<Longrightarrow> length (header_bytes it) = 512"
  by (simp add: header_bytes_def padded_to_def magic_string)

lemma header_bytes_at:
  assumes "bytes_at m a (header_bytes it)" and "length (item_path it) < 100" and "0 \<notin> set (item_path it)"
  shows "header_at m a it"
proof -
  have l: "length (padded_to 100 (item_path it)) = 100" using assms(2) by (simp add: padded_to_def)
  have n: "padded_to 100 (item_path it) = (item_path it @ [0]) @ replicate (99 - length (item_path it)) 0"
    using assms(2) by (simp add: padded_to_def flip: replicate_Suc)
  have c: "cstr m a (item_path it)"
    using assms(1,3) unfolding header_bytes_def n append_assoc cstr_def bytes_at_append by simp
  have mg: "bytes_at m (a + 257) (magic @ [0])"
    using assms(1) unfolding header_bytes_def by (simp add: bytes_at_append l add.assoc)
  then have "cstr m (a + 257) magic" using magic_string by (simp add: cstr_def)
  moreover have "bytes_at m (a + 124) (octal 11 (length (item_data it)))" "m (a + 156) = Some (item_type it)"
    using assms(1) unfolding header_bytes_def by (simp_all add: bytes_at_append l add.assoc)
  moreover have "item_type it \<in> item_types it" by (cases it) (simp_all add: item_type_def)
  ultimately show ?thesis using c assms(2) by (auto simp: header_at_def)
qed

lemma archive_bytes_at:
  assumes "bytes_at m a (archive_bytes items)" and "\<forall>it \<in> set items. length (item_path it) < 100 \<and> 0 \<notin> set (item_path it)"
    and "0 < unat a" and "unat a + length (archive_bytes items) < 2 ^ 64"
  shows "archive_at m a items"
  using assms
proof (induction items arbitrary: a)
  case Nil
  have "m (a + of_nat 257) = Some (replicate 512 0 ! 257)" using Nil(1) by (simp only: bytes_at_nth archive_bytes.simps length_replicate)
  then show ?case by simp
next
  case (Cons it its)
  let ?p = "padded_to (512 * (blocks it - 1)) (item_data it)"
  have h: "length (header_bytes it) = 512" using length_header_bytes Cons.prems(2) by simp
  have p: "length ?p = 512 * (blocks it - 1)" using blocks_cover by (simp add: padded_to_def)
  have b: "512 + 512 * (blocks it - 1) = 512 * blocks it" by (simp add: blocks_def)
  have e: "length (header_bytes it @ ?p) = 512 * blocks it" using h p b by simp
  have "bytes_at m a ((header_bytes it @ ?p) @ archive_bytes its)" using Cons.prems(1) by simp
  then have "bytes_at m a (header_bytes it @ ?p)" "bytes_at m (a + of_nat (512 * blocks it)) (archive_bytes its)"
    unfolding bytes_at_append[of m a "header_bytes it @ ?p"] e by blast+
  then have bs: "bytes_at m a (header_bytes it)" "bytes_at m (a + 512) ?p" "bytes_at m (a + of_nat (512 * blocks it)) (archive_bytes its)"
    using bytes_at_append[of m a "header_bytes it" ?p] h by simp_all
  have u: "unat (a + of_nat (512 * blocks it)) = unat a + 512 * blocks it"
    using Cons.prems(4) h p b by (simp add: unat_word_ariths unat_of_nat)
  have "archive_at m (a + of_nat (512 * blocks it)) its"
    by (rule Cons.IH[OF bs(3)]) (use Cons.prems u h p b in auto)
  moreover have "bytes_at m (a + 512) (item_data it)" using bs(2) bytes_at_take by (simp add: padded_to_def)
  ultimately show ?case using header_bytes_at[OF bs(1)] Cons.prems(2,3) by auto
qed

definition demo_items :: "item list" where
  "demo_items = [Root_Item, Dir_Item [[0x64]], File_Item [[0x64], [0x66]] [1, 2, 3]]"

definition archive_image :: "item list \<Rightarrow> mem" where
  "archive_image items = place 0x10000 (archive_bytes items) (place 0x1000 (magic @ [0]) (place 0x2000 [0x2e, 0x2f, 0]
     (place 0x3000 (initrd_path @ [0]) Map.empty)))"

definition demo_image :: mem where
  "demo_image = archive_image demo_items"

definition demo_literals :: literals where
  "demo_literals = \<lparr>lit_ustar = 0x1000, lit_dot = 0x2000, lit_initrd = 0x3000\<rparr>"

definition demo_module :: boot_module where
  "demo_module = \<lparr>md_path = 0x3000, md_size = 2560, md_address = 0x10000\<rparr>"

definition roomy_fs :: fs where
  "roomy_fs = demo_fs\<lparr>fs_fresh := List.map (\<lambda>i. 0x1000 + of_nat i * 64) [0..<26]\<rparr>"

lemma demo_archive_length: "length (archive_bytes demo_items) = 2560"
  by (simp add: demo_items_def length_header_bytes blocks_def padded_to_def)

lemma archive_image_ok:
  assumes "length (archive_bytes items) < 2 ^ 32" and "\<forall>it \<in> set items. length (item_path it) < 100 \<and> 0 \<notin> set (item_path it)"
  shows "literals_ok (archive_image items) demo_literals" "archive_at (archive_image items) 0x10000 items"
proof -
  note d = disjoint_ranges_sym[OF disjoint_rangesI]
  have "bytes_at (archive_image items) 0x1000 (magic @ [0])" unfolding archive_image_def
    by (intro place_frame place_bytes d) (use assms(1) in \<open>simp_all add: magic_string\<close>)
  moreover have "bytes_at (archive_image items) 0x2000 [0x2e, 0x2f, 0]" unfolding archive_image_def
    by (intro place_frame d disjoint_rangesI place_bytes) (use assms(1) in \<open>simp_all add: magic_string\<close>)
  moreover have "bytes_at (archive_image items) 0x3000 (initrd_path @ [0])" unfolding archive_image_def
    by (intro place_frame d disjoint_rangesI place_bytes) (use assms(1) in \<open>simp_all add: magic_string initrd_path_def\<close>)
  ultimately show "literals_ok (archive_image items) demo_literals"
    by (simp add: literals_ok_def demo_literals_def cstr_def magic_string initrd_path_def)
  have "bytes_at (archive_image items) 0x10000 (archive_bytes items)" unfolding archive_image_def
    by (rule place_bytes) (use assms(1) in simp)
  then show "archive_at (archive_image items) 0x10000 items"
    by (rule archive_bytes_at) (use assms in simp_all)
qed

lemma demo_image_ok: "literals_ok demo_image demo_literals" "archive_at demo_image 0x10000 demo_items"
proof -
  have s: "\<forall>it \<in> set demo_items. length (item_path it) < 100 \<and> 0 \<notin> set (item_path it)" by (simp add: demo_items_def)
  have l: "length (archive_bytes demo_items) < 2 ^ 32" unfolding demo_archive_length by simp
  show "literals_ok demo_image demo_literals" "archive_at demo_image 0x10000 demo_items"
    unfolding demo_image_def using archive_image_ok[OF l s] .
qed

lemma roomy_ok: "vfs_ok roomy_fs 48 demo_super" "dentry_ok roomy_fs 48 demo_super (fs_root roomy_fs) 16" "tree_inj roomy_fs 16"
proof -
  have f: "fs_fresh roomy_fs = [0x1000, 0x1040, 0x1080, 0x10c0, 0x1100, 0x1140, 0x1180, 0x11c0, 0x1200, 0x1240, 0x1280, 0x12c0,
     0x1300, 0x1340, 0x1380, 0x13c0, 0x1400, 0x1440, 0x1480, 0x14c0, 0x1500, 0x1540, 0x1580, 0x15c0, 0x1600, 0x1640]"
    by (simp add: roomy_fs_def upt_rec)
  have fr: "fresh_ok roomy_fs" unfolding fresh_ok_def f by (simp add: roomy_fs_def demo_fs_def)
  have e: "extends demo_fs roomy_fs 0" using fr by (simp add: extends_def demo_fresh f) (simp add: roomy_fs_def)
  have rt: "fs_root roomy_fs = fs_root demo_fs" by (simp add: roomy_fs_def)
  show "vfs_ok roomy_fs 48 demo_super" by (rule extends_vfs_ok[OF e demo_vfs_ok])
  show "dentry_ok roomy_fs 48 demo_super (fs_root roomy_fs) 16" unfolding rt by (rule extends_dentry_ok[OF e demo_root])
  have e16: "entry demo_fs 16 n = (if n = [0x61] then Some 24 else None)" for n
    by (auto simp: entry_def demo_ino demo_dir_def demo_file_def)
  have e24: "entry demo_fs 24 n = None" for n by (simp add: entry_def demo_ino demo_file_def)
  have R: "resolve demo_fs 16 cs = Some x \<Longrightarrow> [0x2e] \<notin> set cs \<Longrightarrow> (cs = [] \<and> x = 16) \<or> (cs = [[0x61]] \<and> x = 24)" for cs x
  proof (cases cs)
    case (Cons c ds)
    assume "resolve demo_fs 16 cs = Some x" "[0x2e] \<notin> set cs"
    then have "c = [0x61]" "resolve demo_fs 24 ds = Some x" "[0x2e] \<notin> set ds" using Cons e16 by (auto split: if_splits)
    then show ?thesis using Cons e24 by (cases ds) auto
  qed simp
  have "tree_inj demo_fs 16" unfolding tree_inj_def
  proof (intro allI impI)
    fix cs ds x
    assume "[0x2e] \<notin> set cs" "[0x2e] \<notin> set ds" "resolve demo_fs 16 cs = Some x" "resolve demo_fs 16 ds = Some x"
    then show "cs = ds" using R[of cs x] R[of ds x] by auto
  qed
  then show "tree_inj roomy_fs 16" using tree_inj_extends[OF e] by simp
qed

theorem unpack_initrd_adds_items_witness:
  "\<exists>s'. unpack_initrd 3 demo_literals demo_image (Some [demo_module]) roomy_fs = Ok s'
     \<and> tree_of s' 16 [[0x64], [0x66]] = Some (File_Node [1, 2, 3]) \<and> tree_of s' 16 [[0x64]] = Some Dir_Node"
proof -
  have l: "cstr demo_image (md_path demo_module) initrd_path" using demo_image_ok(1) by (simp add: literals_ok_def demo_literals_def demo_module_def)
  have a: "archive_at demo_image (md_address demo_module) demo_items" using demo_image_ok(2) by (simp add: demo_module_def)
  have f: "length (fs_fresh roomy_fs) = 26" by (simp add: roomy_fs_def)
  have ok: "list_all item_ok demo_items" by (simp add: demo_items_def child_name_def name_ok_def plain_name_def VFS_PATH_MAX_def)
  have t: "tree_of roomy_fs 16 [] = Some (node_of roomy_fs 16)" "tree_of roomy_fs 16 [[0x64]] = None" "tree_of roomy_fs 16 [[0x64], [0x66]] = None"
  proof -
    have "entry roomy_fs 16 [0x64] = None"
      by (simp add: entry_def ino_def roomy_fs_def) (simp add: demo_fs_def demo_dir_def demo_file_def)
    then show "tree_of roomy_fs 16 [] = Some (node_of roomy_fs 16)" "tree_of roomy_fs 16 [[0x64]] = None" "tree_of roomy_fs 16 [[0x64], [0x66]] = None"
      by (simp_all add: tree_of_def)
  qed
  have "\<exists>s' B'. unpack_initrd 3 demo_literals demo_image (Some ([] @ demo_module # [])) roomy_fs = Ok s'
     \<and> vfs_ok s' 48 B' \<and> dentry_ok s' 48 B' (fs_root s') 16 \<and> tree_inj s' 16
     \<and> tree_of s' 16 = foldl put_item (tree_of roomy_fs 16) demo_items"
    by (rule unpack_initrd_adds_items[OF roomy_ok demo_image_ok(1) l _ a _ ok])
      (simp_all add: f, simp_all add: demo_items_def demo_super_def)
  then show ?thesis using t by (auto simp: demo_items_def add_node_def)
qed

text \<open>
  C39: Unpacking need not end. The size of a header is read as a signed number of whatever bytes are there,
  so it can be negative; where it is between -1534 and -1023 the next header is the same one, and with a
  type that is neither a file nor a directory \<open>unpack_ustar\<close> repeats it for ever, however long the
  module says it is.
\<close>

theorem unpack_ustar_repeats:
  assumes "a \<noteq> NULL" and "cstr m (a + 257) magic" and "literals_ok m ro" and "strcmp m a (lit_dot ro) = Ok k"
    and "m (a + 156) = Some t" and "t \<notin> {0x35, 0x30, 0}" and "oct2bin m (a + 124) 11 = Ok n" and "-1534 \<le> n" and "n \<le> -1023"
  shows "unpack_ustar fuel ro m s len a = Fault Diverges"
proof -
  have e: "unpack_entry ro m s a = Ok s"
    using assms(4-6) by (simp add: unpack_entry_def load_def off_typeflag_def USTAR_DIR_def USTAR_REG_def USTAR_REG_2_def)
  have "(n + 511) sdiv 512 = -1"
  proof -
    have "\<bar>n + 511\<bar> div 512 = 1" using assms(8,9) by (intro div_pos_geq[THEN trans]) auto
    then show ?thesis using assms(9) by (simp add: signed_divide_int_def sgn_if)
  qed
  moreover have "cint (n + 511) = Ok (n + 511)" using assms(8,9) by (intro cint_Ok) auto
  moreover have "strcmp m (a + 257) (lit_ustar ro) = Ok 0"
  proof -
    have l: "cstr m (lit_ustar ro) magic" using assms(3) by (simp add: literals_ok_def)
    from strcmp_cstr[OF assms(2) l] show ?thesis using magic_string first_diff_0_iff[of magic magic] by simp
  qed
  ultimately have nx: "ustar_next ro m a = Ok a"
    using assms(7) by (simp add: ustar_next_def off_size_def off_magic_def Let_def)
  have "unpack_loop fuel ro m s a = Fault Diverges"
  proof (induction fuel)
    case 0
    then show ?case using assms(1) by (simp add: unpack_loop.simps[of 0])
  next
    case (Suc fuel)
    then show ?case using assms(1) e nx by (simp add: unpack_loop.simps[of "Suc fuel"])
  qed
  then show ?thesis by (simp add: unpack_ustar_def)
qed

text \<open>A link with the size \<open>0000000.000\<close>, in the memory of the other witness.\<close>

definition link_image :: mem where
  "link_image = place 0x40000 (padded_to 124 [0x6c] @ [0x30, 0x30, 0x30, 0x30, 0x30, 0x30, 0x30, 0x2e, 0x30, 0x30, 0x30]
     @ replicate 21 0 @ [0x32] @ replicate 100 0 @ magic @ [0]) demo_image"

theorem unpack_ustar_repeats_witness:
  "unpack_ustar 1000 demo_literals link_image demo_fs 512 0x40000 = Fault Diverges"
proof -
  let ?h = "padded_to 124 [0x6c] @ [0x30, 0x30, 0x30, 0x30, 0x30, 0x30, 0x30, 0x2e, 0x30, 0x30, 0x30]
     @ replicate 21 0 @ [0x32] @ replicate 100 0 @ magic @ [0]"
  have l: "length (padded_to 124 [0x6c]) = 124" by (simp add: padded_to_def)
  have lh: "length ?h = 263" using l magic_string by simp
  have b: "bytes_at link_image 0x40000 ?h" unfolding link_image_def by (rule place_bytes) (simp only: lh, simp)
  have lits: "literals_ok link_image demo_literals"
    unfolding literals_ok_def cstr_def link_image_def
    by (intro conjI place_frame disjoint_ranges_sym[OF disjoint_rangesI])
      (use demo_image_ok(1) in \<open>simp_all only: lh literals_ok_def cstr_def\<close>, simp_all add: demo_literals_def magic_string initrd_path_def)
  have parts: "cstr link_image (0x40000 + 257) magic" "link_image (0x40000 + 156) = Some 0x32"
    "bytes_at link_image (0x40000 + 124) [0x30, 0x30, 0x30, 0x30, 0x30, 0x30, 0x30, 0x2e, 0x30, 0x30, 0x30]"
    using b magic_string by (simp_all add: bytes_at_append l cstr_def)
  have o: "oct2bin link_image (0x40000 + 124) 11 = Ok (- 1024)"
    using parts(3) by (simp add: oct2bin_def numeral_eq_Suc load_def schar_def)
  have "padded_to 124 [0x6c] = [0x6c, 0] @ replicate 122 0"
    using replicate_add[of 1 122 "0::u8"] by (simp add: padded_to_def)
  then have "bytes_at link_image 0x40000 ([0x6c] @ [0])" using b by (simp add: bytes_at_append)
  then have "cstr link_image 0x40000 [0x6c]" by (simp add: cstr_def)
  moreover have "cstr link_image (lit_dot demo_literals) [0x2e, 0x2f]" using lits by (simp add: literals_ok_def)
  ultimately have k: "strcmp link_image 0x40000 (lit_dot demo_literals) = Ok (first_diff [0x6c] [0x2e, 0x2f])"
    by (intro strcmp_cstr) simp_all
  show ?thesis
    by (rule unpack_ustar_repeats[OF _ parts(1) lits k parts(2) _ o]) simp_all
qed

end
