(* ===== verification/Session.thy ===== *)
theory Session
  imports Initrd
begin

section \<open>Programs on the file system\<close>










section \<open>The types of states\<close>














section \<open>Properties of the calls\<close>






end
