(* ===== verification/Exec.thy ===== *)
theory Exec
  imports Initrd
begin

section \<open>fs/exec and run_init: starting the first program\<close>

text \<open>
  binfmt.c and binfmt_elf.c of fs/exec, the header of an ELF file in uapi/elf.h, and \<open>run_init\<close> of main.c.
  A header in memory is read by the offsets of its fields; the string \<open>ELFMAG\<close> is at the address \<open>elfmag\<close>.
\<close>

definition ENOEXEC :: int where "ENOEXEC = 8"
definition SELFMAG :: int where "SELFMAG = 4"
definition EI_CLASS :: addr where "EI_CLASS = 4"
definition EI_DATA :: addr where "EI_DATA = 5"
definition ELFMAG :: "u8 list" where "ELFMAG = [0x7f, 0x45, 0x4c, 0x46]"
definition ELFCLASS64 :: u8 where "ELFCLASS64 = 2"
definition ELFDATA2LSB :: u8 where "ELFDATA2LSB = 1"
definition EV_CURRENT :: u64 where "EV_CURRENT = 1"
definition ET_EXEC :: u64 where "ET_EXEC = 2"
definition EM_X86_64 :: u64 where "EM_X86_64 = 62"

definition off_e_type :: addr where "off_e_type = 16"
definition off_e_machine :: addr where "off_e_machine = 18"
definition off_e_version :: addr where "off_e_version = 20"
definition elf64_hdr_size :: int where "elf64_hdr_size = 64"

definition validate_elf :: "mem \<Rightarrow> addr \<Rightarrow> fs \<Rightarrow> vfile \<Rightarrow> addr \<Rightarrow> bool result" where
  "validate_elf m elfmag s exe hdr =
     bnd (vfs_size s exe) (\<lambda>exe_size.
     bnd (memcmp m hdr elfmag SELFMAG) (\<lambda>r. if r = 0 then Ok False else
     bnd (load m (hdr + EI_CLASS)) (\<lambda>c. if c \<noteq> ELFCLASS64 then Ok False else
     bnd (load m (hdr + EI_DATA)) (\<lambda>d. if d \<noteq> ELFDATA2LSB then Ok False else
     bnd (load_le m (hdr + off_e_machine) 2) (\<lambda>w. if w \<noteq> EM_X86_64 then Ok False else
     bnd (load_le m (hdr + off_e_version) 4) (\<lambda>v. if v \<noteq> EV_CURRENT then Ok False else
     bnd (load_le m (hdr + off_e_type) 2) (\<lambda>t. if t \<noteq> ET_EXEC then Ok False else Ok True)))))))"

record binprm =
  executable :: vfile

text \<open>The sizes are compared as unsigned 64-bit numbers. The last test of the source has an empty body.\<close>

definition run_elf_file :: "fs \<Rightarrow> binprm \<Rightarrow> int result" where
  "run_elf_file s p =
     bnd (vfs_size s (executable p)) (\<lambda>exe_size.
     if (of_int exe_size :: u64) < of_int elf64_hdr_size then Ok (- ENOEXEC) else
     bnd (vfs_pread s (executable p) elf64_hdr_size 0) (\<lambda>(err, hdr).
     if (of_int err :: u64) \<noteq> of_int elf64_hdr_size then Ok (- ENOEXEC) else Ok 0))"

definition exec_file :: "fs \<Rightarrow> vfile \<Rightarrow> (int \<times> fs) result" where
  "exec_file s fd =
     (let (b, s) = kzalloc s in
      if b = NULL then Fault Null_Deref else
      bnd (run_elf_file s \<lparr>executable = fd\<rparr>) (\<lambda>err. Ok (if err = 0 then 0 else - ENOEXEC, s)))"

definition init_path :: "u8 list" where
  "init_path = [0x2f, 0x73, 0x62, 0x69, 0x6e, 0x2f, 0x69, 0x6e, 0x69, 0x74]"

text \<open>The number is what \<open>exec_file\<close> returns, which \<open>run_init\<close> does not look at.\<close>

definition run_init :: "fs \<Rightarrow> (int \<times> fs) result" where
  "run_init s =
     (let (init, s) = kzalloc s in
      bnd (vfs_open s init_path NULL 0 blank_file) (\<lambda>(err, fd, s).
      if err \<noteq> 0 then Fault Halted else
      if init = NULL then Fault Null_Deref else exec_file s fd))"

section \<open>Executables\<close>

lemma exec_result:
  assumes v: "vfs_ok s f B" and d: "dentry_ok s f B (fd_entry fd) q" and z: "sized s (fd_entry fd) q" and pos: "fd_pos fd = 0"
    and len: "S_ISREG (ti_mode (ino s q)) \<longrightarrow> ti_length (ino s q) < 2 ^ 63"
  shows "run_elf_file s \<lparr>executable = fd\<rparr> = Ok (if S_ISREG (ti_mode (ino s q)) \<and> 64 \<le> ti_length (ino s q) then 0 else - ENOEXEC)"
proof -
  obtain v where fv: "file_vnode s fd = Ok v" "vnode_ok s f B v q" "vop_of s v = Ok Tmpfs_Operations" using file_vnode_ok[OF d] by blast
  obtain V where V: "v \<noteq> NULL" "fs_vnodes s v = Some V" "S_ISREG (vn_mode V) = S_ISREG (ti_mode (ino s q))" "q \<in> nodes B" using fv(2) by (auto simp: vnode_ok_def)
  have m: "mount_ok s f B" using v by (simp add: vfs_ok_def)
  have "vn_size V = ti_length (ino s q)" using z d fv(1) V by (auto simp: sized_def file_vnode_def dentry_ok_def)
  then have sz: "vfs_size s fd = Ok (ti_length (ino s q))" using fv(1) V by (simp add: vfs_size_def)
  have pr: "vfs_pread s fd 64 0 = tmpfs_read s v 64 0" using fv pos by (simp add: vfs_pread_def has_op_def tmpfs_operations_def)
  show ?thesis
  proof (cases "S_ISREG (ti_mode (ino s q))")
    case False
    then have "tmpfs_read s v 64 0 = Ok (- EINVAL, [])" using V by (simp add: tmpfs_read_def)
    then show ?thesis using False sz pr by (simp add: run_elf_file_def elf64_hdr_size_def EINVAL_def)
  next
    case True
    let ?n = "ti_length (ino s q)"
    have n: "0 \<le> ?n" "?n < 2 ^ 63" using mount_okD(1)[OF m V(4)] len True by (auto simp: inode_ok_def)
    have u: "(of_int ?n :: u64) < 64 \<longleftrightarrow> ?n < 64"
    proof -
      have "uint (of_int ?n :: u64) = ?n" using n by (simp add: unsigned_of_int take_bit_int_eq_self)
      then show ?thesis by (simp add: word_less_def)
    qed
    have "tmpfs_read s v 64 0 = Ok (64, take 64 (contents s q))" if "64 \<le> ?n"
      using tmpfs_read_file[OF m fv(2) True, of 0 64] that n as_int_small[of 64] by simp
    then show ?thesis using True sz pr u by (simp add: run_elf_file_def elf64_hdr_size_def not_less)
  qed
qed

section \<open>Properties of fs/exec\<close>

text \<open>
  The check of an executable is turned round. \<open>validate_elf\<close> answers true exactly for the 64-bit
  little-endian x86-64 executables of the current version whose first four bytes are not the magic number of ELF;
  an ELF file never passes it.
\<close>

theorem validate_elf_rejects_elf:
  assumes "vfs_size s exe = Ok n" and "bytes_at m hdr bs" and "length bs = 64" and "bytes_at m elfmag ELFMAG"
  shows "validate_elf m elfmag s exe hdr = Ok (take 4 bs \<noteq> ELFMAG \<and> bs ! 4 = 2 \<and> bs ! 5 = 1 \<and> le_word (take 2 (drop 18 bs)) = 62
     \<and> le_word (take 4 (drop 20 bs)) = 1 \<and> le_word (take 2 (drop 16 bs)) = 2)"
proof -
  have "bytes_at m hdr (take 4 bs)" using assms(2) bytes_at_append[of m hdr "take 4 bs" "drop 4 bs"] by simp
  then obtain r where r: "memcmp m hdr elfmag SELFMAG = Ok r" "r = 0 \<longleftrightarrow> take 4 bs = ELFMAG"
    using memcmp_loop_bytes[of m hdr "take 4 bs" elfmag ELFMAG] assms(3,4) by (auto simp: memcmp_def SELFMAG_def ELFMAG_def)
  have b: "m (hdr + of_nat i) = Some (bs ! i)" if "i < 64" for i using assms(2,3) that unfolding bytes_at_nth by simp
  have l: "load m (hdr + EI_CLASS) = Ok (bs ! 4)" "load m (hdr + EI_DATA) = Ok (bs ! 5)"
    using b[of 4] b[of 5] by (simp_all add: load_def EI_CLASS_def EI_DATA_def)
  have w: "load_le m (hdr + off_e_machine) 2 = Ok (le_word (take 2 (drop 18 bs)))"
    "load_le m (hdr + off_e_version) 4 = Ok (le_word (take 4 (drop 20 bs)))"
    "load_le m (hdr + off_e_type) 2 = Ok (le_word (take 2 (drop 16 bs)))"
    using load_le_part[OF assms(2), of 18 2] load_le_part[OF assms(2), of 20 4] load_le_part[OF assms(2), of 16 2] assms(3)
    by (simp_all add: off_e_machine_def off_e_version_def off_e_type_def)
  show ?thesis
    using assms(1) r l w by (simp add: validate_elf_def ELFCLASS64_def ELFDATA2LSB_def EM_X86_64_def EV_CURRENT_def ET_EXEC_def)
qed

text \<open>A header that says it is an executable, with and without the magic number.\<close>

definition demo_header :: "u8 \<Rightarrow> u8 list" where
  "demo_header b = [b, 0x45, 0x4c, 0x46, 2, 1, 1, 0, 0, 0, 0, 0, 0, 0, 0, 0, 2, 0, 62, 0, 1, 0, 0, 0] @ replicate 40 0"

lemma demo_file_size: "vfs_size demo_fd_fs \<lparr>fd_entry = 96, fd_pos = 0, fd_flags = 0\<rparr> = Ok 0"
  by code_simp

theorem validate_elf_rejects_elf_witness:
  "(\<exists>m s exe. validate_elf m 0x100 s exe 0x200 = Ok False \<and> bytes_at m 0x200 (demo_header 0x7f))
   \<and> (\<exists>m s exe. validate_elf m 0x100 s exe 0x200 = Ok True \<and> bytes_at m 0x200 (demo_header 0))"
proof -
  have l: "length (demo_header b) = 64" for b by (simp add: demo_header_def)
  let ?m = "\<lambda>b. place 0x200 (demo_header b) (place 0x100 ELFMAG Map.empty)"
  have h: "bytes_at (?m b) 0x200 (demo_header b)" for b by (rule place_bytes) (simp add: l)
  have e: "bytes_at (?m b) 0x100 ELFMAG" for b
    by (rule place_frame[OF place_bytes disjoint_ranges_sym[OF disjoint_rangesI]]) (simp_all add: l ELFMAG_def)
  note v = validate_elf_rejects_elf[OF demo_file_size h l e]
  have "validate_elf (?m 0x7f) 0x100 demo_fd_fs \<lparr>fd_entry = 96, fd_pos = 0, fd_flags = 0\<rparr> 0x200 = Ok False"
    unfolding v by (simp add: demo_header_def ELFMAG_def)
  moreover have "validate_elf (?m 0) 0x100 demo_fd_fs \<lparr>fd_entry = 96, fd_pos = 0, fd_flags = 0\<rparr> 0x200 = Ok True"
    unfolding v by code_simp
  ultimately show ?thesis using h by blast
qed

lemma init_name: "path_of init_path True [[0x73, 0x62, 0x69, 0x6e], [0x69, 0x6e, 0x69, 0x74]]"
proof -
  have "list_all name_ok [[0x73, 0x62, 0x69, 0x6e], [0x69, 0x6e, 0x69, 0x74]]" by (simp add: name_ok_def plain_name_def VFS_PATH_MAX_def)
  from path_of_root_path[OF this, of True] show ?thesis by (simp add: root_path_def init_path_def)
qed

lemma exec_file_result:
  assumes "ready s f B r" and "dentry_ok s f B (fd_entry fd) q" and "sized s (fd_entry fd) q" and "fd_pos fd = 0"
    and "S_ISREG (ti_mode (ino s q)) \<longrightarrow> ti_length (ino s q) < 2 ^ 63" and "fs_fresh s \<noteq> []"
  shows "\<exists>s'. exec_file s fd = Ok (if S_ISREG (ti_mode (ino s q)) \<and> 64 \<le> ti_length (ino s q) then 0 else - ENOEXEC, s')
     \<and> ready s' f B r \<and> tree_of s' r = tree_of s r"
proof -
  obtain a as where as: "fs_fresh s = a # as" using assms(6) by (cases "fs_fresh s") auto
  have fr: "fresh_ok s" using assms(1) by (simp add: ready_def vfs_ok_def)
  note k = kzalloc_extends[OF fr as]
  let ?s = "s\<lparr>fs_fresh := as\<rparr>"
  have e: "extends s ?s 1" using k(6) as by (simp add: extends_def)
  have r: "ready ?s f B r" "tree_of ?s r = tree_of s r" by (rule ready_extends[OF assms(1) e])+
  have "sized ?s (fd_entry fd) q" using assms(3) extends_ino[OF e] by (simp add: sized_def)
  moreover have "vfs_ok ?s f B" using r(1) by (simp add: ready_def)
  moreover have "S_ISREG (ti_mode (ino ?s q)) \<longrightarrow> ti_length (ino ?s q) < 2 ^ 63" using assms(5) extends_ino[OF e] by simp
  ultimately have "run_elf_file ?s \<lparr>executable = fd\<rparr> = Ok (if S_ISREG (ti_mode (ino s q)) \<and> 64 \<le> ti_length (ino s q) then 0 else - ENOEXEC)"
    using exec_result[OF _ extends_dentry_ok[OF e assms(2)] _ assms(4)] extends_ino[OF e] by simp
  then show ?thesis using k(1,2) r by (simp add: exec_file_def Let_def)
qed

lemma length_contents:
  assumes "mount_ok s f B" and "q \<in> nodes B"
  shows "int (length (contents s q)) = ti_length (ino s q)"
proof -
  have "inode_ok s B q" by (rule mount_okD(1)[OF assms])
  then have l: "0 \<le> ti_length (ino s q)" "ti_length (ino s q) \<le> int (length (ti_data (ino s q)))"
    by (simp_all add: inode_ok_def)
  then have "nat (ti_length (ino s q)) \<le> length (ti_data (ino s q))" by linarith
  then show ?thesis using l(1) by (simp add: contents_def min_absorb2)
qed

lemma run_init_result:
  assumes "ready s f B r" and "6 \<le> length (fs_fresh s)"
    and "\<forall>d. tree_of s r [[0x73, 0x62, 0x69, 0x6e], [0x69, 0x6e, 0x69, 0x74]] = Some (File_Node d) \<longrightarrow> length d < 2 ^ 63"
  shows "case tree_of s r [[0x73, 0x62, 0x69, 0x6e], [0x69, 0x6e, 0x69, 0x74]] of None \<Rightarrow> run_init s = Fault Halted
     | Some x \<Rightarrow> \<exists>s'. run_init s = Ok (case x of Dir_Node \<Rightarrow> - ENOEXEC | File_Node d \<Rightarrow> if 64 \<le> length d then 0 else - ENOEXEC, s')
         \<and> tree_of s' r = tree_of s r"
proof -
  let ?p = "[[0x73, 0x62, 0x69, 0x6e], [0x69, 0x6e, 0x69, 0x74]] :: name list"
  obtain a as where as: "fs_fresh s = a # as" using assms(2) by (cases "fs_fresh s") auto
  have fr: "fresh_ok s" using assms(1) by (simp add: ready_def vfs_ok_def)
  note k = kzalloc_extends[OF fr as]
  let ?s = "s\<lparr>fs_fresh := as\<rparr>"
  have e: "extends s ?s 1" using k(6) as by (simp add: extends_def)
  have r: "ready ?s f B r" "tree_of ?s r = tree_of s r" by (rule ready_extends[OF assms(1) e])+
  have v: "vfs_ok ?s f B" "dentry_ok ?s f B (fs_root ?s) r" using r(1) by (simp_all add: ready_def)
  have room: "2 * length ?p \<le> length (fs_fresh ?s)" using assms(2) as by simp
  have t: "tree_of s r ?p = map_option (node_of ?s) (resolve ?s r ?p)"
    unfolding r(2)[symmetric] by (simp add: tree_of_def)
  show ?thesis
  proof (cases "resolve ?s r ?p")
    case None
    obtain s1 where "walk_loop ?s (fs_root ?s) ?p = Ok (- ENOENT, NULL, s1)"
      using walk_loop_resolve[OF v room] None by auto
    then have "vfs_open ?s init_path NULL 0 blank_file = Ok (- ENOENT, blank_file, s1)"
      using vfs_open_walk[OF init_name] by (simp add: ENOENT_def)
    then have "run_init s = Fault Halted" using k(1) by (simp add: run_init_def ENOENT_def)
    then show ?thesis using t None by simp
  next
    case (Some q)
    obtain s1 d where s1: "vfs_open ?s init_path NULL 0 blank_file = Ok (0, blank_file\<lparr>fd_entry := d, fd_flags := 0, fd_pos := 0\<rparr>, s1)"
      "extends ?s s1 (2 * length ?p)" "dentry_ok s1 f B d q" "sized s1 d q"
      using vfs_open_found[OF v init_name _ room Some, of 0 blank_file] by auto
    have r1: "ready s1 f B r" "tree_of s1 r = tree_of s r" using ready_extends[OF r(1) s1(2)] r(2) by simp_all
    have m1: "mount_ok s1 f B" "q \<in> nodes B" using r1(1) s1(3) by (auto simp: ready_def vfs_ok_def dentry_ok_def vnode_ok_def)
    have n: "tree_of s r ?p = Some (node_of s1 q)"
      using t Some extends_ino[OF s1(2), of q] by (simp add: node_of_def contents_def)
    have len: "int (length (contents s1 q)) = ti_length (ino s1 q)" by (rule length_contents[OF m1])
    have "S_ISREG (ti_mode (ino s1 q)) \<longrightarrow> ti_length (ino s1 q) < 2 ^ 63"
      using assms(3) n len by (auto simp: node_of_def)
    moreover have "fs_fresh s1 \<noteq> []" using s1(2) assms(2) as by (auto simp: extends_def)
    ultimately obtain s2 where s2: "exec_file s1 (blank_file\<lparr>fd_entry := d, fd_flags := 0, fd_pos := 0\<rparr>)
        = Ok (if S_ISREG (ti_mode (ino s1 q)) \<and> 64 \<le> ti_length (ino s1 q) then 0 else - ENOEXEC, s2)" "tree_of s2 r = tree_of s1 r"
      using exec_file_result[OF r1(1), of "blank_file\<lparr>fd_entry := d, fd_flags := 0, fd_pos := 0\<rparr>" q] s1(3,4) by auto
    have "run_init s = Ok (if S_ISREG (ti_mode (ino s1 q)) \<and> 64 \<le> ti_length (ino s1 q) then 0 else - ENOEXEC, s2)"
      using k(1,2) s1(1) s2(1) by (simp add: run_init_def Let_def)
    then show ?thesis using n s2(2) r1(2) len by (auto simp: node_of_def)
  qed
qed

text \<open>
  C13: From the archive to the first program. After \<open>unpack_initrd\<close> of an archive of well-formed items,
  \<open>run_init\<close> halts the machine when the resulting tree has no \<open>/sbin/init\<close>; otherwise it hands that inode to
  \<open>exec_file\<close>, which returns 0 for every regular file of at least 64 bytes, whatever is in it, and
  -ENOEXEC for a shorter one and for a directory. The tree is what the items made of it.
\<close>

theorem initrd_starts_init:
  assumes "vfs_ok s f B" and "dentry_ok s f B (fs_root s) r" and "tree_inj s r"
    and "literals_ok m ro" and "cstr m (md_path x) initrd_path" and "archive_at m (md_address x) items" and "items \<noteq> []"
    and "list_all item_ok items" and "length items \<le> fuel" and "sum_list (List.map item_cost items) + 6 \<le> length (fs_fresh s)"
    and "current_inode B + int (length items) < 2 ^ 63"
    and "foldl put_item (tree_of s r) items = T" and "T [[0x73, 0x62, 0x69, 0x6e], [0x69, 0x6e, 0x69, 0x74]] = I"
    and "\<forall>d. I = Some (File_Node d) \<longrightarrow> length d < 2 ^ 63"
  shows "case I of None \<Rightarrow> bnd (unpack_initrd fuel ro m (Some [x]) s) run_init = Fault Halted
     | Some y \<Rightarrow> \<exists>s'. bnd (unpack_initrd fuel ro m (Some [x]) s) run_init
           = Ok (case y of Dir_Node \<Rightarrow> - ENOEXEC | File_Node d \<Rightarrow> if 64 \<le> length d then 0 else - ENOEXEC, s') \<and> tree_of s' r = T"
proof -
  have r: "ready s f B r" using assms(1-3) by (simp add: ready_def)
  obtain s1 B1 where s1: "unpack_initrd fuel ro m (Some [x]) s = Ok s1" "ready s1 f B1 r" "tree_of s1 r = T"
    "length (fs_fresh s) \<le> length (fs_fresh s1) + sum_list (List.map item_cost items)"
    using unpack_initrd_items[OF r assms(4,5) _ assms(6-9) _ assms(11), of "[]" "[]"] assms(10,12) by auto
  have "6 \<le> length (fs_fresh s1)" using s1(4) assms(10) by simp
  from run_init_result[OF s1(2) this] show ?thesis using s1(1,3) assms(13,14) by (cases I) simp_all
qed

text \<open>An archive with a program of 64 bytes that is no executable at all.\<close>

definition init_items :: "item list" where
  "init_items = [Root_Item, Dir_Item [[0x73, 0x62, 0x69, 0x6e]], File_Item [[0x73, 0x62, 0x69, 0x6e], [0x69, 0x6e, 0x69, 0x74]] (replicate 64 1)]"

lemma init_image_ok:
  "literals_ok (archive_image init_items) demo_literals" "archive_at (archive_image init_items) 0x10000 init_items"
proof -
  have l: "length (archive_bytes init_items) = 2560"
    by (simp add: init_items_def length_header_bytes blocks_def padded_to_def)
  have "\<forall>it \<in> set init_items. length (item_path it) < 100 \<and> 0 \<notin> set (item_path it)" by (simp add: init_items_def)
  then show "literals_ok (archive_image init_items) demo_literals" "archive_at (archive_image init_items) 0x10000 init_items"
    using archive_image_ok[of init_items] l by simp_all
qed

theorem initrd_starts_init_witness:
  "\<exists>s'. bnd (unpack_initrd 3 demo_literals (archive_image init_items) (Some [demo_module]) roomy_fs) run_init = Ok (0, s')
     \<and> tree_of s' 16 [[0x73, 0x62, 0x69, 0x6e], [0x69, 0x6e, 0x69, 0x74]] = Some (File_Node (replicate 64 1))"
proof -
  let ?p = "[[0x73, 0x62, 0x69, 0x6e], [0x69, 0x6e, 0x69, 0x74]] :: name list"
  have l: "cstr (archive_image init_items) (md_path demo_module) initrd_path"
    using init_image_ok(1) by (simp add: literals_ok_def demo_literals_def demo_module_def)
  have a: "archive_at (archive_image init_items) (md_address demo_module) init_items" using init_image_ok(2) by (simp add: demo_module_def)
  have f: "length (fs_fresh roomy_fs) = 26" by (simp add: roomy_fs_def)
  have ok: "list_all item_ok init_items" by (simp add: init_items_def child_name_def name_ok_def plain_name_def VFS_PATH_MAX_def)
  have "entry roomy_fs 16 [0x73, 0x62, 0x69, 0x6e] = None"
    by (simp add: entry_def ino_def roomy_fs_def) (simp add: demo_fs_def demo_dir_def demo_file_def)
  then have "tree_of roomy_fs 16 [] = Some (node_of roomy_fs 16)" "tree_of roomy_fs 16 [[0x73, 0x62, 0x69, 0x6e]] = None" "tree_of roomy_fs 16 ?p = None"
    by (simp_all add: tree_of_def)
  then have T: "foldl put_item (tree_of roomy_fs 16) init_items ?p = Some (File_Node (replicate 64 1))"
    by (simp add: init_items_def add_node_def)
  have "case Some (File_Node (replicate 64 1)) of
      None \<Rightarrow> bnd (unpack_initrd 3 demo_literals (archive_image init_items) (Some [demo_module]) roomy_fs) run_init = Fault Halted
    | Some y \<Rightarrow> \<exists>s'. bnd (unpack_initrd 3 demo_literals (archive_image init_items) (Some [demo_module]) roomy_fs) run_init
           = Ok (case y of Dir_Node \<Rightarrow> - ENOEXEC | File_Node d \<Rightarrow> if 64 \<le> length d then 0 else - ENOEXEC, s')
         \<and> tree_of s' 16 = foldl put_item (tree_of roomy_fs 16) init_items"
    by (rule initrd_starts_init[OF roomy_ok init_image_ok(1) l a _ ok _ _ _ refl T])
      (simp_all add: f, simp_all add: init_items_def demo_super_def)
  then show ?thesis using T by auto
qed

end
