(* ===== verification/Spec2Isabelle.thy ===== *)
theory Spec2Isabelle
  imports Start Hashmap Fbcon Cmdline Session Exec
begin

text \<open>
  A model of the kernel of goofyos-2 and the theorems that make its parts correct, or show where they are not.
  All paths below are under src/kernel/src.

  How the parts of the program hang together. The boot loader hands over a memory map, a frame buffer, the
  processors and modules (boot/boot_limine.c). mm/init.c keeps the usable regions, mm/bump_alloc.c serves
  pages from them until mm/buddy.c has its zones; mm/mapper.c and mm/sparse.c build the page tables and
  the array of page structs, mm/vmalloc.c cuts virtual ranges and maps frames into them, mm/mempool.c
  cuts blocks of frames into chunks, and mm/slab.c builds its caches on those. dsa/list.c and
  dsa/hashmap.c are the containers the others use, libk/string.c and libk/printk.c the C library,
  arch/x86-64/spinlock.c the locks. The drivers are the console (drivers/fbconsole.c), the serial port and
  the timers and interrupt controllers of arch/x86-64; gdt.c, idt.c and init.c there fill the descriptor
  tables, acpi.c reads the tables of the firmware. fs/vfs.c and fs/tmpfs.c are the file system, fs/initrd.c
  unpacks the archive of the boot loader into it, fs/exec looks at the first program, and smp/sched.c switches
  between tasks on the timer interrupt.

  The theories, from the bottom up:

  Prelude: the machine words, the result type \<open>Ok\<close> or \<open>Fault\<close>, its sequencing \<open>bnd\<close>, and the lemmas on words,
  addresses and maps the components share. A fault stands for undefined behaviour, a page fault, \<open>hcf\<close>, a
  deadlock or a loop that does not end; what a kernel would do after it is not modelled.
  Alloc: the locale \<open>allocator\<close>, the contract of an allocator with its run of requests, which the boot allocator, the page
  allocator and the slab caches interpret.
  CString: libk/string.c over a memory of bytes (\<open>mem\<close>), where an unmapped address faults.
  Klist: dsa/list.c; the locale \<open>deque\<close> is the contract of a double-ended queue and \<open>dlist\<close> its instance.
  Spinlock: spinlock.c on one CPU, and the lock as a step relation of many CPUs with mutual exclusion by rule induction.
  Bump, Buddy: the page allocators; the free pool is the set of frames of the blocks in the freelists.
  Mapper: mapper.c and sparse.c on a heap of page-table words; translation is a walk of four levels.
  Sparse: the tables the running kernel walks while it maps the array of page structs, with the entries both top-level tables share.
  Vmalloc: vmalloc.c; the list of ranges tiles the area, and new ranges come from the first free one that fits.
  Hashmap: dsa/hashmap.c; the locale \<open>multimap\<close> is the contract of its clients, discharged through an abstraction function.
  Mempool, Slab: chunk pools and caches, with the invariant that a free object is in one slab and once in its freelist.
  Sched: the run queue, the context switch and the timer interrupt.
  Printk: the formatter, and the log the serial port gets.
  Tmpfs, Vfs: inodes, vnodes, dentries and the operations on paths; a well-formed file system is \<open>vfs_ok\<close>, and what a path means
  is \<open>resolve\<close>.
  Initrd: the archive as bytes, the loop over its headers, and the tree of the file system as a map from paths.
  Session: sequences of calls of the file system with open files, and the types of their states.
  Exec: validate_elf, run_elf_file, exec_file and run_init.
  Fbcon: the console as cells, queue and pixels; its specification is a terminal, \<open>tty\<close>, and a drawing of its cells.
  Cmdline: parsing and looking up the options of the kernel.
  Device: ports, model-specific registers and device memory as a trace of accesses and a stream of answers.
  Descriptor, Boot: descriptor tables, task state segments, gates, the table of processors and the checks of limine_init.
  Mm: mm/init.c, the composition of the memory map, the tables, the array of structs, the page allocator and the caches.
  Start: kmain, cpu_init, new_cpu_wait, schedule_bsp, the loop of a kernel timer and the register dump; their states are
  the states of the components they call.
  Acpi: the tables of interrupt controllers and of the timer, and the memory functions uACPI calls.

  State and operations. Each C structure is a record with the fields of the source, each function a definition
  of the same name where Isabelle allows it; static helpers and loop bodies have definitions of their own.
  Structures that are reached by pointers live in maps from addresses, so aliasing and stale pointers show:
  the page structs, list nodes, slabs, ranges, hash entries, tasks, inodes, vnodes and dentries. Unsigned
  integers are words of their width; \<open>int\<close> and \<open>long\<close> are integers with a fault where the sum overflows, and
  conversions are written out.

  What the lemmas show. Invariants of the allocators, lists, ranges, caches and file system are kept by every
  operation; allocations are fresh and disjoint; dlist, hash map, console, archive and path walk refine
  abstract specifications; formatting, parsing, command line, descriptors, mapping and context switches have
  round trips; the scheduler is fair while two tasks are runnable; waiting for the timer ends; the start of the
  memory manager builds its tables and its pool, and the start of the processors programs the timers. Where the code
  does not do what it means to, a theorem says what it does instead: buddy_init frees every second page, so that
  mm_init and with it kmain never return, a free can merge an
  allocated block, hmap_resize follows the wrong pointer, mempool empties its block once, an archive or a table of the firmware can
  make a loop endless, any file of 64 bytes is an executable.

  Bounds and fuel. A loop with a bound in the source is structural recursion on it, or has a termination measure (the pixels
  and the characters of the console). A loop that follows pointers or memory carries fuel and is
  \<open>Fault Diverges\<close> when it runs out; each theorem states how much is enough (the length of the list, one round
  per header or entry) and concludes an \<open>Ok\<close>, or the fault that really happens. Polling loops consume the
  stream of answers, so a device that never answers is a divergence. Four page-table levels, sixteen orders of
  blocks, sixteen processors, 256 gates, 512 bytes of a command line and 256 bytes of a name are the constants of the source.

  Parameters. What is not under src is an argument: the responses of the boot loader, the layouts and results of
  uACPI with the offsets of its specification, the font the linker includes, the fresh addresses that \<open>kzalloc\<close>
  returns where a component only needs new memory, the time stamps of \<open>printk\<close>, what a fresh block of \<open>vmalloc\<close>
  holds. Every theorem about such an argument has a witness with concrete values.

  Not modelled. The body of kmain behind its endless loop is commented out. The assembly files are single instructions,
  register saves and the halt loop of the idle task; cr3.c and the loads of the descriptor registers are one instruction each.
  Debug output by printk inside other functions is left out. The TLB, the caches of the processor
  and weak memory order are not modelled; the components other than the lock are single-CPU. The requests in boot_limine.c are data
  for the linker. ktimer_task only prints. scancode.h and most of uapi/elf.h are constants no code uses.
\<close>

end
